(* ===== verification/Avros_Prelude.thy ===== *)
theory Avros_Prelude
  imports Main "HOL-Library.Word"
begin

text \<open>
  Shared vocabulary of the development: the machine types of the ATmega1284p build (16-bit
  pointers and \<open>int\<close>, 8-bit \<open>char\<close>, see \<^verbatim>\<open>src/Makefile\<close>), the values that stand for
  undefined behaviour of the C code, the fact collections that the component theories fill, and
  a few facts on lists and words that several components use.
\<close>

unbundle bit_operations_syntax

section \<open>Machine types\<close>

text \<open>
  A pointer, a \<^verbatim>\<open>pid_t\<close> (a pointer to a task), an \<^verbatim>\<open>unsigned int\<close> and an \<^verbatim>\<open>int\<close> are 16 bits
  wide on this machine. An \<^verbatim>\<open>int\<close> is the same word read with \<^term>\<open>sint\<close>.
\<close>

type_synonym addr = "16 word"
type_synonym pid_t = addr
type_synonym cint = "16 word"
type_synonym byte = "8 word"

abbreviation NULL :: addr where
  "NULL \<equiv> 0"

abbreviation cneg :: "cint \<Rightarrow> bool" where
  "cneg x \<equiv> sint x < 0"

text \<open>\<^verbatim>\<open>EOF\<close> of \<^verbatim>\<open>lib/mstddef.h\<close>.\<close>

definition EOF :: cint where
  "EOF = - 1"

text \<open>What an operation of the C code runs into where the language gives it no meaning.\<close>

datatype cerror = NullDeref | OutOfBounds | UseAfterFree

type_synonym 'a res = "cerror + 'a"

named_theorems queue_simps \<open>effect of the queue operations on the list of items\<close>
named_theorems hal_simps \<open>reading and writing the registers of a saved context\<close>
named_theorems kernel_defs \<open>the bodies of the kernel calls\<close>
named_theorems server_defs \<open>the bodies of the server operations\<close>

section \<open>Sequencing of operations that may fail\<close>

primrec rbind :: "'a res \<Rightarrow> ('a \<Rightarrow> 'b res) \<Rightarrow> 'b res" where
  "rbind (Inl e) f = Inl e"
| "rbind (Inr x) f = f x"

lemma rbind_Inr_iff: "rbind r f = Inr y \<longleftrightarrow> (\<exists>x. r = Inr x \<and> f x = Inr y)"
  by (cases r) auto

lemma rbind_Inr_elim:
  assumes "rbind r f = Inr y"
  obtains x where "r = Inr x" and "f x = Inr y"
  using assms by (auto simp: rbind_Inr_iff)

section \<open>Lists with an end marker\<close>

text \<open>
  First and last item of a list, or a given default: what a \<^verbatim>\<open>head\<close>, \<^verbatim>\<open>tail\<close>, \<^verbatim>\<open>next\<close> or
  \<^verbatim>\<open>prev\<close> pointer of a linked list holds.
\<close>

definition first_or :: "'a list \<Rightarrow> 'a \<Rightarrow> 'a" where
  "first_or xs d = (case xs of [] \<Rightarrow> d | x # _ \<Rightarrow> x)"

definition last_or :: "'a list \<Rightarrow> 'a \<Rightarrow> 'a" where
  "last_or xs d = (if xs = [] then d else last xs)"

lemma first_or_simps [simp]:
  "first_or [] d = d"
  "first_or (x # xs) d = x"
  "first_or (xs @ ys) d = first_or xs (first_or ys d)"
  by (auto simp: first_or_def split: list.splits)

lemma last_or_simps [simp]:
  "last_or [] d = d"
  "last_or (x # xs) d = last_or xs x"
  "last_or (xs @ ys) d = last_or ys (last_or xs d)"
  by (auto simp: last_or_def)

lemma first_or_in: "xs \<noteq> [] \<Longrightarrow> first_or xs d \<in> set xs"
  by (cases xs) auto

lemma last_or_in: "xs \<noteq> [] \<Longrightarrow> last_or xs d \<in> set xs"
  by (simp add: last_or_def)

lemma first_or_eq_default:
  "d \<notin> set xs \<Longrightarrow> first_or xs d = d \<longleftrightarrow> xs = []"
  by (cases xs) auto

lemma last_or_eq_default:
  "d \<notin> set xs \<Longrightarrow> last_or xs d = d \<longleftrightarrow> xs = []"
  by (metis last_or_def last_in_set)

lemma remove1_middle: "x \<notin> set xs \<Longrightarrow> remove1 x (xs @ x # ys) = xs @ ys"
  by (induction xs) auto

lemma distinct_split:
  assumes "x \<in> set zs" and "distinct zs"
  obtains xs ys where "zs = xs @ x # ys" and "x \<notin> set xs" and "x \<notin> set ys"
    and "remove1 x zs = xs @ ys"
proof -
  from assms(1) obtain xs ys where "zs = xs @ x # ys" by (meson split_list)
  with assms(2) show thesis by (intro that) (auto simp: remove1_middle)
qed

section \<open>Word arithmetic without wrap-around\<close>

lemma unat_plus:
  fixes a b :: "'a::len word"
  assumes "unat a + unat b < 2 ^ LENGTH('a)"
  shows "unat (a + b) = unat a + unat b"
  using assms by (simp add: unat_word_ariths)

lemma unat_minus:
  fixes a b :: "'a::len word"
  assumes "b \<le> a"
  shows "unat (a - b) = unat a - unat b"
  using assms by (simp add: unat_sub)

section \<open>Signed reading of words\<close>

lemma shift_mod:
  fixes n m :: int
  assumes "0 \<le> n" "n < 2 * m"
  shows "(n + m) mod (2 * m) - m = (if n < m then n else n - 2 * m)"
proof (cases "n < m")
  case True
  with assms show ?thesis by simp
next
  case False
  have "(n + m) mod (2 * m) = (n + m - 2 * m) mod (2 * m)" by (metis mod_diff_right_eq mod_self diff_zero)
  also have "\<dots> = n - m" using False assms by (subst mod_pos_pos_trivial) auto
  finally show ?thesis using False by simp
qed
lemma sint16: "sint (x :: 16 word) = (if unat x < 32768 then int (unat x) else int (unat x) - 65536)"
proof -
  define n where "n = uint x"
  have u: "unat x = nat n" by (simp add: n_def)
  have n: "0 \<le> n" "n < 65536" using uint_bounded [of x] by (simp_all add: n_def)
  have "sint x = (n + 32768) mod 65536 - 32768"
    by (simp add: n_def sint_uint signed_take_bit_eq_take_bit_shift take_bit_eq_mod)
  also have "\<dots> = (if n < 32768 then n else n - 65536)" using shift_mod [of n 32768] n by simp
  finally show ?thesis using n by (simp add: u nat_less_iff)
qed

lemma sint8: "sint (x :: 8 word) = (if unat x < 128 then int (unat x) else int (unat x) - 256)"
proof -
  define n where "n = uint x"
  have u: "unat x = nat n" by (simp add: n_def)
  have n: "0 \<le> n" "n < 256" using uint_bounded [of x] by (simp_all add: n_def)
  have "sint x = (n + 128) mod 256 - 128"
    by (simp add: n_def sint_uint signed_take_bit_eq_take_bit_shift take_bit_eq_mod)
  also have "\<dots> = (if n < 128 then n else n - 256)" using shift_mod [of n 128] n by simp
  finally show ?thesis using n by (simp add: u nat_less_iff)
qed

lemma cneg_iff: "cneg x \<longleftrightarrow> 32768 \<le> unat x"
  using unsigned_less [of x] by (auto simp: sint16)

lemma cneg_minus_one [simp]: "cneg (- 1)"
  by simp

end
