(* ===== verification/Queue.thy ===== *)
theory Queue
  imports Avros_Prelude
begin

text \<open>
  \<^verbatim>\<open>lib/queue.h\<close> and \<^verbatim>\<open>lib/queue.c\<close>: the intrusive doubly linked list that the kernel and all
  servers are built on. Items carry their own \<^verbatim>\<open>next\<close> and \<^verbatim>\<open>prev\<close> pointers, so the operations
  work on a memory with one map per field; \<^term>\<open>None\<close> is a null pointer to a queue and
  \<^term>\<open>NULL\<close> a null pointer to an item. The theory relates that memory to lists of items and
  states the contract of the queue as a locale, which the pointer operations are shown to meet.
\<close>

section \<open>The data structure\<close>

record 'q qmem =
  q_hd :: "'q \<Rightarrow> addr"
  q_tl :: "'q \<Rightarrow> addr"
  q_nx :: "addr \<Rightarrow> addr"
  q_pv :: "addr \<Rightarrow> addr"

definition set_hd :: "'q \<Rightarrow> addr \<Rightarrow> 'q qmem \<Rightarrow> 'q qmem" where
  "set_hd q v m = m\<lparr>q_hd := (q_hd m)(q := v)\<rparr>"

definition set_tl :: "'q \<Rightarrow> addr \<Rightarrow> 'q qmem \<Rightarrow> 'q qmem" where
  "set_tl q v m = m\<lparr>q_tl := (q_tl m)(q := v)\<rparr>"

definition set_nx :: "addr \<Rightarrow> addr \<Rightarrow> 'q qmem \<Rightarrow> 'q qmem" where
  "set_nx i v m = m\<lparr>q_nx := (q_nx m)(i := v)\<rparr>"

definition set_pv :: "addr \<Rightarrow> addr \<Rightarrow> 'q qmem \<Rightarrow> 'q qmem" where
  "set_pv i v m = m\<lparr>q_pv := (q_pv m)(i := v)\<rparr>"

lemmas qset_defs = set_hd_def set_tl_def set_nx_def set_pv_def

definition q_init :: "'q option \<Rightarrow> 'q qmem \<Rightarrow> 'q qmem" where
  "q_init que m =
     (case que of
        None \<Rightarrow> m
      | Some q \<Rightarrow> set_tl q NULL (set_hd q NULL m))"

definition q_front :: "'q option \<Rightarrow> addr \<Rightarrow> 'q qmem \<Rightarrow> 'q qmem \<times> addr" where
  "q_front que item m =
     (case que of
        None \<Rightarrow> (m, NULL)
      | Some q \<Rightarrow>
          if item = NULL then (m, NULL)
          else
            let m' =
              (if q_hd m q \<noteq> NULL then
                 let m1 = set_nx item (q_hd m q) m;
                     m2 = set_pv item (q_pv m1 (q_nx m1 item)) m1
                 in set_pv (q_nx m2 item) item m2
               else
                 let m1 = set_nx item (q_tl m q) m;
                     m2 = set_pv item (q_hd m1 q) m1
                 in set_tl q item m2)
            in (set_hd q item m', item))"

definition q_end :: "'q option \<Rightarrow> addr \<Rightarrow> 'q qmem \<Rightarrow> 'q qmem \<times> addr" where
  "q_end que item m =
     (case que of
        None \<Rightarrow> (m, NULL)
      | Some q \<Rightarrow>
          if item = NULL then (m, NULL)
          else
            let m' =
              (if q_tl m q \<noteq> NULL then
                 let m1 = set_pv item (q_tl m q) m;
                     m2 = set_nx item (q_nx m1 (q_pv m1 item)) m1
                 in set_nx (q_pv m2 item) item m2
               else
                 let m1 = set_nx item (q_tl m q) m;
                     m2 = set_pv item (q_hd m1 q) m1
                 in set_hd q item m2)
            in (set_tl q item m', item))"

definition q_remv :: "'q option \<Rightarrow> addr \<Rightarrow> 'q qmem \<Rightarrow> 'q qmem \<times> addr" where
  "q_remv que item m =
     (case que of
        None \<Rightarrow> (m, NULL)
      | Some q \<Rightarrow>
          if item = NULL then (m, NULL)
          else
            let m1 = (if q_pv m item \<noteq> NULL then set_nx (q_pv m item) (q_nx m item) m
                      else set_hd q (q_nx m item) m);
                m2 = (if q_nx m1 item \<noteq> NULL then set_pv (q_nx m1 item) (q_pv m1 item) m1
                      else set_tl q (q_pv m1 item) m1)
            in (m2, item))"

text \<open>
  \<^verbatim>\<open>q_forall\<close> walks a queue with a callback. The callback may change the state \<open>'s\<close> of its
  component, of which the queue memory is the part that \<open>qm\<close> selects. The walk follows whatever
  pointers it finds, so it need not end: not returning is \<^term>\<open>None\<close>. A null pointer to the queue or to the callback
  ends it at once.
\<close>

partial_function (option) q_forall_loop ::
  "('s \<Rightarrow> 'q qmem) \<Rightarrow> ('q \<Rightarrow> addr \<Rightarrow> 's \<Rightarrow> 's \<times> addr) \<Rightarrow> 'q \<Rightarrow> addr \<Rightarrow> 's \<Rightarrow> ('s \<times> addr) option"
where
  "q_forall_loop qm callback que it s =
     (if it = NULL then Some (s, NULL)
      else let nx = q_nx (qm s) it; r = callback que it s
           in if snd r \<noteq> NULL then Some r
              else q_forall_loop qm callback que nx (fst r))"

definition q_forall ::
  "('s \<Rightarrow> 'q qmem) \<Rightarrow> ('q \<Rightarrow> addr \<Rightarrow> 's \<Rightarrow> 's \<times> addr) option \<Rightarrow> 'q option \<Rightarrow> 's \<Rightarrow> ('s \<times> addr) option"
where
  "q_forall qm callback que s =
     (case (que, callback) of
        (Some q, Some f) \<Rightarrow> q_forall_loop qm f q (q_hd (qm s) q) s
      | _ \<Rightarrow> Some (s, NULL))"

text \<open>The accessor macros.\<close>

definition Q_FIRST :: "'q \<Rightarrow> 'q qmem \<Rightarrow> addr" where
  "Q_FIRST q m = q_hd m q"

definition Q_LAST :: "'q \<Rightarrow> 'q qmem \<Rightarrow> addr" where
  "Q_LAST q m = q_tl m q"

definition Q_NEXT :: "addr \<Rightarrow> 'q qmem \<Rightarrow> addr" where
  "Q_NEXT i m = q_nx m i"

definition Q_PREV :: "addr \<Rightarrow> 'q qmem \<Rightarrow> addr" where
  "Q_PREV i m = q_pv m i"

definition Q_EMPTY :: "'q \<Rightarrow> 'q qmem \<Rightarrow> bool" where
  "Q_EMPTY q m \<longleftrightarrow> q_hd m q = NULL \<and> q_tl m q = NULL"

section \<open>Well-formed queues\<close>

text \<open>
  \<open>dll m p xs s\<close>: the items \<open>xs\<close> are linked in this order in both directions, the first one back
  to \<open>p\<close> and the last one on to \<open>s\<close>.
\<close>

primrec dll :: "'q qmem \<Rightarrow> addr \<Rightarrow> addr list \<Rightarrow> addr \<Rightarrow> bool" where
  "dll m p [] s \<longleftrightarrow> True"
| "dll m p (x # xs) s \<longleftrightarrow>
     x \<noteq> NULL \<and> q_pv m x = p \<and> q_nx m x = first_or xs s \<and> dll m x xs s"

definition is_queue :: "'q qmem \<Rightarrow> 'q \<Rightarrow> addr list \<Rightarrow> bool" where
  "is_queue m q xs \<longleftrightarrow>
     distinct xs \<and> q_hd m q = first_or xs NULL \<and> q_tl m q = last_or xs NULL \<and> dll m NULL xs NULL"

text \<open>All queues of a component at once: no item is in two of them.\<close>

definition queues :: "'q qmem \<Rightarrow> ('q \<Rightarrow> addr list) \<Rightarrow> bool" where
  "queues m Q \<longleftrightarrow>
     (\<forall>q. is_queue m q (Q q)) \<and> (\<forall>q r x. x \<in> set (Q q) \<longrightarrow> x \<in> set (Q r) \<longrightarrow> q = r)"

lemma dll_append:
  "dll m p (xs @ ys) s \<longleftrightarrow> dll m p xs (first_or ys s) \<and> dll m (last_or xs p) ys s"
  by (induction xs arbitrary: p) auto

lemma dll_not_NULL: "dll m p xs s \<Longrightarrow> NULL \<notin> set xs"
  by (induction xs arbitrary: p) auto

lemma dll_cong:
  "(\<And>x. x \<in> set xs \<Longrightarrow> q_nx m' x = q_nx m x \<and> q_pv m' x = q_pv m x) \<Longrightarrow>
   dll m' p xs s = dll m p xs s"
  by (induction xs arbitrary: p) auto

lemma dll_set_hd [simp]: "dll (set_hd q v m) p xs s = dll m p xs s"
  by (rule dll_cong) (simp add: qset_defs)

lemma dll_set_tl [simp]: "dll (set_tl q v m) p xs s = dll m p xs s"
  by (rule dll_cong) (simp add: qset_defs)

lemma dll_set_nx_out [simp]: "i \<notin> set xs \<Longrightarrow> dll (set_nx i v m) p xs s = dll m p xs s"
  by (rule dll_cong) (auto simp: qset_defs)

lemma dll_set_pv_out [simp]: "i \<notin> set xs \<Longrightarrow> dll (set_pv i v m) p xs s = dll m p xs s"
  by (rule dll_cong) (auto simp: qset_defs)

lemma qset_sels [simp]:
  "q_hd (set_hd q v m) = (q_hd m)(q := v)" "q_tl (set_hd q v m) = q_tl m"
  "q_nx (set_hd q v m) = q_nx m" "q_pv (set_hd q v m) = q_pv m"
  "q_hd (set_tl q v m) = q_hd m" "q_tl (set_tl q v m) = (q_tl m)(q := v)"
  "q_nx (set_tl q v m) = q_nx m" "q_pv (set_tl q v m) = q_pv m"
  "q_hd (set_nx i v m) = q_hd m" "q_tl (set_nx i v m) = q_tl m"
  "q_nx (set_nx i v m) = (q_nx m)(i := v)" "q_pv (set_nx i v m) = q_pv m"
  "q_hd (set_pv i v m) = q_hd m" "q_tl (set_pv i v m) = q_tl m"
  "q_nx (set_pv i v m) = q_nx m" "q_pv (set_pv i v m) = (q_pv m)(i := v)"
  by (simp_all add: qset_defs)

text \<open>Redirecting the link into the first item, or the link out of the last one.\<close>

lemma dll_new_prev:
  "dll m p xs s \<Longrightarrow> distinct xs \<Longrightarrow> xs \<noteq> [] \<Longrightarrow> dll (set_pv (first_or xs d) p' m) p' xs s"
  by (cases xs) auto

lemma dll_new_next:
  assumes "dll m p xs s" "distinct xs" "xs \<noteq> []"
  shows "dll (set_nx (last_or xs d) s' m) p xs s'"
proof -
  from \<open>xs \<noteq> []\<close> obtain ys y where xs: "xs = ys @ [y]" by (metis rev_exhaust)
  with assms show ?thesis by (simp add: dll_append)
qed

section \<open>The operations on one queue\<close>

lemma is_queue_Nil_iff: "is_queue m q xs \<Longrightarrow> q_hd m q = NULL \<longleftrightarrow> xs = []"
  by (metis is_queue_def dll_not_NULL first_or_eq_default)

lemma is_queue_Nil_iff_tl: "is_queue m q xs \<Longrightarrow> q_tl m q = NULL \<longleftrightarrow> xs = []"
  by (metis is_queue_def dll_not_NULL last_or_eq_default)

lemma is_queue_not_NULL: "is_queue m q xs \<Longrightarrow> NULL \<notin> set xs"
  by (auto simp: is_queue_def dest: dll_not_NULL)

lemma q_init_empty: "is_queue (q_init (Some q) m) q []"
  by (simp add: q_init_def is_queue_def)

lemma q_front_queue:
  assumes "is_queue m q xs" "x \<noteq> NULL" "x \<notin> set xs"
  shows "is_queue (fst (q_front (Some q) x m)) q (x # xs)"
proof (cases xs)
  case Nil
  with assms show ?thesis by (simp add: q_front_def is_queue_def Let_def)
next
  case (Cons y ys)
  with assms show ?thesis by (auto simp: q_front_def is_queue_def Let_def)
qed

lemma q_end_queue:
  assumes "is_queue m q xs" "x \<noteq> NULL" "x \<notin> set xs"
  shows "is_queue (fst (q_end (Some q) x m)) q (xs @ [x])"
proof (cases xs rule: rev_cases)
  case Nil
  with assms show ?thesis by (simp add: q_end_def is_queue_def Let_def)
next
  case (snoc ys y)
  with assms show ?thesis by (auto simp: q_end_def is_queue_def Let_def dll_append)
qed

lemma q_remv_queue:
  assumes "is_queue m q xs" "x \<in> set xs"
  shows "is_queue (fst (q_remv (Some q) x m)) q (remove1 x xs)"
proof -
  from assms obtain us vs where xs: "xs = us @ x # vs" "x \<notin> set us" "x \<notin> set vs"
      and rem: "remove1 x xs = us @ vs"
    by (auto simp: is_queue_def elim: distinct_split)
  show ?thesis
  proof (cases us rule: rev_cases)
    case Nil
    with assms xs rem show ?thesis
      by (cases vs) (auto simp: q_remv_def is_queue_def Let_def)
  next
    case (snoc us' u)
    with assms xs rem show ?thesis
      by (cases vs) (auto simp: q_remv_def is_queue_def Let_def dll_append)
  qed
qed

lemma q_ops_result [simp]:
  "snd (q_front (Some q) x m) = x" "snd (q_end (Some q) x m) = x" "snd (q_remv (Some q) x m) = x"
  by (simp_all add: q_front_def q_end_def q_remv_def Let_def)

text \<open>The operations on one queue leave a queue with other items alone.\<close>

lemma q_front_other:
  assumes "is_queue m q xs" "is_queue m r ys" "q \<noteq> r" "set xs \<inter> set ys = {}" "x \<notin> set ys"
  shows "is_queue (fst (q_front (Some q) x m)) r ys"
  using assms by (cases xs) (auto simp: q_front_def is_queue_def Let_def)

lemma q_end_other:
  assumes "is_queue m q xs" "is_queue m r ys" "q \<noteq> r" "set xs \<inter> set ys = {}" "x \<notin> set ys"
  shows "is_queue (fst (q_end (Some q) x m)) r ys"
  using assms by (cases xs rule: rev_cases) (auto simp: q_end_def is_queue_def Let_def dll_append)

lemma q_remv_other:
  assumes "is_queue m q xs" "is_queue m r ys" "q \<noteq> r" "set xs \<inter> set ys = {}" "x \<in> set xs"
  shows "is_queue (fst (q_remv (Some q) x m)) r ys"
proof -
  from assms obtain us vs where xs: "xs = us @ x # vs" "x \<notin> set us" "x \<notin> set vs"
    by (auto simp: is_queue_def elim: distinct_split)
  show ?thesis
  proof (cases us rule: rev_cases)
    case Nil
    with assms xs show ?thesis
      by (cases vs) (auto simp: q_remv_def is_queue_def Let_def)
  next
    case (snoc us' u)
    with assms xs show ?thesis
      by (cases vs) (auto simp: q_remv_def is_queue_def Let_def dll_append)
  qed
qed

section \<open>The contract of a family of queues\<close>

text \<open>
  What a client relies on: \<open>rep m Q\<close> reads the memory as one list per queue, and each operation
  changes one list as its name says. The clients mostly move items between queues, which is
  proved once here.
\<close>

locale queue_family =
  fixes put_front :: "'q \<Rightarrow> 'i \<Rightarrow> 'm \<Rightarrow> 'm"
    and put_end :: "'q \<Rightarrow> 'i \<Rightarrow> 'm \<Rightarrow> 'm"
    and remv :: "'q \<Rightarrow> 'i \<Rightarrow> 'm \<Rightarrow> 'm"
    and get_first :: "'q \<Rightarrow> 'm \<Rightarrow> 'i"
    and nil :: 'i
    and rep :: "'m \<Rightarrow> ('q \<Rightarrow> 'i list) \<Rightarrow> bool"
  assumes rep_front:
      "rep m Q \<Longrightarrow> x \<noteq> nil \<Longrightarrow> (\<And>r. x \<notin> set (Q r)) \<Longrightarrow> rep (put_front q x m) (Q(q := x # Q q))"
    and rep_end:
      "rep m Q \<Longrightarrow> x \<noteq> nil \<Longrightarrow> (\<And>r. x \<notin> set (Q r)) \<Longrightarrow> rep (put_end q x m) (Q(q := Q q @ [x]))"
    and rep_remv:
      "rep m Q \<Longrightarrow> x \<in> set (Q q) \<Longrightarrow> rep (remv q x m) (Q(q := remove1 x (Q q)))"
    and rep_first: "rep m Q \<Longrightarrow> get_first q m = first_or (Q q) nil"
    and rep_not_nil: "rep m Q \<Longrightarrow> nil \<notin> set (Q q)"
    and rep_distinct: "rep m Q \<Longrightarrow> distinct (Q q)"
    and rep_disjoint: "rep m Q \<Longrightarrow> q \<noteq> r \<Longrightarrow> set (Q q) \<inter> set (Q r) = {}"
begin

lemma removed_nowhere:
  "rep m Q \<Longrightarrow> x \<in> set (Q q) \<Longrightarrow> x \<notin> set ((Q(q := remove1 x (Q q))) r)"
  using rep_distinct [of m Q q] rep_disjoint [of m Q q r] by auto

lemma in_one_queue: "rep m Q \<Longrightarrow> x \<in> set (Q q) \<Longrightarrow> x \<in> set (Q r) \<Longrightarrow> q = r"
  using rep_disjoint by blast

lemma move_end:
  assumes "rep m Q" "x \<in> set (Q q)" "q \<noteq> r"
  shows "rep (put_end r x (remv q x m)) (Q(q := remove1 x (Q q), r := Q r @ [x]))"
proof -
  have "x \<noteq> nil" using assms rep_not_nil by blast
  with assms have "rep (put_end r x (remv q x m))
      ((Q(q := remove1 x (Q q)))(r := (Q(q := remove1 x (Q q))) r @ [x]))"
    by (intro rep_end rep_remv removed_nowhere)
  with assms(3) show ?thesis by simp
qed

lemma move_front:
  assumes "rep m Q" "x \<in> set (Q q)" "q \<noteq> r"
  shows "rep (put_front r x (remv q x m)) (Q(q := remove1 x (Q q), r := x # Q r))"
proof -
  have "x \<noteq> nil" using assms rep_not_nil by blast
  with assms have "rep (put_front r x (remv q x m))
      ((Q(q := remove1 x (Q q)))(r := x # (Q(q := remove1 x (Q q))) r))"
    by (intro rep_front rep_remv removed_nowhere)
  with assms(3) show ?thesis by simp
qed

lemma first_nil_iff: "rep m Q \<Longrightarrow> get_first q m = nil \<longleftrightarrow> Q q = []"
  by (simp add: rep_first rep_not_nil first_or_eq_default)

lemma first_in: "rep m Q \<Longrightarrow> get_first q m \<noteq> nil \<Longrightarrow> get_first q m \<in> set (Q q)"
  by (cases "Q q") (auto simp: rep_first)

end

lemma queues_upd:
  assumes "queues m Q" "is_queue m' q xs"
    and "\<And>r. r \<noteq> q \<Longrightarrow> is_queue m' r (Q r)" and "\<And>r. r \<noteq> q \<Longrightarrow> set xs \<inter> set (Q r) = {}"
  shows "queues m' (Q(q := xs))"
  using assms unfolding queues_def by auto

interpretation kq: queue_family
  "\<lambda>q x m. fst (q_front (Some q) x m)" "\<lambda>q x m. fst (q_end (Some q) x m)"
  "\<lambda>q x m. fst (q_remv (Some q) x m)" Q_FIRST NULL queues
proof (unfold_locales, goal_cases)
  case (1 m Q x q)
  then show ?case
    by (intro queues_upd) (auto simp: queues_def intro!: q_front_queue q_front_other [of m q "Q q"])
next
  case (2 m Q x q)
  then show ?case
    by (intro queues_upd) (auto simp: queues_def intro!: q_end_queue q_end_other [of m q "Q q"])
next
  case (3 m Q x q)
  then show ?case
    by (intro queues_upd)
      (auto simp: queues_def intro!: q_remv_queue q_remv_other [of m q "Q q"] dest: set_remove1_subset [THEN subsetD])
next
  case (4 m Q q)
  then show ?case by (simp add: queues_def is_queue_def Q_FIRST_def)
next
  case (5 m Q q)
  then show ?case by (auto simp: queues_def dest: is_queue_not_NULL)
next
  case (6 m Q q)
  then show ?case by (simp add: queues_def is_queue_def)
next
  case (7 m Q q r)
  then show ?case by (auto simp: queues_def)
qed

lemma queues_set_link:
  assumes "queues m Q" "\<And>r. x \<notin> set (Q r)"
  shows "queues (set_nx x v m) Q" "queues (set_pv x v m) Q"
  using assms by (simp_all add: queues_def is_queue_def)

section \<open>Walking a queue\<close>

text \<open>What \<^verbatim>\<open>q_forall\<close> does to the items of a list: up to the first one the callback accepts.\<close>

primrec walk :: "('q \<Rightarrow> addr \<Rightarrow> 's \<Rightarrow> 's \<times> addr) \<Rightarrow> 'q \<Rightarrow> addr list \<Rightarrow> 's \<Rightarrow> 's \<times> addr" where
  "walk callback q [] s = (s, NULL)"
| "walk callback q (x # xs) s =
     (let r = callback q x s in if snd r \<noteq> NULL then r else walk callback q xs (fst r))"

text \<open>
  The contract of a callback, from the comment on \<^verbatim>\<open>q_forall\<close>: it may remove the current item
  from the queue, and otherwise leaves the queue as it is.
\<close>

locale walk_callback =
  fixes qm :: "'s \<Rightarrow> 'q qmem" and callback :: "'q \<Rightarrow> addr \<Rightarrow> 's \<Rightarrow> 's \<times> addr" and q :: 'q
  assumes callback_queue:
    "is_queue (qm s) q xs \<Longrightarrow> x \<in> set xs \<Longrightarrow> snd (callback q x s) = NULL \<Longrightarrow>
       is_queue (qm (fst (callback q x s))) q xs \<or>
       is_queue (qm (fst (callback q x s))) q (remove1 x xs)"
begin

lemma loop_is_walk:
  assumes "is_queue (qm s) q (ds @ xs)"
  shows "q_forall_loop qm callback q (first_or xs NULL) s = Some (walk callback q xs s)"
  using assms
proof (induction xs arbitrary: ds s)
  case Nil
  show ?case by (simp add: q_forall_loop.simps)
next
  case (Cons x xs)
  have x: "x \<noteq> NULL" "q_nx (qm s) x = first_or xs NULL" "x \<notin> set ds"
    using Cons.prems by (auto simp: is_queue_def dll_append)
  let ?s' = "fst (callback q x s)"
  have "snd (callback q x s) = NULL \<Longrightarrow>
      q_forall_loop qm callback q (first_or xs NULL) ?s' = Some (walk callback q xs ?s')"
    using callback_queue [OF Cons.prems, of x] x(3)
      Cons.IH [of ?s' "ds @ [x]"] Cons.IH [of ?s' ds] by (auto simp: remove1_middle)
  with x show ?case by (simp add: q_forall_loop.simps [of qm callback q x s] Let_def)
qed

lemma forall_is_walk:
  "is_queue (qm s) q xs \<Longrightarrow> q_forall qm (Some callback) (Some q) s = Some (walk callback q xs s)"
  using loop_is_walk [of s "[]" xs] by (simp add: q_forall_def is_queue_def)

end

text \<open>A callback that only looks for an item, and changes the state when it has found one.\<close>

lemma walk_search:
  assumes "\<And>x. x \<in> set xs \<Longrightarrow> callback q x s = (if P x then (f x, x) else (s, NULL))" "NULL \<notin> set xs"
  shows "walk callback q xs s = (case find P xs of None \<Rightarrow> (s, NULL) | Some x \<Rightarrow> (f x, x))"
  using assms by (induction xs) auto

section \<open>Correctness of the queue library\<close>

definition empty_qmem :: "'q qmem" where
  "empty_qmem = \<lparr>q_hd = (\<lambda>_. NULL), q_tl = (\<lambda>_. NULL), q_nx = (\<lambda>_. NULL), q_pv = (\<lambda>_. NULL)\<rparr>"

lemma queues_empty: "queues empty_qmem (\<lambda>_. [])"
  by (simp add: queues_def is_queue_def empty_qmem_def)

lemma q_null [simp]:
  "q_front None y m = (m, NULL)" "q_end None y m = (m, NULL)" "q_remv None y m = (m, NULL)"
  "q_front que NULL m = (m, NULL)" "q_end que NULL m = (m, NULL)" "q_remv que NULL m = (m, NULL)"
  by (cases que; simp add: q_front_def q_end_def q_remv_def)+

text \<open>
  C34. The pointer operations of the queue library implement lists: on a memory that holds a family
  of disjoint queues, empty or not, \<^verbatim>\<open>q_front\<close> and \<^verbatim>\<open>q_end\<close> of an item that is in no queue put it before the
  first and after the last item of the queue named, \<^verbatim>\<open>q_remv\<close> of an item of a queue takes exactly that item
  out, every other queue keeps its items in their order, and all three return the item. With a null
  pointer to the queue or to the item they change nothing and return the null pointer.
\<close>

theorem q_ops_implement_lists:
  assumes "queues m Q" and "x \<noteq> NULL" and "\<forall>r. x \<notin> set (Q r)"
  shows "queues (fst (q_front (Some q) x m)) (Q(q := x # Q q)) \<and> snd (q_front (Some q) x m) = x \<and>
         queues (fst (q_end (Some q) x m)) (Q(q := Q q @ [x])) \<and> snd (q_end (Some q) x m) = x \<and>
         (\<forall>p y. y \<in> set (Q p) \<longrightarrow>
            queues (fst (q_remv (Some p) y m)) (Q(p := remove1 y (Q p))) \<and> snd (q_remv (Some p) y m) = y) \<and>
         (\<forall>op \<in> {q_front, q_end, q_remv}. \<forall>y. op None y m = (m, NULL) \<and> op (Some q) NULL m = (m, NULL))"
  using assms by (auto intro: kq.rep_front kq.rep_end kq.rep_remv)

theorem q_ops_implement_lists_witness:
  "queues (fst (q_front (Some (2::nat)) 7 empty_qmem)) ((\<lambda>_. [])(2 := [7])) \<and>
   queues (fst (q_end (Some (2::nat)) 7 empty_qmem)) ((\<lambda>_. [])(2 := [7])) \<and>
   queues (fst (q_remv (Some (2::nat)) 5 (fst (q_end (Some 2) 5 empty_qmem)))) ((\<lambda>_. [])(2 := []))"
proof -
  let ?m = "fst (q_end (Some (2::nat)) 5 empty_qmem)"
  have "queues ?m ((\<lambda>_. [])(2 := [5]))" using q_ops_implement_lists [OF queues_empty, of 5 "2::nat"] by simp
  from q_ops_implement_lists [OF this, of 7 2] show ?thesis
    using q_ops_implement_lists [OF queues_empty, of 7 "2::nat"] by simp
qed

text \<open>
  C35. \<^verbatim>\<open>q_forall\<close> on a well-formed queue returns, and visits the items from the front to the end up to
  the first one for which the callback returns a pointer, although the callback may remove the
  item it is called on: the pointer to the next item is read before the call.
\<close>

theorem q_forall_visits_in_order:
  fixes qm :: "'s \<Rightarrow> 'q qmem"
  assumes "is_queue (qm s) q xs"
    and "\<And>s xs x. is_queue (qm s) q xs \<Longrightarrow> x \<in> set xs \<Longrightarrow> snd (callback q x s) = NULL \<Longrightarrow>
       is_queue (qm (fst (callback q x s))) q xs \<or>
       is_queue (qm (fst (callback q x s))) q (remove1 x xs)"
  shows "q_forall qm (Some callback) (Some q) s = Some (walk callback q xs s)"
proof -
  have "walk_callback qm callback q" by unfold_locales (rule assms(2))
  then show ?thesis using assms(1) by (rule walk_callback.forall_is_walk)
qed

text \<open>
  Emptying a queue: the callback removes every item it is called on and returns no pointer, as
  the callbacks of the process manager do when a task ends.
\<close>

definition drop_item :: "'q \<Rightarrow> addr \<Rightarrow> 'q qmem \<Rightarrow> 'q qmem \<times> addr" where
  "drop_item q x m = (fst (q_remv (Some q) x m), NULL)"

theorem q_forall_visits_in_order_witness:
  "q_forall id (Some drop_item) (Some (2::nat))
       (fst (q_end (Some 2) 7 (fst (q_end (Some 2) 5 empty_qmem)))) =
     Some (walk drop_item 2 [5, 7] (fst (q_end (Some 2) 7 (fst (q_end (Some 2) 5 empty_qmem)))))"
proof (rule q_forall_visits_in_order)
  let ?m = "fst (q_end (Some (2::nat)) 5 empty_qmem)"
  have "is_queue empty_qmem (2::nat) []" by (simp add: is_queue_def empty_qmem_def)
  then have "is_queue ?m 2 [5]" by (auto dest: q_end_queue [where x = 5])
  then have "is_queue (fst (q_end (Some 2) 7 ?m)) 2 [5, 7]" by (auto dest: q_end_queue [where x = 7])
  then show "is_queue (id (fst (q_end (Some 2) 7 ?m))) 2 [5, 7]" by simp
qed (simp add: drop_item_def q_remv_queue)

end
