(* ===== verification/Hal.thy ===== *)
theory Hal
  imports Avros_Prelude
begin

text \<open>
  \<^verbatim>\<open>kernel/hal.h\<close>, \<^verbatim>\<open>lib/commondef.h\<close> and the context switch of \<^verbatim>\<open>kernel/kernel.c\<close>: the layout of a
  saved CPU context, the macros through which the kernel reads and writes the parameters of a
  kernel call in it, and the instruction sequences that save and restore a context.
\<close>

section \<open>Bytes of a word\<close>

definition LOW :: "addr \<Rightarrow> byte" where
  "LOW val = ucast (val AND 0xFF)"

definition HIGH :: "addr \<Rightarrow> byte" where
  "HIGH val = ucast (drop_bit 8 val AND 0xFF)"

definition join :: "byte \<Rightarrow> byte \<Rightarrow> addr" where
  "join hi lo = push_bit 8 (ucast hi) OR ucast lo"

lemma byte_mask: "(0xFF :: addr) = mask 8"
  by (simp add: mask_eq_exp_minus_1)

lemma join_HIGH_LOW [simp]: "join (HIGH v) (LOW v) = v"
  unfolding join_def HIGH_def LOW_def byte_mask
  by (rule bit_word_eqI) (auto simp: bit_simps)

lemma LOW_join [simp]: "LOW (join hi lo) = lo"
  unfolding join_def LOW_def byte_mask
  by (rule bit_word_eqI) (auto simp: bit_simps)

lemma HIGH_join [simp]: "HIGH (join hi lo) = hi"
  unfolding join_def HIGH_def byte_mask
  by (rule bit_word_eqI) (auto simp: bit_simps dest: bit_imp_le_length)

section \<open>The saved context\<close>

text \<open>
  \<^verbatim>\<open>cpu_context_t\<close> is a packed struct of bytes; a context is a map from the offset in the struct.
  The registers up to \<^verbatim>\<open>r30\<close> are in order, then come \<^verbatim>\<open>rSREG\<close>, \<^verbatim>\<open>r31\<close>, \<^verbatim>\<open>retHigh\<close> and \<^verbatim>\<open>retLow\<close>.
\<close>

type_synonym cpu_context = "nat \<Rightarrow> byte"

definition rSREG :: nat where "rSREG = 31"
definition r31 :: nat where "r31 = 32"
definition retHigh :: nat where "retHigh = 33"
definition retLow :: nat where "retLow = 34"

abbreviation sizeof_cpu_context :: addr where
  "sizeof_cpu_context \<equiv> 35"

definition GETP0 :: "cpu_context \<Rightarrow> addr" where "GETP0 ctxt = join (ctxt 25) (ctxt 24)"
definition GETP1 :: "cpu_context \<Rightarrow> addr" where "GETP1 ctxt = join (ctxt 23) (ctxt 22)"
definition GETP2 :: "cpu_context \<Rightarrow> addr" where "GETP2 ctxt = join (ctxt 21) (ctxt 20)"
definition GETP3 :: "cpu_context \<Rightarrow> addr" where "GETP3 ctxt = join (ctxt 19) (ctxt 18)"

definition SETP0 :: "addr \<Rightarrow> cpu_context \<Rightarrow> cpu_context" where
  "SETP0 v ctxt = ctxt(25 := HIGH v, 24 := LOW v)"
definition SETP1 :: "addr \<Rightarrow> cpu_context \<Rightarrow> cpu_context" where
  "SETP1 v ctxt = ctxt(23 := HIGH v, 22 := LOW v)"
definition SETP2 :: "addr \<Rightarrow> cpu_context \<Rightarrow> cpu_context" where
  "SETP2 v ctxt = ctxt(21 := HIGH v, 20 := LOW v)"
definition SETP3 :: "addr \<Rightarrow> cpu_context \<Rightarrow> cpu_context" where
  "SETP3 v ctxt = ctxt(19 := HIGH v, 18 := LOW v)"

definition GET_KCALLCODE :: "cpu_context \<Rightarrow> byte" where "GET_KCALLCODE ctxt = ctxt 16"
definition SET_KCALLCODE :: "byte \<Rightarrow> cpu_context \<Rightarrow> cpu_context" where
  "SET_KCALLCODE c ctxt = ctxt(16 := c)"

lemmas ctxt_defs = GETP0_def GETP1_def GETP2_def GETP3_def SETP0_def SETP1_def SETP2_def SETP3_def
  GET_KCALLCODE_def SET_KCALLCODE_def

lemma param_sels [simp, hal_simps]:
  "GETP0 (SETP0 v c) = v" "GETP1 (SETP0 v c) = GETP1 c" "GETP2 (SETP0 v c) = GETP2 c"
  "GETP3 (SETP0 v c) = GETP3 c" "GET_KCALLCODE (SETP0 v c) = GET_KCALLCODE c"
  "GETP0 (SET_KCALLCODE k c) = GETP0 c" "GETP1 (SET_KCALLCODE k c) = GETP1 c"
  "GETP2 (SET_KCALLCODE k c) = GETP2 c" "GETP3 (SET_KCALLCODE k c) = GETP3 c"
  "GET_KCALLCODE (SET_KCALLCODE k c) = k"
  by (simp_all add: ctxt_defs)

text \<open>
  The parameter macros form four independent 16-bit slots and the call code a fifth one: what
  \<^verbatim>\<open>SETPi\<close> writes \<^verbatim>\<open>GETPi\<close> reads back unchanged, and it changes no other slot.
\<close>

theorem params_independent:
  "map (\<lambda>get. get (SETP0 v c)) [GETP0, GETP1, GETP2, GETP3] = [v, GETP1 c, GETP2 c, GETP3 c] \<and>
   map (\<lambda>get. get (SETP1 v c)) [GETP0, GETP1, GETP2, GETP3] = [GETP0 c, v, GETP2 c, GETP3 c] \<and>
   map (\<lambda>get. get (SETP2 v c)) [GETP0, GETP1, GETP2, GETP3] = [GETP0 c, GETP1 c, v, GETP3 c] \<and>
   map (\<lambda>get. get (SETP3 v c)) [GETP0, GETP1, GETP2, GETP3] = [GETP0 c, GETP1 c, GETP2 c, v] \<and>
   map (\<lambda>set. GET_KCALLCODE (set v c)) [SETP0, SETP1, SETP2, SETP3] =
     [GET_KCALLCODE c, GET_KCALLCODE c, GET_KCALLCODE c, GET_KCALLCODE c]"
  by (simp add: ctxt_defs)

section \<open>Saving and restoring a context\<close>

text \<open>The machine state that the instruction sequences of the context switch touch.\<close>

record mach =
  regs :: "nat \<Rightarrow> byte"
  sreg :: byte
  spx :: addr
  pc :: addr
  ram :: "addr \<Rightarrow> byte"

datatype instr = Push nat | Pop nat | InSREG nat | OutSREG nat | Ret | Reti

definition push_byte :: "byte \<Rightarrow> mach \<Rightarrow> mach" where
  "push_byte v m = m\<lparr>ram := (ram m)(spx m := v), spx := spx m - 1\<rparr>"

definition pop_pc :: "mach \<Rightarrow> mach" where
  "pop_pc m = m\<lparr>pc := join (ram m (spx m + 1)) (ram m (spx m + 2)), spx := spx m + 2\<rparr>"

primrec exec :: "instr \<Rightarrow> mach \<Rightarrow> mach" where
  "exec (Push n) m = push_byte (regs m n) m"
| "exec (Pop n) m = m\<lparr>regs := (regs m)(n := ram m (spx m + 1)), spx := spx m + 1\<rparr>"
| "exec (InSREG n) m = m\<lparr>regs := (regs m)(n := sreg m)\<rparr>"
| "exec (OutSREG n) m = m\<lparr>sreg := regs m n\<rparr>"
| "exec Ret m = pop_pc m"
| "exec Reti m = (pop_pc m)\<lparr>sreg := sreg m OR 0x80\<rparr>"

primrec run :: "instr list \<Rightarrow> mach \<Rightarrow> mach" where
  "run [] m = m"
| "run (i # is) m = run is (exec i m)"

definition SAVE_CONTEXT :: "instr list" where
  "SAVE_CONTEXT = [Push 31, InSREG 31, Push 31] @ map Push (rev [0..<31])"

definition RESTORE_CONTEXT :: "instr list" where
  "RESTORE_CONTEXT = map Pop [0..<31] @ [Pop 31, OutSREG 31, Pop 31]"

text \<open>
  The two halves of the switch. \<open>switchtokernel\<close> returns what it stores in \<^verbatim>\<open>CURRENT->sp\<close>,
  \<open>switch_from_kernel\<close> what it stores in \<^verbatim>\<open>kernel_sp\<close>; \<open>irqdis\<close> is the flag of the task.
\<close>

definition switchtokernel :: "addr \<Rightarrow> mach \<Rightarrow> mach \<times> addr" where
  "switchtokernel kernel_sp m =
     (let m1 = run SAVE_CONTEXT m
      in (run (RESTORE_CONTEXT @ [Ret]) (m1\<lparr>spx := kernel_sp\<rparr>), spx m1))"

definition switch_from_kernel :: "bool \<Rightarrow> addr \<Rightarrow> mach \<Rightarrow> mach \<times> addr" where
  "switch_from_kernel irqdis current_sp m =
     (let m1 = run SAVE_CONTEXT m
      in (run (RESTORE_CONTEXT @ [if irqdis then Ret else Reti]) (m1\<lparr>spx := current_sp\<rparr>), spx m1))"

lemma run_append: "run (is @ js) m = run js (run is m)"
  by (induction "is" arbitrary: m) auto

text \<open>The bytes on the stack, from the top.\<close>

definition stack_has :: "(addr \<Rightarrow> byte) \<Rightarrow> addr \<Rightarrow> byte list \<Rightarrow> bool" where
  "stack_has mem sp bs \<longleftrightarrow> (\<forall>i < length bs. mem (sp + of_nat (Suc i)) = bs ! i)"

lemma stack_has_Nil [simp]: "stack_has mem sp []"
  by (simp add: stack_has_def)

lemma stack_has_Cons:
  "stack_has mem sp (b # bs) \<longleftrightarrow> mem (sp + 1) = b \<and> stack_has mem (sp + 1) bs"
  by (auto simp: stack_has_def less_Suc_eq_0_disj add.assoc)

lemma stack_push:
  assumes "stack_has mem sp bs" "length bs + 1 < 2 ^ 16"
  shows "stack_has (mem(sp := v)) (sp - 1) (v # bs)"
proof -
  have "of_nat (Suc i) \<noteq> (0 :: addr)" if "i < length bs" for i
    using that assms(2) by (simp add: of_nat_eq_0_iff del: of_nat_Suc) (simp add: word_of_nat_eq_0_iff nat_dvd_not_less del: of_nat_Suc)
  with assms(1) show ?thesis by (subst stack_has_Cons) (auto simp: stack_has_def)
qed

lemma run_pushes:
  assumes "stack_has (ram m) (spx m) bs" "length bs + length ns < 2 ^ 16"
  shows "stack_has (ram (run (map Push ns) m)) (spx m - of_nat (length ns)) (rev (map (regs m) ns) @ bs) \<and>
    regs (run (map Push ns) m) = regs m \<and> sreg (run (map Push ns) m) = sreg m \<and>
    spx (run (map Push ns) m) = spx m - of_nat (length ns)"
  using assms
proof (induction ns arbitrary: m bs)
  case (Cons n ns)
  define m' where "m' = push_byte (regs m n) m"
  have m': "run (map Push (n # ns)) m = run (map Push ns) m'" "regs m' = regs m" "sreg m' = sreg m"
      "spx m' = spx m - 1"
    by (simp_all add: m'_def push_byte_def)
  have "stack_has (ram m') (spx m') (regs m n # bs)"
    using stack_push [OF Cons.prems(1)] Cons.prems(2) by (simp add: m'_def push_byte_def)
  from Cons.IH [OF this] Cons.prems(2) show ?case
    unfolding m'(1) by (simp add: m'(2-4) diff_diff_eq)
qed simp

lemma run_pops:
  assumes "stack_has (ram m) (spx m) (vs @ bs)" "length vs = length ns" "distinct ns"
  shows "stack_has (ram m) (spx (run (map Pop ns) m)) bs \<and> ram (run (map Pop ns) m) = ram m \<and>
    map (regs (run (map Pop ns) m)) ns = vs \<and>
    (\<forall>n. n \<notin> set ns \<longrightarrow> regs (run (map Pop ns) m) n = regs m n) \<and>
    sreg (run (map Pop ns) m) = sreg m \<and> pc (run (map Pop ns) m) = pc m \<and>
    spx (run (map Pop ns) m) = spx m + of_nat (length ns)"
  using assms
proof (induction ns arbitrary: m vs)
  case (Cons n ns)
  obtain v vs' where vs: "vs = v # vs'" using Cons.prems(2) by (cases vs) auto
  define m' where "m' = exec (Pop n) m"
  have m': "run (map Pop (n # ns)) m = run (map Pop ns) m'" "ram m' = ram m" "sreg m' = sreg m"
      "pc m' = pc m" "spx m' = spx m + 1" "regs m' = (regs m)(n := v)"
    using Cons.prems(1) vs by (simp_all add: m'_def stack_has_Cons)
  have "stack_has (ram m') (spx m') (vs' @ bs)" "length vs' = length ns" "distinct ns"
    using Cons.prems vs m' by (simp_all add: stack_has_Cons)
  from Cons.IH [OF this] Cons.prems(3) vs show ?case
    unfolding m'(1) by (auto simp: m'(2-6) add.assoc)
qed simp

text \<open>\<open>layout m\<close>: the registers in the order of the struct, as \<open>SAVE_CONTEXT\<close> leaves them.\<close>

definition layout :: "mach \<Rightarrow> byte list" where
  "layout m = map (regs m) [0..<31] @ [sreg m, regs m 31]"

lemma save_context_stack:
  assumes "stack_has (ram m) (spx m) bs" "length bs + 33 < 2 ^ 16"
  shows "stack_has (ram (run SAVE_CONTEXT m)) (spx m - 33) (layout m @ bs) \<and>
    spx (run SAVE_CONTEXT m) = spx m - 33"
proof -
  define m0 where "m0 = run (map Push [31]) m"
  have 0: "stack_has (ram m0) (spx m - 1) (regs m 31 # bs)" "regs m0 = regs m" "sreg m0 = sreg m"
      "spx m0 = spx m - 1"
    using run_pushes [OF assms(1), of "[31]"] assms(2) by (auto simp: m0_def)
  define m1 where "m1 = run (map Push [31]) (exec (InSREG 31) m0)"
  have 1: "stack_has (ram m1) (spx m1) (sreg m # regs m 31 # bs)"
      "regs m1 = (regs m)(31 := sreg m)" "spx m1 = spx m - 2"
    using run_pushes [of "exec (InSREG 31) m0" "regs m 31 # bs" "[31]"] 0 assms(2)
    by (auto simp: m1_def diff_diff_eq)
  have "run SAVE_CONTEXT m = run (map Push (rev [0..<31])) m1"
    by (simp add: SAVE_CONTEXT_def m1_def m0_def del: upt.simps)
  moreover have "map (regs m1) [0..<31] = map (regs m) [0..<31]" by (auto simp: 1(2))
  ultimately show ?thesis
    using run_pushes [OF 1(1), of "rev [0..<31]"] assms(2) 1(3)
    by (simp add: layout_def rev_map [symmetric] del: upt.simps map_eq_conv)
qed

lemma restore_context_stack:
  assumes "stack_has (ram m) (spx m) (layout t @ bs)"
  shows "stack_has (ram m) (spx m + 33) bs \<and> ram (run RESTORE_CONTEXT m) = ram m \<and>
    spx (run RESTORE_CONTEXT m) = spx m + 33 \<and> sreg (run RESTORE_CONTEXT m) = sreg t \<and>
    (\<forall>n < 32. regs (run RESTORE_CONTEXT m) n = regs t n)"
proof -
  let ?m = "run (map Pop [0..<31]) m"
  have a: "stack_has (ram m) (spx ?m) (sreg t # regs t 31 # bs)" "ram ?m = ram m"
      "map (regs ?m) [0..<31] = map (regs t) [0..<31]" "spx ?m = spx m + 31"
    using run_pops [of m "map (regs t) [0..<31]" "sreg t # regs t 31 # bs" "[0..<31]"] assms
    by (auto simp: layout_def simp del: upt.simps)
  have r: "regs ?m n = regs t n" if "n < 31" for n
    using that a(3) by (simp add: list_eq_iff_nth_eq del: upt.simps)
  have run: "run RESTORE_CONTEXT m = exec (Pop 31) (exec (OutSREG 31) (exec (Pop 31) ?m))"
    by (simp add: RESTORE_CONTEXT_def run_append del: upt.simps)
  have "n < 32 \<Longrightarrow> regs (run RESTORE_CONTEXT m) n = regs t n" for n
    using a(1,2) r [of n] by (cases "n = 31") (auto simp: run stack_has_Cons)
  with a show ?thesis by (auto simp: run stack_has_Cons add.assoc)
qed

lemma pushes_ram:
  "(\<And>j. j < length ns \<Longrightarrow> a \<noteq> spx m - of_nat j) \<Longrightarrow> ram (run (map Push ns) m) a = ram m a"
proof (induction ns arbitrary: m)
  case (Cons n ns)
  have "a \<noteq> spx (push_byte (regs m n) m) - of_nat j" if "j < length ns" for j
    using Cons.prems [of "Suc j"] that by (simp add: push_byte_def diff_diff_eq)
  then have "ram (run (map Push ns) (push_byte (regs m n) m)) a = ram (push_byte (regs m n) m) a"
    by (rule Cons.IH)
  with Cons.prems [of 0] show ?case by (simp add: push_byte_def)
qed simp

lemma save_context_ram:
  assumes "\<And>j. j < 33 \<Longrightarrow> a \<noteq> spx m - of_nat j"
  shows "ram (run SAVE_CONTEXT m) a = ram m a"
proof -
  let ?m1 = "run [Push 31, InSREG 31, Push 31] m"
  have "ram (run (map Push (rev [0..<31])) ?m1) a = ram ?m1 a"
  proof (rule pushes_ram)
    fix j assume "j < length (rev [0..<31])"
    then show "a \<noteq> spx ?m1 - of_nat j"
      using assms [of "j + 2"] by (simp add: push_byte_def diff_diff_eq add.commute)
  qed
  with assms [of 0] assms [of 1] show ?thesis
    by (simp add: SAVE_CONTEXT_def run_append push_byte_def del: upt.simps)
qed

lemma pops_ram: "ram (run (map Pop ns) m) = ram m"
  by (induction ns arbitrary: m) auto

lemma restore_ram: "ram (run (RESTORE_CONTEXT @ is) m) = ram (run is (run RESTORE_CONTEXT m))"
  "ram (run RESTORE_CONTEXT m) = ram m"
  by (simp_all add: RESTORE_CONTEXT_def run_append pops_ram del: upt.simps)

lemma stack_has_cong:
  "(\<And>i. i < length bs \<Longrightarrow> mem' (sp + of_nat (Suc i)) = mem (sp + of_nat (Suc i))) \<Longrightarrow>
   stack_has mem' sp bs = stack_has mem sp bs"
  by (simp add: stack_has_def)

lemma length_layout [simp]: "length (layout m) = 33"
  by (simp add: layout_def)

text \<open>
  Entering the kernel and leaving it again resumes the task where it was: all 32 registers, the
  stack pointer and the return address are those of the trap, and so is the status register,
  with the interrupt flag set unless the task runs with interrupts disabled. The kernel may do
  anything in between that leaves the saved context alone, and it saves its own context in a
  stack of its own.
\<close>

theorem context_switch_resumes:
  assumes to_kernel: "switchtokernel kernel_sp m = (m1, task_sp)"
    and untouched: "\<forall>i < 35. ram m2 (task_sp + of_nat (Suc i)) = ram m1 (task_sp + of_nat (Suc i))"
    and own_stack: "\<forall>i < 35. \<forall>j < 33. task_sp + of_nat (Suc i) \<noteq> spx m2 - of_nat j"
    and from_kernel: "switch_from_kernel irqdis task_sp m2 = (m3, kernel_sp')"
  shows "(\<forall>n < 32. regs m3 n = regs m n) \<and> spx m3 = spx m + 2 \<and>
         pc m3 = join (ram m (spx m + 1)) (ram m (spx m + 2)) \<and>
         sreg m3 = (if irqdis then sreg m else sreg m OR 0x80)"
proof -
  let ?bs = "[ram m (spx m + 1), ram m (spx m + 2)]"
  have "stack_has (ram m) (spx m) ?bs" by (simp add: stack_has_Cons add.assoc)
  from save_context_stack [OF this]
  have saved: "stack_has (ram (run SAVE_CONTEXT m)) (spx m - 33) (layout m @ ?bs)"
      "spx (run SAVE_CONTEXT m) = spx m - 33" by simp_all
  have tsp: "task_sp = spx m - 33" and m1: "ram m1 = ram (run SAVE_CONTEXT m)"
    using to_kernel saved(2)
    by (auto simp: switchtokernel_def Let_def restore_ram pop_pc_def)
  let ?k = "(run SAVE_CONTEXT m2)\<lparr>spx := task_sp\<rparr>"
  have "stack_has (ram (run SAVE_CONTEXT m2)) task_sp (layout m @ ?bs) =
      stack_has (ram (run SAVE_CONTEXT m)) task_sp (layout m @ ?bs)"
    by (rule stack_has_cong) (use untouched own_stack m1 save_context_ram in simp)
  then have "stack_has (ram ?k) (spx ?k) (layout m @ ?bs)" using saved(1) tsp by simp
  note r = restore_context_stack [OF this]
  have m3: "m3 = exec (if irqdis then Ret else Reti) (run RESTORE_CONTEXT ?k)"
    using from_kernel by (auto simp: switch_from_kernel_def Let_def run_append)
  show ?thesis
    using r tsp by (auto simp: m3 pop_pc_def stack_has_Cons add.assoc)
qed

definition trapped :: mach where
  "trapped = \<lparr>regs = (\<lambda>n. of_nat n), sreg = 3, spx = 0x1000, pc = 0, ram = (\<lambda>_. 7)\<rparr>"

lemma stacks_apart:
  fixes sp ksp :: addr
  assumes "unat sp + Suc i < unat ksp - j"
  shows "sp + of_nat (Suc i) \<noteq> ksp - of_nat j"
proof -
  have "unat ksp < 2 ^ 16" using unsigned_less [of ksp] by simp
  note assms = assms this
  have "unat (sp + of_nat (Suc i)) = unat sp + Suc i"
    using assms by (subst unat_plus) (auto simp: unat_of_nat simp del: of_nat_Suc)
  moreover have "unat (ksp - of_nat j) = unat ksp - j"
    using assms by (subst unat_minus) (auto simp: unat_of_nat word_le_nat_alt)
  ultimately show ?thesis using assms by (metis less_irrefl)
qed

theorem context_switch_resumes_witness:
  "regs (fst (switch_from_kernel True 0xFDF
     ((fst (switchtokernel 0x2000 trapped))\<lparr>spx := 0x2000\<rparr>))) 24 = 24"
proof -
  let ?m = trapped
  let ?m1 = "fst (switchtokernel 0x2000 ?m)"
  have sp: "snd (switchtokernel 0x2000 ?m) = 0xFDF"
    using save_context_stack [of ?m "[]"] by (simp add: switchtokernel_def Let_def trapped_def)
  let ?m3 = "switch_from_kernel True 0xFDF (?m1\<lparr>spx := 0x2000\<rparr>)"
  have "regs (fst ?m3) 24 = regs ?m 24"
    using context_switch_resumes [of "0x2000" ?m ?m1 "0xFDF" "?m1\<lparr>spx := 0x2000\<rparr>" True "fst ?m3" "snd ?m3"]
      sp by (simp add: prod_eq_iff stacks_apart del: of_nat_Suc)
  then show ?thesis by (simp add: trapped_def)
qed

end
