(* ===== verification/Kernel.thy ===== *)
theory Kernel
  imports Queue Hal "HOL-Library.Monad_Syntax"
begin

text \<open>
  \<^verbatim>\<open>kernel/kernel.c\<close>: tasks, the ready, current and blocked queues, the kernel calls, message
  delivery, event dispatch and the scheduler. The theory holds the model; \<open>Kernel_Inv\<close> proves it
  correct.

  The memory is split by the type of what is stored: the links of the queues (\<^typ>\<open>'q qmem\<close>), the
  task structs, the saved contexts (each at the address that \<^verbatim>\<open>GET_CTXT\<close> computes) and the remaining
  bytes, which hold messages and stacks. \<^verbatim>\<open>malloc\<close> and \<^verbatim>\<open>free\<close> are parameters (\<open>kenv\<close>), as is
  the address of the code of \<^verbatim>\<open>exittask\<close>. An operation whose C code has no defined result (a walk of
  a queue that does not end, an index outside \<^verbatim>\<open>queue[]\<close>, a null task that is dereferenced) is
  \<^term>\<open>None\<close>.
\<close>

section \<open>State\<close>

datatype kqueue = Ready nat | CurrentQ | BlockedQ

definition TASK_PRIO_RT :: byte where "TASK_PRIO_RT = 0"
definition TASK_PRIO_HIGH :: byte where "TASK_PRIO_HIGH = 1"
definition TASK_PRIO_DFLT :: byte where "TASK_PRIO_DFLT = 2"
definition TASK_PRIO_LOW :: byte where "TASK_PRIO_LOW = 3"
definition TASK_PRIO_IDLE :: byte where "TASK_PRIO_IDLE = 4"

abbreviation TASK_PRIO_QUEUE_MAX :: nat where
  "TASK_PRIO_QUEUE_MAX \<equiv> 5"

record task =
  t_sp :: addr
  t_sb :: addr
  t_prio :: byte
  t_flags :: byte
  t_page :: byte

definition zero_task :: task where
  "zero_task = \<lparr>t_sp = 0, t_sb = 0, t_prio = 0, t_flags = 0, t_page = 0\<rparr>"

record 'h kst =
  k_q :: "kqueue qmem"
  k_task :: "addr \<Rightarrow> task"
  k_ctx :: "addr \<Rightarrow> cpu_context"
  k_mem :: "addr \<Rightarrow> byte"
  k_ev :: addr
  k_heap :: 'h

record 'h kenv =
  e_malloc :: "addr \<Rightarrow> 'h \<Rightarrow> 'h \<times> addr"
  e_free :: "addr \<Rightarrow> 'h \<Rightarrow> 'h"
  e_exittask :: addr

definition TASK_ANY :: addr where "TASK_ANY = 0xFFFF"

definition EVENT_NONE :: addr where "EVENT_NONE = 0x0000"
definition EVENT_TIMER1OVF :: addr where "EVENT_TIMER1OVF = 0x0001"
definition EVENT_USART0RX :: addr where "EVENT_USART0RX = 0x0002"
definition EVENT_USART0TX :: addr where "EVENT_USART0TX = 0x0004"
definition EVENT_USART1RX :: addr where "EVENT_USART1RX = 0x0008"
definition EVENT_USART1TX :: addr where "EVENT_USART1TX = 0x0010"
definition PREEMPT_ON_EVENT :: addr where "PREEMPT_ON_EVENT = 0x8000"

definition TASK_FLAG_IRQDIS :: byte where "TASK_FLAG_IRQDIS = 0x01"

definition KCALL_YIELD :: byte where "KCALL_YIELD = 0x00"
definition KCALL_GETPID :: byte where "KCALL_GETPID = 0x01"
definition KCALL_IRQEN :: byte where "KCALL_IRQEN = 0x10"
definition KCALL_IRQDIS :: byte where "KCALL_IRQDIS = 0x11"
definition KCALL_CREATETASK :: byte where "KCALL_CREATETASK = 0x20"
definition KCALL_ALLOCATESTACK :: byte where "KCALL_ALLOCATESTACK = 0x21"
definition KCALL_SETUPTASK :: byte where "KCALL_SETUPTASK = 0x22"
definition KCALL_STARTTASK :: byte where "KCALL_STARTTASK = 0x23"
definition KCALL_STOPTASK :: byte where "KCALL_STOPTASK = 0x24"
definition KCALL_DELETETASK :: byte where "KCALL_DELETETASK = 0x25"
definition KCALL_EXITTASK :: byte where "KCALL_EXITTASK = 0x26"
definition KCALL_MALLOC :: byte where "KCALL_MALLOC = 0x30"
definition KCALL_FREE :: byte where "KCALL_FREE = 0x31"
definition KCALL_SEND :: byte where "KCALL_SEND = 0x40"
definition KCALL_SENDREC :: byte where "KCALL_SENDREC = 0x41"
definition KCALL_RECEIVE :: byte where "KCALL_RECEIVE = 0x42"
definition KCALL_WAITEVENT :: byte where "KCALL_WAITEVENT = 0x50"

lemmas kcall_codes = KCALL_YIELD_def KCALL_GETPID_def KCALL_IRQEN_def KCALL_IRQDIS_def
  KCALL_CREATETASK_def KCALL_ALLOCATESTACK_def KCALL_SETUPTASK_def KCALL_STARTTASK_def
  KCALL_STOPTASK_def KCALL_DELETETASK_def KCALL_EXITTASK_def KCALL_MALLOC_def KCALL_FREE_def
  KCALL_SEND_def KCALL_SENDREC_def KCALL_RECEIVE_def KCALL_WAITEVENT_def

section \<open>Access to the state\<close>

definition CURRENT :: "'h kst \<Rightarrow> addr" where
  "CURRENT s = Q_FIRST CurrentQ (k_q s)"

text \<open>The address of the saved context of a task, and the context there.\<close>

definition ctxt_at :: "addr \<Rightarrow> 'h kst \<Rightarrow> addr" where
  "ctxt_at t s = t_sp (k_task s t) + 1"

definition GET_CTXT :: "addr \<Rightarrow> 'h kst \<Rightarrow> cpu_context" where
  "GET_CTXT t s = k_ctx s (ctxt_at t s)"

definition upd_ctxt :: "addr \<Rightarrow> (cpu_context \<Rightarrow> cpu_context) \<Rightarrow> 'h kst \<Rightarrow> 'h kst" where
  "upd_ctxt c f s = s\<lparr>k_ctx := (k_ctx s)(c := f (k_ctx s c))\<rparr>"

definition upd_task :: "addr \<Rightarrow> (task \<Rightarrow> task) \<Rightarrow> 'h kst \<Rightarrow> 'h kst" where
  "upd_task t f s = s\<lparr>k_task := (k_task s)(t := f (k_task s t))\<rparr>"

text \<open>\<^verbatim>\<open>&queue[prio]\<close>, where the index is inside the array.\<close>

definition ready_q :: "byte \<Rightarrow> kqueue option" where
  "ready_q prio = (if unat prio < TASK_PRIO_QUEUE_MAX then Some (Ready (unat prio)) else None)"

text \<open>\<^verbatim>\<open>Q_END(&dst, Q_REMV(&src, item))\<close> and \<^verbatim>\<open>Q_FRONT(&dst, Q_REMV(&src, item))\<close>.\<close>

definition move_end :: "kqueue \<Rightarrow> kqueue \<Rightarrow> addr \<Rightarrow> 'h kst \<Rightarrow> 'h kst" where
  "move_end src dst item s =
     (let r = q_remv (Some src) item (k_q s) in s\<lparr>k_q := fst (q_end (Some dst) (snd r) (fst r))\<rparr>)"

definition move_front :: "kqueue \<Rightarrow> kqueue \<Rightarrow> addr \<Rightarrow> 'h kst \<Rightarrow> 'h kst" where
  "move_front src dst item s =
     (let r = q_remv (Some src) item (k_q s) in s\<lparr>k_q := fst (q_front (Some dst) (snd r) (fst r))\<rparr>)"

definition kmalloc_in :: "'h kenv \<Rightarrow> addr \<Rightarrow> 'h kst \<Rightarrow> 'h kst \<times> addr" where
  "kmalloc_in E n s = (let r = e_malloc E n (k_heap s) in (s\<lparr>k_heap := fst r\<rparr>, snd r))"

definition kfree_in :: "'h kenv \<Rightarrow> addr \<Rightarrow> 'h kst \<Rightarrow> 'h kst" where
  "kfree_in E p s = s\<lparr>k_heap := e_free E p (k_heap s)\<rparr>"

section \<open>Creating tasks\<close>

definition init_task_queues :: "'h kst \<Rightarrow> 'h kst" where
  "init_task_queues s =
     s\<lparr>k_q := q_init (Some BlockedQ) (q_init (Some CurrentQ)
        (fold (\<lambda>i. q_init (Some (Ready i))) [0..<TASK_PRIO_QUEUE_MAX] (k_q s)))\<rparr>"

text \<open>\<^verbatim>\<open>sizeof(task_t)\<close> is 11; the \<^verbatim>\<open>memset\<close> also clears the links of the queue header.\<close>

definition newtask :: "'h kenv \<Rightarrow> 'h kst \<Rightarrow> 'h kst \<times> addr" where
  "newtask E s =
     (let r = kmalloc_in E 11 s; p = snd r
      in if p \<noteq> NULL
         then (upd_task p (\<lambda>_. zero_task)
                 ((fst r)\<lparr>k_q := set_pv p NULL (set_nx p NULL (k_q (fst r)))\<rparr>), p)
         else (fst r, NULL))"

definition do_pushstack :: "addr \<Rightarrow> byte \<Rightarrow> 'h kst \<Rightarrow> 'h kst" where
  "do_pushstack t val s =
     (let sp = t_sp (k_task s t)
      in upd_task t (t_sp_update (\<lambda>_. sp - 1)) (s\<lparr>k_mem := (k_mem s)(sp := val)\<rparr>))"

definition do_allocatestack :: "'h kenv \<Rightarrow> addr \<Rightarrow> addr \<Rightarrow> 'h kst \<Rightarrow> 'h kst \<times> addr" where
  "do_allocatestack E t sz s =
     (if sz = 0 then (s, NULL)
      else
        let size' = sz + (sizeof_cpu_context + 2);
            r = kmalloc_in E size' s;
            s1 = upd_task t (t_sb_update (\<lambda>_. snd r)) (fst r);
            s2 = (if snd r \<noteq> NULL then upd_task t (t_sp_update (\<lambda>_. snd r + size' - 1)) s1 else s1)
        in (s2, snd r))"

definition do_setuptask :: "'h kenv \<Rightarrow> addr \<Rightarrow> addr \<Rightarrow> addr \<Rightarrow> addr \<Rightarrow> 'h kst \<Rightarrow> 'h kst" where
  "do_setuptask E t tp args exitfn s =
     (let s1 = do_pushstack t (HIGH (e_exittask E)) (do_pushstack t (LOW (e_exittask E)) s);
          s2 = (if exitfn \<noteq> NULL then do_pushstack t (HIGH exitfn) (do_pushstack t (LOW exitfn) s1)
                else s1);
          s3 = upd_task t (t_sp_update (\<lambda>sp. sp - sizeof_cpu_context)) s2
      in upd_ctxt (ctxt_at t s3)
           (\<lambda>c. c(24 := LOW args, 25 := HIGH args, retLow := LOW tp, retHigh := HIGH tp, 1 := 0)) s3)"

section \<open>Events and messages\<close>

text \<open>The three callbacks for \<^verbatim>\<open>q_forall\<close> on the queue of blocked tasks.\<close>

definition dispatchevent :: "kqueue \<Rightarrow> addr \<Rightarrow> 'h kst \<Rightarrow> 'h kst \<times> addr" where
  "dispatchevent que ptsk s =
     (if GET_KCALLCODE (GET_CTXT ptsk s) \<noteq> KCALL_WAITEVENT then (s, NULL)
      else if GETP0 (GET_CTXT ptsk s) AND k_ev s = 0 then (s, NULL)
      else (s, ptsk))"

definition memcpy :: "addr \<Rightarrow> addr \<Rightarrow> addr \<Rightarrow> (addr \<Rightarrow> byte) \<Rightarrow> addr \<Rightarrow> byte" where
  "memcpy dst src n mem = (\<lambda>a. if a - dst < n then mem (src + (a - dst)) else mem a)"

definition delivermsg :: "addr \<Rightarrow> addr \<Rightarrow> 'h kst \<Rightarrow> 'h kst \<times> bool" where
  "delivermsg rcvr_task sndr_task s =
     (let rcvr_ctxt = GET_CTXT rcvr_task s; sndr_ctxt = GET_CTXT sndr_task s
      in if GET_KCALLCODE sndr_ctxt \<noteq> KCALL_SEND \<and> GET_KCALLCODE sndr_ctxt \<noteq> KCALL_SENDREC
         then (s, False)
         else if GET_KCALLCODE rcvr_ctxt \<noteq> KCALL_RECEIVE then (s, False)
         else if GETP0 sndr_ctxt \<noteq> rcvr_task then (s, False)
         else if GETP0 rcvr_ctxt \<noteq> sndr_task \<and> GETP0 rcvr_ctxt \<noteq> TASK_ANY then (s, False)
         else (upd_ctxt (ctxt_at rcvr_task s) (SETP0 sndr_task)
                 (s\<lparr>k_mem := memcpy (GETP1 rcvr_ctxt) (GETP1 sndr_ctxt) (GETP2 rcvr_ctxt) (k_mem s)\<rparr>),
               True))"

definition sendmsg :: "kqueue \<Rightarrow> addr \<Rightarrow> 'h kst \<Rightarrow> 'h kst \<times> addr" where
  "sendmsg que ptsk s =
     (let r = delivermsg ptsk (CURRENT s) s in if snd r then (fst r, ptsk) else (fst r, NULL))"

definition receivemsg :: "kqueue \<Rightarrow> addr \<Rightarrow> 'h kst \<Rightarrow> 'h kst \<times> addr" where
  "receivemsg que ptsk s =
     (let r = delivermsg (CURRENT s) ptsk s in if snd r then (fst r, ptsk) else (fst r, NULL))"

section \<open>The scheduler\<close>

primrec sched_scan :: "nat list \<Rightarrow> 'h kst \<Rightarrow> 'h kst" where
  "sched_scan [] s = s"
| "sched_scan (prio # ps) s =
     (if Q_FIRST (Ready prio) (k_q s) \<noteq> NULL
      then move_front (Ready prio) CurrentQ (Q_FIRST (Ready prio) (k_q s)) s
      else sched_scan ps s)"

definition scheduler :: "'h kst \<Rightarrow> 'h kst" where
  "scheduler s =
     (if CURRENT s \<noteq> NULL then s else sched_scan [0..<TASK_PRIO_QUEUE_MAX] s)"

section \<open>The kernel calls\<close>

text \<open>
  One definition per case of the switch. \<open>c\<close> is the address of the context of the calling task,
  which the C code computes once on entry.
\<close>

definition k_createtask :: "'h kenv \<Rightarrow> addr \<Rightarrow> 'h kst \<Rightarrow> 'h kst option" where
  "k_createtask E c s =
     (let r = newtask E s;
          f = q_front (Some BlockedQ) (snd r) (k_q (fst r));
          wtask = snd f;
          s1 = (fst r)\<lparr>k_q := fst f\<rparr>;
          s2 = (if wtask \<noteq> NULL
                then upd_task wtask (\<lambda>t. t\<lparr>t_prio := ucast (GETP0 (k_ctx s1 c)),
                        t_page := ucast (GETP1 (k_ctx s1 c)), t_sb := NULL\<rparr>) s1
                else s1)
      in Some (upd_ctxt c (SETP0 wtask) s2))"

definition k_allocatestack :: "'h kenv \<Rightarrow> addr \<Rightarrow> 'h kst \<Rightarrow> 'h kst option" where
  "k_allocatestack E c s =
     (let t = GETP0 (k_ctx s c); sz = GETP1 (k_ctx s c); r = do_allocatestack E t sz s
      in if t = NULL \<and> sz \<noteq> 0 then None else Some (upd_ctxt c (SETP0 (snd r)) (fst r)))"

definition k_setuptask :: "'h kenv \<Rightarrow> addr \<Rightarrow> 'h kst \<Rightarrow> 'h kst option" where
  "k_setuptask E c s =
     (let ctxt = k_ctx s c
      in if GETP0 ctxt = NULL then None
         else Some (do_setuptask E (GETP0 ctxt) (GETP1 ctxt) (GETP2 ctxt) (GETP3 ctxt) s))"

definition k_starttask :: "addr \<Rightarrow> 'h kst \<Rightarrow> 'h kst option" where
  "k_starttask c s =
     (let wtask = GETP0 (k_ctx s c)
      in if wtask = NULL then None
         else do { q \<leftarrow> ready_q (t_prio (k_task s wtask)); Some (move_end BlockedQ q wtask s) })"

definition k_stoptask :: "'h kenv \<Rightarrow> addr \<Rightarrow> 'h kst \<Rightarrow> 'h kst option" where
  "k_stoptask E c s =
     (let wtask = GETP0 (k_ctx s c)
      in if wtask = NULL then None
         else if t_sb (k_task s wtask) \<noteq> NULL
         then Some (upd_task wtask (t_sb_update (\<lambda>_. NULL)) (kfree_in E (t_sb (k_task s wtask)) s))
         else Some s)"

definition k_deletetask :: "'h kenv \<Rightarrow> addr \<Rightarrow> 'h kst \<Rightarrow> 'h kst option" where
  "k_deletetask E c s =
     (let r = q_remv (Some BlockedQ) (GETP0 (k_ctx s c)) (k_q s)
      in Some (kfree_in E (snd r) (s\<lparr>k_q := fst r\<rparr>)))"

definition k_exittask :: "'h kenv \<Rightarrow> 'h kst \<Rightarrow> 'h kst option" where
  "k_exittask E s =
     (let s1 = kfree_in E (t_sb (k_task s (CURRENT s))) s;
          r = q_remv (Some CurrentQ) (CURRENT s1) (k_q s1)
      in Some (kfree_in E (snd r) (s1\<lparr>k_q := fst r\<rparr>)))"

definition k_irqen :: "'h kst \<Rightarrow> 'h kst option" where
  "k_irqen s =
     Some (upd_task (CURRENT s) (t_flags_update (\<lambda>f. f AND NOT TASK_FLAG_IRQDIS)) s)"

definition k_irqdis :: "'h kst \<Rightarrow> 'h kst option" where
  "k_irqdis s = Some (upd_task (CURRENT s) (t_flags_update (\<lambda>f. f OR TASK_FLAG_IRQDIS)) s)"

definition k_waitevent :: "'h kst \<Rightarrow> 'h kst option" where
  "k_waitevent s = Some (move_end CurrentQ BlockedQ (CURRENT s) s)"

definition k_malloc :: "'h kenv \<Rightarrow> addr \<Rightarrow> 'h kst \<Rightarrow> 'h kst option" where
  "k_malloc E c s =
     (let r = kmalloc_in E (GETP0 (k_ctx s c)) s in Some (upd_ctxt c (SETP0 (snd r)) (fst r)))"

definition k_free :: "'h kenv \<Rightarrow> addr \<Rightarrow> 'h kst \<Rightarrow> 'h kst option" where
  "k_free E c s = Some (kfree_in E (GETP0 (k_ctx s c)) s)"

definition k_getpid :: "addr \<Rightarrow> 'h kst \<Rightarrow> 'h kst option" where
  "k_getpid c s = Some (upd_ctxt c (SETP0 (CURRENT s)) s)"

definition k_send :: "'h kst \<Rightarrow> 'h kst option" where
  "k_send s = do {
     (s1, wtask) \<leftarrow> q_forall k_q (Some sendmsg) (Some BlockedQ) s;
     if wtask = NULL then Some (move_front CurrentQ BlockedQ (CURRENT s1) s1)
     else do { q \<leftarrow> ready_q (t_prio (k_task s1 wtask)); Some (move_end BlockedQ q wtask s1) }
   }"

definition k_sendrec :: "addr \<Rightarrow> 'h kst \<Rightarrow> 'h kst option" where
  "k_sendrec c s = do {
     (s1, wtask) \<leftarrow> q_forall k_q (Some sendmsg) (Some BlockedQ) s;
     s2 \<leftarrow> (if wtask \<noteq> NULL
            then do {
              let s' = upd_ctxt c (SET_KCALLCODE KCALL_RECEIVE) s1;
              q \<leftarrow> ready_q (t_prio (k_task s' wtask));
              Some (move_end BlockedQ q wtask s')
            }
            else Some s1);
     Some (move_front CurrentQ BlockedQ (CURRENT s2) s2)
   }"

definition k_receive :: "'h kst \<Rightarrow> 'h kst option" where
  "k_receive s = do {
     (s1, wtask) \<leftarrow> q_forall k_q (Some receivemsg) (Some BlockedQ) s;
     if wtask = NULL then Some (move_front CurrentQ BlockedQ (CURRENT s1) s1)
     else if GET_KCALLCODE (GET_CTXT wtask s1) = KCALL_SENDREC
     then Some (upd_ctxt (ctxt_at wtask s1) (SET_KCALLCODE KCALL_RECEIVE) s1)
     else do { q \<leftarrow> ready_q (t_prio (k_task s1 wtask)); Some (move_end BlockedQ q wtask s1) }
   }"

definition k_yield :: "'h kst \<Rightarrow> 'h kst option" where
  "k_yield s = do {
     q \<leftarrow> ready_q (t_prio (k_task s (CURRENT s)));
     Some (move_end CurrentQ q (CURRENT s) s)
   }"

lemmas [kernel_defs] = k_createtask_def k_allocatestack_def k_setuptask_def k_starttask_def
  k_stoptask_def k_deletetask_def k_exittask_def k_irqen_def k_irqdis_def k_waitevent_def
  k_malloc_def k_free_def k_getpid_def k_send_def k_sendrec_def k_receive_def k_yield_def

definition kernel_call :: "'h kenv \<Rightarrow> 'h kst \<Rightarrow> 'h kst option" where
  "kernel_call E s =
     (let c = ctxt_at (CURRENT s) s; code = GET_KCALLCODE (GET_CTXT (CURRENT s) s)
      in if code = KCALL_CREATETASK then k_createtask E c s
         else if code = KCALL_ALLOCATESTACK then k_allocatestack E c s
         else if code = KCALL_SETUPTASK then k_setuptask E c s
         else if code = KCALL_STARTTASK then k_starttask c s
         else if code = KCALL_STOPTASK then k_stoptask E c s
         else if code = KCALL_DELETETASK then k_deletetask E c s
         else if code = KCALL_EXITTASK then k_exittask E s
         else if code = KCALL_IRQEN then k_irqen s
         else if code = KCALL_IRQDIS then k_irqdis s
         else if code = KCALL_WAITEVENT then k_waitevent s
         else if code = KCALL_MALLOC then k_malloc E c s
         else if code = KCALL_FREE then k_free E c s
         else if code = KCALL_GETPID then k_getpid c s
         else if code = KCALL_SEND then k_send s
         else if code = KCALL_SENDREC then k_sendrec c s
         else if code = KCALL_RECEIVE then k_receive s
         else if code = KCALL_YIELD then k_yield s
         else Some s)"

section \<open>Events, initialisation and the main loop\<close>

definition handle_event :: "'h kst \<Rightarrow> 'h kst option" where
  "handle_event s = do {
     let old = CURRENT s;
     (s1, wtask) \<leftarrow> q_forall k_q (Some dispatchevent) (Some BlockedQ) s;
     s2 \<leftarrow> (if wtask \<noteq> NULL
            then do {
              q \<leftarrow> ready_q (t_prio (k_task s1 old));
              let s' = (if GETP0 (GET_CTXT wtask s1) AND PREEMPT_ON_EVENT \<noteq> 0
                        then move_end CurrentQ q (CURRENT s1) s1
                        else move_front CurrentQ q (CURRENT s1) s1);
              let s'' = move_front BlockedQ CurrentQ wtask s';
              Some (upd_ctxt (ctxt_at wtask s'') (SETP0 (k_ev s'')) s'')
            }
            else Some s1);
     Some (s2\<lparr>k_ev := EVENT_NONE\<rparr>)
   }"

definition kernel_entry :: "'h kenv \<Rightarrow> 'h kst \<Rightarrow> 'h kst option" where
  "kernel_entry E s = (if k_ev s \<noteq> EVENT_NONE then handle_event s else kernel_call E s)"

text \<open>From one return to user mode to the next: the body of the loop, then the scheduler.\<close>

definition kernel_loop :: "'h kenv \<Rightarrow> 'h kst \<Rightarrow> 'h kst option" where
  "kernel_loop E s = map_option scheduler (kernel_entry E s)"

definition inittask ::
  "'h kenv \<Rightarrow> addr \<Rightarrow> addr \<Rightarrow> addr \<Rightarrow> byte \<Rightarrow> 'h kst \<Rightarrow> ('h kst \<times> addr) option"
where
  "inittask E ptp args stack prio s =
     (let r = newtask E s; t = snd r
      in if t = NULL then Some (fst r, NULL)
         else
           let a = do_allocatestack E t stack (fst r)
           in if snd a = NULL then Some (fst a, NULL)
              else do {
                let s1 = upd_task t (t_prio_update (\<lambda>_. prio)) (do_setuptask E t ptp args NULL (fst a));
                q \<leftarrow> ready_q (t_prio (k_task s1 t));
                Some (s1\<lparr>k_q := fst (q_end (Some q) t (k_q s1))\<rparr>, t)
              })"

definition kernel_start :: "'h kenv \<Rightarrow> addr \<Rightarrow> addr \<Rightarrow> addr \<Rightarrow> addr \<Rightarrow> byte \<Rightarrow> 'h kst \<Rightarrow> 'h kst option"
where
  "kernel_start E idle_task ptp args stack prio s = do {
     (s1, _) \<leftarrow> inittask E idle_task NULL 0x80 TASK_PRIO_IDLE (init_task_queues s);
     (s2, _) \<leftarrow> inittask E ptp args stack prio s1;
     Some (scheduler (s2\<lparr>k_ev := EVENT_NONE\<rparr>))
   }"

section \<open>The user side of a kernel call\<close>

text \<open>
  The wrapper functions at the end of \<^verbatim>\<open>kernel.c\<close> load the call code into \<^verbatim>\<open>r16\<close> and trap; their
  arguments are in the registers of the calling convention, two bytes each from \<^verbatim>\<open>r24\<close> downwards,
  with the upper byte undefined for a \<^verbatim>\<open>char\<close>.
\<close>

datatype kcall =
    Yield
  | Getpid
  | Waitevent addr
  | Kmalloc addr
  | Kfree addr
  | Send addr addr
  | Sendrec addr addr addr
  | Receive addr addr addr
  | Createtask byte byte
  | Allocatestack addr addr
  | Setuptask addr addr addr addr
  | Starttask addr
  | Stoptask addr
  | Deletetask addr
  | Exittask
  | Kirqen
  | Kirqdis

primrec trap_ctxt :: "kcall \<Rightarrow> cpu_context \<Rightarrow> cpu_context" where
  "trap_ctxt Yield c = SET_KCALLCODE KCALL_YIELD c"
| "trap_ctxt Getpid c = SET_KCALLCODE KCALL_GETPID c"
| "trap_ctxt (Waitevent ev) c = SET_KCALLCODE KCALL_WAITEVENT (SETP0 ev c)"
| "trap_ctxt (Kmalloc sz) c = SET_KCALLCODE KCALL_MALLOC (SETP0 sz c)"
| "trap_ctxt (Kfree p) c = SET_KCALLCODE KCALL_FREE (SETP0 p c)"
| "trap_ctxt (Send dest msg) c = SET_KCALLCODE KCALL_SEND (SETP1 msg (SETP0 dest c))"
| "trap_ctxt (Sendrec tsk msg len) c =
     SET_KCALLCODE KCALL_SENDREC (SETP2 len (SETP1 msg (SETP0 tsk c)))"
| "trap_ctxt (Receive src msg len) c =
     SET_KCALLCODE KCALL_RECEIVE (SETP2 len (SETP1 msg (SETP0 src c)))"
| "trap_ctxt (Createtask prio page) c = SET_KCALLCODE KCALL_CREATETASK (c(24 := prio, 22 := page))"
| "trap_ctxt (Allocatestack pid sz) c = SET_KCALLCODE KCALL_ALLOCATESTACK (SETP1 sz (SETP0 pid c))"
| "trap_ctxt (Setuptask pid ptsk args exitfn) c =
     SET_KCALLCODE KCALL_SETUPTASK (SETP3 exitfn (SETP2 args (SETP1 ptsk (SETP0 pid c))))"
| "trap_ctxt (Starttask pid) c = SET_KCALLCODE KCALL_STARTTASK (SETP0 pid c)"
| "trap_ctxt (Stoptask pid) c = SET_KCALLCODE KCALL_STOPTASK (SETP0 pid c)"
| "trap_ctxt (Deletetask pid) c = SET_KCALLCODE KCALL_DELETETASK (SETP0 pid c)"
| "trap_ctxt Exittask c = SET_KCALLCODE KCALL_EXITTASK c"
| "trap_ctxt Kirqen c = SET_KCALLCODE KCALL_IRQEN c"
| "trap_ctxt Kirqdis c = SET_KCALLCODE KCALL_IRQDIS c"

end
