(* ===== verification/Chunk_Malloc.thy ===== *)
theory Chunk_Malloc
  imports Avros_Prelude
begin

text \<open>
  \<^verbatim>\<open>misc/malloc.c\<close>: the greedy first-fit allocator, on a memory of chunk headers. The theory first
  states what the rest of the system relies on when it calls \<^verbatim>\<open>malloc\<close> and \<^verbatim>\<open>free\<close> (the locale
  \<open>allocator\<close>), then models the repository's allocator, relates its chain of headers to the list
  of chunk sizes that tile the heap, and shows that it meets the contract.
\<close>

section \<open>The contract of an allocator\<close>

text \<open>
  \<open>live h\<close> are the blocks handed out and not yet given back. A request of a size that is not
  \<open>allowed\<close> is outside the contract; so is giving back a pointer that is not live, null apart.
\<close>

locale allocator =
  fixes alloc :: "addr \<Rightarrow> 'h \<Rightarrow> 'h \<times> addr"
    and release :: "addr \<Rightarrow> 'h \<Rightarrow> 'h"
    and live :: "'h \<Rightarrow> addr set"
    and heap_ok :: "'h \<Rightarrow> bool"
    and allowed :: "addr \<Rightarrow> bool"
  assumes alloc_ok: "heap_ok h \<Longrightarrow> allowed n \<Longrightarrow> heap_ok (fst (alloc n h))"
    and alloc_fresh:
      "heap_ok h \<Longrightarrow> allowed n \<Longrightarrow> snd (alloc n h) \<noteq> NULL \<Longrightarrow>
         snd (alloc n h) \<notin> live h \<and> live (fst (alloc n h)) = insert (snd (alloc n h)) (live h)"
    and alloc_fails:
      "heap_ok h \<Longrightarrow> allowed n \<Longrightarrow> snd (alloc n h) = NULL \<Longrightarrow> live (fst (alloc n h)) = live h"
    and release_ok: "heap_ok h \<Longrightarrow> p = NULL \<or> p \<in> live h \<Longrightarrow> heap_ok (release p h)"
    and release_live:
      "heap_ok h \<Longrightarrow> p = NULL \<or> p \<in> live h \<Longrightarrow> live (release p h) = live h - {p}"
    and live_not_NULL: "heap_ok h \<Longrightarrow> NULL \<notin> live h"
begin

lemma live_alloc_mono:
  "heap_ok h \<Longrightarrow> allowed n \<Longrightarrow> live h \<subseteq> live (fst (alloc n h))"
  by (cases "snd (alloc n h) = NULL") (use alloc_fails alloc_fresh in auto)

lemma live_alloc_fresh:
  "heap_ok h \<Longrightarrow> allowed n \<Longrightarrow> snd (alloc n h) \<noteq> NULL \<Longrightarrow> snd (alloc n h) \<notin> live h"
  using alloc_fresh by blast

text \<open>Giving back what has just been handed out restores the set of live blocks.\<close>

lemma release_alloc_live:
  assumes "heap_ok h" "allowed n"
  shows "live (release (snd (alloc n h)) (fst (alloc n h))) = live h"
proof (cases "snd (alloc n h) = NULL")
  case True
  then show ?thesis
    using assms alloc_ok alloc_fails release_live live_not_NULL by simp
next
  case False
  then show ?thesis
    using assms alloc_ok alloc_fresh [OF assms False] release_live [of "fst (alloc n h)"] by auto
qed

end

section \<open>Chunk headers and the two operations\<close>

record chunk =
  c_next :: addr
  c_size :: addr
  c_free :: byte

type_synonym cmem = "addr \<Rightarrow> chunk"

text \<open>\<^verbatim>\<open>sizeof(chunk_t)\<close> with packed structs: two 16-bit words and a char.\<close>

abbreviation hdr :: addr where
  "hdr \<equiv> 5"

definition set_next :: "addr \<Rightarrow> addr \<Rightarrow> cmem \<Rightarrow> cmem" where
  "set_next p v cm = cm(p := (cm p)\<lparr>c_next := v\<rparr>)"

definition set_size :: "addr \<Rightarrow> addr \<Rightarrow> cmem \<Rightarrow> cmem" where
  "set_size p v cm = cm(p := (cm p)\<lparr>c_size := v\<rparr>)"

definition set_free :: "addr \<Rightarrow> byte \<Rightarrow> cmem \<Rightarrow> cmem" where
  "set_free p v cm = cm(p := (cm p)\<lparr>c_free := v\<rparr>)"

lemmas cset_defs = set_next_def set_size_def set_free_def

text \<open>The split of a chunk that is bigger than the request (lines 25 to 36).\<close>

definition split_chunk :: "addr \<Rightarrow> addr \<Rightarrow> cmem \<Rightarrow> cmem" where
  "split_chunk it len cm =
     (let ch = it + len + hdr;
          cm1 = set_next ch (c_next (cm it)) cm;
          cm2 = set_next it ch cm1;
          cm3 = set_free ch (c_free (cm2 it)) cm2;
          cm4 = set_size ch (c_size (cm3 it) - (len + hdr)) cm3;
          cm5 = set_size it (c_size (cm4 it) - c_size (cm4 ch)) cm4
      in set_free it 0 cm5)"

partial_function (option) do_malloc_loop :: "addr \<Rightarrow> addr \<Rightarrow> cmem \<Rightarrow> (cmem \<times> addr) option" where
  "do_malloc_loop it len cm =
     (if it = NULL then Some (cm, NULL)
      else if c_free (cm it) = 0 then do_malloc_loop (c_next (cm it)) len cm
      else if len + hdr > c_size (cm it) then do_malloc_loop (c_next (cm it)) len cm
      else if len + hdr + hdr \<ge> c_size (cm it) then Some (set_free it 0 cm, it + hdr)
      else Some (split_chunk it len cm, it + hdr))"

definition do_malloc :: "addr \<Rightarrow> addr \<Rightarrow> cmem \<Rightarrow> (cmem \<times> addr) option" where
  "do_malloc it len cm = (if len = 0 then Some (cm, NULL) else do_malloc_loop it len cm)"

text \<open>The inner and the outer loop of \<^verbatim>\<open>do_free\<close>.\<close>

partial_function (option) merge_next :: "addr \<Rightarrow> cmem \<Rightarrow> cmem option" where
  "merge_next it cm =
     (if c_free (cm it) \<noteq> 0 \<and> c_next (cm it) \<noteq> NULL \<and> c_free (cm (c_next (cm it))) \<noteq> 0
      then let cm1 = set_size it (c_size (cm it) + c_size (cm (c_next (cm it)))) cm
           in merge_next it (set_next it (c_next (cm1 (c_next (cm1 it)))) cm1)
      else Some cm)"

partial_function (option) merge_loop :: "addr \<Rightarrow> cmem \<Rightarrow> cmem option" where
  "merge_loop it cm =
     (if it = NULL then Some cm
      else Option.bind (merge_next it cm) (\<lambda>cm'. merge_loop (c_next (cm' it)) cm'))"

definition do_free :: "addr \<Rightarrow> addr \<Rightarrow> cmem \<Rightarrow> cmem option" where
  "do_free it p cm =
     (if p = NULL then Some cm else merge_loop it (set_free (p - hdr) 1 cm))"

definition chunklist_init :: "addr \<Rightarrow> addr \<Rightarrow> cmem \<Rightarrow> cmem" where
  "chunklist_init it heap_size cm = set_next it NULL (set_size it heap_size (set_free it 1 cm))"

section \<open>The heap as a list of chunks\<close>

type_synonym chunks = "(addr \<times> byte) list"

text \<open>
  \<open>tiled cm a cs\<close>: the headers that start at \<open>a\<close> describe chunks of the sizes and marks of \<open>cs\<close>,
  each starting where the one before ends.
\<close>

fun tiled :: "cmem \<Rightarrow> addr \<Rightarrow> chunks \<Rightarrow> bool" where
  "tiled cm a [] \<longleftrightarrow> a = NULL"
| "tiled cm a ((sz, fr) # cs) \<longleftrightarrow>
     a \<noteq> NULL \<and> c_size (cm a) = sz \<and> c_free (cm a) = fr \<and> hdr \<le> sz \<and>
     c_next (cm a) = (if cs = [] then NULL else a + sz) \<and> tiled cm (c_next (cm a)) cs"

definition total :: "chunks \<Rightarrow> nat" where
  "total cs = (\<Sum>(sz, fr) \<leftarrow> cs. unat sz)"

text \<open>The pointers handed out: just behind the header of every chunk that is not free.\<close>

fun busy :: "addr \<Rightarrow> chunks \<Rightarrow> addr set" where
  "busy a [] = {}"
| "busy a ((sz, fr) # cs) = (if fr = 0 then {a + hdr} else {}) \<union> busy (a + sz) cs"

definition in_range :: "addr \<Rightarrow> chunks \<Rightarrow> bool" where
  "in_range a cs \<longleftrightarrow> unat a + total cs < 2 ^ 16"

text \<open>First fit on the list, and the merge of neighbouring free chunks.\<close>

fun malloc_list :: "addr \<Rightarrow> addr \<Rightarrow> chunks \<Rightarrow> chunks \<times> addr" where
  "malloc_list len a [] = ([], NULL)"
| "malloc_list len a ((sz, fr) # cs) =
     (if fr = 0 \<or> len + hdr > sz
      then (let (cs', p) = malloc_list len (a + sz) cs in ((sz, fr) # cs', p))
      else if len + hdr + hdr \<ge> sz then ((sz, 0) # cs, a + hdr)
      else ((len + hdr, 0) # (sz - (len + hdr), fr) # cs, a + hdr))"

fun merge_list :: "chunks \<Rightarrow> chunks" where
  "merge_list [] = []"
| "merge_list [c] = [c]"
| "merge_list ((sz, fr) # (sz', fr') # cs) =
     (if fr \<noteq> 0 \<and> fr' \<noteq> 0 then merge_list ((sz + sz', fr) # cs)
      else (sz, fr) # merge_list ((sz', fr') # cs))"

fun mark_free :: "addr \<Rightarrow> addr \<Rightarrow> chunks \<Rightarrow> chunks" where
  "mark_free p a [] = []"
| "mark_free p a ((sz, fr) # cs) =
     (if p = a + hdr then (sz, 1) # cs else (sz, fr) # mark_free p (a + sz) cs)"

section \<open>The operations on a tiled heap\<close>

definition ptr :: "addr \<Rightarrow> chunks \<Rightarrow> addr" where
  "ptr a cs = (if cs = [] then NULL else a)"

lemma ptr_simps [simp]: "ptr a [] = NULL" "ptr a (c # cs) = a"
  by (simp_all add: ptr_def)

lemma total_simps [simp]: "total [] = 0" "total ((sz, fr) # cs) = unat sz + total cs"
  by (simp_all add: total_def)

lemma tiled_Cons [simp]:
  "tiled cm a ((sz, fr) # cs) \<longleftrightarrow>
     a \<noteq> NULL \<and> c_size (cm a) = sz \<and> c_free (cm a) = fr \<and> hdr \<le> sz \<and>
     c_next (cm a) = ptr (a + sz) cs \<and> tiled cm (ptr (a + sz) cs) cs"
  by (auto simp: ptr_def)

declare tiled.simps(2) [simp del]

lemma in_range_Cons:
  "in_range a ((sz, fr) # cs) \<Longrightarrow> unat (a + sz) = unat a + unat sz \<and> in_range (a + sz) cs"
  by (auto simp: in_range_def unat_plus)

lemma hdr_le: "hdr \<le> sz \<Longrightarrow> 5 \<le> unat sz"
  by (simp add: word_le_nat_alt)

lemma tiled_cong:
  assumes "\<And>b. unat a \<le> unat b \<Longrightarrow> cm' b = cm b" "in_range a cs"
  shows "tiled cm' (ptr a cs) cs = tiled cm (ptr a cs) cs"
  using assms
proof (induction cs arbitrary: a)
  case (Cons c cs)
  obtain sz fr where c: "c = (sz, fr)" by (cases c)
  have r: "unat (a + sz) = unat a + unat sz" "in_range (a + sz) cs"
    using Cons.prems(2) in_range_Cons unfolding c by blast+
  have "tiled cm' (ptr (a + sz) cs) cs = tiled cm (ptr (a + sz) cs) cs"
    using Cons.prems(1) r by (intro Cons.IH) auto
  with Cons.prems(1) [of a] show ?case by (auto simp: c)
qed simp

text \<open>The pointers handed out lie inside the heap, and are all different.\<close>

lemma busy_bounds:
  "tiled cm (ptr a cs) cs \<Longrightarrow> in_range a cs \<Longrightarrow> p \<in> busy a cs \<Longrightarrow>
     unat a + 5 \<le> unat p \<and> unat p \<le> unat a + total cs"
proof (induction cs arbitrary: a)
  case (Cons c cs)
  obtain sz fr where c: "c = (sz, fr)" by (cases c)
  have r: "unat (a + sz) = unat a + unat sz" "in_range (a + sz) cs"
    using Cons.prems(2) in_range_Cons unfolding c by blast+
  have sz: "5 \<le> unat sz" using Cons.prems(1) by (simp add: c hdr_le)
  have "unat (a + hdr) = unat a + 5"
    using sz Cons.prems(2) by (subst unat_plus) (auto simp: in_range_def c)
  then show ?case
    using Cons.IH [of "a + sz"] Cons.prems r sz by (auto simp: c split: if_splits)
qed simp

lemma tiled_unique: "tiled cm a cs \<Longrightarrow> tiled cm a cs' \<Longrightarrow> cs = cs'"
proof (induction cs arbitrary: a cs')
  case Nil
  then show ?case by (cases cs') auto
next
  case (Cons c cs)
  obtain sz fr where c: "c = (sz, fr)" by (cases c)
  from Cons.prems c obtain ds where ds: "cs' = (sz, fr) # ds"
    by (cases cs') auto
  with Cons.prems c have "tiled cm (c_next (cm a)) cs" "tiled cm (c_next (cm a)) ds" by auto
  with Cons.IH c ds show ?case by blast
qed

subsection \<open>Allocation\<close>

lemma malloc_list_Nil_iff [simp]: "fst (malloc_list len a cs) = [] \<longleftrightarrow> cs = []"
  by (cases "(len, a, cs)" rule: malloc_list.cases) (auto split: prod.splits)

lemma split_tiled:
  assumes t: "tiled cm a ((sz, fr) # cs)" and r: "in_range a ((sz, fr) # cs)"
    and len: "unat len + 10 < 2 ^ 16" and big: "len + hdr + hdr < sz"
  shows "tiled (split_chunk a len cm) a ((len + hdr, 0) # (sz - (len + hdr), fr) # cs)"
proof -
  have u: "unat (len + hdr) = unat len + 5" "unat (len + hdr + hdr) = unat len + 10"
    using len by (simp_all add: unat_word_ariths)
  have big': "unat len + 10 < unat sz" using big u by (simp add: word_less_nat_alt)
  then have le: "len + hdr \<le> sz" using u by (simp add: word_le_nat_alt)
  have ch: "unat (a + (len + hdr)) = unat a + unat len + 5"
    using r big' u by (subst unat_plus) (auto simp: in_range_def)
  have ne: "a + (len + hdr) \<noteq> a" "a + (len + hdr) \<noteq> NULL"
    using ch by (metis add_is_0 unat_0 add_eq_self_zero zero_neq_numeral add.assoc)+
  have sz': "unat (sz - (len + hdr)) = unat sz - unat len - 5"
    using u le by (simp add: unat_minus)
  have nx: "unat (a + sz) = unat a + unat sz" "in_range (a + sz) cs"
    using r in_range_Cons by blast+
  have rest: "tiled (split_chunk a len cm) (ptr (a + sz) cs) cs"
  proof -
    have "tiled (split_chunk a len cm) (ptr (a + sz) cs) cs = tiled cm (ptr (a + sz) cs) cs"
      using nx ch big'
      by (intro tiled_cong) (auto simp: split_chunk_def Let_def cset_defs add.assoc)
    with t show ?thesis by simp
  qed
  show ?thesis
    using t ne rest u sz' big' le
    by (auto simp: split_chunk_def Let_def cset_defs word_le_nat_alt add.assoc)
qed

lemma split_chunk_below: "unat b < unat a \<Longrightarrow> unat a + unat len + 5 < 2 ^ 16 \<Longrightarrow> split_chunk a len cm b = cm b"
  by (auto simp: split_chunk_def Let_def cset_defs unat_word_ariths)

lemma malloc_loop_tiled:
  "tiled cm (ptr a cs) cs \<Longrightarrow> in_range a cs \<Longrightarrow> unat len + 10 < 2 ^ 16 \<Longrightarrow>
   \<exists>cm'. do_malloc_loop (ptr a cs) len cm = Some (cm', snd (malloc_list len a cs)) \<and>
         tiled cm' (ptr a cs) (fst (malloc_list len a cs)) \<and> (\<forall>b. unat b < unat a \<longrightarrow> cm' b = cm b)"
proof (induction len a cs rule: malloc_list.induct)
  case (1 len a)
  then show ?case by (simp add: do_malloc_loop.simps)
next
  case (2 len a sz fr cs)
  note r = in_range_Cons [OF "2.prems"(2)]
  have len: "unat (len + hdr) = unat len + 5" using "2.prems"(3) by (simp add: unat_word_ariths)
  consider (skip) "fr = 0 \<or> len + hdr > sz" | (fit) "fr \<noteq> 0" "len + hdr \<le> sz" "len + hdr + hdr \<ge> sz"
    | (split) "fr \<noteq> 0" "len + hdr + hdr < sz"
    by (meson linorder_not_le)
  then show ?case
  proof cases
    case skip
    then obtain cm' where cm': "do_malloc_loop (ptr (a + sz) cs) len cm =
          Some (cm', snd (malloc_list len (a + sz) cs))"
        "tiled cm' (ptr (a + sz) cs) (fst (malloc_list len (a + sz) cs))"
        "\<forall>b. unat b < unat (a + sz) \<longrightarrow> cm' b = cm b"
      using "2.IH" "2.prems" r by auto
    have "cm' a = cm a" using cm'(3) r "2.prems"(1) hdr_le [of sz] by auto
    with cm' skip "2.prems"(1) r show ?thesis
      by (auto simp: do_malloc_loop.simps [of a] ptr_def split: prod.splits)
  next
    case fit
    have "tiled (set_free a 0 cm) (ptr (a + sz) cs) cs = tiled cm (ptr (a + sz) cs) cs"
      using r "2.prems"(1) hdr_le [of sz] by (intro tiled_cong) (auto simp: cset_defs)
    with fit "2.prems"(1) show ?thesis
      by (auto simp: do_malloc_loop.simps [of a] cset_defs)
  next
    case split
    have "\<not> len + hdr > sz"
      using split len "2.prems"(3) by (auto simp: word_less_nat_alt unat_word_ariths)
    moreover have "unat a + unat len + 5 < 2 ^ 16"
      using "2.prems"(2,3) split by (auto simp: in_range_def word_less_nat_alt unat_word_ariths)
    ultimately show ?thesis
      using split "2.prems" split_tiled [OF _ "2.prems"(2,3)]
      by (auto simp: do_malloc_loop.simps [of a] split_chunk_below)
  qed
qed

text \<open>What the list function does, under the same conditions.\<close>

lemma malloc_list_total:
  "in_range a cs \<Longrightarrow> unat len + 10 < 2 ^ 16 \<Longrightarrow> total (fst (malloc_list len a cs)) = total cs"
proof (induction len a cs rule: malloc_list.induct)
  case (2 len a sz fr cs)
  have "len + hdr + hdr < sz \<Longrightarrow> unat (len + hdr) + unat (sz - (len + hdr)) = unat sz"
    using "2.prems"(2) by (subst unat_minus) (auto simp: word_less_nat_alt word_le_nat_alt unat_word_ariths)
  then show ?case
    using 2 in_range_Cons [OF "2.prems"(1)] by (auto split: prod.splits)
qed simp

lemma malloc_list_room:
  assumes "tiled cm (ptr a cs) cs" "in_range a cs" "unat len + 10 < 2 ^ 16"
    and "snd (malloc_list len a cs) \<noteq> NULL"
  shows "unat a + 5 \<le> unat (snd (malloc_list len a cs)) \<and>
         unat (snd (malloc_list len a cs)) + unat len \<le> unat a + total cs"
  using assms
proof (induction len a cs rule: malloc_list.induct)
  case (2 len a sz fr cs)
  have r: "unat (a + sz) = unat a + unat sz" "in_range (a + sz) cs"
    using in_range_Cons [OF "2.prems"(2)] by blast+
  have len: "unat (len + hdr) = unat len + 5" using "2.prems"(3) by (simp add: unat_word_ariths)
  have "unat (a + hdr) = unat a + 5"
    using "2.prems"(1,2) hdr_le [of sz] by (subst unat_plus) (auto simp: in_range_def)
  then show ?case
    using 2 r len by (auto simp: word_less_nat_alt split: prod.splits if_splits)
qed simp

lemma malloc_list_NULL_iff:
  assumes "tiled cm (ptr a cs) cs" "in_range a cs" "unat len + 10 < 2 ^ 16"
  shows "snd (malloc_list len a cs) = NULL \<longleftrightarrow> (\<forall>(sz, fr) \<in> set cs. fr = 0 \<or> sz < len + hdr)"
  using assms
proof (induction len a cs rule: malloc_list.induct)
  case (2 len a sz fr cs)
  have "unat (a + hdr) = unat a + 5"
    using "2.prems"(1,2) hdr_le [of sz] by (subst unat_plus) (auto simp: in_range_def)
  then have "a + hdr \<noteq> NULL" by (metis add_is_0 unat_0 zero_neq_numeral)
  then show ?case
    using 2 in_range_Cons [OF "2.prems"(2)] by (auto split: prod.splits if_splits)
qed simp

lemma malloc_list_busy:
  assumes "tiled cm (ptr a cs) cs" "in_range a cs" "unat len + 10 < 2 ^ 16"
    and "snd (malloc_list len a cs) \<noteq> NULL"
  shows "snd (malloc_list len a cs) \<notin> busy a cs \<and>
         busy a (fst (malloc_list len a cs)) = insert (snd (malloc_list len a cs)) (busy a cs)"
  using assms
proof (induction len a cs rule: malloc_list.induct)
  case (2 len a sz fr cs)
  note r = in_range_Cons [OF "2.prems"(2)]
  have sz: "5 \<le> unat sz" using "2.prems"(1) by (simp add: hdr_le)
  have a5: "unat (a + hdr) = unat a + 5"
    using "2.prems"(2) sz by (subst unat_plus) (auto simp: in_range_def)
  have rest: "tiled cm (ptr (a + sz) cs) cs" "in_range (a + sz) cs" using "2.prems"(1) r by auto
  have a5_out: "a + hdr \<notin> busy (a + sz) cs"
    using busy_bounds [OF rest] a5 r sz by fastforce
  show ?case
  proof (cases "fr = 0 \<or> len + hdr > sz")
    case True
    with "2.prems"(4) have nn: "snd (malloc_list len (a + sz) cs) \<noteq> NULL"
      by (auto split: prod.splits)
    moreover have "snd (malloc_list len (a + sz) cs) \<noteq> a + hdr"
      using malloc_list_room [OF rest "2.prems"(3) nn] a5 r sz by auto
    ultimately show ?thesis
      using True "2.IH" rest "2.prems"(3) by (auto split: prod.splits)
  next
    case False
    then show ?thesis using a5_out by auto
  qed
qed simp

lemma malloc_list_fails:
  "snd (malloc_list len a cs) = NULL \<Longrightarrow> tiled cm (ptr a cs) cs \<Longrightarrow> in_range a cs \<Longrightarrow>
   unat len + 10 < 2 ^ 16 \<Longrightarrow> fst (malloc_list len a cs) = cs"
proof (induction len a cs rule: malloc_list.induct)
  case (2 len a sz fr cs)
  have "unat (a + hdr) = unat a + 5"
    using "2.prems"(2,3) hdr_le [of sz] by (subst unat_plus) (auto simp: in_range_def)
  then have "a + hdr \<noteq> NULL" by (metis add_is_0 unat_0 zero_neq_numeral)
  then show ?case
    using 2 in_range_Cons [OF "2.prems"(3)] by (auto split: prod.splits if_splits)
qed simp

subsection \<open>Release\<close>

lemma set_free_below: "unat b < unat a \<Longrightarrow> set_free a v cm b = cm b"
  by (auto simp: cset_defs)

lemma set_free_sels [simp]:
  "c_size (set_free p v cm b) = c_size (cm b)" "c_next (set_free p v cm b) = c_next (cm b)"
  "c_free (set_free p v cm b) = (if b = p then v else c_free (cm b))"
  by (simp_all add: cset_defs)

lemma mark_free_tiled:
  "tiled cm (ptr a cs) cs \<Longrightarrow> in_range a cs \<Longrightarrow> p \<in> busy a cs \<Longrightarrow>
   tiled (set_free (p - hdr) 1 cm) (ptr a cs) (mark_free p a cs) \<and> (mark_free p a cs = [] \<longleftrightarrow> cs = [])"
proof (induction p a cs rule: mark_free.induct)
  case (2 p a sz fr cs)
  note r = in_range_Cons [OF "2.prems"(2)]
  have sz: "5 \<le> unat sz" using "2.prems"(1) by (simp add: hdr_le)
  show ?case
  proof (cases "p = a + hdr")
    case True
    have "tiled (set_free a 1 cm) (ptr (a + sz) cs) cs = tiled cm (ptr (a + sz) cs) cs"
      using r sz by (intro tiled_cong) (auto simp: cset_defs)
    with True "2.prems"(1) show ?thesis by simp
  next
    case False
    have rest: "tiled cm (ptr (a + sz) cs) cs" "in_range (a + sz) cs" "p \<in> busy (a + sz) cs"
      using "2.prems" r False by (auto split: if_splits)
    then have "unat a + unat sz + 5 \<le> unat p" using busy_bounds r by metis
    then have "p - hdr \<noteq> a" using sz by (metis add_le_same_cancel1 diff_add_cancel False)
    with rest 2 False show ?thesis by (auto simp: ptr_def)
  qed
qed simp

lemma mark_free_list:
  "tiled cm (ptr a cs) cs \<Longrightarrow> in_range a cs \<Longrightarrow> p \<in> busy a cs \<Longrightarrow>
   busy a (mark_free p a cs) = busy a cs - {p} \<and> total (mark_free p a cs) = total cs"
proof (induction p a cs rule: mark_free.induct)
  case (2 p a sz fr cs)
  note r = in_range_Cons [OF "2.prems"(2)]
  have sz: "5 \<le> unat sz" using "2.prems"(1) by (simp add: hdr_le)
  have a5: "unat (a + hdr) = unat a + 5"
    using "2.prems"(2) sz by (subst unat_plus) (auto simp: in_range_def)
  have rest: "tiled cm (ptr (a + sz) cs) cs" "in_range (a + sz) cs" using "2.prems"(1) r by auto
  have "a + hdr \<notin> busy (a + sz) cs" using busy_bounds [OF rest] a5 r sz by fastforce
  then show ?case using 2 rest by (auto split: if_splits)
qed simp

lemma merge_loop_merged:
  assumes "c_free (cm a) \<noteq> 0" "c_next (cm a) \<noteq> NULL" "c_free (cm (c_next (cm a))) \<noteq> 0" "a \<noteq> NULL"
  shows "merge_loop a cm =
    merge_loop a (set_next a (c_next (cm (c_next (cm a))))
      (set_size a (c_size (cm a) + c_size (cm (c_next (cm a)))) cm))"
  using assms
  by (simp add: merge_loop.simps [of a] merge_next.simps [of a cm] Let_def) (simp add: cset_defs)

lemma merge_loop_tiled:
  "tiled cm (ptr a cs) cs \<Longrightarrow> in_range a cs \<Longrightarrow>
   \<exists>cm'. merge_loop (ptr a cs) cm = Some cm' \<and> tiled cm' (ptr a cs) (merge_list cs) \<and>
         (\<forall>b. unat b < unat a \<longrightarrow> cm' b = cm b)"
proof (induction cs arbitrary: a cm rule: merge_list.induct)
  case 1
  then show ?case by (simp add: merge_loop.simps)
next
  case (2 c)
  then show ?case
    by (cases c) (auto simp: merge_loop.simps [of a] merge_next.simps [of a] merge_loop.simps [of NULL])
next
  case (3 sz fr sz' fr' cs)
  have r: "unat (a + sz) = unat a + unat sz" "in_range (a + sz) ((sz', fr') # cs)"
    using in_range_Cons [OF "3.prems"(2)] by blast+
  have r': "unat (a + sz + sz') = unat a + unat sz + unat sz'" "in_range (a + sz + sz') cs"
    using in_range_Cons [OF r(2)] r(1) by auto
  have sz: "5 \<le> unat sz" "5 \<le> unat sz'" using "3.prems"(1) by (simp_all add: hdr_le)
  have szs: "unat (sz + sz') = unat sz + unat sz'"
    using "3.prems"(2) by (subst unat_plus) (auto simp: in_range_def)
  show ?case
  proof (cases "fr \<noteq> 0 \<and> fr' \<noteq> 0")
    case True
    let ?cm = "set_next a (c_next (cm (a + sz))) (set_size a (sz + sz') cm)"
    have "tiled ?cm (ptr (a + sz + sz') cs) cs = tiled cm (ptr (a + sz + sz') cs) cs"
      using r r' sz by (intro tiled_cong) (auto simp: cset_defs)
    then have t: "tiled ?cm (ptr a ((sz + sz', fr) # cs)) ((sz + sz', fr) # cs)"
      using "3.prems"(1) sz szs by (auto simp: cset_defs word_le_nat_alt add.assoc)
    have ir: "in_range a ((sz + sz', fr) # cs)"
      using "3.prems"(2) szs by (simp add: in_range_def)
    have "merge_loop a cm = merge_loop a ?cm"
      using merge_loop_merged [of cm a] "3.prems"(1) True by simp
    moreover obtain cm' where "merge_loop a ?cm = Some cm'"
        "tiled cm' a (merge_list ((sz + sz', fr) # cs))" "\<forall>b. unat b < unat a \<longrightarrow> cm' b = ?cm b"
      using "3.IH"(1) [OF True t ir] by auto
    ultimately show ?thesis using True by (auto simp: cset_defs)
  next
    case False
    obtain cm' where cm': "merge_loop (a + sz) cm = Some cm'"
        "tiled cm' (a + sz) (merge_list ((sz', fr') # cs))" "\<forall>b. unat b < unat (a + sz) \<longrightarrow> cm' b = cm b"
      using "3.IH"(2) [OF False, of cm "a + sz"] "3.prems"(1) r(2) by auto
    have "cm' a = cm a" using cm'(3) r sz by auto
    moreover have "merge_list ((sz', fr') # cs) \<noteq> []" using cm'(2) "3.prems"(1) by auto
    ultimately show ?thesis
      using cm' False "3.prems"(1) r
      by (auto simp: merge_loop.simps [of a] merge_next.simps [of a] ptr_def)
  qed
qed

lemma merge_list_busy: "busy a (merge_list cs) = busy a cs"
  by (induction cs arbitrary: a rule: merge_list.induct) (auto simp: add.assoc)

lemma merge_list_total: "in_range a cs \<Longrightarrow> total (merge_list cs) = total cs"
proof (induction cs arbitrary: a rule: merge_list.induct)
  case (3 sz fr sz' fr' cs)
  have "unat (sz + sz') = unat sz + unat sz'"
    using "3.prems" by (subst unat_plus) (auto simp: in_range_def)
  then show ?case
    using "3.IH"(1) [of a] "3.IH"(2) [of "a + sz"] "3.prems" in_range_Cons [OF "3.prems"]
    by (auto simp: in_range_def)
qed simp_all

text \<open>No two neighbouring chunks are free.\<close>

fun coalesced :: "chunks \<Rightarrow> bool" where
  "coalesced ((sz, fr) # (sz', fr') # cs) \<longleftrightarrow> (fr = 0 \<or> fr' = 0) \<and> coalesced ((sz', fr') # cs)"
| "coalesced _ \<longleftrightarrow> True"

lemma merge_list_first: "merge_list ((sz, fr) # cs) = c # ds \<Longrightarrow> snd c = fr"
  by (induction "(sz, fr) # cs" arbitrary: sz fr cs rule: merge_list.induct) (auto split: if_splits)

lemma merge_list_coalesced: "coalesced (merge_list cs)"
proof (induction cs rule: merge_list.induct)
  case (3 sz fr sz' fr' cs)
  show ?case
  proof (cases "fr \<noteq> 0 \<and> fr' \<noteq> 0")
    case False
    then show ?thesis
      using "3.IH"(2) merge_list_first [of sz' fr' cs]
      by (cases "merge_list ((sz', fr') # cs)") auto
  qed (use 3 in simp)
qed auto

lemma coalesced_merge_id: "coalesced cs \<Longrightarrow> merge_list cs = cs"
  by (induction cs rule: merge_list.induct) auto

text \<open>The new block overlaps no chunk that was in use.\<close>

lemma malloc_list_apart:
  assumes "tiled cm (ptr a cs) cs" "in_range a cs" "unat len + 10 < 2 ^ 16"
    and "snd (malloc_list len a cs) \<noteq> NULL" and "q \<in> busy a cs"
  shows "unat (snd (malloc_list len a cs)) + unat len + 5 \<le> unat q \<or>
         unat q + unat (c_size (cm (q - hdr))) \<le> unat (snd (malloc_list len a cs))"
  using assms
proof (induction len a cs rule: malloc_list.induct)
  case (2 len a sz fr cs)
  note r = in_range_Cons [OF "2.prems"(2)]
  have sz: "5 \<le> unat sz" using "2.prems"(1) by (simp add: hdr_le)
  have a5: "unat (a + hdr) = unat a + 5"
    using "2.prems"(2) sz by (subst unat_plus) (auto simp: in_range_def)
  have len: "unat (len + hdr) = unat len + 5" using "2.prems"(3) by (simp add: unat_word_ariths)
  have rest: "tiled cm (ptr (a + sz) cs) cs" "in_range (a + sz) cs" using "2.prems"(1) r by auto
  show ?case
  proof (cases "fr = 0 \<or> len + hdr > sz")
    case True
    with "2.prems"(4) have nn: "snd (malloc_list len (a + sz) cs) \<noteq> NULL"
      by (auto split: prod.splits)
    show ?thesis
    proof (cases "q \<in> busy (a + sz) cs")
      case in_rest: True
      with "2.IH" True rest "2.prems"(3) nn show ?thesis by (auto split: prod.splits)
    next
      case False
      then have "q = a + hdr" using "2.prems"(5) by (auto split: if_splits)
      then show ?thesis
        using malloc_list_room [OF rest "2.prems"(3) nn] True a5 r "2.prems"(1)
        by (auto split: prod.splits)
    qed
  next
    case False
    then have "q \<in> busy (a + sz) cs" "unat len + 5 \<le> unat sz"
      using "2.prems"(5) len by (auto simp: word_less_nat_alt)
    then show ?thesis using busy_bounds [OF rest] False a5 r by force
  qed
qed simp

lemma coalesced_all_free:
  "coalesced cs \<Longrightarrow> busy a cs = {} \<Longrightarrow> cs \<noteq> [] \<Longrightarrow> length cs = 1"
  by (cases cs rule: coalesced.cases) (auto split: if_splits)

section \<open>The allocator meets the contract\<close>

type_synonym chunk_heap = "addr \<times> cmem"

definition chunk_alloc :: "addr \<Rightarrow> chunk_heap \<Rightarrow> chunk_heap \<times> addr" where
  "chunk_alloc n h =
     (case do_malloc (fst h) n (snd h) of
        None \<Rightarrow> (h, NULL) | Some (cm, p) \<Rightarrow> ((fst h, cm), p))"

definition chunk_release :: "addr \<Rightarrow> chunk_heap \<Rightarrow> chunk_heap" where
  "chunk_release p h =
     (case do_free (fst h) p (snd h) of None \<Rightarrow> h | Some cm \<Rightarrow> (fst h, cm))"

definition chunk_heap_ok :: "chunk_heap \<Rightarrow> bool" where
  "chunk_heap_ok h \<longleftrightarrow> (\<exists>cs. cs \<noteq> [] \<and> tiled (snd h) (fst h) cs \<and> in_range (fst h) cs)"

definition chunk_live :: "chunk_heap \<Rightarrow> addr set" where
  "chunk_live h = {p. \<exists>cs. tiled (snd h) (fst h) cs \<and> p \<in> busy (fst h) cs}"

definition request_ok :: "addr \<Rightarrow> bool" where
  "request_ok n \<longleftrightarrow> unat n + 10 < 2 ^ 16"

lemma chunk_live_eq: "tiled (snd h) (fst h) cs \<Longrightarrow> chunk_live h = busy (fst h) cs"
  by (auto simp: chunk_live_def dest: tiled_unique)

lemma chunk_heap_cases:
  assumes "chunk_heap_ok h"
  obtains b cm cs where "h = (b, cm)" "cs \<noteq> []" "tiled cm (ptr b cs) cs" "in_range b cs"
    "chunk_live h = busy b cs" "ptr b cs = b"
  using assms chunk_live_eq by (cases h) (fastforce simp: chunk_heap_ok_def ptr_def)

lemma do_malloc_tiled:
  assumes "tiled cm b cs" "cs \<noteq> []" "in_range b cs" "request_ok len" "len \<noteq> 0"
  obtains cm' where "do_malloc b len cm = Some (cm', snd (malloc_list len b cs))"
    and "tiled cm' b (fst (malloc_list len b cs))"
  using assms malloc_loop_tiled [of cm b cs len]
  by (auto simp: do_malloc_def ptr_def request_ok_def)

lemma do_free_tiled:
  assumes "tiled cm b cs" "cs \<noteq> []" "in_range b cs" "p \<in> busy b cs"
  obtains cm' where "do_free b p cm = Some cm'" and "tiled cm' b (merge_list (mark_free p b cs))"
    and "busy b (merge_list (mark_free p b cs)) = busy b cs - {p}"
    and "total (merge_list (mark_free p b cs)) = total cs"
proof -
  have t: "tiled cm (ptr b cs) cs" using assms by (simp add: ptr_def)
  have "p \<noteq> NULL" using busy_bounds [OF t assms(3,4)] by auto
  note m = mark_free_tiled [OF t assms(3,4)] and l = mark_free_list [OF t assms(3,4)]
  have ir: "in_range b (mark_free p b cs)" using l assms(3) by (simp add: in_range_def)
  have "\<exists>cm'. merge_loop b (set_free (p - hdr) 1 cm) = Some cm' \<and>
      tiled cm' b (merge_list (mark_free p b cs))"
    using merge_loop_tiled [of "set_free (p - hdr) 1 cm" b "mark_free p b cs"] m ir assms(2)
    by (auto simp: ptr_def)
  then show thesis
    using that l \<open>p \<noteq> NULL\<close> merge_list_total [OF ir] by (auto simp: do_free_def merge_list_busy)
qed

lemma chunk_alloc_spec:
  assumes "chunk_heap_ok h" "request_ok n"
  shows "chunk_heap_ok (fst (chunk_alloc n h)) \<and>
    (if snd (chunk_alloc n h) = NULL then chunk_live (fst (chunk_alloc n h)) = chunk_live h
     else snd (chunk_alloc n h) \<notin> chunk_live h \<and>
          chunk_live (fst (chunk_alloc n h)) = insert (snd (chunk_alloc n h)) (chunk_live h))"
proof -
  from assms(1) obtain b cm cs where h: "h = (b, cm)" "cs \<noteq> []" "tiled cm (ptr b cs) cs" "in_range b cs"
      "chunk_live h = busy b cs" "ptr b cs = b"
    by (rule chunk_heap_cases)
  show ?thesis
  proof (cases "n = 0")
    case False
    then obtain cm' where cm': "do_malloc b n cm = Some (cm', snd (malloc_list n b cs))"
        "tiled cm' b (fst (malloc_list n b cs))"
      using do_malloc_tiled [of cm b cs n] h assms(2) by auto
    have "chunk_heap_ok (b, cm')"
      using cm'(2) h malloc_list_total [of b cs n] assms(2)
      by (auto simp: chunk_heap_ok_def in_range_def request_ok_def intro: exI [of _ "fst (malloc_list n b cs)"])
    then show ?thesis
      using cm' h malloc_list_fails [OF _ h(3,4)] malloc_list_busy [OF h(3,4)] assms(2)
        chunk_live_eq [of "(b, cm')"]
      by (auto simp: chunk_alloc_def request_ok_def)
  qed (use assms in \<open>simp add: chunk_alloc_def do_malloc_def\<close>)
qed

lemma chunk_release_spec:
  assumes "chunk_heap_ok h" "p = NULL \<or> p \<in> chunk_live h"
  shows "chunk_heap_ok (chunk_release p h) \<and> chunk_live (chunk_release p h) = chunk_live h - {p}"
proof -
  from assms(1) obtain b cm cs where h: "h = (b, cm)" "cs \<noteq> []" "tiled cm (ptr b cs) cs" "in_range b cs"
      "chunk_live h = busy b cs" "ptr b cs = b"
    by (rule chunk_heap_cases)
  show ?thesis
  proof (cases "p = NULL")
    case True
    have "NULL \<notin> busy b cs" using busy_bounds [OF h(3,4), of NULL] by auto
    with True h assms show ?thesis by (simp add: chunk_release_def do_free_def)
  next
    case False
    with assms h obtain cm' where cm': "do_free b p cm = Some cm'"
        "tiled cm' b (merge_list (mark_free p b cs))"
        "busy b (merge_list (mark_free p b cs)) = busy b cs - {p}"
        "total (merge_list (mark_free p b cs)) = total cs"
      using do_free_tiled [of cm b cs p] by auto
    have "b \<noteq> NULL" using h by (cases cs) auto
    then have "merge_list (mark_free p b cs) \<noteq> []" using cm'(2) by auto
    then have "chunk_heap_ok (b, cm')"
      unfolding chunk_heap_ok_def in_range_def
      by (rule_tac exI [of _ "merge_list (mark_free p b cs)"]) (use cm' h in \<open>simp add: in_range_def\<close>)
    with cm' h show ?thesis
      using chunk_live_eq [of "(b, cm')"] by (simp add: chunk_release_def)
  qed
qed

lemma chunk_live_not_NULL:
  assumes "chunk_heap_ok h"
  shows "NULL \<notin> chunk_live h"
proof -
  from assms obtain b cm cs where h: "tiled cm (ptr b cs) cs" "in_range b cs" "chunk_live h = busy b cs"
    by (rule chunk_heap_cases)
  then show ?thesis using busy_bounds [OF h(1,2), of NULL] by auto
qed

interpretation chunk_heap: allocator chunk_alloc chunk_release chunk_live chunk_heap_ok request_ok
proof (unfold_locales, goal_cases)
  case (1 h n)
  then show ?case using chunk_alloc_spec by blast
next
  case (2 h n)
  then show ?case using chunk_alloc_spec [of h n] by simp
next
  case (3 h n)
  then show ?case using chunk_alloc_spec [of h n] by simp
next
  case (4 h p)
  then show ?case using chunk_release_spec by blast
next
  case (5 h p)
  then show ?case using chunk_release_spec by blast
next
  case (6 h)
  then show ?case by (rule chunk_live_not_NULL)
qed

section \<open>Correctness of the allocator\<close>

text \<open>
  C36. \<^verbatim>\<open>do_malloc\<close> on a heap tiled by chunks always returns. It returns null exactly if no free chunk
  has room for the request and a header; otherwise the block lies inside the heap, was not in
  use, overlaps no block in use, and is the only one added. The chunks still tile the same heap.
\<close>

theorem do_malloc_correct:
  assumes "tiled cm b cs" and "cs \<noteq> []" and "in_range b cs" and "len \<noteq> 0" and "request_ok len"
  shows "\<exists>cm' p cs'. do_malloc b len cm = Some (cm', p) \<and> tiled cm' b cs' \<and> total cs' = total cs \<and>
    (p = NULL \<longleftrightarrow> (\<forall>(sz, fr) \<in> set cs. fr = 0 \<or> sz < len + hdr)) \<and>
    (p = NULL \<longrightarrow> cs' = cs) \<and>
    (p \<noteq> NULL \<longrightarrow> p \<notin> busy b cs \<and> busy b cs' = insert p (busy b cs) \<and>
       unat b + 5 \<le> unat p \<and> unat p + unat len \<le> unat b + total cs \<and>
       (\<forall>q \<in> busy b cs. unat p + unat len + 5 \<le> unat q \<or>
          unat q + unat (c_size (cm (q - hdr))) \<le> unat p))"
proof -
  have t: "tiled cm (ptr b cs) cs" and len: "unat len + 10 < 2 ^ 16"
    using assms by (simp_all add: ptr_def request_ok_def)
  obtain cm' where cm': "do_malloc b len cm = Some (cm', snd (malloc_list len b cs))"
      "tiled cm' b (fst (malloc_list len b cs))"
    using do_malloc_tiled assms by blast
  note facts = malloc_list_total [OF assms(3) len] malloc_list_NULL_iff [OF t assms(3) len]
    malloc_list_fails [OF _ t assms(3) len] malloc_list_busy [OF t assms(3) len]
    malloc_list_room [OF t assms(3) len] malloc_list_apart [OF t assms(3) len]
  show ?thesis
    by (rule exI [of _ cm'], rule exI [of _ "snd (malloc_list len b cs)"],
        rule exI [of _ "fst (malloc_list len b cs)"])
      (use cm' facts in blast)
qed

lemma chunklist_init_tiled:
  "b \<noteq> NULL \<Longrightarrow> hdr \<le> n \<Longrightarrow> tiled (chunklist_init b n cm) b [(n, 1)]"
  by (simp add: chunklist_init_def cset_defs)

theorem do_malloc_correct_witness:
  "\<exists>cm' p. do_malloc 256 128 (chunklist_init 256 1024 (\<lambda>_. \<lparr>c_next = 0, c_size = 0, c_free = 0\<rparr>))
     = Some (cm', p) \<and> p \<noteq> NULL \<and> unat p + 128 \<le> 256 + 1024"
  using do_malloc_correct [OF chunklist_init_tiled [of 256 1024 "\<lambda>_. \<lparr>c_next = 0, c_size = 0, c_free = 0\<rparr>"], of 128]
  by (auto simp: in_range_def request_ok_def)

text \<open>
  C37. \<^verbatim>\<open>do_free\<close> of a block in use always returns, gives back exactly that block and leaves no two
  neighbouring free chunks. Giving back the last block in use leaves one free chunk that is the
  whole heap, so the heap does not fragment for good.
\<close>

theorem do_free_correct:
  assumes "tiled cm b cs" and "cs \<noteq> []" and "in_range b cs" and "p \<in> busy b cs"
  shows "\<exists>cm' cs'. do_free b p cm = Some cm' \<and> tiled cm' b cs' \<and> coalesced cs' \<and>
    busy b cs' = busy b cs - {p} \<and> total cs' = total cs \<and>
    (busy b cs = {p} \<longrightarrow> (\<exists>sz fr. cs' = [(sz, fr)] \<and> unat sz = total cs))"
proof -
  obtain cm' where cm': "do_free b p cm = Some cm'" "tiled cm' b (merge_list (mark_free p b cs))"
      "busy b (merge_list (mark_free p b cs)) = busy b cs - {p}"
      "total (merge_list (mark_free p b cs)) = total cs"
    using do_free_tiled assms by blast
  let ?cs' = "merge_list (mark_free p b cs)"
  have "b \<noteq> NULL" using assms by (cases cs) auto
  then have "?cs' \<noteq> []" using cm'(2) by auto
  then have one: "busy b cs = {p} \<Longrightarrow> \<exists>sz fr. ?cs' = [(sz, fr)] \<and> unat sz = total cs"
    using coalesced_all_free [OF merge_list_coalesced, of b "mark_free p b cs"] cm'(3,4)
    by (auto simp: length_Suc_conv)
  show ?thesis
    by (rule exI [of _ cm'], rule exI [of _ ?cs']) (use cm' one merge_list_coalesced in blast)
qed

theorem do_free_correct_witness:
  "\<exists>cm' cs'. do_free 256 261 (set_free 256 0 (chunklist_init 256 1024 (\<lambda>_. \<lparr>c_next = 0, c_size = 0, c_free = 0\<rparr>)))
     = Some cm' \<and> tiled cm' 256 cs' \<and> (\<exists>sz fr. cs' = [(sz, fr)] \<and> unat sz = 1024)"
proof -
  have "tiled (set_free 256 0 (chunklist_init 256 1024 (\<lambda>_. \<lparr>c_next = 0, c_size = 0, c_free = 0\<rparr>)))
      256 [(1024, 0)]"
    by (simp add: chunklist_init_def cset_defs)
  from do_free_correct [OF this, of 261] show ?thesis by (auto simp: in_range_def)
qed

text \<open>
  The check for room wraps around: a request of 65531 bytes or more is served from any free chunk,
  however small, because \<^verbatim>\<open>len + sizeof(chunk_t)\<close> overflows the 16-bit size.
\<close>

theorem do_malloc_overflow:
  assumes "b \<noteq> NULL" and "hdr \<le> n" and "65531 \<le> unat len"
  shows "\<exists>cm'. do_malloc b len (chunklist_init b n cm) = Some (cm', b + hdr)"
proof -
  have "unat len < 65536" using unsigned_less [of len] by simp
  then have "(unat len + 5) mod 65536 = unat len + 5 - 65536"
    using assms(3) by (subst le_mod_geq) simp_all
  with \<open>unat len < 65536\<close> have "(unat len + 5) mod 65536 \<le> 4" by linarith
  then have small: "unat (len + hdr) \<le> 4" by (simp add: unat_word_ariths)
  have "\<not> n < len + hdr" using small assms(2) by (simp add: word_less_nat_alt word_le_nat_alt)
  moreover have "len \<noteq> 0" using assms(3) by auto
  ultimately show ?thesis
    using assms(1)
    by (auto simp: do_malloc_def do_malloc_loop.simps [of b] chunklist_init_def cset_defs)
qed

theorem do_malloc_overflow_witness:
  "\<exists>cm'. do_malloc 256 65533 (chunklist_init 256 16 (\<lambda>_. \<lparr>c_next = 0, c_size = 0, c_free = 0\<rparr>))
     = Some (cm', 261)"
  using do_malloc_overflow [of 256 16 65533] by simp

end
