(* ===== verification/Kernel_Inv.thy ===== *)
theory Kernel_Inv
  imports Kernel Chunk_Malloc
begin

text \<open>
  Correctness of the kernel model: every kernel call and every event keeps the queues of tasks
  well formed and the ownership of memory intact, the scheduler always finds the ready task with
  the highest priority, and messages are delivered exactly at a rendezvous.
\<close>

section \<open>Frame facts\<close>

lemma upd_ctxt_sels [simp]:
  "k_q (upd_ctxt c f s) = k_q s" "k_task (upd_ctxt c f s) = k_task s"
  "k_mem (upd_ctxt c f s) = k_mem s" "k_ev (upd_ctxt c f s) = k_ev s"
  "k_heap (upd_ctxt c f s) = k_heap s" "k_ctx (upd_ctxt c f s) = (k_ctx s)(c := f (k_ctx s c))"
  by (simp_all add: upd_ctxt_def)

lemma upd_task_sels [simp]:
  "k_q (upd_task t f s) = k_q s" "k_task (upd_task t f s) = (k_task s)(t := f (k_task s t))"
  "k_mem (upd_task t f s) = k_mem s" "k_ev (upd_task t f s) = k_ev s"
  "k_heap (upd_task t f s) = k_heap s" "k_ctx (upd_task t f s) = k_ctx s"
  by (simp_all add: upd_task_def)

lemma move_sels [simp]:
  "k_task (move_end a b x s) = k_task s" "k_mem (move_end a b x s) = k_mem s"
  "k_ev (move_end a b x s) = k_ev s" "k_heap (move_end a b x s) = k_heap s"
  "k_ctx (move_end a b x s) = k_ctx s"
  "k_task (move_front a b x s) = k_task s" "k_mem (move_front a b x s) = k_mem s"
  "k_ev (move_front a b x s) = k_ev s" "k_heap (move_front a b x s) = k_heap s"
  "k_ctx (move_front a b x s) = k_ctx s"
  by (simp_all add: move_end_def move_front_def Let_def)

lemma alloc_sels [simp]:
  "k_q (fst (kmalloc_in E n s)) = k_q s" "k_task (fst (kmalloc_in E n s)) = k_task s"
  "k_mem (fst (kmalloc_in E n s)) = k_mem s" "k_ev (fst (kmalloc_in E n s)) = k_ev s"
  "k_ctx (fst (kmalloc_in E n s)) = k_ctx s"
  "k_heap (fst (kmalloc_in E n s)) = fst (e_malloc E n (k_heap s))"
  "snd (kmalloc_in E n s) = snd (e_malloc E n (k_heap s))"
  "k_q (kfree_in E p s) = k_q s" "k_task (kfree_in E p s) = k_task s"
  "k_mem (kfree_in E p s) = k_mem s" "k_ev (kfree_in E p s) = k_ev s"
  "k_ctx (kfree_in E p s) = k_ctx s" "k_heap (kfree_in E p s) = e_free E p (k_heap s)"
  by (simp_all add: kmalloc_in_def kfree_in_def Let_def)

lemma CURRENT_upd [simp]:
  "CURRENT (upd_ctxt c f s) = CURRENT s" "CURRENT (upd_task t g s) = CURRENT s"
  "CURRENT (kfree_in E p s) = CURRENT s" "CURRENT (fst (kmalloc_in E n s)) = CURRENT s"
  "CURRENT (s\<lparr>k_mem := m\<rparr>) = CURRENT s" "CURRENT (s\<lparr>k_ev := e\<rparr>) = CURRENT s"
  by (simp_all add: CURRENT_def)

lemma ctxt_at_upd [simp]:
  "ctxt_at t (upd_ctxt c f s) = ctxt_at t s" "ctxt_at t (move_end a b x s) = ctxt_at t s"
  "ctxt_at t (move_front a b x s) = ctxt_at t s" "ctxt_at t (s\<lparr>k_mem := m\<rparr>) = ctxt_at t s"
  "ctxt_at t (s\<lparr>k_ev := e\<rparr>) = ctxt_at t s"
  by (simp_all add: ctxt_at_def)

section \<open>The invariant\<close>

definition tasks :: "(kqueue \<Rightarrow> addr list) \<Rightarrow> addr set" where
  "tasks Q = (\<Union>q. set (Q q))"

text \<open>
  \<open>kwf live s Q\<close>: the queues of \<open>s\<close> hold the lists \<open>Q\<close>; at most one task is current; a ready task is
  in the queue of its priority; every task struct is a live block of the heap, and the stack of
  a task is a live block of its own.
\<close>

definition kwf :: "('h \<Rightarrow> addr set) \<Rightarrow> 'h kst \<Rightarrow> (kqueue \<Rightarrow> addr list) \<Rightarrow> bool" where
  "kwf live s Q \<longleftrightarrow>
     queues (k_q s) Q \<and> length (Q CurrentQ) \<le> 1 \<and>
     (\<forall>i. \<forall>t \<in> set (Q (Ready i)). unat (t_prio (k_task s t)) = i) \<and>
     (\<forall>t \<in> tasks Q. unat (t_prio (k_task s t)) < TASK_PRIO_QUEUE_MAX \<and> t \<in> live (k_heap s) \<and>
        (t_sb (k_task s t) \<noteq> NULL \<longrightarrow>
           t_sb (k_task s t) \<in> live (k_heap s) \<and> t_sb (k_task s t) \<notin> tasks Q)) \<and>
     (\<forall>t \<in> tasks Q. \<forall>u \<in> tasks Q. t_sb (k_task s t) = t_sb (k_task s u) \<longrightarrow>
        t_sb (k_task s t) = NULL \<or> t = u)"

lemma kwf_parts:
  assumes "kwf live s Q"
  shows kwf_queues: "queues (k_q s) Q"
    and kwf_one: "length (Q CurrentQ) \<le> 1"
    and kwf_ready: "t \<in> set (Q (Ready i)) \<Longrightarrow> unat (t_prio (k_task s t)) = i"
    and kwf_prio: "t \<in> tasks Q \<Longrightarrow> unat (t_prio (k_task s t)) < TASK_PRIO_QUEUE_MAX"
    and kwf_live: "t \<in> tasks Q \<Longrightarrow> t \<in> live (k_heap s)"
    and kwf_stack: "t \<in> tasks Q \<Longrightarrow> t_sb (k_task s t) \<noteq> NULL \<Longrightarrow>
           t_sb (k_task s t) \<in> live (k_heap s) \<and> t_sb (k_task s t) \<notin> tasks Q"
    and kwf_own_stack: "t \<in> tasks Q \<Longrightarrow> u \<in> tasks Q \<Longrightarrow> t_sb (k_task s t) = t_sb (k_task s u) \<Longrightarrow>
           t_sb (k_task s t) \<noteq> NULL \<Longrightarrow> t = u"
  using assms unfolding kwf_def by blast+

text \<open>The part of the invariant about the memory of the tasks, on a set of tasks.\<close>

definition owned :: "('h \<Rightarrow> addr set) \<Rightarrow> 'h kst \<Rightarrow> addr set \<Rightarrow> bool" where
  "owned live s T \<longleftrightarrow>
     (\<forall>t \<in> T. unat (t_prio (k_task s t)) < TASK_PRIO_QUEUE_MAX \<and> t \<in> live (k_heap s) \<and>
        (t_sb (k_task s t) \<noteq> NULL \<longrightarrow>
           t_sb (k_task s t) \<in> live (k_heap s) \<and> t_sb (k_task s t) \<notin> T)) \<and>
     (\<forall>t \<in> T. \<forall>u \<in> T. t_sb (k_task s t) = t_sb (k_task s u) \<longrightarrow> t_sb (k_task s t) = NULL \<or> t = u)"

lemma kwf_iff_owned:
  "kwf live s Q \<longleftrightarrow> queues (k_q s) Q \<and> length (Q CurrentQ) \<le> 1 \<and>
     (\<forall>i. \<forall>t \<in> set (Q (Ready i)). unat (t_prio (k_task s t)) = i) \<and> owned live s (tasks Q)"
  unfolding kwf_def owned_def ..

lemma owned_insert:
  assumes "owned live s T" "p \<in> live (k_heap s)" "\<forall>t \<in> T. t_sb (k_task s t) \<noteq> p"
    and "unat (t_prio (k_task s p)) < TASK_PRIO_QUEUE_MAX"
    and "t_sb (k_task s p) \<noteq> NULL \<Longrightarrow> t_sb (k_task s p) \<in> live (k_heap s) \<and>
      t_sb (k_task s p) \<notin> insert p T \<and> (\<forall>t \<in> T. t_sb (k_task s t) \<noteq> t_sb (k_task s p))"
  shows "owned live s (insert p T)"
  using assms unfolding owned_def by (metis insert_iff)

lemma owned_subset: "owned live s T \<Longrightarrow> U \<subseteq> T \<Longrightarrow> owned live s U"
  unfolding owned_def by blast

lemma owned_upd_q [simp]: "owned live (s\<lparr>k_q := m\<rparr>) T = owned live s T"
  by (simp add: owned_def)

lemma in_tasks: "t \<in> set (Q q) \<Longrightarrow> t \<in> tasks Q"
  by (auto simp: tasks_def)

lemma kwf_cong:
  assumes "k_q s' = k_q s" "k_heap s' = k_heap s"
    and "\<And>t. t \<in> tasks Q \<Longrightarrow> t_prio (k_task s' t) = t_prio (k_task s t) \<and> t_sb (k_task s' t) = t_sb (k_task s t)"
  shows "kwf live s' Q = kwf live s Q"
  unfolding kwf_def using assms in_tasks by (simp cong: conj_cong ball_cong)

lemma kwf_upd_ctxt [simp]: "kwf live (upd_ctxt c f s) Q = kwf live s Q"
  by (rule kwf_cong) auto

lemma kwf_upd_mem [simp]: "kwf live (s\<lparr>k_mem := m\<rparr>) Q = kwf live s Q"
  by (rule kwf_cong) auto

lemma kwf_upd_ev [simp]: "kwf live (s\<lparr>k_ev := e\<rparr>) Q = kwf live s Q"
  by (rule kwf_cong) auto

lemma CURRENT_first: "kwf live s Q \<Longrightarrow> CURRENT s = first_or (Q CurrentQ) NULL"
  by (simp add: CURRENT_def kq.rep_first [OF kwf_queues])

lemma CURRENT_NULL_iff: "kwf live s Q \<Longrightarrow> CURRENT s = NULL \<longleftrightarrow> Q CurrentQ = []"
  unfolding CURRENT_def by (rule kq.first_nil_iff) (rule kwf_queues)

lemma CURRENT_singleton:
  assumes "kwf live s Q" "CURRENT s \<noteq> NULL"
  shows "Q CurrentQ = [CURRENT s]"
  using assms CURRENT_first [OF assms(1)] kwf_one [OF assms(1)]
  by (cases "Q CurrentQ") auto

lemma ready_q_task:
  assumes "kwf live s Q" "t \<in> tasks Q"
  shows "ready_q (t_prio (k_task s t)) = Some (Ready (unat (t_prio (k_task s t))))"
  using kwf_prio [OF assms] by (simp add: ready_q_def)

section \<open>Moving tasks between queues\<close>

abbreviation moved_end ::
  "kqueue \<Rightarrow> kqueue \<Rightarrow> addr \<Rightarrow> (kqueue \<Rightarrow> addr list) \<Rightarrow> kqueue \<Rightarrow> addr list"
where
  "moved_end q r x Q \<equiv> Q(q := remove1 x (Q q), r := Q r @ [x])"

abbreviation moved_front ::
  "kqueue \<Rightarrow> kqueue \<Rightarrow> addr \<Rightarrow> (kqueue \<Rightarrow> addr list) \<Rightarrow> kqueue \<Rightarrow> addr list"
where
  "moved_front q r x Q \<equiv> Q(q := remove1 x (Q q), r := x # Q r)"

lemma tasks_split: "tasks Q = (\<Union>p \<in> - {q, r}. set (Q p)) \<union> set (Q q) \<union> set (Q r)"
  by (auto simp: tasks_def)

lemma tasks_split1: "tasks Q = (\<Union>p \<in> - {q}. set (Q p)) \<union> set (Q q)"
  by (auto simp: tasks_def)

lemma tasks_upd: "tasks (Q(q := xs)) = (\<Union>p \<in> - {q}. set (Q p)) \<union> set xs"
  by (subst tasks_split1 [of _ q]) auto

lemma tasks_moved:
  assumes "x \<in> set (Q q)" "q \<noteq> r" "distinct (Q q)"
  shows "tasks (moved_end q r x Q) = tasks Q" "tasks (moved_front q r x Q) = tasks Q"
  using assms by (auto simp: tasks_split [of _ q r])

lemma kwf_moved:
  assumes kwf: "kwf live s Q" and x: "x \<in> set (Q q)" "q \<noteq> r"
    and cur: "r = CurrentQ \<Longrightarrow> Q CurrentQ = []"
    and prio: "\<And>i. r = Ready i \<Longrightarrow> unat (t_prio (k_task s x)) = i"
  shows "kwf live (move_end q r x s) (moved_end q r x Q)"
    and "kwf live (move_front q r x s) (moved_front q r x Q)"
proof -
  note Q = kwf_queues [OF kwf]
  note ts = tasks_moved [of x Q q r, OF x kq.rep_distinct [OF Q]]
  have qs: "queues (k_q (move_end q r x s)) (moved_end q r x Q)"
      "queues (k_q (move_front q r x s)) (moved_front q r x Q)"
    using kq.move_end [OF Q, of x q r] kq.move_front [OF Q, of x q r] x
    by (simp_all add: move_end_def move_front_def Let_def)
  have one: "length (moved_end q r x Q CurrentQ) \<le> 1" "length (moved_front q r x Q CurrentQ) \<le> 1"
    using cur kwf_one [OF kwf] by (auto simp: length_remove1)
  have sub: "t \<in> set (remove1 x xs) \<Longrightarrow> t \<in> set xs" for t xs
    using set_remove1_subset by fastforce
  have rdy: "\<forall>i. \<forall>t \<in> set (moved_end q r x Q (Ready i)). unat (t_prio (k_task s t)) = i"
      "\<forall>i. \<forall>t \<in> set (moved_front q r x Q (Ready i)). unat (t_prio (k_task s t)) = i"
    using kwf_ready [OF kwf] prio by (auto dest: sub)
  show "kwf live (move_end q r x s) (moved_end q r x Q)"
      "kwf live (move_front q r x s) (moved_front q r x Q)"
    unfolding kwf_def using kwf qs one rdy ts by (simp_all add: kwf_def)
qed

section \<open>The scheduler\<close>

lemma sched_scan_first:
  assumes "queues (k_q s) Q"
  shows "sched_scan ps s =
    (case find (\<lambda>p. Q (Ready p) \<noteq> []) ps of
       None \<Rightarrow> s | Some p \<Rightarrow> move_front (Ready p) CurrentQ (hd (Q (Ready p))) s)"
proof (induction ps)
  case (Cons p ps)
  have "Q_FIRST (Ready p) (k_q s) = first_or (Q (Ready p)) NULL" by (rule kq.rep_first [OF assms])
  moreover have "Q_FIRST (Ready p) (k_q s) = NULL \<longleftrightarrow> Q (Ready p) = []"
    by (rule kq.first_nil_iff [OF assms])
  ultimately show ?case using Cons by (cases "Q (Ready p)") auto
qed simp

text \<open>The abstract scheduler on the lists: the head of the first queue that is not empty.\<close>

definition pick :: "(kqueue \<Rightarrow> addr list) \<Rightarrow> nat option" where
  "pick Q = find (\<lambda>p. Q (Ready p) \<noteq> []) [0..<TASK_PRIO_QUEUE_MAX]"

definition scheduled :: "(kqueue \<Rightarrow> addr list) \<Rightarrow> kqueue \<Rightarrow> addr list" where
  "scheduled Q =
     (if Q CurrentQ \<noteq> [] then Q
      else case pick Q of
        None \<Rightarrow> Q
      | Some p \<Rightarrow> Q(Ready p := tl (Q (Ready p)), CurrentQ := [hd (Q (Ready p))]))"

lemma scheduler_refines:
  assumes kwf: "kwf live s Q"
  shows "kwf live (scheduler s) (scheduled Q)"
proof (cases "Q CurrentQ = []")
  case True
  then have "CURRENT s = NULL" using CURRENT_NULL_iff [OF kwf] by simp
  then have sch: "scheduler s = (case pick Q of
      None \<Rightarrow> s | Some p \<Rightarrow> move_front (Ready p) CurrentQ (hd (Q (Ready p))) s)"
    by (simp add: scheduler_def sched_scan_first [OF kwf_queues [OF kwf]] pick_def del: upt.simps)
  show ?thesis
  proof (cases "pick Q")
    case None
    with sch kwf show ?thesis by (simp add: scheduled_def)
  next
    case (Some p)
    then obtain t ts where t: "Q (Ready p) = t # ts"
      by (auto simp: pick_def find_Some_iff neq_Nil_conv)
    have "kwf live (move_front (Ready p) CurrentQ t s) (moved_front (Ready p) CurrentQ t Q)"
      using t True by (intro kwf_moved [OF kwf]) auto
    with sch Some t True show ?thesis by (simp add: scheduled_def)
  qed
next
  case False
  with CURRENT_NULL_iff [OF kwf] kwf show ?thesis by (simp add: scheduler_def scheduled_def)
qed

section \<open>Rendezvous\<close>

definition rendezvous :: "addr \<Rightarrow> addr \<Rightarrow> 'h kst \<Rightarrow> bool" where
  "rendezvous rcvr sndr s \<longleftrightarrow>
     GET_KCALLCODE (GET_CTXT sndr s) \<in> {KCALL_SEND, KCALL_SENDREC} \<and>
     GET_KCALLCODE (GET_CTXT rcvr s) = KCALL_RECEIVE \<and>
     GETP0 (GET_CTXT sndr s) = rcvr \<and> GETP0 (GET_CTXT rcvr s) \<in> {sndr, TASK_ANY}"

definition delivered :: "addr \<Rightarrow> addr \<Rightarrow> 'h kst \<Rightarrow> 'h kst" where
  "delivered rcvr sndr s =
     upd_ctxt (ctxt_at rcvr s) (SETP0 sndr)
       (s\<lparr>k_mem := memcpy (GETP1 (GET_CTXT rcvr s)) (GETP1 (GET_CTXT sndr s))
           (GETP2 (GET_CTXT rcvr s)) (k_mem s)\<rparr>)"

lemma delivermsg_eq:
  "delivermsg rcvr sndr s =
     (if rendezvous rcvr sndr s then (delivered rcvr sndr s, True) else (s, False))"
  by (auto simp: delivermsg_def rendezvous_def delivered_def Let_def)

lemma delivered_sels [simp]:
  "k_q (delivered r d s) = k_q s" "k_task (delivered r d s) = k_task s"
  "k_heap (delivered r d s) = k_heap s" "k_ev (delivered r d s) = k_ev s"
  "CURRENT (delivered r d s) = CURRENT s" "kwf live (delivered r d s) Q = kwf live s Q"
  "ctxt_at t (delivered r d s) = ctxt_at t s"
  by (simp_all add: delivered_def)

lemma delivered_code [simp]:
  "GET_KCALLCODE (GET_CTXT t (delivered r d s)) = GET_KCALLCODE (GET_CTXT t s)"
  by (simp add: delivered_def GET_CTXT_def)

text \<open>The three callbacks only look for a task, so the walk of the blocked queue is a search.\<close>

interpretation event_walk: walk_callback k_q dispatchevent BlockedQ
  by unfold_locales (simp add: dispatchevent_def)

interpretation send_walk: walk_callback k_q sendmsg BlockedQ
  by unfold_locales (simp add: sendmsg_def delivermsg_eq)

interpretation receive_walk: walk_callback k_q receivemsg BlockedQ
  by unfold_locales (simp add: receivemsg_def delivermsg_eq)

definition waits_for_event :: "'h kst \<Rightarrow> addr \<Rightarrow> bool" where
  "waits_for_event s t \<longleftrightarrow>
     GET_KCALLCODE (GET_CTXT t s) = KCALL_WAITEVENT \<and> GETP0 (GET_CTXT t s) AND k_ev s \<noteq> 0"

lemma blocked_queue:
  assumes "kwf live s Q"
  shows "is_queue (k_q s) BlockedQ (Q BlockedQ)" "NULL \<notin> set (Q BlockedQ)"
  using kwf_queues [OF assms] kq.rep_not_nil [OF kwf_queues [OF assms]] by (auto simp: queues_def)

lemma search_event:
  assumes "kwf live s Q"
  shows "q_forall k_q (Some dispatchevent) (Some BlockedQ) s =
    Some (case find (waits_for_event s) (Q BlockedQ) of None \<Rightarrow> (s, NULL) | Some t \<Rightarrow> (s, t))"
  using event_walk.forall_is_walk [OF blocked_queue(1) [OF assms]] blocked_queue(2) [OF assms]
  by (simp add: walk_search [where P = "waits_for_event s" and f = "\<lambda>_. s"]
      dispatchevent_def waits_for_event_def)

lemma search_receiver:
  assumes "kwf live s Q"
  shows "q_forall k_q (Some sendmsg) (Some BlockedQ) s =
    Some (case find (\<lambda>t. rendezvous t (CURRENT s) s) (Q BlockedQ) of
            None \<Rightarrow> (s, NULL) | Some t \<Rightarrow> (delivered t (CURRENT s) s, t))"
  using send_walk.forall_is_walk [OF blocked_queue(1) [OF assms]] blocked_queue(2) [OF assms]
  by (simp add: walk_search [where P = "\<lambda>t. rendezvous t (CURRENT s) s" and
        f = "\<lambda>t. delivered t (CURRENT s) s"] sendmsg_def delivermsg_eq)

lemma search_sender:
  assumes "kwf live s Q"
  shows "q_forall k_q (Some receivemsg) (Some BlockedQ) s =
    Some (case find (\<lambda>t. rendezvous (CURRENT s) t s) (Q BlockedQ) of
            None \<Rightarrow> (s, NULL) | Some t \<Rightarrow> (delivered (CURRENT s) t s, t))"
  using receive_walk.forall_is_walk [OF blocked_queue(1) [OF assms]] blocked_queue(2) [OF assms]
  by (simp add: walk_search [where P = "\<lambda>t. rendezvous (CURRENT s) t s" and
        f = "\<lambda>t. delivered (CURRENT s) t s"] receivemsg_def delivermsg_eq)

lemmas searches = search_event search_receiver search_sender

section \<open>The calls that wake other tasks, on the lists\<close>

abbreviation prio_of :: "'h kst \<Rightarrow> addr \<Rightarrow> nat" where
  "prio_of s t \<equiv> unat (t_prio (k_task s t))"

lemma find_in: "find P xs = Some x \<Longrightarrow> x \<in> set xs \<and> P x"
  by (auto simp: find_Some_iff)

text \<open>Each call as an equation: which task is found, and where the two tasks go.\<close>

lemma k_send_eq:
  assumes kwf: "kwf live s Q"
  shows "k_send s =
    Some (case find (\<lambda>t. rendezvous t (CURRENT s) s) (Q BlockedQ) of
            None \<Rightarrow> move_front CurrentQ BlockedQ (CURRENT s) s
          | Some t \<Rightarrow> move_end BlockedQ (Ready (prio_of s t)) t (delivered t (CURRENT s) s))"
  using ready_q_task [OF kwf in_tasks] kq.rep_not_nil [OF kwf_queues [OF kwf], of BlockedQ]
  by (auto simp: k_send_def search_receiver [OF kwf] split: option.splits dest!: find_in)

lemma k_sendrec_eq:
  assumes kwf: "kwf live s Q"
  shows "k_sendrec c s =
    Some (let s' = (case find (\<lambda>t. rendezvous t (CURRENT s) s) (Q BlockedQ) of
            None \<Rightarrow> s
          | Some t \<Rightarrow> move_end BlockedQ (Ready (prio_of s t)) t
               (upd_ctxt c (SET_KCALLCODE KCALL_RECEIVE) (delivered t (CURRENT s) s)))
          in move_front CurrentQ BlockedQ (CURRENT s') s')"
  using ready_q_task [OF kwf in_tasks] kq.rep_not_nil [OF kwf_queues [OF kwf], of BlockedQ]
  by (auto simp: k_sendrec_def search_receiver [OF kwf] Let_def split: option.splits dest!: find_in)

lemma k_receive_eq:
  assumes kwf: "kwf live s Q"
  shows "k_receive s =
    Some (case find (\<lambda>t. rendezvous (CURRENT s) t s) (Q BlockedQ) of
            None \<Rightarrow> move_front CurrentQ BlockedQ (CURRENT s) s
          | Some t \<Rightarrow> (let s' = delivered (CURRENT s) t s
              in if GET_KCALLCODE (GET_CTXT t s) = KCALL_SENDREC
                 then upd_ctxt (ctxt_at t s) (SET_KCALLCODE KCALL_RECEIVE) s'
                 else move_end BlockedQ (Ready (prio_of s t)) t s'))"
  using ready_q_task [OF kwf in_tasks] kq.rep_not_nil [OF kwf_queues [OF kwf], of BlockedQ]
  by (auto simp: k_receive_def search_sender [OF kwf] Let_def split: option.splits dest!: find_in)

lemma handle_event_eq:
  assumes kwf: "kwf live s Q" and cur: "CURRENT s \<noteq> NULL"
  shows "handle_event s =
    Some (case find (waits_for_event s) (Q BlockedQ) of
            None \<Rightarrow> s\<lparr>k_ev := EVENT_NONE\<rparr>
          | Some t \<Rightarrow>
              (let s1 = (if GETP0 (GET_CTXT t s) AND PREEMPT_ON_EVENT \<noteq> 0
                         then move_end CurrentQ (Ready (prio_of s (CURRENT s))) (CURRENT s) s
                         else move_front CurrentQ (Ready (prio_of s (CURRENT s))) (CURRENT s) s);
                   s2 = move_front BlockedQ CurrentQ t s1
               in (upd_ctxt (ctxt_at t s) (SETP0 (k_ev s)) s2)\<lparr>k_ev := EVENT_NONE\<rparr>))"
proof -
  have "CURRENT s \<in> set (Q CurrentQ)" using CURRENT_singleton [OF assms] by simp
  then show ?thesis
    using ready_q_task [OF kwf in_tasks] kq.rep_not_nil [OF kwf_queues [OF kwf], of BlockedQ]
    by (auto simp: handle_event_def search_event [OF kwf] Let_def split: option.splits dest!: find_in)
qed

lemma k_yield_eq:
  assumes kwf: "kwf live s Q" and cur: "CURRENT s \<noteq> NULL"
  shows "k_yield s = Some (move_end CurrentQ (Ready (prio_of s (CURRENT s))) (CURRENT s) s)"
proof -
  have "CURRENT s \<in> set (Q CurrentQ)" using CURRENT_singleton [OF assms] by simp
  then show ?thesis using ready_q_task [OF kwf in_tasks] by (simp add: k_yield_def)
qed

section \<open>Every kernel call keeps the invariant\<close>

text \<open>
  What a caller has to respect: priorities are in range, tasks are started and deleted only while
  blocked, only memory that is not a task or a stack is freed, and sizes are in the range of the
  allocator. All servers keep to this; the kernel checks none of it.
\<close>

definition call_ok :: "('h \<Rightarrow> addr set) \<Rightarrow> (addr \<Rightarrow> bool) \<Rightarrow> cpu_context \<Rightarrow> 'h kst \<Rightarrow> (kqueue \<Rightarrow> addr list) \<Rightarrow> bool"
where
  "call_ok live allowed ctxt s Q \<longleftrightarrow>
     (let code = GET_KCALLCODE ctxt; p = GETP0 ctxt in
       (code = KCALL_CREATETASK \<longrightarrow> unat (ucast p :: byte) < TASK_PRIO_QUEUE_MAX) \<and>
       (code = KCALL_ALLOCATESTACK \<longrightarrow> p \<in> tasks Q \<and> allowed (GETP1 ctxt + (sizeof_cpu_context + 2))) \<and>
       (code = KCALL_SETUPTASK \<longrightarrow> p \<in> tasks Q) \<and>
       (code = KCALL_STARTTASK \<longrightarrow> p \<in> set (Q BlockedQ)) \<and>
       (code = KCALL_STOPTASK \<longrightarrow> p \<in> tasks Q) \<and>
       (code = KCALL_DELETETASK \<longrightarrow> p \<in> set (Q BlockedQ)) \<and>
       (code = KCALL_MALLOC \<longrightarrow> allowed p) \<and>
       (code = KCALL_FREE \<longrightarrow> p = NULL \<or>
          p \<in> live (k_heap s) \<and> p \<notin> tasks Q \<and> (\<forall>t \<in> tasks Q. t_sb (k_task s t) \<noteq> p)))"

locale kernel_env = allocator "e_malloc E" "e_free E" live heap_ok allowed
  for E :: "'h kenv" and live heap_ok allowed +
  assumes task_allowed: "allowed 11"
begin

definition good :: "'h kst \<Rightarrow> (kqueue \<Rightarrow> addr list) \<Rightarrow> bool" where
  "good s Q \<longleftrightarrow> kwf live s Q \<and> heap_ok (k_heap s)"

text \<open>A result that is defined and good, with every ready task still ready.\<close>

definition keeps :: "(kqueue \<Rightarrow> addr list) \<Rightarrow> 'h kst option \<Rightarrow> bool" where
  "keeps Q r \<longleftrightarrow>
     (\<exists>s' Q'. r = Some s' \<and> good s' Q' \<and> (\<forall>i. set (Q (Ready i)) \<subseteq> set (Q' (Ready i))))"

lemma good_kwf: "good s Q \<Longrightarrow> kwf live s Q" and good_heap: "good s Q \<Longrightarrow> heap_ok (k_heap s)"
  by (simp_all add: good_def)

lemma good_upd [simp]:
  "good (upd_ctxt c f s) Q = good s Q" "good (s\<lparr>k_ev := e\<rparr>) Q = good s Q"
  "good (delivered r d s) Q = good s Q"
  by (simp_all add: good_def)

lemma keepsI: "good s' Q' \<Longrightarrow> (\<And>i. set (Q (Ready i)) \<subseteq> set (Q' (Ready i))) \<Longrightarrow> keeps Q (Some s')"
  unfolding keeps_def by blast

lemma keeps_same: "good s' Q \<Longrightarrow> keeps Q (Some s')"
  by (rule keepsI) auto

lemma good_moved:
  assumes "good s Q" "x \<in> set (Q q)" "q \<noteq> r" "r = CurrentQ \<Longrightarrow> Q CurrentQ = []"
    and "\<And>i. r = Ready i \<Longrightarrow> prio_of s x = i"
  shows "good (move_end q r x s) (moved_end q r x Q)" "good (move_front q r x s) (moved_front q r x Q)"
  using assms kwf_moved [of live s Q x q r] by (simp_all add: good_def)

lemma keeps_move:
  assumes "good s Q" "x \<in> set (Q q)" "q \<noteq> r" "r \<noteq> CurrentQ" "q \<in> {CurrentQ, BlockedQ}"
    and "\<And>i. r = Ready i \<Longrightarrow> prio_of s x = i"
  shows "keeps Q (Some (move_end q r x s))" "keeps Q (Some (move_front q r x s))"
proof -
  note g = good_moved [OF assms(1-3) _ assms(6)]
  show "keeps Q (Some (move_end q r x s))" by (rule keepsI [OF g(1)]) (use assms(4,5) in auto)
  show "keeps Q (Some (move_front q r x s))" by (rule keepsI [OF g(2)]) (use assms(4,5) in auto)
qed

lemma keeps_send:
  assumes "good s Q" "CURRENT s \<noteq> NULL"
  shows "keeps Q (k_send s)"
  using assms CURRENT_singleton [OF good_kwf [OF assms(1)] assms(2)]
  by (auto simp: k_send_eq [OF good_kwf [OF assms(1)]] split: option.splits
      intro!: keeps_move dest!: find_in)

lemma keeps_sendrec:
  assumes "good s Q" "CURRENT s \<noteq> NULL"
  shows "keeps Q (k_sendrec c s)"
proof (cases "find (\<lambda>t. rendezvous t (CURRENT s) s) (Q BlockedQ)")
  case None
  then show ?thesis
    using assms CURRENT_singleton [OF good_kwf [OF assms(1)] assms(2)]
    by (auto simp: k_sendrec_eq [OF good_kwf [OF assms(1)]] intro!: keeps_move)
next
  case (Some t)
  let ?s = "move_end BlockedQ (Ready (prio_of s t)) t
      (upd_ctxt c (SET_KCALLCODE KCALL_RECEIVE) (delivered t (CURRENT s) s))"
  let ?Q = "moved_end BlockedQ (Ready (prio_of s t)) t Q"
  have g: "good ?s ?Q" using assms(1) find_in [OF Some] by (intro good_moved) auto
  have cur: "CURRENT ?s = CURRENT s" "?Q CurrentQ = [CURRENT s]"
    using CURRENT_first [OF good_kwf [OF g]] CURRENT_singleton [OF good_kwf [OF assms(1)] assms(2)]
    by auto
  have "good (move_front CurrentQ BlockedQ (CURRENT s) ?s) (moved_front CurrentQ BlockedQ (CURRENT s) ?Q)"
    by (rule good_moved(2) [OF g]) (use cur(2) in auto)
  then have "keeps Q (Some (move_front CurrentQ BlockedQ (CURRENT s) ?s))"
    by (rule keepsI) auto
  then show ?thesis
    using Some cur(1) by (simp add: k_sendrec_eq [OF good_kwf [OF assms(1)]] Let_def)
qed

lemma keeps_receive:
  assumes "good s Q" "CURRENT s \<noteq> NULL"
  shows "keeps Q (k_receive s)"
  using assms CURRENT_singleton [OF good_kwf [OF assms(1)] assms(2)]
  by (auto simp: k_receive_eq [OF good_kwf [OF assms(1)]] Let_def split: option.splits
      intro!: keeps_move intro: keeps_same dest!: find_in)

lemma keeps_yield:
  assumes "good s Q" "CURRENT s \<noteq> NULL"
  shows "keeps Q (k_yield s)"
  using assms CURRENT_singleton [OF good_kwf [OF assms(1)] assms(2)]
  by (auto simp: k_yield_eq [OF good_kwf [OF assms(1)]] intro!: keeps_move)

lemma keeps_waitevent:
  assumes "good s Q" "CURRENT s \<noteq> NULL"
  shows "keeps Q (k_waitevent s)"
  using assms CURRENT_singleton [OF good_kwf [OF assms(1)] assms(2)]
  by (auto simp: k_waitevent_def intro!: keeps_move)

text \<open>A call that changes no queue and neither the priority nor the stack of a task.\<close>

lemma good_same_tasks:
  assumes "good s Q" "k_q s' = k_q s" "k_heap s' = k_heap s"
    and "\<And>t. t_prio (k_task s' t) = t_prio (k_task s t) \<and> t_sb (k_task s' t) = t_sb (k_task s t)"
  shows "good s' Q"
  using assms kwf_cong [of s' s Q live] by (simp add: good_def)

lemma keeps_irq:
  assumes "good s Q"
  shows "keeps Q (k_irqen s)" "keeps Q (k_irqdis s)"
  using assms good_same_tasks [OF assms] by (auto simp: k_irqen_def k_irqdis_def intro!: keeps_same)

lemma keeps_getpid: "good s Q \<Longrightarrow> keeps Q (k_getpid c s)"
  by (simp add: k_getpid_def keeps_same)

lemma do_setuptask_good: "good s Q \<Longrightarrow> good (do_setuptask E t tp args ex s) Q"
  by (erule good_same_tasks) (auto simp: do_setuptask_def do_pushstack_def Let_def)

lemma keeps_setuptask:
  assumes "good s Q" "GETP0 (k_ctx s c) \<in> tasks Q"
  shows "keeps Q (k_setuptask E c s)"
proof -
  have "GETP0 (k_ctx s c) \<noteq> NULL"
    using assms(2) kq.rep_not_nil [OF kwf_queues [OF good_kwf [OF assms(1)]]]
    by (auto simp: tasks_def)
  then show ?thesis
    using assms by (auto simp: k_setuptask_def Let_def intro!: keeps_same do_setuptask_good)
qed

text \<open>Allocation: a new block is neither a task nor a stack.\<close>

lemma good_malloc:
  assumes "good s Q" "allowed n"
  shows "good (fst (kmalloc_in E n s)) Q"
    and "snd (kmalloc_in E n s) \<noteq> NULL \<Longrightarrow> snd (kmalloc_in E n s) \<notin> live (k_heap s)"
    and "snd (kmalloc_in E n s) \<noteq> NULL \<Longrightarrow>
           snd (kmalloc_in E n s) \<in> live (k_heap (fst (kmalloc_in E n s)))"
proof -
  note h = good_heap [OF assms(1)]
  show "good (fst (kmalloc_in E n s)) Q"
    using assms alloc_ok [OF h assms(2)] live_alloc_mono [OF h assms(2)]
    unfolding good_def kwf_def by (auto 0 4)
  show "snd (kmalloc_in E n s) \<noteq> NULL \<Longrightarrow> snd (kmalloc_in E n s) \<notin> live (k_heap s)"
    and "snd (kmalloc_in E n s) \<noteq> NULL \<Longrightarrow>
           snd (kmalloc_in E n s) \<in> live (k_heap (fst (kmalloc_in E n s)))"
    using alloc_fresh [OF h assms(2)] by auto
qed

lemma keeps_malloc:
  assumes "good s Q" "allowed (GETP0 (k_ctx s c))"
  shows "keeps Q (k_malloc E c s)"
  using good_malloc(1) [OF assms] by (simp add: k_malloc_def Let_def keeps_same)

lemma good_free:
  assumes "good s Q"
    and "p = NULL \<or> p \<in> live (k_heap s) \<and> p \<notin> tasks Q \<and> (\<forall>t \<in> tasks Q. t_sb (k_task s t) \<noteq> p)"
  shows "good (kfree_in E p s) Q"
proof -
  note h = good_heap [OF assms(1)]
  have "heap_ok (e_free E p (k_heap s))" "live (e_free E p (k_heap s)) = live (k_heap s) - {p}"
    using release_ok [OF h] release_live [OF h] assms(2) by auto
  moreover have "NULL \<notin> tasks Q"
    using kwf_live [OF good_kwf [OF assms(1)]] live_not_NULL [OF h] by blast
  ultimately show ?thesis
    using assms unfolding good_def kwf_def by auto
qed

lemma keeps_free:
  assumes "good s Q"
    and "GETP0 (k_ctx s c) = NULL \<or> GETP0 (k_ctx s c) \<in> live (k_heap s) \<and>
      GETP0 (k_ctx s c) \<notin> tasks Q \<and> (\<forall>t \<in> tasks Q. t_sb (k_task s t) \<noteq> GETP0 (k_ctx s c))"
  shows "keeps Q (k_free E c s)"
  using good_free [OF assms] by (simp add: k_free_def keeps_same)

text \<open>Stacks.\<close>

lemma good_set_stack:
  assumes "good s Q"
    and "p = NULL \<or> p \<in> live (k_heap s) \<and> p \<notin> tasks Q \<and> (\<forall>u \<in> tasks Q. t_sb (k_task s u) \<noteq> p)"
  shows "good (upd_task t (t_sb_update (\<lambda>_. p)) s) Q"
  using assms unfolding good_def kwf_def by (auto 0 3)

lemma fresh_not_used:
  assumes "good s Q" "p \<notin> live (k_heap s)" "p \<noteq> NULL"
  shows "p \<notin> tasks Q" "\<forall>t \<in> tasks Q. t_sb (k_task s t) \<noteq> p"
  using assms kwf_live [OF good_kwf [OF assms(1)]] kwf_stack [OF good_kwf [OF assms(1)]] by auto

lemma do_allocatestack_good:
  assumes "good s Q" "allowed (sz + (sizeof_cpu_context + 2))"
  shows "good (fst (do_allocatestack E t sz s)) Q"
proof (cases "sz = 0")
  case False
  let ?n = "sz + (sizeof_cpu_context + 2)"
  let ?r = "kmalloc_in E ?n s"
  note m = good_malloc [OF assms]
  have "snd ?r \<noteq> NULL \<Longrightarrow> snd ?r \<notin> tasks Q \<and> (\<forall>t \<in> tasks Q. t_sb (k_task (fst ?r) t) \<noteq> snd ?r)"
    using fresh_not_used [OF assms(1) m(2)] by simp
  with m have "good (upd_task t (t_sb_update (\<lambda>_. snd ?r)) (fst ?r)) Q"
    by (intro good_set_stack) auto
  then have "good (upd_task t (t_sp_update (\<lambda>_. snd ?r + ?n - 1))
      (upd_task t (t_sb_update (\<lambda>_. snd ?r)) (fst ?r))) Q"
    by (rule good_same_tasks) auto
  with \<open>good (upd_task t (t_sb_update (\<lambda>_. snd ?r)) (fst ?r)) Q\<close> False show ?thesis
    unfolding do_allocatestack_def Let_def
    by (cases "snd ?r = NULL") (simp_all del: alloc_sels)
qed (use assms in \<open>simp add: do_allocatestack_def\<close>)

lemma task_not_NULL: "good s Q \<Longrightarrow> t \<in> tasks Q \<Longrightarrow> t \<noteq> NULL"
  using kwf_live [OF good_kwf] live_not_NULL [OF good_heap] by metis

lemma keeps_allocatestack:
  assumes "good s Q" "GETP0 (k_ctx s c) \<in> tasks Q"
    and "allowed (GETP1 (k_ctx s c) + (sizeof_cpu_context + 2))"
  shows "keeps Q (k_allocatestack E c s)"
  using do_allocatestack_good [OF assms(1,3)] task_not_NULL [OF assms(1,2)]
  by (simp add: k_allocatestack_def Let_def keeps_same)

lemma stack_not_shared:
  assumes "good s Q" "t \<in> tasks Q" "t_sb (k_task s t) \<noteq> NULL"
  shows "\<forall>u \<in> tasks Q. u \<noteq> t \<longrightarrow> t_sb (k_task s u) \<noteq> t_sb (k_task s t)"
  using kwf_own_stack [OF good_kwf [OF assms(1)] assms(2) _ _ assms(3)] by fastforce

lemma keeps_stoptask:
  assumes "good s Q" "GETP0 (k_ctx s c) \<in> tasks Q"
  shows "keeps Q (k_stoptask E c s)"
proof -
  let ?t = "GETP0 (k_ctx s c)"
  let ?p = "t_sb (k_task s ?t)"
  let ?s = "upd_task ?t (t_sb_update (\<lambda>_. NULL)) s"
  have g: "good ?s Q" using assms(1) by (rule good_set_stack) simp
  have "upd_task ?t (t_sb_update (\<lambda>_. NULL)) (kfree_in E ?p s) = kfree_in E ?p ?s"
    by (simp add: upd_task_def kfree_in_def)
  moreover have "?p \<noteq> NULL \<Longrightarrow> good (kfree_in E ?p ?s) Q"
    using kwf_stack [OF good_kwf [OF assms(1)] assms(2)] stack_not_shared [OF assms]
    by (intro good_free [OF g]) auto
  ultimately have "?p \<noteq> NULL \<Longrightarrow> good (upd_task ?t (t_sb_update (\<lambda>_. NULL)) (kfree_in E ?p s)) Q"
    by metis
  then show ?thesis
    using assms task_not_NULL [OF assms] by (auto simp: k_stoptask_def Let_def intro!: keeps_same)
qed

text \<open>Adding a task to a queue and taking one out.\<close>

lemma good_added:
  assumes "good s Q" "p \<in> live (k_heap s)" "p \<notin> tasks Q" "\<forall>t \<in> tasks Q. t_sb (k_task s t) \<noteq> p"
    and "prio_of s p < TASK_PRIO_QUEUE_MAX" "q = BlockedQ \<or> q = Ready (prio_of s p)"
    and "t_sb (k_task s p) \<noteq> NULL \<Longrightarrow> t_sb (k_task s p) \<in> live (k_heap s) \<and>
      t_sb (k_task s p) \<notin> insert p (tasks Q) \<and> (\<forall>t \<in> tasks Q. t_sb (k_task s t) \<noteq> t_sb (k_task s p))"
  shows "good (s\<lparr>k_q := fst (q_front (Some q) p (k_q s))\<rparr>) (Q(q := p # Q q))"
    and "good (s\<lparr>k_q := fst (q_end (Some q) p (k_q s))\<rparr>) (Q(q := Q q @ [p]))"
proof -
  have p: "p \<noteq> NULL" "\<And>r. p \<notin> set (Q r)"
    using assms(2,3) live_not_NULL [OF good_heap [OF assms(1)]] by (auto simp: tasks_def)
  note Q = kwf_queues [OF good_kwf [OF assms(1)]]
  note qs = kq.rep_front [OF Q p, of q] kq.rep_end [OF Q p, of q]
  have ts: "tasks (Q(q := p # Q q)) = insert p (tasks Q)" "tasks (Q(q := Q q @ [p])) = insert p (tasks Q)"
    by (auto simp: tasks_split1 [of _ q])
  have own: "owned live s (insert p (tasks Q))"
    using assms(1) by (intro owned_insert assms(2,4,5,7)) (simp_all add: good_def kwf_iff_owned)
  show "good (s\<lparr>k_q := fst (q_front (Some q) p (k_q s))\<rparr>) (Q(q := p # Q q))"
      "good (s\<lparr>k_q := fst (q_end (Some q) p (k_q s))\<rparr>) (Q(q := Q q @ [p]))"
    unfolding good_def kwf_iff_owned ts
    using own qs assms(1,6) unfolding good_def kwf_iff_owned by auto
qed

lemma good_removed:
  assumes "good s Q" "x \<in> set (Q q)"
  shows "good (s\<lparr>k_q := fst (q_remv (Some q) x (k_q s))\<rparr>) (Q(q := remove1 x (Q q)))"
    and "tasks (Q(q := remove1 x (Q q))) = tasks Q - {x}"
proof -
  note Q = kwf_queues [OF good_kwf [OF assms(1)]]
  have "\<And>r. r \<noteq> q \<Longrightarrow> x \<notin> set (Q r)" using kq.in_one_queue [OF Q assms(2)] by blast
  then show ts: "tasks (Q(q := remove1 x (Q q))) = tasks Q - {x}"
    using kq.rep_distinct [OF Q, of q] by (auto simp: tasks_split1 [of _ q])
  have sub: "t \<in> set (remove1 x xs) \<Longrightarrow> t \<in> set xs" for t xs
    using set_remove1_subset by fastforce
  have one: "length (remove1 x (Q CurrentQ)) \<le> 1"
    using kwf_one [OF good_kwf [OF assms(1)]] by (simp add: length_remove1)
  show "good (s\<lparr>k_q := fst (q_remv (Some q) x (k_q s))\<rparr>) (Q(q := remove1 x (Q q)))"
    unfolding good_def kwf_iff_owned ts
    using assms(1) kq.rep_remv [OF Q assms(2)] one owned_subset [OF _ Diff_subset]
    unfolding good_def kwf_iff_owned by (auto dest: sub)
qed

text \<open>A task that leaves the queues gives its struct back to the heap.\<close>

lemma good_dropped:
  assumes "good s Q" "x \<in> set (Q q)"
  shows "good (kfree_in E x (s\<lparr>k_q := fst (q_remv (Some q) x (k_q s))\<rparr>)) (Q(q := remove1 x (Q q)))"
proof -
  have x: "x \<in> tasks Q" using assms(2) by (rule in_tasks)
  have "\<forall>t \<in> tasks Q. t_sb (k_task s t) \<noteq> x"
    using kwf_stack [OF good_kwf [OF assms(1)]] x task_not_NULL [OF assms(1) x] by metis
  then show ?thesis
    using kwf_live [OF good_kwf [OF assms(1)] x]
    by (intro good_free [OF good_removed(1) [OF assms]]) (auto simp: good_removed(2) [OF assms])
qed

lemma keeps_deletetask:
  assumes "good s Q" "GETP0 (k_ctx s c) \<in> set (Q BlockedQ)"
  shows "keeps Q (k_deletetask E c s)"
  using good_dropped [OF assms] by (auto simp: k_deletetask_def Let_def intro!: keepsI)

lemma keeps_exittask:
  assumes "good s Q" "CURRENT s \<noteq> NULL"
  shows "keeps Q (k_exittask E s)"
proof -
  let ?t = "CURRENT s"
  let ?p = "t_sb (k_task s ?t)"
  let ?Q = "Q(CurrentQ := remove1 ?t (Q CurrentQ))"
  have cur: "?t \<in> set (Q CurrentQ)" using CURRENT_singleton [OF good_kwf [OF assms(1)] assms(2)] by simp
  note t = in_tasks [of ?t Q, OF cur]
  let ?s1 = "s\<lparr>k_q := fst (q_remv (Some CurrentQ) ?t (k_q s))\<rparr>"
  note rem = good_removed [OF assms(1) cur]
  have g1: "good (kfree_in E ?p ?s1) ?Q"
    using kwf_stack [OF good_kwf [OF assms(1)] t] stack_not_shared [OF assms(1) t]
    by (intro good_free [OF rem(1)]) (auto simp: rem(2))
  have "live (k_heap (kfree_in E ?p ?s1)) = live (k_heap s) - {?p}"
    using release_live [OF good_heap [OF assms(1)]] kwf_stack [OF good_kwf [OF assms(1)] t]
      live_not_NULL [OF good_heap [OF assms(1)]] by (cases "?p = NULL") auto
  moreover have "?p \<noteq> ?t" using kwf_stack [OF good_kwf [OF assms(1)] t] t assms(2) by metis
  moreover have "\<forall>u \<in> tasks Q. t_sb (k_task s u) \<noteq> ?t"
    using kwf_stack [OF good_kwf [OF assms(1)]] t assms(2) by metis
  ultimately have "good (kfree_in E ?t (kfree_in E ?p ?s1)) ?Q"
    using kwf_live [OF good_kwf [OF assms(1)] t] by (intro good_free [OF g1]) (auto simp: rem(2))
  moreover have "(kfree_in E ?p s)\<lparr>k_q := fst (q_remv (Some CurrentQ) ?t (k_q s))\<rparr> = kfree_in E ?p ?s1"
    by (simp add: kfree_in_def)
  ultimately have "good (kfree_in E ?t ((kfree_in E ?p s)\<lparr>k_q := fst (q_remv (Some CurrentQ) ?t (k_q s))\<rparr>)) ?Q"
    by metis
  then show ?thesis
    by (auto simp: k_exittask_def Let_def intro!: keepsI [of _ ?Q])
qed

text \<open>A new task.\<close>

lemma good_new:
  assumes "good s Q" "p \<notin> tasks Q"
  shows "good (upd_task p f (s\<lparr>k_q := set_pv p a (set_nx p b (k_q s))\<rparr>)) Q"
proof -
  have "\<And>r. p \<notin> set (Q r)" using assms(2) by (auto simp: tasks_def)
  then have "queues (set_pv p a (set_nx p b (k_q s))) Q"
    using kwf_queues [OF good_kwf [OF assms(1)]] by (intro queues_set_link)
  then have "good (s\<lparr>k_q := set_pv p a (set_nx p b (k_q s))\<rparr>) Q"
    using assms(1) by (simp add: good_def kwf_def)
  moreover have "good (upd_task p f s') Q = good s' Q" for s'
    using assms(2) by (subst good_def, subst kwf_cong [of _ s']) (auto simp: good_def)
  ultimately show ?thesis by simp
qed

lemma newtask_good:
  assumes "good s Q"
  shows "good (fst (newtask E s)) Q"
    and "snd (newtask E s) \<noteq> NULL \<Longrightarrow> snd (newtask E s) \<notin> tasks Q \<and>
      snd (newtask E s) \<in> live (k_heap (fst (newtask E s))) \<and>
      (\<forall>t \<in> tasks Q. t_sb (k_task (fst (newtask E s)) t) \<noteq> snd (newtask E s)) \<and>
      k_task (fst (newtask E s)) (snd (newtask E s)) = zero_task"
proof -
  note m = good_malloc [OF assms task_allowed]
  note fresh = fresh_not_used [OF assms m(2)]
  show "good (fst (newtask E s)) Q"
    using m(1) good_new [OF m(1) fresh(1)] by (simp add: newtask_def Let_def)
  show "snd (newtask E s) \<noteq> NULL \<Longrightarrow> snd (newtask E s) \<notin> tasks Q \<and>
      snd (newtask E s) \<in> live (k_heap (fst (newtask E s))) \<and>
      (\<forall>t \<in> tasks Q. t_sb (k_task (fst (newtask E s)) t) \<noteq> snd (newtask E s)) \<and>
      k_task (fst (newtask E s)) (snd (newtask E s)) = zero_task"
    using m(3) fresh by (auto simp: newtask_def Let_def split: if_splits)
qed

lemma good_set_blocked:
  assumes "good s Q" "x \<in> set (Q BlockedQ)" "unat (t_prio (f (k_task s x))) < TASK_PRIO_QUEUE_MAX"
    and "t_sb (f (k_task s x)) = NULL"
  shows "good (upd_task x f s) Q"
proof -
  note Q = kwf_queues [OF good_kwf [OF assms(1)]]
  have "\<And>i. x \<notin> set (Q (Ready i))" using kq.in_one_queue [OF Q assms(2)] by blast
  moreover have "owned live (upd_task x f s) (tasks Q)"
    using assms unfolding good_def kwf_iff_owned owned_def by auto
  ultimately show ?thesis
    using assms(1) unfolding good_def kwf_iff_owned by auto
qed

lemma keeps_createtask:
  assumes "good s Q" "unat (ucast (GETP0 (k_ctx s c)) :: byte) < TASK_PRIO_QUEUE_MAX"
  shows "keeps Q (k_createtask E c s)"
proof -
  let ?s = "fst (newtask E s)" and ?p = "snd (newtask E s)"
  note n = newtask_good [OF assms(1)]
  have ctx: "k_ctx ?s = k_ctx s" by (simp add: newtask_def Let_def)
  show ?thesis
  proof (cases "?p = NULL")
    case True
    then show ?thesis
      using n(1) by (auto simp: k_createtask_def Let_def q_front_def intro!: keeps_same)
  next
    case False
    let ?s1 = "?s\<lparr>k_q := fst (q_front (Some BlockedQ) ?p (k_q ?s))\<rparr>"
    let ?Q = "Q(BlockedQ := ?p # Q BlockedQ)"
    have g: "good ?s1 ?Q"
      using n(2) [OF False] by (intro good_added(1) [OF n(1)]) (auto simp: zero_task_def)
    have "good (upd_task ?p (\<lambda>t. t\<lparr>t_prio := ucast (GETP0 (k_ctx s c)),
        t_page := ucast (GETP1 (k_ctx s c)), t_sb := NULL\<rparr>) ?s1) ?Q"
      using assms(2) by (intro good_set_blocked [OF g]) auto
    with False ctx show ?thesis
      by (auto simp: k_createtask_def Let_def q_front_def intro!: keepsI [of _ ?Q])
  qed
qed

lemma keeps_starttask:
  assumes "good s Q" "GETP0 (k_ctx s c) \<in> set (Q BlockedQ)"
  shows "keeps Q (k_starttask c s)"
  using task_not_NULL [OF assms(1)] ready_q_task [OF good_kwf [OF assms(1)]]
    in_tasks [of "GETP0 (k_ctx s c)" Q BlockedQ] assms
  by (auto simp: k_starttask_def Let_def intro!: keeps_move)

text \<open>An event: the task that runs becomes ready, the one that waits becomes current.\<close>

lemma good_preempted:
  assumes "good s Q" "CURRENT s \<noteq> NULL" "t \<in> set (Q BlockedQ)"
  defines "q \<equiv> Ready (prio_of s (CURRENT s))"
  shows "good (move_front BlockedQ CurrentQ t (move_end CurrentQ q (CURRENT s) s))
      (Q(CurrentQ := [t], q := Q q @ [CURRENT s], BlockedQ := remove1 t (Q BlockedQ)))"
    and "good (move_front BlockedQ CurrentQ t (move_front CurrentQ q (CURRENT s) s))
      (Q(CurrentQ := [t], q := CURRENT s # Q q, BlockedQ := remove1 t (Q BlockedQ)))"
proof -
  note cur = CURRENT_singleton [OF good_kwf [OF assms(1)] assms(2)]
  note g = good_moved [OF assms(1), of "CURRENT s" CurrentQ q]
  let ?e = "moved_end CurrentQ q (CURRENT s) Q" and ?f = "moved_front CurrentQ q (CURRENT s) Q"
  have "good (move_front BlockedQ CurrentQ t (move_end CurrentQ q (CURRENT s) s))
      (moved_front BlockedQ CurrentQ t ?e)"
    using cur assms(3) by (intro good_moved(2) g(1)) (auto simp: q_def)
  moreover have "moved_front BlockedQ CurrentQ t ?e =
      Q(CurrentQ := [t], q := Q q @ [CURRENT s], BlockedQ := remove1 t (Q BlockedQ))"
    using cur by (auto simp: q_def)
  ultimately show "good (move_front BlockedQ CurrentQ t (move_end CurrentQ q (CURRENT s) s))
      (Q(CurrentQ := [t], q := Q q @ [CURRENT s], BlockedQ := remove1 t (Q BlockedQ)))"
    by simp
  have "good (move_front BlockedQ CurrentQ t (move_front CurrentQ q (CURRENT s) s))
      (moved_front BlockedQ CurrentQ t ?f)"
    using cur assms(3) by (intro good_moved(2) g(2)) (auto simp: q_def)
  moreover have "moved_front BlockedQ CurrentQ t ?f =
      Q(CurrentQ := [t], q := CURRENT s # Q q, BlockedQ := remove1 t (Q BlockedQ))"
    using cur by (auto simp: q_def)
  ultimately show "good (move_front BlockedQ CurrentQ t (move_front CurrentQ q (CURRENT s) s))
      (Q(CurrentQ := [t], q := CURRENT s # Q q, BlockedQ := remove1 t (Q BlockedQ)))"
    by simp
qed

lemma keeps_event:
  assumes "good s Q" "CURRENT s \<noteq> NULL"
  shows "\<exists>s' Q'. handle_event s = Some s' \<and> good s' Q' \<and> k_task s' = k_task s \<and>
    (\<forall>i. set (Q (Ready i)) \<subseteq> set (Q' (Ready i))) \<and>
    (CURRENT s \<in> set (Q' CurrentQ) \<or> CURRENT s \<in> set (Q' (Ready (prio_of s (CURRENT s)))))"
proof (cases "find (waits_for_event s) (Q BlockedQ)")
  case None
  then show ?thesis
    using assms CURRENT_singleton [OF good_kwf [OF assms(1)] assms(2)]
    by (intro exI [of _ "s\<lparr>k_ev := EVENT_NONE\<rparr>"] exI [of _ Q])
      (simp add: handle_event_eq [OF good_kwf [OF assms(1)]])
next
  case (Some t)
  note g = good_preempted [OF assms conjunct1 [OF find_in [OF Some]]]
  let ?q = "Ready (prio_of s (CURRENT s))"
  show ?thesis
  proof (cases "GETP0 (GET_CTXT t s) AND PREEMPT_ON_EVENT \<noteq> 0")
    case True
    then show ?thesis
      using Some g(1) assms
      by (intro exI [of _ "(upd_ctxt (ctxt_at t s) (SETP0 (k_ev s)) (move_front BlockedQ CurrentQ t
            (move_end CurrentQ ?q (CURRENT s) s)))\<lparr>k_ev := EVENT_NONE\<rparr>"]
          exI [of _ "Q(CurrentQ := [t], ?q := Q ?q @ [CURRENT s], BlockedQ := remove1 t (Q BlockedQ))"])
        (auto simp: handle_event_eq [OF good_kwf [OF assms(1)]] Let_def)
  next
    case False
    then show ?thesis
      using Some g(2) assms
      by (intro exI [of _ "(upd_ctxt (ctxt_at t s) (SETP0 (k_ev s)) (move_front BlockedQ CurrentQ t
            (move_front CurrentQ ?q (CURRENT s) s)))\<lparr>k_ev := EVENT_NONE\<rparr>"]
          exI [of _ "Q(CurrentQ := [t], ?q := CURRENT s # Q ?q, BlockedQ := remove1 t (Q BlockedQ))"])
        (auto simp: handle_event_eq [OF good_kwf [OF assms(1)]] Let_def)
  qed
qed

lemma keeps_if: "(b \<Longrightarrow> keeps Q x) \<Longrightarrow> (\<not> b \<Longrightarrow> keeps Q y) \<Longrightarrow> keeps Q (if b then x else y)"
  by simp

lemma keeps_kernel_call:
  assumes "good s Q" "CURRENT s \<noteq> NULL" "call_ok live allowed (GET_CTXT (CURRENT s) s) s Q"
  shows "keeps Q (kernel_call E s)"
proof -
  have c: "GET_CTXT (CURRENT s) s = k_ctx s (ctxt_at (CURRENT s) s)" by (simp add: GET_CTXT_def)
  note ok = assms(3) [unfolded call_ok_def Let_def c]
  note codes = keeps_createtask keeps_allocatestack keeps_setuptask keeps_starttask keeps_stoptask
    keeps_deletetask keeps_exittask keeps_irq keeps_waitevent keeps_malloc keeps_free keeps_getpid
    keeps_send keeps_sendrec keeps_receive keeps_yield keeps_same
  show ?thesis
    unfolding kernel_call_def Let_def c
    by (intro keeps_if codes assms(1,2)) (use ok in \<open>simp_all only: simp_thms\<close>)
qed

end

end
