(* ===== verification/Kernel_Run.thy ===== *)
theory Kernel_Run
  imports Kernel_Inv
begin

text \<open>
  Runs of the whole kernel: from the start of \<^verbatim>\<open>kernel()\<close> through any sequence of kernel calls and
  interrupts. A step is what happens between two returns to user mode; the kernel is never stuck
  and always finds a task to run.
\<close>

section \<open>Steps\<close>

text \<open>
  What user code does between two entries of the kernel: it writes to its memory, and when it traps
  or is interrupted its context is saved on its stack and the stack pointer in its task struct.
\<close>

definition user_runs :: "addr \<Rightarrow> cpu_context \<Rightarrow> (addr \<Rightarrow> byte) \<Rightarrow> addr \<Rightarrow> 'h kst \<Rightarrow> 'h kst" where
  "user_runs sp c m ev s =
     upd_ctxt (sp + 1) (\<lambda>_. c)
       (upd_task (CURRENT s) (t_sp_update (\<lambda>_. sp)) (s\<lparr>k_mem := m, k_ev := ev\<rparr>))"

text \<open>
  The idle task makes no kernel call: it only runs until the next interrupt. Every other task
  keeps to what \<^const>\<open>call_ok\<close> asks for.
\<close>

inductive kstep ::
  "('h \<Rightarrow> addr set) \<Rightarrow> (addr \<Rightarrow> bool) \<Rightarrow> addr \<Rightarrow> 'h kenv \<Rightarrow> 'h kst \<Rightarrow> 'h kst \<Rightarrow> bool"
  for live allowed idle E
where
  kstep_call:
    "s1 = user_runs sp c m EVENT_NONE s \<Longrightarrow> CURRENT s \<noteq> idle \<Longrightarrow>
     (\<forall>Q. kwf live s1 Q \<longrightarrow> call_ok live allowed c s1 Q) \<Longrightarrow>
     kernel_loop E s1 = Some s' \<Longrightarrow> kstep live allowed idle E s s'"
| kstep_event:
    "ev \<noteq> EVENT_NONE \<Longrightarrow> kernel_loop E (user_runs sp c m ev s) = Some s' \<Longrightarrow>
     kstep live allowed idle E s s'"

inductive_cases kstepE: "kstep live allowed idle E s s'"

definition kinv :: "('h \<Rightarrow> addr set) \<Rightarrow> ('h \<Rightarrow> bool) \<Rightarrow> addr \<Rightarrow> 'h kst \<Rightarrow> bool" where
  "kinv live heap_ok idle s \<longleftrightarrow>
     (\<exists>Q. kwf live s Q \<and> heap_ok (k_heap s) \<and> CURRENT s \<noteq> NULL \<and>
        idle \<in> set (Q (Ready 4)) \<union> set (Q CurrentQ) \<and> prio_of s idle = 4)"

section \<open>Lemmas\<close>

lemma user_runs_sels [simp]:
  "k_q (user_runs sp c m ev s) = k_q s" "k_heap (user_runs sp c m ev s) = k_heap s"
  "k_ev (user_runs sp c m ev s) = ev" "CURRENT (user_runs sp c m ev s) = CURRENT s"
  "t_prio (k_task (user_runs sp c m ev s) t) = t_prio (k_task s t)"
  "t_sb (k_task (user_runs sp c m ev s) t) = t_sb (k_task s t)"
  "GET_CTXT (CURRENT s) (user_runs sp c m ev s) = c"
  by (auto simp: user_runs_def CURRENT_def GET_CTXT_def ctxt_at_def)

lemma kwf_user_runs [simp]: "kwf live (user_runs sp c m ev s) Q = kwf live s Q"
  by (rule kwf_cong) auto

lemma scheduler_sels [simp]: "k_task (scheduler s) = k_task s" "k_heap (scheduler s) = k_heap s"
proof -
  have "k_task (sched_scan ps s) = k_task s \<and> k_heap (sched_scan ps s) = k_heap s" for ps
    by (induction ps) auto
  then show "k_task (scheduler s) = k_task s" "k_heap (scheduler s) = k_heap s"
    by (auto simp: scheduler_def simp del: upt.simps)
qed

lemma pick_some:
  assumes "t \<in> set (Q (Ready i))" "i < TASK_PRIO_QUEUE_MAX"
  obtains p where "pick Q = Some p" "p \<le> i" "Q (Ready p) \<noteq> []" "\<forall>j < p. Q (Ready j) = []"
proof (cases "pick Q")
  case None
  with assms show ?thesis by (auto simp: pick_def find_None_iff simp del: upt.simps)
next
  case (Some p)
  then obtain k where k: "k < TASK_PRIO_QUEUE_MAX" "[0..<TASK_PRIO_QUEUE_MAX] ! k = p"
      "Q (Ready p) \<noteq> []" "\<forall>j < k. Q (Ready ([0..<TASK_PRIO_QUEUE_MAX] ! j)) = []"
    by (auto simp: pick_def find_Some_iff simp del: upt.simps)
  then have p: "p = k" "\<forall>j < p. Q (Ready j) = []" by auto
  moreover have "p \<le> i" using p(2) assms(1) by (metis empty_iff empty_set not_less)
  ultimately show ?thesis using that Some k(3) by blast
qed

lemma scheduled_runs:
  assumes "kwf live s Q" "idle \<in> set (Q (Ready 4)) \<union> set (Q CurrentQ)"
  shows "CURRENT (scheduler s) \<noteq> NULL"
    and "idle \<in> set (scheduled Q (Ready 4)) \<union> set (scheduled Q CurrentQ)"
proof -
  have "scheduled Q CurrentQ \<noteq> [] \<and> idle \<in> set (scheduled Q (Ready 4)) \<union> set (scheduled Q CurrentQ)"
  proof (cases "Q CurrentQ = []")
    case True
    with assms(2) have idle: "idle \<in> set (Q (Ready 4))" by simp
    then obtain p where "pick Q = Some p" "Q (Ready p) \<noteq> []" using pick_some [of idle Q 4] by auto
    with True idle show ?thesis by (cases "Q (Ready p)") (auto simp: scheduled_def)
  qed (use assms(2) in \<open>simp add: scheduled_def\<close>)
  then show "CURRENT (scheduler s) \<noteq> NULL"
      "idle \<in> set (scheduled Q (Ready 4)) \<union> set (scheduled Q CurrentQ)"
    using CURRENT_NULL_iff [OF scheduler_refines [OF assms(1)]] by auto
qed

context kernel_env
begin

lemma kinv_loop_body:
  assumes "good s Q" "idle \<in> set (Q (Ready 4)) \<union> set (Q CurrentQ)" "prio_of s idle = 4"
  shows "kinv live heap_ok idle (scheduler s)"
  unfolding kinv_def
  using assms scheduled_runs [OF good_kwf [OF assms(1)] assms(2)]
    scheduler_refines [OF good_kwf [OF assms(1)]]
  by (intro exI [of _ "scheduled Q"]) (auto simp: good_def)

lemma loop_call:
  assumes "good s Q" "CURRENT s \<noteq> NULL" "k_ev s = EVENT_NONE" "idle \<in> set (Q (Ready 4))"
    and "call_ok live allowed (GET_CTXT (CURRENT s) s) s Q"
  shows "\<exists>s'. kernel_loop E s = Some s' \<and> kinv live heap_ok idle s'"
proof -
  obtain s1 Q1 where r: "kernel_call E s = Some s1" "good s1 Q1" "idle \<in> set (Q1 (Ready 4))"
    using keeps_kernel_call [OF assms(1,2,5)] assms(4) unfolding keeps_def by blast
  then have "prio_of s1 idle = 4" using kwf_ready [OF good_kwf [OF r(2)]] by simp
  with r assms(3) kinv_loop_body [OF r(2)] show ?thesis
    by (simp add: kernel_loop_def kernel_entry_def)
qed

lemma loop_event:
  assumes "good s Q" "CURRENT s \<noteq> NULL" "k_ev s \<noteq> EVENT_NONE"
    and "idle \<in> set (Q (Ready 4)) \<union> set (Q CurrentQ)" "prio_of s idle = 4"
  shows "\<exists>s'. kernel_loop E s = Some s' \<and> kinv live heap_ok idle s'"
proof -
  obtain s1 Q1 where r: "handle_event s = Some s1" "good s1 Q1" "k_task s1 = k_task s"
      "\<forall>i. set (Q (Ready i)) \<subseteq> set (Q1 (Ready i))"
      "CURRENT s \<in> set (Q1 CurrentQ) \<or> CURRENT s \<in> set (Q1 (Ready (prio_of s (CURRENT s))))"
    using keeps_event [OF assms(1,2)] by blast
  have "idle \<in> set (Q CurrentQ) \<Longrightarrow> idle = CURRENT s"
    using CURRENT_singleton [OF good_kwf [OF assms(1)] assms(2)] by simp
  with r(4,5) assms(4,5) have "idle \<in> set (Q1 (Ready 4)) \<union> set (Q1 CurrentQ)" by auto
  with r assms(3,5) kinv_loop_body [OF r(2)] show ?thesis
    by (simp add: kernel_loop_def kernel_entry_def)
qed

lemma kinv_call:
  assumes "kinv live heap_ok idle s" "CURRENT s \<noteq> idle"
    and "\<And>Q. kwf live (user_runs sp c m EVENT_NONE s) Q \<Longrightarrow>
           call_ok live allowed c (user_runs sp c m EVENT_NONE s) Q"
  shows "\<exists>s'. kernel_loop E (user_runs sp c m EVENT_NONE s) = Some s' \<and> kinv live heap_ok idle s'"
proof -
  obtain Q where Q: "kwf live s Q" "heap_ok (k_heap s)" "CURRENT s \<noteq> NULL"
      "idle \<in> set (Q (Ready 4)) \<union> set (Q CurrentQ)"
    using assms(1) by (auto simp: kinv_def)
  moreover have "idle \<in> set (Q (Ready 4))"
    using CURRENT_singleton [OF Q(1,3)] Q(4) assms(2) by auto
  ultimately show ?thesis
    using assms(3) by (intro loop_call [of _ Q]) (auto simp: good_def)
qed

lemma kinv_event:
  assumes "kinv live heap_ok idle s" "ev \<noteq> EVENT_NONE"
  shows "\<exists>s'. kernel_loop E (user_runs sp c m ev s) = Some s' \<and> kinv live heap_ok idle s'"
proof -
  obtain Q where "kwf live s Q" "heap_ok (k_heap s)" "CURRENT s \<noteq> NULL"
      "idle \<in> set (Q (Ready 4)) \<union> set (Q CurrentQ)" "prio_of s idle = 4"
    using assms(1) by (auto simp: kinv_def)
  with assms(2) show ?thesis by (intro loop_event [of _ Q]) (auto simp: good_def)
qed

lemma kinv_step:
  assumes "kstep live allowed idle E s s'" "kinv live heap_ok idle s"
  shows "kinv live heap_ok idle s'"
  using assms(1)
proof (rule kstepE, goal_cases)
  case (1 sp c m)
  then show ?thesis using kinv_call [OF assms(2), of sp c m] by force
next
  case (2 ev sp c m)
  then show ?thesis using kinv_event [OF assms(2), of ev sp c m] by force
qed

lemma kinv_reachable:
  "(kstep live allowed idle E)\<^sup>*\<^sup>* s s' \<Longrightarrow> kinv live heap_ok idle s \<Longrightarrow> kinv live heap_ok idle s'"
  by (induction rule: rtranclp_induct) (auto intro: kinv_step)

text \<open>Starting up.\<close>

lemma good_outside: "p \<notin> tasks Q \<Longrightarrow> good (upd_task p f s) Q = good s Q"
  by (subst good_def, subst kwf_cong [of _ s]) (auto simp: good_def)

lemma do_setuptask_sels [simp]:
  "k_q (do_setuptask E t tp args ex s) = k_q s" "k_heap (do_setuptask E t tp args ex s) = k_heap s"
  "t_prio (k_task (do_setuptask E t tp args ex s) u) = t_prio (k_task s u)"
  "t_sb (k_task (do_setuptask E t tp args ex s) u) = t_sb (k_task s u)"
  by (auto simp: do_setuptask_def do_pushstack_def Let_def)

lemma do_allocatestack_new:
  assumes "good s Q" "allowed (sz + (sizeof_cpu_context + 2))" "t \<in> live (k_heap s)" "t \<notin> tasks Q"
  defines "r \<equiv> do_allocatestack E t sz s"
  assumes "snd r \<noteq> NULL"
  shows "t_sb (k_task (fst r) t) = snd r" "snd r \<in> live (k_heap (fst r))" "t \<in> live (k_heap (fst r))"
    "snd r \<notin> insert t (tasks Q)" "\<forall>u \<in> tasks Q. t_sb (k_task (fst r) u) \<noteq> snd r"
    "\<forall>u \<in> tasks Q. t_sb (k_task (fst r) u) = t_sb (k_task s u)"
proof -
  let ?m = "kmalloc_in E (sz + (sizeof_cpu_context + 2)) s"
  have sz: "sz \<noteq> 0" using assms(6) by (auto simp: r_def do_allocatestack_def)
  have r: "snd r = snd ?m" "k_heap (fst r) = k_heap (fst ?m)" "t_sb (k_task (fst r) t) = snd r"
    using sz assms(6) by (auto simp: r_def do_allocatestack_def Let_def)
  note m = good_malloc [OF assms(1,2)]
  have fresh: "snd r \<noteq> NULL" "snd r \<notin> live (k_heap s)"
    using m(2) assms(6) r(1) by (simp_all del: alloc_sels)
  show "t_sb (k_task (fst r) t) = snd r" by (rule r(3))
  show "snd r \<in> live (k_heap (fst r))" using m(3) assms(6) r by (simp del: alloc_sels)
  show "t \<in> live (k_heap (fst r))"
    using live_alloc_mono [OF good_heap [OF assms(1)] assms(2)] assms(3) r(2) by auto
  show "snd r \<notin> insert t (tasks Q)"
    using fresh fresh_not_used(1) [OF assms(1) fresh(2,1)] assms(3) by auto
  show *: "\<forall>u \<in> tasks Q. t_sb (k_task (fst r) u) = t_sb (k_task s u)"
    using assms(4) sz by (auto simp: r_def do_allocatestack_def Let_def)
  show "\<forall>u \<in> tasks Q. t_sb (k_task (fst r) u) \<noteq> snd r"
    using fresh_not_used(2) [OF assms(1) fresh(2,1)] * by simp
qed

lemma inittask_good:
  assumes "good s Q" "allowed (stack + (sizeof_cpu_context + 2))" "unat prio < TASK_PRIO_QUEUE_MAX"
  shows "\<exists>s' t. inittask E ptp args stack prio s = Some (s', t) \<and>
    (t = NULL \<longrightarrow> good s' Q) \<and>
    (t \<noteq> NULL \<longrightarrow> good s' (Q(Ready (unat prio) := Q (Ready (unat prio)) @ [t])))"
proof -
  let ?n = "newtask E s"
  let ?t = "snd ?n"
  let ?a = "do_allocatestack E ?t stack (fst ?n)"
  note n = newtask_good [OF assms(1)]
  have a: "good (fst ?a) Q" by (rule do_allocatestack_good [OF n(1) assms(2)])
  consider "?t = NULL" | "?t \<noteq> NULL" "snd ?a = NULL" | "?t \<noteq> NULL" "snd ?a \<noteq> NULL" by blast
  then show ?thesis
  proof cases
    case 1
    with n(1) show ?thesis by (simp add: inittask_def Let_def)
  next
    case 2
    with a show ?thesis by (simp add: inittask_def Let_def)
  next
    case 3
    have t: "?t \<notin> tasks Q" "?t \<in> live (k_heap (fst ?n))"
        "\<forall>u \<in> tasks Q. t_sb (k_task (fst ?n) u) \<noteq> ?t"
      using n(2) [OF 3(1)] by auto
    note w = do_allocatestack_new [OF n(1) assms(2) t(2,1) 3(2)]
    let ?s = "upd_task ?t (t_prio_update (\<lambda>_. prio)) (do_setuptask E ?t ptp args NULL (fst ?a))"
    have g: "good ?s Q" using a t(1) by (simp add: good_outside do_setuptask_good)
    have prio: "prio_of ?s ?t = unat prio" by simp
    have "\<forall>u \<in> tasks Q. t_sb (k_task ?s u) \<noteq> ?t" using w(6) t(1,3) by auto
    moreover have "\<forall>u \<in> tasks Q. t_sb (k_task ?s u) \<noteq> t_sb (k_task ?s ?t)" using w(1,5) t(1) by auto
    ultimately have "good (?s\<lparr>k_q := fst (q_end (Some (Ready (unat prio))) ?t (k_q ?s))\<rparr>)
        (Q(Ready (unat prio) := Q (Ready (unat prio)) @ [?t]))"
      using w assms(3) t(1) by (intro good_added(2) [OF g]) auto
    with 3 assms(3) show ?thesis by (simp add: inittask_def Let_def ready_q_def)
  qed
qed

lemma init_task_queues_good:
  assumes "heap_ok (k_heap s)" "\<forall>i \<ge> TASK_PRIO_QUEUE_MAX. is_queue (k_q s) (Ready i) []"
  shows "good (init_task_queues s) (\<lambda>_. [])"
proof -
  have "is_queue (k_q (init_task_queues s)) q []" for q
  proof (cases q)
    case (Ready i)
    then show ?thesis
      using assms(2) by (cases "i \<ge> 5")
        (auto simp: init_task_queues_def q_init_def is_queue_def less_Suc_eq eval_nat_numeral)
  qed (auto simp: init_task_queues_def q_init_def is_queue_def)
  then show ?thesis
    using assms(1) by (auto simp: good_def kwf_def queues_def tasks_def init_task_queues_def)
qed

lemma kernel_start_good:
  assumes "heap_ok (k_heap s)" "\<forall>i \<ge> TASK_PRIO_QUEUE_MAX. is_queue (k_q s) (Ready i) []"
    and "allowed (0x80 + (sizeof_cpu_context + 2))" "allowed (stack + (sizeof_cpu_context + 2))"
    and "unat prio < TASK_PRIO_QUEUE_MAX"
    and idle: "inittask E idle_fn NULL 0x80 TASK_PRIO_IDLE (init_task_queues s) = Some (s1, idle)"
      "idle \<noteq> NULL"
  shows "\<exists>s'. kernel_start E idle_fn ptp args stack prio s = Some s' \<and> kinv live heap_ok idle s'"
proof -
  let ?Q = "(\<lambda>_. [])(Ready 4 := [idle])"
  have g1: "good s1 ?Q"
    using inittask_good [OF init_task_queues_good [OF assms(1,2)] assms(3), of TASK_PRIO_IDLE idle_fn NULL]
      idle by (auto simp: TASK_PRIO_IDLE_def)
  obtain s2 t where i2: "inittask E ptp args stack prio s1 = Some (s2, t)"
      "t = NULL \<longrightarrow> good s2 ?Q"
      "t \<noteq> NULL \<longrightarrow> good s2 (?Q(Ready (unat prio) := ?Q (Ready (unat prio)) @ [t]))"
    using inittask_good [OF g1 assms(4,5)] by blast
  then obtain Q2 where Q2: "good s2 Q2" "idle \<in> set (Q2 (Ready 4))" by (cases "t = NULL") auto
  have "kinv live heap_ok idle (scheduler (s2\<lparr>k_ev := EVENT_NONE\<rparr>))"
    by (rule kinv_loop_body [of _ Q2]) (use Q2 kwf_ready [OF good_kwf [OF Q2(1)]] in auto)
  with idle i2(1) show ?thesis by (simp add: kernel_start_def)
qed

end

section \<open>The kernel on the chunk allocator\<close>

definition chunk_env :: "addr \<Rightarrow> chunk_heap kenv" where
  "chunk_env exitfn = \<lparr>e_malloc = chunk_alloc, e_free = chunk_release, e_exittask = exitfn\<rparr>"

lemma chunk_env_sels [simp]:
  "e_malloc (chunk_env x) = chunk_alloc" "e_free (chunk_env x) = chunk_release"
  "e_exittask (chunk_env x) = x"
  by (simp_all add: chunk_env_def)

lemma chunk_env_ok: "kernel_env (chunk_env x) chunk_live chunk_heap_ok request_ok"
  using chunk_heap.allocator_axioms
  by (simp add: kernel_env_def kernel_env_axioms_def request_ok_def)

interpretation ck: kernel_env "chunk_env x" chunk_live chunk_heap_ok request_ok for x
  by (rule chunk_env_ok)

text \<open>The state at reset, with a heap of 4096 bytes.\<close>

definition reset_state :: "chunk_heap kst" where
  "reset_state =
     \<lparr>k_q = empty_qmem, k_task = (\<lambda>_. zero_task), k_ctx = (\<lambda>_ _. 0), k_mem = (\<lambda>_. 0), k_ev = 0,
      k_heap = (0x100, chunklist_init 0x100 0x1000 (\<lambda>_. \<lparr>c_next = 0, c_size = 0, c_free = 0\<rparr>))\<rparr>"

definition booted :: "(chunk_heap kst \<times> addr) option" where
  "booted = inittask (chunk_env 0x40) 0x50 NULL 0x80 TASK_PRIO_IDLE (init_task_queues reset_state)"

lemma reset_heap_ok: "chunk_heap_ok (k_heap reset_state)"
  using chunklist_init_tiled [of "0x100" "0x1000"]
  by (auto simp: chunk_heap_ok_def reset_state_def in_range_def total_def intro!: exI [of _ "[(0x1000, 1)]"])

lemma booted_idle: "\<exists>s. booted = Some (s, 0x105)"
  by (simp add: booted_def inittask_def newtask_def do_allocatestack_def kmalloc_in_def
      init_task_queues_def reset_state_def chunk_alloc_def do_malloc_def do_malloc_loop.simps
      split_chunk_def chunklist_init_def cset_defs TASK_PRIO_IDLE_def ready_q_def Let_def)

text \<open>States with given queues, for examples: the tasks all have priority 2 and no stack of their own.\<close>

definition queued :: "(kqueue \<times> addr) list \<Rightarrow> kqueue qmem" where
  "queued l = foldl (\<lambda>m (q, x). fst (q_end (Some q) x m)) empty_qmem l"

definition listed :: "(kqueue \<times> addr) list \<Rightarrow> kqueue \<Rightarrow> addr list" where
  "listed l q = map snd (filter (\<lambda>(r, x). r = q) l)"

definition example_state ::
  "(kqueue \<times> addr) list \<Rightarrow> (addr \<Rightarrow> cpu_context) \<Rightarrow> addr \<Rightarrow> unit kst"
where
  "example_state l ctx ev =
     \<lparr>k_q = queued l, k_task = (\<lambda>t. zero_task\<lparr>t_sp := t + 0x100, t_prio := TASK_PRIO_DFLT\<rparr>),
      k_ctx = (\<lambda>a. ctx (a - 0x101)), k_mem = (\<lambda>a. ucast a), k_ev = ev, k_heap = ()\<rparr>"

abbreviation example_live :: "(kqueue \<times> addr) list \<Rightarrow> unit \<Rightarrow> addr set" where
  "example_live l \<equiv> \<lambda>_. snd ` set l"

lemma listed_simps [simp]:
  "listed [] q = []" "listed ((r, x) # l) q = (if r = q then x # listed l q else listed l q)"
  by (simp_all add: listed_def)

lemma listed_subset: "set (listed l q) \<subseteq> snd ` set l"
  by (auto simp: listed_def)

lemma queued_listed:
  "distinct (map snd l) \<Longrightarrow> NULL \<notin> snd ` set l \<Longrightarrow> queues (queued l) (listed l)"
proof (induction l rule: rev_induct)
  case Nil
  show ?case using queues_empty by (simp add: queued_def listed_def [abs_def])
next
  case (snoc x l)
  obtain q t where x: "x = (q, t)" by fastforce
  have "listed (l @ [x]) = (listed l)(q := listed l q @ [t])" by (auto simp: listed_def x)
  moreover have "queues (fst (q_end (Some q) t (queued l))) ((listed l)(q := listed l q @ [t]))"
    using snoc x listed_subset by (intro kq.rep_end) fastforce+
  moreover have "queued (l @ [x]) = fst (q_end (Some q) t (queued l))" by (simp add: queued_def x)
  ultimately show ?case by metis
qed

lemma example_kwf:
  assumes "distinct (map snd l)" "NULL \<notin> snd ` set l" "length (listed l CurrentQ) \<le> 1"
    and "\<forall>i. i \<noteq> 2 \<longrightarrow> listed l (Ready i) = []"
  shows "kwf (example_live l) (example_state l ctx ev) (listed l)"
proof -
  have "tasks (listed l) \<subseteq> snd ` set l" using listed_subset by (fastforce simp: tasks_def)
  moreover have "\<forall>i. \<forall>t \<in> set (listed l (Ready i)). i = 2"
    using assms(4) by (metis empty_iff empty_set)
  ultimately show ?thesis
    using queued_listed [OF assms(1,2)] assms(3)
    by (auto simp: kwf_def example_state_def zero_task_def TASK_PRIO_DFLT_def)
qed

lemma example_current:
  "kwf live (example_state l ctx ev) (listed l) \<Longrightarrow> listed l CurrentQ = [t] \<Longrightarrow>
   CURRENT (example_state l ctx ev) = t"
  by (simp add: CURRENT_first)

lemma example_sels [simp]:
  "k_ev (example_state l ctx ev) = ev" "k_mem (example_state l ctx ev) a = ucast a"
  "prio_of (example_state l ctx ev) t = 2" "ctxt_at t (example_state l ctx ev) = t + 0x101"
  by (simp_all add: example_state_def TASK_PRIO_DFLT_def ctxt_at_def)

lemma example_ctxt [simp]: "GET_CTXT t (example_state l ctx ev) = ctx t"
  by (simp add: GET_CTXT_def ctxt_at_def example_state_def)

text \<open>An environment without a heap, for examples that allocate nothing.\<close>

definition no_heap :: "unit kenv" where
  "no_heap = \<lparr>e_malloc = (\<lambda>_ h. (h, NULL)), e_free = (\<lambda>_ h. h), e_exittask = 0\<rparr>"

end
