(* ===== verification/Kernel_Props.thy ===== *)
theory Kernel_Props
  imports Kernel_Run
begin

text \<open>
  The properties of the kernel as a whole, stated for any allocator that keeps the contract
  \<open>kernel_env\<close>; the witnesses use the allocator of \<^verbatim>\<open>misc/malloc.c\<close>.
\<close>

section \<open>The kernel never gets stuck\<close>

text \<open>
  C1. Liveness of the kernel: whatever sequence of kernel calls and interrupts follows the start, the
  queues of tasks and the ownership of memory stay intact, there is always a task to run, and
  the next interrupt or well-formed kernel call is served: the kernel returns to user mode again.
\<close>

theorem kernel_never_stuck:
  assumes env: "kernel_env E live heap_ok allowed"
    and heap: "heap_ok (k_heap s)"
    and static: "\<forall>i \<ge> TASK_PRIO_QUEUE_MAX. is_queue (k_q s) (Ready i) []"
    and sizes: "allowed (0x80 + (sizeof_cpu_context + 2))" "allowed (stack + (sizeof_cpu_context + 2))"
    and prio: "unat prio < TASK_PRIO_QUEUE_MAX"
    and idle: "inittask E idle_fn NULL 0x80 TASK_PRIO_IDLE (init_task_queues s) = Some (s1, idle)"
      "idle \<noteq> NULL"
    and start: "kernel_start E idle_fn ptp args stack prio s = Some s0"
    and run: "(kstep live allowed idle E)\<^sup>*\<^sup>* s0 s'"
  shows "kinv live heap_ok idle s' \<and> CURRENT s' \<noteq> NULL \<and>
    (\<forall>sp c m ev. ev \<noteq> EVENT_NONE \<longrightarrow> (\<exists>s''. kernel_loop E (user_runs sp c m ev s') = Some s'')) \<and>
    (\<forall>sp c m. CURRENT s' \<noteq> idle \<longrightarrow>
       (\<forall>Q. kwf live s' Q \<longrightarrow> call_ok live allowed c (user_runs sp c m EVENT_NONE s') Q) \<longrightarrow>
       (\<exists>s''. kernel_loop E (user_runs sp c m EVENT_NONE s') = Some s''))"
proof -
  have "kinv live heap_ok idle s0"
    using kernel_env.kernel_start_good [OF env heap static sizes prio idle, of ptp args]
      start by auto
  then have inv: "kinv live heap_ok idle s'" by (rule kernel_env.kinv_reachable [OF env run])
  then show ?thesis
    using kernel_env.kinv_event [OF env inv] kernel_env.kinv_call [OF env inv]
    by (auto simp: kinv_def) (metis+)
qed

theorem kernel_never_stuck_witness:
  "\<exists>s0. kernel_start (chunk_env 0x40) 0x50 0x60 NULL 0x100 TASK_PRIO_DFLT reset_state = Some s0 \<and>
     CURRENT s0 \<noteq> NULL"
proof -
  obtain s1 where i: "inittask (chunk_env 0x40) 0x50 NULL 0x80 TASK_PRIO_IDLE
      (init_task_queues reset_state) = Some (s1, 0x105)"
    using booted_idle by (auto simp: booted_def)
  have st: "\<forall>i \<ge> 5. is_queue (k_q reset_state) (Ready i) []"
    using queues_empty by (auto simp: reset_state_def queues_def)
  have sz: "request_ok (0x80 + (sizeof_cpu_context + 2))" "request_ok (0x100 + (sizeof_cpu_context + 2))"
    by (simp_all add: request_ok_def)
  have pr: "unat TASK_PRIO_DFLT < 5" by (simp add: TASK_PRIO_DFLT_def)
  obtain s0 where s0: "kernel_start (chunk_env 0x40) 0x50 0x60 NULL 0x100 TASK_PRIO_DFLT reset_state = Some s0"
    using ck.kernel_start_good [OF reset_heap_ok st sz pr i] by auto
  have "CURRENT s0 \<noteq> NULL"
    using kernel_never_stuck [OF chunk_env_ok reset_heap_ok st sz pr i _ s0 rtranclp.rtrancl_refl] by simp
  with s0 show ?thesis by blast
qed

section \<open>Scheduling\<close>

text \<open>
  C5. Preemptive priority scheduling, first come first served within a priority: when no task is
  current and one is ready, the scheduler takes the first task of the first ready queue that is not
  empty, no ready task has a higher priority, and nothing else moves.
\<close>

theorem scheduler_picks_highest:
  assumes "kwf live s Q" and "Q CurrentQ = []" and "u \<in> set (Q (Ready i))"
  shows "\<exists>p t ts. Q (Ready p) = t # ts \<and> CURRENT (scheduler s) = t \<and>
    prio_of s t \<le> prio_of s u \<and> (\<forall>j < p. Q (Ready j) = []) \<and>
    kwf live (scheduler s) (Q(Ready p := ts, CurrentQ := [t]))"
proof -
  have i: "i < TASK_PRIO_QUEUE_MAX" "prio_of s u = i"
    using kwf_prio [OF assms(1) in_tasks, of u "Ready i"] kwf_ready [OF assms(1)] assms(3) by auto
  obtain p where p: "pick Q = Some p" "p \<le> i" "Q (Ready p) \<noteq> []" "\<forall>j < p. Q (Ready j) = []"
    using pick_some [of u Q i] assms(3) i(1) by metis
  then obtain t ts where t: "Q (Ready p) = t # ts" by (auto simp: neq_Nil_conv)
  then have "prio_of s t = p" using kwf_ready [OF assms(1)] by simp
  moreover have kwf: "kwf live (scheduler s) (Q(Ready p := ts, CurrentQ := [t]))"
    using scheduler_refines [OF assms(1)] p(1) t assms(2) by (simp add: scheduled_def)
  moreover have "CURRENT (scheduler s) = t" using CURRENT_first [OF kwf] by simp
  ultimately show ?thesis using p t i by auto
qed

theorem scheduler_picks_highest_witness:
  "CURRENT (scheduler (example_state [(Ready 2, 6), (Ready 2, 7)] (\<lambda>_ _. 0) 0)) = 6"
proof -
  let ?l = "[(Ready 2, 6 :: addr), (Ready 2, 7)]"
  have "kwf (example_live ?l) (example_state ?l (\<lambda>_ _. 0) 0) (listed ?l)"
    by (rule example_kwf) auto
  from scheduler_picks_highest [OF this, of 7 2]
  obtain p t ts where "listed ?l (Ready p) = t # ts" "\<forall>j < p. listed ?l (Ready j) = []"
      "CURRENT (scheduler (example_state ?l (\<lambda>_ _. 0) 0)) = t"
    by auto
  then show ?thesis by (auto simp: listed_def split: if_splits)
qed

text \<open>
  Round robin: a task that yields goes behind the other ready tasks of its priority, and if no
  task of a higher priority is ready the first of them runs next. A task alone at its priority
  runs on.
\<close>

theorem yield_is_round_robin:
  assumes "kwf live s Q" and "CURRENT s \<noteq> NULL" and "k_ev s = EVENT_NONE"
    and "GET_KCALLCODE (GET_CTXT (CURRENT s) s) = KCALL_YIELD"
    and "prio_of s (CURRENT s) = p" and "\<forall>j < p. Q (Ready j) = []"
  shows "\<exists>s'. kernel_loop E s = Some s' \<and> CURRENT s' = hd (Q (Ready p) @ [CURRENT s]) \<and>
    kwf live s' (Q(Ready p := tl (Q (Ready p) @ [CURRENT s]),
      CurrentQ := [hd (Q (Ready p) @ [CURRENT s])]))"
proof -
  let ?t = "CURRENT s"
  let ?Q = "moved_end CurrentQ (Ready p) ?t Q"
  let ?s = "move_end CurrentQ (Ready p) ?t s"
  note cur = CURRENT_singleton [OF assms(1,2)]
  have p: "p < TASK_PRIO_QUEUE_MAX"
    using kwf_prio [OF assms(1) in_tasks, of ?t CurrentQ] cur assms(5) by auto
  have kwf: "kwf live ?s ?Q" using cur assms(5) by (intro kwf_moved [OF assms(1)]) auto
  have call: "kernel_loop E s = Some (scheduler ?s)"
    using assms k_yield_eq [OF assms(1,2)]
    by (simp add: kernel_loop_def kernel_entry_def kernel_call_def Let_def kcall_codes)
  have "?t \<in> set (?Q (Ready p))" by simp
  then obtain r where r: "pick ?Q = Some r" "r \<le> p" "?Q (Ready r) \<noteq> []"
    using pick_some [of ?t ?Q p] p by metis
  with assms(6) have "r = p" by (metis fun_upd_apply kqueue.distinct(1) kqueue.inject le_neq_implies_less)
  with r(1) cur have "scheduled ?Q = Q(Ready p := tl (Q (Ready p) @ [?t]), CurrentQ := [hd (Q (Ready p) @ [?t])])"
    by (auto simp: scheduled_def)
  with scheduler_refines [OF kwf] have k: "kwf live (scheduler ?s)
      (Q(Ready p := tl (Q (Ready p) @ [?t]), CurrentQ := [hd (Q (Ready p) @ [?t])]))" by simp
  show ?thesis using call k CURRENT_first [OF k] by simp
qed

theorem yield_is_round_robin_witness:
  "\<exists>s'. kernel_loop no_heap (example_state [(CurrentQ, 5), (Ready 2, 6), (Ready 2, 7)] (\<lambda>_ _. 0) 0) = Some s'
     \<and> CURRENT s' = 6"
proof -
  let ?l = "[(CurrentQ, 5 :: addr), (Ready 2, 6), (Ready 2, 7)]"
  let ?s = "example_state ?l (\<lambda>_ _. 0) 0"
  have k: "kwf (example_live ?l) ?s (listed ?l)"
    by (rule example_kwf) auto
  have c: "CURRENT ?s = 5" by (rule example_current [OF k]) simp
  have p: "prio_of ?s 5 = 2" "k_ev ?s = EVENT_NONE"
    by (simp_all add: EVENT_NONE_def)
  from yield_is_round_robin [OF k, of 2 no_heap] c p show ?thesis
    by (auto simp: GET_KCALLCODE_def KCALL_YIELD_def)
qed

section \<open>Messages\<close>

lemma memcpy_copied: "i < n \<Longrightarrow> memcpy dst src n mem (dst + i) = mem (src + i)"
  by (simp add: memcpy_def)

lemma memcpy_outside: "\<not> a - dst < n \<Longrightarrow> memcpy dst src n mem a = mem a"
  by (simp add: memcpy_def)

lemma find_unique: "x \<in> set xs \<Longrightarrow> P x \<Longrightarrow> (\<And>y. P y \<Longrightarrow> y = x) \<Longrightarrow> find P xs = Some x"
proof (induction xs)
  case Nil
  from Nil.prems(1) show ?case by simp
next
  case (Cons a xs)
  show ?case
  proof (cases "P a")
    case True
    with Cons.prems(3) have "a = x" .
    with True show ?thesis by simp
  next
    case False
    with Cons.prems(1,2) have "x \<in> set xs" by auto
    then have "find P xs = Some x" by (rule Cons.IH [OF _ Cons.prems(2,3)])
    with False show ?thesis by simp
  qed
qed

lemma scheduler_current: "CURRENT s \<noteq> NULL \<Longrightarrow> scheduler s = s"
  by (simp add: scheduler_def)

lemma kernel_call_msg:
  assumes "GET_KCALLCODE (GET_CTXT (CURRENT s) s) = code"
  shows "code = KCALL_SEND \<Longrightarrow> kernel_call E s = k_send s"
    and "code = KCALL_SENDREC \<Longrightarrow> kernel_call E s = k_sendrec (ctxt_at (CURRENT s) s) s"
    and "code = KCALL_RECEIVE \<Longrightarrow> kernel_call E s = k_receive s"
  unfolding kernel_call_def Let_def assms by (simp_all add: kcall_codes)

lemma kernel_loop_call: "k_ev s = EVENT_NONE \<Longrightarrow> kernel_loop E s = map_option scheduler (kernel_call E s)"
  by (simp add: kernel_loop_def kernel_entry_def)

lemma find_receiver:
  assumes "rendezvous r (CURRENT s) s" "r \<in> set (Q BlockedQ)"
  shows "find (\<lambda>t. rendezvous t (CURRENT s) s) (Q BlockedQ) = Some r"
  using assms by (intro find_unique) (auto simp: rendezvous_def)

lemma delivered_mem:
  "k_mem (delivered r d s) =
     memcpy (GETP1 (GET_CTXT r s)) (GETP1 (GET_CTXT d s)) (GETP2 (GET_CTXT r s)) (k_mem s)"
  by (simp add: delivered_def)

lemma delivered_ctx: "k_ctx (delivered r d s) = (k_ctx s)(ctxt_at r s := SETP0 d (GET_CTXT r s))"
  by (simp add: delivered_def GET_CTXT_def)

text \<open>
  C2. Sending to a task that waits for the message: the message is copied into the buffer of the
  receiver, byte for byte and nothing else, the receiver learns who sent it and becomes the last
  ready task of its priority, and the sender runs on.
\<close>

theorem send_delivers:
  assumes "kwf live s Q" and "CURRENT s = a" and "a \<noteq> NULL" and "k_ev s = EVENT_NONE"
    and "GET_KCALLCODE (GET_CTXT a s) = KCALL_SEND" and "GETP0 (GET_CTXT a s) = b"
    and "b \<in> set (Q BlockedQ)" and "GET_KCALLCODE (GET_CTXT b s) = KCALL_RECEIVE"
    and "GETP0 (GET_CTXT b s) \<in> {a, TASK_ANY}"
  shows "\<exists>s'. kernel_loop E s = Some s' \<and> CURRENT s' = a \<and>
    kwf live s' (Q(BlockedQ := remove1 b (Q BlockedQ),
      Ready (prio_of s b) := Q (Ready (prio_of s b)) @ [b])) \<and>
    GETP0 (GET_CTXT b s') = a \<and>
    (\<forall>i < GETP2 (GET_CTXT b s). k_mem s' (GETP1 (GET_CTXT b s) + i) = k_mem s (GETP1 (GET_CTXT a s) + i)) \<and>
    (\<forall>x. \<not> x - GETP1 (GET_CTXT b s) < GETP2 (GET_CTXT b s) \<longrightarrow> k_mem s' x = k_mem s x)"
proof -
  let ?q = "Ready (prio_of s b)"
  let ?s = "move_end BlockedQ ?q b (delivered b a s)"
  have "rendezvous b (CURRENT s) s" using assms by (simp add: rendezvous_def)
  with assms(7) have "find (\<lambda>t. rendezvous t (CURRENT s) s) (Q BlockedQ) = Some b"
    by (intro find_receiver)
  then have send: "k_send s = Some ?s"
    using assms(2) by (simp add: k_send_eq [OF assms(1)])
  have k: "kwf live ?s (moved_end BlockedQ ?q b Q)"
    using assms(1,7) by (intro kwf_moved) auto
  then have cur: "CURRENT ?s = a"
    using CURRENT_first [OF k] CURRENT_singleton [OF assms(1)] assms(2,3) by simp
  have "kernel_loop E s = Some ?s"
    using kernel_call_msg(1) [of s, OF _ refl] assms(2-5) send scheduler_current [of ?s] cur
    by (simp add: kernel_loop_call)
  moreover have "GETP0 (GET_CTXT b ?s) = a" by (simp add: GET_CTXT_def delivered_ctx)
  ultimately show ?thesis
    using k cur by (auto simp: delivered_mem memcpy_copied memcpy_outside)
qed

definition example_ipc :: "addr \<Rightarrow> cpu_context" where
  "example_ipc t = (if t = 5 then trap_ctxt (Send 6 0x30) (\<lambda>_. 0)
                    else trap_ctxt (Receive TASK_ANY 0x80 4) (\<lambda>_. 0))"

lemma example_ipc_sels:
  "GET_KCALLCODE (example_ipc 5) = KCALL_SEND" "GETP0 (example_ipc 5) = 6" "GETP1 (example_ipc 5) = 0x30"
  "GET_KCALLCODE (example_ipc 6) = KCALL_RECEIVE" "GETP0 (example_ipc 6) = TASK_ANY"
  "GETP1 (example_ipc 6) = 0x80" "GETP2 (example_ipc 6) = 4"
  by (simp_all add: example_ipc_def ctxt_defs LOW_def HIGH_def join_def TASK_ANY_def)

theorem send_delivers_witness:
  "\<exists>s'. kernel_loop no_heap (example_state [(CurrentQ, 5), (BlockedQ, 6)] example_ipc 0) = Some s' \<and>
     GETP0 (GET_CTXT 6 s') = 5 \<and> k_mem s' 0x82 = 0x32"
proof -
  let ?l = "[(CurrentQ, 5 :: addr), (BlockedQ, 6)]"
  let ?s = "example_state ?l example_ipc 0"
  have k: "kwf (example_live ?l) ?s (listed ?l)" by (rule example_kwf) auto
  have c: "CURRENT ?s = 5" by (rule example_current [OF k]) simp
  from send_delivers [OF k c, of 6 no_heap]
  obtain s' where s': "kernel_loop no_heap ?s = Some s'" "GETP0 (GET_CTXT 6 s') = 5"
      "\<forall>i < 4. k_mem s' (0x80 + i) = k_mem ?s (0x30 + i)"
    by (auto simp: example_ipc_sels EVENT_NONE_def)
  have "(2 :: addr) < 4" by simp
  with s'(3) have "k_mem s' (0x80 + 2) = k_mem ?s (0x30 + 2)" by blast
  with s' show ?thesis by simp
qed

text \<open>
  C4. A rendezvous does not depend on who comes first: whether the receiver waits and the sender sends,
  or the sender waits and the receiver receives, the memory and the contexts of all tasks are the
  same afterwards and both tasks can run.
\<close>

theorem rendezvous_symmetric:
  assumes "kwf live s1 Q1" and "kwf live s2 Q2" and "a \<noteq> NULL" and "b \<noteq> NULL"
    and "k_mem s1 = k_mem s2" and "k_ctx s1 = k_ctx s2" and "k_task s1 = k_task s2"
    and "k_ev s1 = EVENT_NONE" and "k_ev s2 = EVENT_NONE"
    and "GET_KCALLCODE (GET_CTXT a s1) = KCALL_SEND" and "rendezvous b a s1"
    and "CURRENT s1 = a" and "b \<in> set (Q1 BlockedQ)"
    and "CURRENT s2 = b" and "find (\<lambda>t. rendezvous b t s2) (Q2 BlockedQ) = Some a"
  shows "\<exists>s1' s2'. kernel_loop E s1 = Some s1' \<and> kernel_loop E s2 = Some s2' \<and>
    k_mem s1' = k_mem s2' \<and> k_ctx s1' = k_ctx s2' \<and>
    kwf live s1' (Q1(BlockedQ := remove1 b (Q1 BlockedQ),
      Ready (prio_of s1 b) := Q1 (Ready (prio_of s1 b)) @ [b])) \<and>
    kwf live s2' (Q2(BlockedQ := remove1 a (Q2 BlockedQ),
      Ready (prio_of s2 a) := Q2 (Ready (prio_of s2 a)) @ [a])) \<and>
    CURRENT s1' = a \<and> CURRENT s2' = b"
proof -
  let ?s1 = "move_end BlockedQ (Ready (prio_of s1 b)) b (delivered b a s1)"
  let ?s2 = "move_end BlockedQ (Ready (prio_of s2 a)) a (delivered b a s2)"
  have ctxt: "GET_CTXT t s1 = GET_CTXT t s2" "ctxt_at t s1 = ctxt_at t s2" for t
    using assms(6,7) by (simp_all add: GET_CTXT_def ctxt_at_def)
  have a: "a \<in> set (Q2 BlockedQ)" "rendezvous b a s2" using find_in [OF assms(15)] by auto
  have code: "GET_KCALLCODE (GET_CTXT b s2) = KCALL_RECEIVE" using a(2) by (simp add: rendezvous_def)
  have "find (\<lambda>t. rendezvous t (CURRENT s1) s1) (Q1 BlockedQ) = Some b"
    by (rule find_receiver) (use assms(11-13) in auto)
  then have send: "k_send s1 = Some ?s1" using assms(12) by (simp add: k_send_eq [OF assms(1)])
  have receive: "k_receive s2 = Some ?s2"
    using assms(10,14,15) ctxt
    by (simp add: k_receive_eq [OF assms(2)] Let_def KCALL_SEND_def KCALL_SENDREC_def)
  have k1: "kwf live ?s1 (moved_end BlockedQ (Ready (prio_of s1 b)) b Q1)"
    using assms(1,13) by (intro kwf_moved) auto
  have k2: "kwf live ?s2 (moved_end BlockedQ (Ready (prio_of s2 a)) a Q2)"
    using assms(2) a(1) by (intro kwf_moved) auto
  have cur: "CURRENT ?s1 = a" "CURRENT ?s2 = b"
    using CURRENT_first [OF k1] CURRENT_first [OF k2] CURRENT_singleton [OF assms(1)]
      CURRENT_singleton [OF assms(2)] assms(3,4,12,14) by simp_all
  have "kernel_loop E s1 = Some ?s1" "kernel_loop E s2 = Some ?s2"
    using kernel_call_msg(1) [of s1, OF _ refl] kernel_call_msg(3) [of s2, OF _ refl] send receive code
      scheduler_current [of ?s1] scheduler_current [of ?s2] cur assms(3,4,8-10,12,14)
    by (simp_all add: kernel_loop_call)
  moreover have "k_mem ?s1 = k_mem ?s2" "k_ctx ?s1 = k_ctx ?s2"
    using assms(5,6) ctxt by (simp_all add: delivered_mem delivered_ctx)
  ultimately show ?thesis using k1 k2 cur by auto
qed

theorem rendezvous_symmetric_witness:
  "\<exists>s1 s2. kernel_loop no_heap (example_state [(CurrentQ, 5), (BlockedQ, 6)] example_ipc 0) = Some s1 \<and>
     kernel_loop no_heap (example_state [(CurrentQ, 6), (BlockedQ, 5)] example_ipc 0) = Some s2 \<and>
     k_mem s1 = k_mem s2"
proof -
  let ?l1 = "[(CurrentQ, 5 :: addr), (BlockedQ, 6)]" and ?l2 = "[(CurrentQ, 6 :: addr), (BlockedQ, 5)]"
  let ?s1 = "example_state ?l1 example_ipc 0" and ?s2 = "example_state ?l2 example_ipc 0"
  let ?live = "\<lambda>_ :: unit. {5, 6} :: addr set"
  have "example_live ?l1 = ?live" "example_live ?l2 = ?live" by auto
  then have k: "kwf ?live ?s1 (listed ?l1)" "kwf ?live ?s2 (listed ?l2)"
    using example_kwf [of ?l1 example_ipc 0] example_kwf [of ?l2 example_ipc 0] by auto
  have c: "CURRENT ?s1 = 5" "CURRENT ?s2 = 6"
    using example_current [OF k(1)] example_current [OF k(2)] by simp_all
  have r: "rendezvous 6 5 ?s1" "rendezvous 6 5 ?s2" by (auto simp: rendezvous_def example_ipc_sels)
  have eq: "k_mem ?s1 = k_mem ?s2" "k_ctx ?s1 = k_ctx ?s2" "k_task ?s1 = k_task ?s2"
    by (simp_all add: example_state_def)
  have f: "find (\<lambda>t. rendezvous 6 t ?s2) (listed ?l2 BlockedQ) = Some 5" using r by simp
  have ev: "k_ev ?s1 = EVENT_NONE" "k_ev ?s2 = EVENT_NONE" by (simp_all add: EVENT_NONE_def)
  have code: "GET_KCALLCODE (GET_CTXT 5 ?s1) = KCALL_SEND" by (simp add: example_ipc_sels)
  show ?thesis
    using rendezvous_symmetric [OF k _ _ eq ev code r(1) c(1) _ c(2) f, of no_heap] by auto
qed

lemma rendezvous_receiver:
  "GETP0 (GET_CTXT t s) \<noteq> TASK_ANY \<Longrightarrow> rendezvous t x s \<Longrightarrow> x = GETP0 (GET_CTXT t s)"
  by (auto simp: rendezvous_def)

text \<open>
  C3. A client that calls a server with \<^verbatim>\<open>sendrec\<close> while the server waits: the server gets the request and
  becomes ready, the client blocks in the same kernel call, and from then on only a message of that
  server can wake it up.
\<close>

theorem sendrec_to_waiting_server:
  assumes "kwf live s Q" and "CURRENT s = a" and "a \<noteq> NULL" and "k_ev s = EVENT_NONE"
    and "GET_KCALLCODE (GET_CTXT a s) = KCALL_SENDREC" and "GETP0 (GET_CTXT a s) = b" and "b \<noteq> TASK_ANY"
    and "b \<in> set (Q BlockedQ)" and "GET_KCALLCODE (GET_CTXT b s) = KCALL_RECEIVE"
    and "GETP0 (GET_CTXT b s) \<in> {a, TASK_ANY}" and "ctxt_at a s \<noteq> ctxt_at b s"
  shows "\<exists>s'. k_sendrec (ctxt_at a s) s = Some s' \<and>
    kwf live s' (Q(CurrentQ := [], BlockedQ := a # remove1 b (Q BlockedQ),
      Ready (prio_of s b) := Q (Ready (prio_of s b)) @ [b])) \<and>
    GETP0 (GET_CTXT b s') = a \<and>
    (\<forall>i < GETP2 (GET_CTXT b s). k_mem s' (GETP1 (GET_CTXT b s) + i) = k_mem s (GETP1 (GET_CTXT a s) + i)) \<and>
    GET_KCALLCODE (GET_CTXT a s') = KCALL_RECEIVE \<and> (\<forall>x. rendezvous a x s' \<longrightarrow> x = b)"
proof -
  let ?q = "Ready (prio_of s b)"
  let ?s = "move_end BlockedQ ?q b (upd_ctxt (ctxt_at a s) (SET_KCALLCODE KCALL_RECEIVE) (delivered b a s))"
  let ?s' = "move_front CurrentQ BlockedQ a ?s"
  let ?Q = "moved_end BlockedQ ?q b Q"
  note cur = CURRENT_singleton [OF assms(1)]
  have "rendezvous b (CURRENT s) s" using assms by (simp add: rendezvous_def)
  with assms(8) have f: "find (\<lambda>t. rendezvous t (CURRENT s) s) (Q BlockedQ) = Some b"
    by (intro find_receiver)
  have k: "kwf live ?s ?Q" using assms(1,8) by (intro kwf_moved) auto
  have "CURRENT ?s = a" using CURRENT_first [OF k] cur assms(2,3) by simp
  then have call: "k_sendrec (ctxt_at a s) s = Some ?s'"
    using f assms(2) by (simp add: k_sendrec_eq [OF assms(1)] Let_def)
  have "kwf live ?s' (moved_front CurrentQ BlockedQ a ?Q)"
    using cur assms(2,3) by (intro kwf_moved(2) [OF k]) auto
  moreover have "moved_front CurrentQ BlockedQ a ?Q =
      Q(CurrentQ := [], BlockedQ := a # remove1 b (Q BlockedQ), ?q := Q ?q @ [b])"
    using cur assms(2,3) by auto
  ultimately have k': "kwf live ?s'
      (Q(CurrentQ := [], BlockedQ := a # remove1 b (Q BlockedQ), ?q := Q ?q @ [b]))" by metis
  have ca: "GET_CTXT a ?s' = SET_KCALLCODE KCALL_RECEIVE (GET_CTXT a s)"
    and cb: "GET_CTXT b ?s' = SETP0 a (GET_CTXT b s)"
    using assms(11) by (simp_all add: GET_CTXT_def delivered_ctx)
  have "\<forall>x. rendezvous a x ?s' \<longrightarrow> x = b"
    using rendezvous_receiver [of a ?s'] assms(6,7) by (auto simp: ca)
  with call k' ca cb show ?thesis by (auto simp: delivered_mem memcpy_copied)
qed

text \<open>
  The other order: a server that receives while a client waits in \<^verbatim>\<open>sendrec\<close> gets the request and runs
  on; the client stays blocked, now waiting for the answer of that server and of nobody else.
\<close>

theorem receive_from_waiting_client:
  assumes "kwf live s Q" and "CURRENT s = b" and "b \<noteq> NULL" and "k_ev s = EVENT_NONE" and "b \<noteq> TASK_ANY"
    and "GET_KCALLCODE (GET_CTXT b s) = KCALL_RECEIVE"
    and "find (\<lambda>t. rendezvous b t s) (Q BlockedQ) = Some a"
    and "GET_KCALLCODE (GET_CTXT a s) = KCALL_SENDREC" and "ctxt_at a s \<noteq> ctxt_at b s"
  shows "\<exists>s'. kernel_loop E s = Some s' \<and> kwf live s' Q \<and> CURRENT s' = b \<and>
    GETP0 (GET_CTXT b s') = a \<and>
    (\<forall>i < GETP2 (GET_CTXT b s). k_mem s' (GETP1 (GET_CTXT b s) + i) = k_mem s (GETP1 (GET_CTXT a s) + i)) \<and>
    GET_KCALLCODE (GET_CTXT a s') = KCALL_RECEIVE \<and> (\<forall>x. rendezvous a x s' \<longrightarrow> x = b)"
proof -
  let ?s' = "upd_ctxt (ctxt_at a s) (SET_KCALLCODE KCALL_RECEIVE) (delivered b a s)"
  have a: "a \<in> set (Q BlockedQ)" "rendezvous b a s" using find_in [OF assms(7)] by auto
  have "k_receive s = Some ?s'"
    using assms(2,7,8) by (simp add: k_receive_eq [OF assms(1)] Let_def)
  then have call: "kernel_loop E s = Some ?s'"
    using kernel_call_msg(3) [of s, OF _ refl] assms(2-4,6) scheduler_current [of ?s']
    by (simp add: kernel_loop_call)
  have ca: "GET_CTXT a ?s' = SET_KCALLCODE KCALL_RECEIVE (GET_CTXT a s)"
    and cb: "GET_CTXT b ?s' = SETP0 a (GET_CTXT b s)"
    using assms(9) by (simp_all add: GET_CTXT_def delivered_ctx)
  have "GETP0 (GET_CTXT a s) = b" using a(2) by (simp add: rendezvous_def)
  then have "\<forall>x. rendezvous a x ?s' \<longrightarrow> x = b"
    using rendezvous_receiver [of a ?s'] assms(5) by (auto simp: ca)
  with call ca cb assms(1,2) show ?thesis by (auto simp: delivered_mem memcpy_copied)
qed

definition example_rpc :: "addr \<Rightarrow> cpu_context" where
  "example_rpc t = (if t = 5 then trap_ctxt (Sendrec 6 0x30 8) (\<lambda>_. 0)
                    else trap_ctxt (Receive TASK_ANY 0x80 4) (\<lambda>_. 0))"

lemma example_rpc_sels:
  "GET_KCALLCODE (example_rpc 5) = KCALL_SENDREC" "GETP0 (example_rpc 5) = 6" "GETP1 (example_rpc 5) = 0x30"
  "GET_KCALLCODE (example_rpc 6) = KCALL_RECEIVE" "GETP0 (example_rpc 6) = TASK_ANY"
  "GETP1 (example_rpc 6) = 0x80" "GETP2 (example_rpc 6) = 4"
  by (simp_all add: example_rpc_def ctxt_defs LOW_def HIGH_def join_def TASK_ANY_def)

theorem sendrec_to_waiting_server_witness:
  "\<exists>s'. k_sendrec 0x106 (example_state [(CurrentQ, 5), (BlockedQ, 6)] example_rpc 0) = Some s' \<and>
     GETP0 (GET_CTXT 6 s') = 5 \<and> (\<forall>x. rendezvous 5 x s' \<longrightarrow> x = 6)"
proof -
  let ?l = "[(CurrentQ, 5 :: addr), (BlockedQ, 6)]"
  let ?s = "example_state ?l example_rpc 0"
  have k: "kwf (example_live ?l) ?s (listed ?l)" by (rule example_kwf) auto
  have c: "CURRENT ?s = 5" by (rule example_current [OF k]) simp
  from sendrec_to_waiting_server [OF k c, of 6] show ?thesis
    by (auto simp: example_rpc_sels EVENT_NONE_def TASK_ANY_def)
qed

theorem receive_from_waiting_client_witness:
  "\<exists>s'. kernel_loop no_heap (example_state [(CurrentQ, 6), (BlockedQ, 5)] example_rpc 0) = Some s' \<and>
     CURRENT s' = 6 \<and> GETP0 (GET_CTXT 6 s') = 5"
proof -
  let ?l = "[(CurrentQ, 6 :: addr), (BlockedQ, 5)]"
  let ?s = "example_state ?l example_rpc 0"
  have k: "kwf (example_live ?l) ?s (listed ?l)" by (rule example_kwf) auto
  have c: "CURRENT ?s = 6" by (rule example_current [OF k]) simp
  have f: "find (\<lambda>t. rendezvous 6 t ?s) (listed ?l BlockedQ) = Some 5"
    by (auto simp: rendezvous_def example_rpc_sels)
  from receive_from_waiting_client [OF k c _ _ _ _ f, of no_heap] show ?thesis
    by (auto simp: example_rpc_sels EVENT_NONE_def TASK_ANY_def)
qed

section \<open>Events\<close>

text \<open>
  C6. An interrupt with a task waiting for it: that task runs next, whatever its priority, and gets the
  event as the result of its call; the interrupted task goes to the end of its ready queue if the
  waiting task asked for \<^verbatim>\<open>PREEMPT_ON_EVENT\<close>, else to the front, so that it runs on first. An event
  nobody waits for is lost and changes nothing.
\<close>

theorem event_wakes_handler:
  assumes "kwf live s Q" and "CURRENT s \<noteq> NULL" and "k_ev s \<noteq> EVENT_NONE"
  defines "q \<equiv> Ready (prio_of s (CURRENT s))"
  shows "(\<forall>t. find (waits_for_event s) (Q BlockedQ) = Some t \<longrightarrow>
      (\<exists>s'. kernel_loop E s = Some s' \<and> CURRENT s' = t \<and> GETP0 (GET_CTXT t s') = k_ev s \<and>
         k_ev s' = EVENT_NONE \<and> k_mem s' = k_mem s \<and>
         kwf live s' (Q(CurrentQ := [t], BlockedQ := remove1 t (Q BlockedQ),
           q := (if GETP0 (GET_CTXT t s) AND PREEMPT_ON_EVENT \<noteq> 0
                 then Q q @ [CURRENT s] else CURRENT s # Q q))))) \<and>
    (find (waits_for_event s) (Q BlockedQ) = None \<longrightarrow>
      kernel_loop E s = Some (s\<lparr>k_ev := EVENT_NONE\<rparr>))"
proof (intro conjI allI impI)
  fix t
  assume f: "find (waits_for_event s) (Q BlockedQ) = Some t"
  let ?b = "GETP0 (GET_CTXT t s) AND PREEMPT_ON_EVENT \<noteq> 0"
  let ?s1 = "if ?b then move_end CurrentQ q (CURRENT s) s else move_front CurrentQ q (CURRENT s) s"
  let ?s' = "(upd_ctxt (ctxt_at t s) (SETP0 (k_ev s)) (move_front BlockedQ CurrentQ t ?s1))\<lparr>k_ev := EVENT_NONE\<rparr>"
  let ?Q1 = "Q(CurrentQ := [], q := (if ?b then Q q @ [CURRENT s] else CURRENT s # Q q))"
  note cur = CURRENT_singleton [OF assms(1,2)]
  have t: "t \<in> set (Q BlockedQ)" "t \<noteq> NULL"
    using find_in [OF f] kq.rep_not_nil [OF kwf_queues [OF assms(1)], of BlockedQ] by auto
  have at_end: "moved_end CurrentQ q (CURRENT s) Q = Q(CurrentQ := [], q := Q q @ [CURRENT s])"
    and at_front: "moved_front CurrentQ q (CURRENT s) Q = Q(CurrentQ := [], q := CURRENT s # Q q)"
    using cur by simp_all
  have "kwf live (move_end CurrentQ q (CURRENT s) s) (Q(CurrentQ := [], q := Q q @ [CURRENT s]))"
    unfolding at_end [symmetric] by (rule kwf_moved(1) [OF assms(1)]) (auto simp: cur q_def)
  moreover have "kwf live (move_front CurrentQ q (CURRENT s) s) (Q(CurrentQ := [], q := CURRENT s # Q q))"
    unfolding at_front [symmetric] by (rule kwf_moved(2) [OF assms(1)]) (auto simp: cur q_def)
  ultimately have k1: "kwf live ?s1 ?Q1" by simp
  have "kwf live (move_front BlockedQ CurrentQ t ?s1) (moved_front BlockedQ CurrentQ t ?Q1)"
    using t by (intro kwf_moved(2) [OF k1]) (auto simp: q_def)
  moreover have "moved_front BlockedQ CurrentQ t ?Q1 = Q(CurrentQ := [t], BlockedQ := remove1 t (Q BlockedQ),
      q := (if ?b then Q q @ [CURRENT s] else CURRENT s # Q q))"
    by (auto simp: q_def)
  ultimately have k: "kwf live ?s' (Q(CurrentQ := [t], BlockedQ := remove1 t (Q BlockedQ),
      q := (if ?b then Q q @ [CURRENT s] else CURRENT s # Q q)))"
    by (simp only: kwf_upd_ev kwf_upd_ctxt)
  have c: "CURRENT ?s' = t" using CURRENT_first [OF k] by (simp add: q_def)
  have "handle_event s = Some ?s'"
    using f by (simp add: handle_event_eq [OF assms(1,2)] Let_def q_def)
  then have "kernel_loop E s = Some ?s'"
    using assms(3) scheduler_current [of ?s'] c t(2) by (simp add: kernel_loop_def kernel_entry_def)
  moreover have "GETP0 (GET_CTXT t ?s') = k_ev s" by (simp add: GET_CTXT_def ctxt_at_def)
  ultimately show "\<exists>s'. kernel_loop E s = Some s' \<and> CURRENT s' = t \<and> GETP0 (GET_CTXT t s') = k_ev s \<and>
         k_ev s' = EVENT_NONE \<and> k_mem s' = k_mem s \<and>
         kwf live s' (Q(CurrentQ := [t], BlockedQ := remove1 t (Q BlockedQ),
           q := (if ?b then Q q @ [CURRENT s] else CURRENT s # Q q)))"
    using k c by (intro exI [of _ ?s']) simp
next
  assume "find (waits_for_event s) (Q BlockedQ) = None"
  then show "kernel_loop E s = Some (s\<lparr>k_ev := EVENT_NONE\<rparr>)"
    using assms(2,3) scheduler_current [of "s\<lparr>k_ev := EVENT_NONE\<rparr>"]
    by (simp add: handle_event_eq [OF assms(1,2)] kernel_loop_def kernel_entry_def)
qed

definition example_wait :: "addr \<Rightarrow> cpu_context" where
  "example_wait t = (if t = 6 then trap_ctxt Yield (\<lambda>_. 0) else trap_ctxt (Waitevent EVENT_TIMER1OVF) (\<lambda>_. 0))"

lemma example_wait_sels:
  "GET_KCALLCODE (example_wait 6) = KCALL_YIELD" "GET_KCALLCODE (example_wait 7) = KCALL_WAITEVENT"
  "GETP0 (example_wait 7) = EVENT_TIMER1OVF"
  by (simp_all add: example_wait_def)

theorem event_wakes_handler_witness:
  "\<exists>s'. kernel_loop no_heap (example_state [(CurrentQ, 5), (BlockedQ, 6), (BlockedQ, 7)] example_wait
       EVENT_TIMER1OVF) = Some s' \<and> CURRENT s' = 7"
proof -
  let ?l = "[(CurrentQ, 5 :: addr), (BlockedQ, 6), (BlockedQ, 7)]"
  let ?s = "example_state ?l example_wait EVENT_TIMER1OVF"
  have k: "kwf (example_live ?l) ?s (listed ?l)" by (rule example_kwf) auto
  have c: "CURRENT ?s = 5" by (rule example_current [OF k]) simp
  have "KCALL_YIELD \<noteq> KCALL_WAITEVENT" "EVENT_TIMER1OVF \<noteq> 0" "EVENT_TIMER1OVF \<noteq> EVENT_NONE"
    by (simp_all add: kcall_codes EVENT_TIMER1OVF_def EVENT_NONE_def)
  then have f: "find (waits_for_event ?s) (listed ?l BlockedQ) = Some 7"
      and n: "CURRENT ?s \<noteq> NULL" "k_ev ?s \<noteq> EVENT_NONE"
    using c by (simp_all add: waits_for_event_def example_wait_sels)
  from conjunct1 [OF event_wakes_handler [OF k n, of no_heap]] f show ?thesis by blast
qed

section \<open>New tasks\<close>

lemma stack_offset:
  assumes "unat sz + 37 < 2 ^ 16" "n < 37"
  shows "(sz + n :: addr) < sz + 37"
proof -
  have n: "unat n < 37" using assms(2) by (simp add: word_less_nat_alt)
  then have "unat (sz + n) = unat sz + unat n" "unat (sz + 37) = unat sz + 37"
    using assms(1) by (auto simp: unat_plus)
  with n show ?thesis by (simp add: word_less_nat_alt)
qed

text \<open>
  C7. The first context of a task: a task whose stack could be allocated starts at its entry point with
  its argument in the first parameter register and register \<^verbatim>\<open>r1\<close> zero, returns into the exit
  function, if there is one, and from there into \<^verbatim>\<open>exittask\<close>. All \<^verbatim>\<open>sz\<close> bytes asked for are left below the
  context, two fewer with an exit function, and no byte outside the stack is written.
\<close>

theorem new_task_context:
  assumes "do_allocatestack E t sz s = (s1, b)" and "b \<noteq> NULL" and "unat sz + 37 < 2 ^ 16"
    and "s' = do_setuptask E t tp args exitfn s1"
  shows "GETP0 (GET_CTXT t s') = args \<and>
    join (GET_CTXT t s' retHigh) (GET_CTXT t s' retLow) = tp \<and> GET_CTXT t s' 1 = 0 \<and>
    ctxt_at t s' = (if exitfn = NULL then b + sz else b + sz - 2) \<and>
    join (k_mem s' (b + sz + 35)) (k_mem s' (b + sz + 36)) = e_exittask E \<and>
    (exitfn \<noteq> NULL \<longrightarrow> join (k_mem s' (b + sz + 33)) (k_mem s' (b + sz + 34)) = exitfn) \<and>
    (\<forall>x. k_mem s' x \<noteq> k_mem s x \<longrightarrow> x - b < sz + 37)"
proof -
  have sz: "sz \<noteq> 0" using assms(1,2) by (auto simp: do_allocatestack_def)
  have top: "t_sp (k_task s1 t) = b + sz + 36" "k_mem s1 = k_mem s"
    using assms(1,2) sz by (auto simp: do_allocatestack_def Let_def)
  define m where "m = (k_mem s)(b + sz + 36 := LOW (e_exittask E), b + sz + 35 := HIGH (e_exittask E))"
  have mem: "k_mem s' = (if exitfn = NULL then m
      else m(b + sz + 34 := LOW exitfn, b + sz + 33 := HIGH exitfn))"
    by (simp add: assms(4) do_setuptask_def do_pushstack_def Let_def top m_def ac_simps)
  have ctxt: "ctxt_at t s' = (if exitfn = NULL then b + sz else b + sz - 2)"
    by (simp add: assms(4) do_setuptask_def do_pushstack_def Let_def top ctxt_at_def)
  have regs: "GETP0 (GET_CTXT t s') = args" "GET_CTXT t s' 1 = 0"
      "join (GET_CTXT t s' retHigh) (GET_CTXT t s' retLow) = tp"
    by (simp_all add: assms(4) do_setuptask_def do_pushstack_def Let_def GET_CTXT_def ctxt_at_def
        GETP0_def retHigh_def retLow_def)
  have "(b + sz + n) - b < sz + 37" if "n < 37" for n
    using stack_offset [OF assms(3) that] by (simp add: algebra_simps)
  note offs = this [of 33] this [of 34] this [of 35] this [of 36]
  have out: "\<forall>x. k_mem s' x \<noteq> k_mem s x \<longrightarrow> x - b < sz + 37"
    using offs by (auto simp: mem m_def split: if_splits)
  have "join (k_mem s' (b + sz + 35)) (k_mem s' (b + sz + 36)) = e_exittask E"
      "exitfn \<noteq> NULL \<longrightarrow> join (k_mem s' (b + sz + 33)) (k_mem s' (b + sz + 34)) = exitfn"
    by (simp_all add: mem m_def)
  with ctxt regs out show ?thesis by blast
qed

theorem new_task_context_witness:
  "ctxt_at 9 (do_setuptask (chunk_env 0x40) 9 0x60 0x1234 NULL
     (fst (do_allocatestack (chunk_env 0x40) 9 0x80 reset_state))) = 0x185"
proof -
  let ?r = "do_allocatestack (chunk_env 0x40) 9 0x80 reset_state"
  have b: "snd ?r = 0x105"
    by (simp add: do_allocatestack_def kmalloc_in_def reset_state_def chunk_alloc_def do_malloc_def
        do_malloc_loop.simps split_chunk_def chunklist_init_def cset_defs Let_def)
  have "?r = (fst ?r, 0x105)" by (simp add: prod_eq_iff b)
  from new_task_context [OF this _ _ refl, of "0x60" "0x1234" NULL] show ?thesis by simp
qed

end
