(* ===== verification/Server.thy ===== *)
theory Server
  imports Hal
begin

text \<open>
  What the servers have in common. Every server is a task that receives a message, changes its
  state and sends answers; a step of a server is one turn of its loop. The kernel gives each server
  its messages one at a time (\<open>Kernel_Props\<close>), so a run is a sequence of steps. The lists of
  records that the servers keep are the lists that \<open>Queue\<close> proves the queue operations to
  implement. What \<^verbatim>\<open>kmalloc\<close> returns is an input of the step.
\<close>

datatype 'm act = Send pid_t 'm | Free addr

text \<open>A run: the final state and all that was sent and freed, in order.\<close>

primrec serve :: "('i \<Rightarrow> 's \<Rightarrow> 's \<times> 'a list) \<Rightarrow> 'i list \<Rightarrow> 's \<Rightarrow> 's \<times> 'a list" where
  "serve f [] s = (s, [])"
| "serve f (i # is) s =
     (let r = f i s; r' = serve f is (fst r) in (fst r', snd r @ snd r'))"

lemma serve_append:
  "serve f (is @ js) s =
     (let r = serve f is s; r' = serve f js (fst r) in (fst r', snd r @ snd r'))"
  by (induction "is" arbitrary: s) (simp_all add: Let_def)

lemma serve_snoc:
  "fst (serve f (is @ [i]) s) = fst (f i (fst (serve f is s)))"
  "snd (serve f (is @ [i]) s) = snd (serve f is s) @ snd (f i (fst (serve f is s)))"
  by (simp_all add: serve_append Let_def)

text \<open>
  The contract of a server: an invariant of its state that every step keeps, for messages that its
  clients may send.
\<close>

locale server =
  fixes step :: "'i \<Rightarrow> 's \<Rightarrow> 's \<times> 'a list"
    and inv :: "'s \<Rightarrow> bool"
    and legal :: "'i \<Rightarrow> 's \<Rightarrow> bool"
  assumes inv_step: "inv s \<Longrightarrow> legal i s \<Longrightarrow> inv (fst (step i s))"
begin

primrec legal_run :: "'i list \<Rightarrow> 's \<Rightarrow> bool" where
  "legal_run [] s \<longleftrightarrow> True"
| "legal_run (i # is) s \<longleftrightarrow> legal i s \<and> legal_run is (fst (step i s))"

lemma inv_run: "inv s \<Longrightarrow> legal_run is s \<Longrightarrow> inv (fst (serve step is s))"
  by (induction "is" arbitrary: s) (auto simp: Let_def intro: inv_step)

lemma always_legal: "(\<And>i s. inv s \<Longrightarrow> legal i s) \<Longrightarrow> inv s \<Longrightarrow> legal_run is s"
  by (induction "is" arbitrary: s) (auto intro: inv_step)

end

text \<open>
  A server whose step may run into undefined behaviour of the C code, as a null or dangling pointer
  from a client, which is the value \<^term>\<open>None\<close>.
\<close>

primrec pserve :: "('i \<Rightarrow> 's \<Rightarrow> ('s \<times> 'a list) option) \<Rightarrow> 'i list \<Rightarrow> 's \<Rightarrow> ('s \<times> 'a list) option" where
  "pserve f [] s = Some (s, [])"
| "pserve f (i # is) s =
     (case f i s of None \<Rightarrow> None
      | Some (s1, as) \<Rightarrow> (case pserve f is s1 of None \<Rightarrow> None | Some (s2, bs) \<Rightarrow> Some (s2, as @ bs)))"

locale partial_server =
  fixes pstep :: "'i \<Rightarrow> 's \<Rightarrow> ('s \<times> 'a list) option"
    and pinv :: "'s \<Rightarrow> bool"
    and plegal :: "'i \<Rightarrow> 's \<Rightarrow> bool"
  assumes pinv_step: "pinv s \<Longrightarrow> plegal i s \<Longrightarrow> \<exists>s' as. pstep i s = Some (s', as) \<and> pinv s'"
begin

primrec plegal_run :: "'i list \<Rightarrow> 's \<Rightarrow> bool" where
  "plegal_run [] s \<longleftrightarrow> True"
| "plegal_run (i # is) s \<longleftrightarrow> plegal i s \<and> (\<forall>s' as. pstep i s = Some (s', as) \<longrightarrow> plegal_run is s')"

lemma pinv_run:
  "pinv s \<Longrightarrow> plegal_run is s \<Longrightarrow> \<exists>s' as. pserve pstep is s = Some (s', as) \<and> pinv s'"
proof (induction "is" arbitrary: s)
  case (Cons i "is")
  have l: "plegal i s" "\<And>s' as. pstep i s = Some (s', as) \<Longrightarrow> plegal_run is s'"
    using Cons.prems(2) by auto
  obtain s1 as where s1: "pstep i s = Some (s1, as)" "pinv s1"
    using pinv_step [OF Cons.prems(1) l(1)] by blast
  from Cons.IH [OF s1(2) l(2) [OF s1(1)]] s1(1) show ?case by auto
qed simp

end

text \<open>A server whose step is always defined is a special case.\<close>

lemma pserve_serve: "pserve (\<lambda>i s. Some (f i s)) is s = Some (serve f is s)"
  by (induction "is" arbitrary: s) (auto simp: Let_def split: prod.splits)

sublocale server \<subseteq> always: partial_server "\<lambda>i s. Some (step i s)" inv legal
  using inv_step by unfold_locales (metis surjective_pairing)

text \<open>Messages sent to one task.\<close>

definition sent_to :: "pid_t \<Rightarrow> 'm act list \<Rightarrow> 'm list" where
  "sent_to c as = List.map_filter (\<lambda>a. case a of Send d m \<Rightarrow> if d = c then Some m else None | Free _ \<Rightarrow> None) as"

lemma sent_to_simps [simp]:
  "sent_to c [] = []"
  "sent_to c (Send d m # as) = (if d = c then m # sent_to c as else sent_to c as)"
  "sent_to c (Free p # as) = sent_to c as"
  "sent_to c (as @ bs) = sent_to c as @ sent_to c bs"
  by (simp_all add: sent_to_def map_filter_def)

end
