(* ===== verification/Time_Server.thy ===== *)
theory Time_Server
  imports Server
begin

text \<open>
  \<^verbatim>\<open>servers/ts.c\<close>: the time server. It counts timer ticks, keeps the uptime and a wall clock, and lets
  clients wait for a number of ticks.
\<close>

section \<open>Model\<close>

record time_t =
  t_sec :: byte
  t_min :: byte
  t_hour :: byte

record tswait =
  w_item :: addr
  w_client :: pid_t
  w_delay :: cint

definition TS_NONE :: cint where "TS_NONE = 0"
definition TS_DELAY :: cint where "TS_DELAY = 1"
definition TS_TICK :: cint where "TS_TICK = 2"
definition TS_GET_UPTIME :: cint where "TS_GET_UPTIME = 3"
definition TS_GET_GLOBTIME :: cint where "TS_GET_GLOBTIME = 4"
definition TS_SET_GLOBTIME :: cint where "TS_SET_GLOBTIME = 5"
definition TS_EXIT :: cint where "TS_EXIT = 6"

lemmas ts_cmds = TS_NONE_def TS_DELAY_def TS_TICK_def TS_GET_UPTIME_def TS_GET_GLOBTIME_def
  TS_SET_GLOBTIME_def TS_EXIT_def

text \<open>The union of the message is kept as its three bytes, which each member reads in its own way.\<close>

record tsmsg =
  ts_cmd :: cint
  u0 :: byte
  u1 :: byte
  u2 :: byte

definition delay_ticks :: "tsmsg \<Rightarrow> cint" where
  "delay_ticks m = join (u1 m) (u0 m)"

definition msg_time :: "tsmsg \<Rightarrow> time_t" where
  "msg_time m = \<lparr>t_sec = u0 m, t_min = u1 m, t_hour = u2 m\<rparr>"

definition put_time :: "time_t \<Rightarrow> tsmsg \<Rightarrow> tsmsg" where
  "put_time t m = m\<lparr>u0 := t_sec t, u1 := t_min t, u2 := t_hour t\<rparr>"

record ts_state =
  ts_wait_q :: "tswait list"
  uptime :: time_t
  globtime :: time_t
  ticks :: byte

definition addtswait :: "addr \<Rightarrow> pid_t \<Rightarrow> cint \<Rightarrow> tswait list \<Rightarrow> tswait list \<times> addr" where
  "addtswait p client delay que =
     (if p = NULL then (que, NULL)
      else (que @ [\<lparr>w_item = p, w_client = client, w_delay = delay\<rparr>], p))"

text \<open>\<open>junk\<close> is what the message buffer on the stack holds, which the code does not initialise.\<close>

definition ts_managedelay :: "tsmsg \<Rightarrow> tswait \<Rightarrow> tswait option \<times> tsmsg act list" where
  "ts_managedelay junk w =
     (let d = w_delay w - 1
      in if d \<noteq> 0 then (Some (w\<lparr>w_delay := d\<rparr>), [])
         else (None, [Send (w_client w) junk, Free (w_item w)]))"

primrec manage_all :: "tsmsg \<Rightarrow> tswait list \<Rightarrow> tswait list \<times> tsmsg act list" where
  "manage_all junk [] = ([], [])"
| "manage_all junk (w # ws) =
     (let r = ts_managedelay junk w; r' = manage_all junk ws
      in ((case fst r of None \<Rightarrow> fst r' | Some w' \<Rightarrow> w' # fst r'), snd r @ snd r'))"

definition step_timer :: "time_t \<Rightarrow> time_t" where
  "step_timer t =
     (let s = t_sec t + 1
      in if s \<noteq> 60 then t\<lparr>t_sec := s\<rparr>
         else let m = t_min t + 1
              in if m \<noteq> 60 then t\<lparr>t_sec := 0, t_min := m\<rparr>
                 else let h = t_hour t + 1
                      in if h \<noteq> 24 then t\<lparr>t_sec := 0, t_min := 0, t_hour := h\<rparr>
                         else t\<lparr>t_sec := 0, t_min := 0, t_hour := 0\<rparr>)"

definition zero_time :: time_t where
  "zero_time = \<lparr>t_sec = 0, t_min = 0, t_hour = 0\<rparr>"

definition ts_init :: ts_state where
  "ts_init = \<lparr>ts_wait_q = [], uptime = zero_time, globtime = zero_time, ticks = 0\<rparr>"

definition ts_tick :: "ts_state \<Rightarrow> ts_state" where
  "ts_tick st =
     (let t = ticks st + 1
      in if t = 30
         then st\<lparr>ticks := 0, uptime := step_timer (uptime st), globtime := step_timer (globtime st)\<rparr>
         else st\<lparr>ticks := t\<rparr>)"

text \<open>One turn of the loop: the sender, its message, what \<^verbatim>\<open>kmalloc\<close> returns, uninitialised stack.\<close>

type_synonym ts_in = "pid_t \<times> tsmsg \<times> addr \<times> tsmsg"

definition ts_step :: "ts_in \<Rightarrow> ts_state \<Rightarrow> ts_state \<times> tsmsg act list" where
  "ts_step = (\<lambda>(client, msg, p, junk) st.
     if ts_cmd msg = TS_DELAY \<and> delay_ticks msg \<noteq> 0
     then (st\<lparr>ts_wait_q := fst (addtswait p client (delay_ticks msg) (ts_wait_q st))\<rparr>, [])
     else if ts_cmd msg = TS_TICK
     then let st1 = ts_tick st; r = manage_all junk (ts_wait_q st1)
          in (st1\<lparr>ts_wait_q := fst r\<rparr>, snd r @ [Send client msg])
     else if ts_cmd msg = TS_GET_UPTIME then (st, [Send client (put_time (uptime st) msg)])
     else if ts_cmd msg = TS_SET_GLOBTIME then (st\<lparr>globtime := msg_time msg\<rparr>, [Send client msg])
     else if ts_cmd msg = TS_GET_GLOBTIME then (st, [Send client (put_time (globtime st) msg)])
     else (st, [Send client msg]))"

lemmas [server_defs] = addtswait_def ts_managedelay_def step_timer_def ts_tick_def ts_step_def

subsection \<open>The client functions\<close>

text \<open>The request that each function sends, and what it takes from the answer.\<close>

definition delay_req :: "cint \<Rightarrow> tsmsg \<Rightarrow> tsmsg" where
  "delay_req n junk = junk\<lparr>ts_cmd := TS_DELAY, u0 := LOW n, u1 := HIGH n\<rparr>"

definition getuptime_req :: "tsmsg \<Rightarrow> tsmsg" where
  "getuptime_req junk = junk\<lparr>ts_cmd := TS_GET_UPTIME\<rparr>"

definition gettime_req :: "tsmsg \<Rightarrow> tsmsg" where
  "gettime_req junk = junk\<lparr>ts_cmd := TS_GET_GLOBTIME\<rparr>"

definition settime_req :: "time_t \<Rightarrow> tsmsg \<Rightarrow> tsmsg" where
  "settime_req t junk = put_time t (junk\<lparr>ts_cmd := TS_SET_GLOBTIME\<rparr>)"

definition tick_req :: "tsmsg \<Rightarrow> tsmsg" where
  "tick_req junk = junk\<lparr>ts_cmd := TS_TICK\<rparr>"

section \<open>The clock\<close>

definition time_ok :: "time_t \<Rightarrow> bool" where
  "time_ok t \<longleftrightarrow> unat (t_sec t) < 60 \<and> unat (t_min t) < 60 \<and> unat (t_hour t) < 24"

definition seconds :: "time_t \<Rightarrow> nat" where
  "seconds t = unat (t_sec t) + 60 * unat (t_min t) + 3600 * unat (t_hour t)"

lemma byte_succ:
  "unat (b :: byte) < 255 \<Longrightarrow> unat (b + 1) = unat b + 1"
  by (simp add: unat_plus)

lemma byte_succ_eq:
  assumes "unat (b :: byte) < 255" "n < 256"
  shows "b + 1 = of_nat n \<longleftrightarrow> unat b + 1 = n"
proof -
  have "b + 1 = of_nat n \<longleftrightarrow> unat (b + 1) = unat (of_nat n :: byte)" by (simp add: word_unat_eq_iff)
  then show ?thesis using assms by (simp add: byte_succ unat_of_nat)
qed

lemma step_timer_seconds:
  assumes "time_ok t"
  shows "time_ok (step_timer t)" "seconds (step_timer t) = (seconds t + 1) mod 86400"
proof -
  have b: "unat (t_sec t) < 60" "unat (t_min t) < 60" "unat (t_hour t) < 24"
    using assms by (auto simp: time_ok_def)
  have e: "t_sec t + 1 = 60 \<longleftrightarrow> unat (t_sec t) = 59" "t_min t + 1 = 60 \<longleftrightarrow> unat (t_min t) = 59"
      "t_hour t + 1 = 24 \<longleftrightarrow> unat (t_hour t) = 23"
    using b byte_succ_eq [of "t_sec t" 60] byte_succ_eq [of "t_min t" 60] byte_succ_eq [of "t_hour t" 24]
    by auto
  have u: "unat (t_sec t + 1) = unat (t_sec t) + 1" "unat (t_min t + 1) = unat (t_min t) + 1"
      "unat (t_hour t + 1) = unat (t_hour t) + 1"
    using b by (simp_all add: byte_succ)
  show "time_ok (step_timer t)" "seconds (step_timer t) = (seconds t + 1) mod 86400"
    using b by (auto simp: step_timer_def Let_def e u time_ok_def seconds_def)
qed

definition is_tick :: "ts_in \<Rightarrow> bool" where
  "is_tick i \<longleftrightarrow> ts_cmd (fst (snd i)) = TS_TICK"

definition tick_count :: "ts_in list \<Rightarrow> nat" where
  "tick_count is = length (filter is_tick is)"

lemma tick_count_simps [simp]:
  "tick_count [] = 0" "tick_count (i # is) = (if is_tick i then Suc (tick_count is) else tick_count is)"
  "tick_count (is @ js) = tick_count is + tick_count js"
  by (simp_all add: tick_count_def)

definition ts_inv :: "ts_state \<Rightarrow> bool" where
  "ts_inv st \<longleftrightarrow> time_ok (uptime st) \<and> unat (ticks st) < 30 \<and> (\<forall>w \<in> set (ts_wait_q st). w_delay w \<noteq> 0)"

lemma manage_all_set:
  "set (fst (manage_all junk ws)) = (\<lambda>w. w\<lparr>w_delay := w_delay w - 1\<rparr>) ` {w \<in> set ws. w_delay w \<noteq> 1}"
  by (induction ws) (auto simp: ts_managedelay_def Let_def split: if_splits)

lemma manage_all_sent:
  "Send c m \<in> set (snd (manage_all junk ws)) \<longleftrightarrow>
     m = junk \<and> (\<exists>w \<in> set ws. w_client w = c \<and> w_delay w = 1)"
  by (induction ws) (auto simp: ts_managedelay_def Let_def split: if_splits)

lemma manage_all_freed:
  "Free p \<in> set (snd (manage_all junk ws)) \<longleftrightarrow> (\<exists>w \<in> set ws. w_item w = p \<and> w_delay w = 1)"
  by (induction ws) (auto simp: ts_managedelay_def Let_def split: if_splits)

text \<open>Each step, as far as the clock and the waiting clients are concerned.\<close>

lemma ts_step_tick:
  assumes "is_tick i"
  shows "fst (ts_step i st) = (ts_tick st)\<lparr>ts_wait_q := fst (manage_all (snd (snd (snd i))) (ts_wait_q st))\<rparr>"
    and "snd (ts_step i st) =
      snd (manage_all (snd (snd (snd i))) (ts_wait_q st)) @ [Send (fst i) (fst (snd i))]"
  using assms by (auto simp: ts_step_def is_tick_def ts_cmds ts_tick_def Let_def split: prod.splits)

lemma ts_step_other:
  assumes "\<not> is_tick i"
  shows "uptime (fst (ts_step i st)) = uptime st" "ticks (fst (ts_step i st)) = ticks st"
    and "set (ts_wait_q st) \<subseteq> set (ts_wait_q (fst (ts_step i st)))"
    and "w \<in> set (ts_wait_q (fst (ts_step i st))) \<Longrightarrow>
      w \<in> set (ts_wait_q st) \<or> w_client w = fst i \<and> w_delay w \<noteq> 0"
    and "Send c m \<in> set (snd (ts_step i st)) \<Longrightarrow> c = fst i"
  using assms
  by (auto simp: ts_step_def is_tick_def addtswait_def Let_def split: prod.splits if_splits)

lemma ts_tick_sels [simp]: "ts_wait_q (ts_tick st) = ts_wait_q st"
  by (simp add: ts_tick_def Let_def)

lemma ts_tick_clock:
  assumes "time_ok (uptime st)" "unat (ticks st) < 30"
  shows "time_ok (uptime (ts_tick st))" "unat (ticks (ts_tick st)) = (unat (ticks st) + 1) mod 30"
    and "seconds (uptime (ts_tick st)) =
      (if unat (ticks st) = 29 then (seconds (uptime st) + 1) mod 86400 else seconds (uptime st))"
proof -
  have "ticks st + 1 = 30 \<longleftrightarrow> unat (ticks st) = 29"
    using assms(2) byte_succ_eq [of "ticks st" 30] by auto
  then show "time_ok (uptime (ts_tick st))" "unat (ticks (ts_tick st)) = (unat (ticks st) + 1) mod 30"
      "seconds (uptime (ts_tick st)) =
        (if unat (ticks st) = 29 then (seconds (uptime st) + 1) mod 86400 else seconds (uptime st))"
    using assms step_timer_seconds [OF assms(1)] by (auto simp: ts_tick_def Let_def byte_succ)
qed

lemma delay_step: "(d :: cint) \<noteq> 0 \<Longrightarrow> d \<noteq> 1 \<Longrightarrow> d - 1 \<noteq> 0"
  by simp

interpretation ts: server ts_step ts_inv "\<lambda>_ _. True"
proof
  fix st and i :: ts_in
  assume inv: "ts_inv st"
  show "ts_inv (fst (ts_step i st))"
  proof (cases "is_tick i")
    case True
    with inv ts_tick_clock [of st] show ?thesis
      by (auto simp: ts_step_tick ts_inv_def manage_all_set)
  next
    case False
    with inv ts_step_other(1,2) [OF False, where st = st] ts_step_other(4) [OF False, where st = st]
    show ?thesis unfolding ts_inv_def by metis
  qed
qed

lemma ts_init_inv: "ts_inv ts_init"
  by (simp add: ts_inv_def ts_init_def zero_time_def time_ok_def)

lemma ts_run_inv: "ts_inv (fst (serve ts_step is ts_init))"
  by (rule ts.inv_run [OF ts_init_inv ts.always_legal [OF _ ts_init_inv]]) simp

text \<open>
  The uptime is right: after any sequence of requests with \<open>n\<close> ticks among them, at 30 ticks per
  second, it is \<open>n div 30\<close> seconds modulo one day, as hours, minutes and seconds in range.
\<close>

theorem uptime_counts_ticks:
  "let st = fst (serve ts_step is ts_init); n = tick_count is
   in time_ok (uptime st) \<and> seconds (uptime st) = (n div 30) mod 86400 \<and> unat (ticks st) = n mod 30"
proof (induction "is" rule: rev_induct)
  case Nil
  show ?case by (simp add: ts_init_def zero_time_def time_ok_def seconds_def)
next
  case (snoc i "is")
  let ?st = "fst (serve ts_step is ts_init)" and ?n = "tick_count is"
  have IH: "time_ok (uptime ?st)" "seconds (uptime ?st) = (?n div 30) mod 86400"
      "unat (ticks ?st) = ?n mod 30"
    using snoc.IH by (simp_all add: Let_def)
  have n: "(?n + 1) div 30 = (if ?n mod 30 = 29 then ?n div 30 + 1 else ?n div 30)"
      "(?n + 1) mod 30 = (?n mod 30 + 1) mod 30"
    by (simp_all add: div_Suc mod_Suc)
  show ?case
  proof (cases "is_tick i")
    case True
    with ts_tick_clock [OF IH(1)] IH n show ?thesis
      by (simp add: Let_def serve_snoc ts_step_tick mod_Suc_eq)
  next
    case False
    with IH ts_step_other [OF False, where st = ?st] show ?thesis by (simp add: Let_def serve_snoc)
  qed
qed

section \<open>Waiting\<close>

lemma unat_pred: "(d :: cint) \<noteq> 0 \<Longrightarrow> unat (d - 1) = unat d - 1"
  by (rule unat_minus_one)

lemma waits_on:
  assumes "w \<in> set (ts_wait_q st)" "tick_count is < unat (w_delay w)"
  shows "w\<lparr>w_delay := w_delay w - of_nat (tick_count is)\<rparr> \<in> set (ts_wait_q (fst (serve ts_step is st)))"
  using assms
proof (induction "is" arbitrary: st w)
  case (Cons i "is")
  show ?case
  proof (cases "is_tick i")
    case False
    with Cons.IH [of w "fst (ts_step i st)"] Cons.prems ts_step_other(3) [OF False, of st]
    show ?thesis by (auto simp: Let_def)
  next
    case True
    let ?w = "w\<lparr>w_delay := w_delay w - 1\<rparr>"
    have "w_delay w \<noteq> 0" "w_delay w \<noteq> 1" using Cons.prems(2) True by auto
    then have "?w \<in> set (ts_wait_q (fst (ts_step i st)))" "tick_count is < unat (w_delay ?w)"
      using Cons.prems True by (auto simp: ts_step_tick manage_all_set unat_pred)
    from Cons.IH [OF this] True show ?thesis by (simp add: Let_def algebra_simps)
  qed
qed simp

lemma not_woken:
  assumes "\<forall>i \<in> set is. fst i \<noteq> c"
    and "\<forall>w \<in> set (ts_wait_q st). w_client w = c \<longrightarrow> tick_count is < unat (w_delay w)"
  shows "Send c m \<notin> set (snd (serve ts_step is st))"
  using assms
proof (induction "is" arbitrary: st)
  case (Cons i "is")
  let ?st = "fst (ts_step i st)"
  have "\<forall>w \<in> set (ts_wait_q ?st). w_client w = c \<longrightarrow> tick_count is < unat (w_delay w)"
  proof (cases "is_tick i")
    case True
    show ?thesis
    proof (intro ballI impI)
      fix w assume w: "w \<in> set (ts_wait_q ?st)" "w_client w = c"
      then obtain v where v: "v \<in> set (ts_wait_q st)" "w = v\<lparr>w_delay := w_delay v - 1\<rparr>"
        using True by (auto simp: ts_step_tick manage_all_set)
      with Cons.prems(2) w(2) True have "Suc (tick_count is) < unat (w_delay v)" by auto
      then show "tick_count is < unat (w_delay w)"
        using v(2) unat_pred [of "w_delay v"] by (cases "w_delay v = 0") auto
    qed
  next
    case False
    with Cons.prems ts_step_other(4) [OF False, of _ st] show ?thesis by fastforce
  qed
  with Cons have "Send c m \<notin> set (snd (serve ts_step is ?st))" by simp
  moreover have "Send c m \<notin> set (snd (ts_step i st))"
  proof (cases "is_tick i")
    case True
    have "\<not> (\<exists>w \<in> set (ts_wait_q st). w_client w = c \<and> w_delay w = 1)"
      using Cons.prems(2) True by fastforce
    with True Cons.prems(1) show ?thesis by (auto simp: ts_step_tick manage_all_sent)
  next
    case False
    with Cons.prems(1) ts_step_other(5) [OF False] show ?thesis by force
  qed
  ultimately show ?case by (simp add: Let_def)
qed simp

text \<open>
  C38. A delay is exact: a client that asks for \<open>d\<close> ticks (read as an unsigned number) and then waits
  is sent nothing before the \<open>d\<close>-th tick, whatever the other clients do, and is answered, and its
  record freed, in the step of that tick.
\<close>

theorem delay_is_exact:
  fixes junk junk' :: tsmsg
  assumes "d \<noteq> 0" and "p \<noteq> NULL" and "\<forall>w \<in> set (ts_wait_q st). w_client w \<noteq> c"
    and "\<forall>i \<in> set is. fst i \<noteq> c" and "tick_count is = unat d - 1" and "is_tick i" and "fst i \<noteq> c"
  defines "st1 \<equiv> fst (ts_step (c, delay_req d junk, p, junk') st)"
  defines "st2 \<equiv> fst (serve ts_step is st1)"
  shows "snd (ts_step (c, delay_req d junk, p, junk') st) = [] \<and>
    (\<forall>m. Send c m \<notin> set (snd (serve ts_step is st1))) \<and>
    (\<exists>m. Send c m \<in> set (snd (ts_step i st2))) \<and> Free p \<in> set (snd (ts_step i st2))"
proof -
  let ?w = "\<lparr>w_item = p, w_client = c, w_delay = d\<rparr>"
  have d: "delay_ticks (delay_req d junk) = d" "ts_cmd (delay_req d junk) = TS_DELAY"
    by (simp_all add: delay_ticks_def delay_req_def)
  have st1: "ts_wait_q st1 = ts_wait_q st @ [?w]" "snd (ts_step (c, delay_req d junk, p, junk') st) = []"
    using assms(1,2) by (simp_all add: st1_def ts_step_def d addtswait_def)
  have d0: "0 < unat d" using assms(1) by (simp add: unat_gt_0)
  then have less: "tick_count is < unat d" using assms(5) by simp
  have silent: "\<forall>m. Send c m \<notin> set (snd (serve ts_step is st1))"
    using not_woken [OF assms(4), of st1] st1(1) assms(3) less by auto
  have "d - of_nat (unat d - 1) = 1" using d0 by (simp add: of_nat_diff)
  then have "\<lparr>w_item = p, w_client = c, w_delay = 1\<rparr> \<in> set (ts_wait_q st2)"
    using waits_on [of ?w st1 "is"] less st1(1) assms(5) by (simp add: st2_def)
  then have "(\<exists>m. Send c m \<in> set (snd (ts_step i st2))) \<and> Free p \<in> set (snd (ts_step i st2))"
    using assms(6) by (force simp: ts_step_tick manage_all_sent manage_all_freed)
  with st1(2) silent show ?thesis by blast
qed

definition blank_msg :: tsmsg where
  "blank_msg = \<lparr>ts_cmd = 0, u0 = 0, u1 = 0, u2 = 0\<rparr>"

theorem delay_is_exact_witness:
  "\<exists>m. Send 7 m \<in> set (snd (ts_step (9, tick_req blank_msg, NULL, blank_msg)
     (fst (serve ts_step [(9, tick_req blank_msg, NULL, blank_msg)]
       (fst (ts_step (7, delay_req 2 blank_msg, 0x100, blank_msg) ts_init))))))"
proof -
  have t: "is_tick (9, tick_req blank_msg, NULL, blank_msg)" by (simp add: is_tick_def tick_req_def)
  show ?thesis
    using delay_is_exact [of 2 "0x100" ts_init 7 "[(9, tick_req blank_msg, NULL, blank_msg)]"
        "(9, tick_req blank_msg, NULL, blank_msg)" blank_msg blank_msg] t
    by (simp add: ts_init_def)
qed

text \<open>
  When there is no memory for the record, the request is dropped without an answer: as long as the
  client waits, which it does in \<^verbatim>\<open>sendrec\<close>, no number of ticks will ever wake it up.
\<close>

theorem delay_without_memory:
  assumes "d \<noteq> 0" and "\<forall>w \<in> set (ts_wait_q st). w_client w \<noteq> c" and "\<forall>i \<in> set is. fst i \<noteq> c"
  shows "Send c m \<notin> set (snd (serve ts_step ((c, delay_req d junk, NULL, junk') # is) st))"
proof -
  have d: "delay_ticks (delay_req d junk) = d" "ts_cmd (delay_req d junk) = TS_DELAY"
    by (simp_all add: delay_ticks_def delay_req_def)
  have "ts_step (c, delay_req d junk, NULL, junk') st = (st, [])"
    using assms(1) by (simp add: ts_step_def d addtswait_def)
  with not_woken [OF assms(3), of st m] assms(2) show ?thesis by (auto simp: Let_def)
qed

theorem delay_without_memory_witness:
  "\<forall>m. Send 7 m \<notin> set (snd (serve ts_step ((7, delay_req 2 blank_msg, NULL, blank_msg)
     # replicate 100 (9, tick_req blank_msg, NULL, blank_msg)) ts_init))"
  by (intro allI delay_without_memory) (auto simp: ts_init_def)

section \<open>The wall clock\<close>

lemma msg_put_time [simp]: "msg_time (put_time t m) = t"
  by (simp add: msg_time_def put_time_def)

text \<open>
  Setting and reading the wall clock: what \<^verbatim>\<open>settime\<close> stored is what \<^verbatim>\<open>gettime\<close> returns within the same
  tick, whatever other requests but \<^verbatim>\<open>settime\<close> come in between, and the uptime is not affected.
\<close>

theorem settime_gettime:
  fixes junk junk' :: tsmsg and c e :: pid_t and p p' :: addr and t :: time_t and st :: ts_state
  assumes "\<forall>i \<in> set is. \<not> is_tick i \<and> ts_cmd (fst (snd i)) \<noteq> TS_SET_GLOBTIME"
  defines "st1 \<equiv> fst (serve ts_step is (fst (ts_step (c, settime_req t junk, p, junk') st)))"
  shows "\<exists>m. snd (ts_step (e, gettime_req junk, p', junk') st1) = [Send e m] \<and> msg_time m = t \<and>
    (\<exists>m'. snd (ts_step (e, getuptime_req junk, p', junk') st1) = [Send e m'] \<and> msg_time m' = uptime st)"
proof -
  have step: "globtime (fst (ts_step i s)) = globtime s \<and> uptime (fst (ts_step i s)) = uptime s"
    if "\<not> is_tick i" "ts_cmd (fst (snd i)) \<noteq> TS_SET_GLOBTIME" for i s
    using that by (auto simp: ts_step_def is_tick_def Let_def split: prod.splits if_splits)
  have run: "\<forall>i \<in> set js. \<not> is_tick i \<and> ts_cmd (fst (snd i)) \<noteq> TS_SET_GLOBTIME \<Longrightarrow>
      globtime (fst (serve ts_step js s)) = globtime s \<and> uptime (fst (serve ts_step js s)) = uptime s" for js s
    by (induction js arbitrary: s) (simp_all add: Let_def step)
  have "globtime st1 = t" "uptime st1 = uptime st"
    using run [OF assms(1)]
    by (simp_all add: st1_def ts_step_def settime_req_def put_time_def ts_cmds msg_time_def)
  then show ?thesis by (simp add: ts_step_def gettime_req_def getuptime_req_def ts_cmds)
qed

theorem settime_gettime_witness:
  "\<exists>m. snd (ts_step (5, gettime_req blank_msg, NULL, blank_msg)
     (fst (ts_step (5, settime_req \<lparr>t_sec = 1, t_min = 2, t_hour = 3\<rparr> blank_msg, NULL, blank_msg) ts_init)))
     = [Send 5 m] \<and> msg_time m = \<lparr>t_sec = 1, t_min = 2, t_hour = 3\<rparr>"
  using settime_gettime [of "[]", where c = 5 and e = 5 and p = NULL and p' = NULL and junk = blank_msg
      and junk' = blank_msg and st = ts_init and t = "\<lparr>t_sec = 1, t_min = 2, t_hour = 3\<rparr>"]
  by auto

end
