(* ===== verification/Ex_Server.thy ===== *)
theory Ex_Server
  imports Server
begin

text \<open>
  \<^verbatim>\<open>servers/ex.c\<close>: the store of executables, a table from program names to entry points and stack
  sizes. Names are strings in the memory of the clients; a request carries the string itself.
\<close>

section \<open>Model\<close>

record ex_prg =
  p_item :: addr
  p_namep :: addr
  p_name :: string
  p_stack :: addr
  p_ptr :: addr

definition EX_NONE :: cint where "EX_NONE = 0"
definition EX_REGPRG :: cint where "EX_REGPRG = 1"
definition EX_GETPRG :: cint where "EX_GETPRG = 2"

lemmas ex_cmds = EX_NONE_def EX_REGPRG_def EX_GETPRG_def

text \<open>
  The union of the message is kept as its three 16-bit words, which each member reads in its own
  way: \<^verbatim>\<open>regprg\<close> is a name, an entry and a stack size, the question of \<^verbatim>\<open>getprg\<close> is a name, and its
  answer is an entry, which overlays the name, and a stack size.
\<close>

record ex_msg =
  ex_cmd :: cint
  ex_w0 :: addr
  ex_w1 :: addr
  ex_w2 :: addr

definition ex_init_prg :: "ex_prg list" where
  "ex_init_prg = []"

text \<open>\<open>p\<close> and \<open>pn\<close> are what the two calls of \<^verbatim>\<open>kmalloc\<close> return.\<close>

definition ex_reg_prg :: "addr \<Rightarrow> addr \<Rightarrow> string \<Rightarrow> addr \<Rightarrow> addr \<Rightarrow> ex_prg list \<Rightarrow> ex_prg list \<times> addr" where
  "ex_reg_prg p pn name ptr stack tab =
     (if p = NULL then (tab, NULL)
      else if pn = NULL then (tab, NULL)
      else (tab @ [\<lparr>p_item = p, p_namep = pn, p_name = name, p_stack = stack, p_ptr = ptr\<rparr>], p))"

primrec ex_get_prg :: "string \<Rightarrow> ex_prg list \<Rightarrow> addr \<times> addr" where
  "ex_get_prg name [] = (NULL, 0)"
| "ex_get_prg name (it # tab) =
     (if name = p_name it then (p_ptr it, p_stack it) else ex_get_prg name tab)"

text \<open>
  One turn of the loop: the sender, its message, the results of the two calls of \<^verbatim>\<open>kmalloc\<close> and the
  strings in memory.
\<close>

type_synonym ex_in = "pid_t \<times> ex_msg \<times> addr \<times> addr \<times> (addr \<Rightarrow> string)"

definition ex_step :: "ex_in \<Rightarrow> ex_prg list \<Rightarrow> ex_prg list \<times> ex_msg act list" where
  "ex_step = (\<lambda>(client, msg, p, pn, str) tab.
     if ex_cmd msg = EX_REGPRG
     then let r = ex_reg_prg p pn (str (ex_w0 msg)) (ex_w1 msg) (ex_w2 msg) tab
          in if snd r = NULL then (fst r, []) else (fst r, [Send client msg])
     else if ex_cmd msg = EX_GETPRG
     then let r = ex_get_prg (str (ex_w0 msg)) tab
          in (tab, [Send client (msg\<lparr>ex_w0 := fst r, ex_w1 := snd r\<rparr>)])
     else (tab, [Send client msg]))"

lemmas [server_defs] = ex_reg_prg_def ex_step_def

definition ex_regprg :: "addr \<Rightarrow> addr \<Rightarrow> addr \<Rightarrow> ex_msg" where
  "ex_regprg name ptr stack = \<lparr>ex_cmd = EX_REGPRG, ex_w0 = name, ex_w1 = ptr, ex_w2 = stack\<rparr>"

text \<open>The question leaves the other words of the message as they are on the stack.\<close>

definition ex_getprg :: "addr \<Rightarrow> ex_msg \<Rightarrow> ex_msg" where
  "ex_getprg name junk = junk\<lparr>ex_cmd := EX_GETPRG, ex_w0 := name\<rparr>"

definition getprg_result :: "ex_msg \<Rightarrow> addr \<times> addr" where
  "getprg_result msg = (ex_w0 msg, ex_w1 msg)"

section \<open>The table\<close>

text \<open>The table as a map: the first registration of a name counts.\<close>

definition ex_table :: "ex_prg list \<Rightarrow> string \<Rightarrow> (addr \<times> addr) option" where
  "ex_table tab = map_of (map (\<lambda>it. (p_name it, (p_ptr it, p_stack it))) tab)"

lemma ex_get_prg_table: "ex_get_prg name tab = (case ex_table tab name of None \<Rightarrow> (NULL, 0) | Some r \<Rightarrow> r)"
  by (induction tab) (auto simp: ex_table_def)

lemma ex_table_snoc:
  "ex_table (tab @ [it]) = (case ex_table tab (p_name it) of
     None \<Rightarrow> (ex_table tab)(p_name it \<mapsto> (p_ptr it, p_stack it)) | Some _ \<Rightarrow> ex_table tab)"
proof -
  have "ex_table (tab @ [it]) n = (if ex_table tab n = None then map_of [(p_name it, (p_ptr it, p_stack it))] n
      else ex_table tab n)" for n
    by (auto simp: ex_table_def map_add_def split: option.splits)
  then show ?thesis by (auto split: option.split)
qed

lemma ex_step_table:
  "ex_table (fst (ex_step i tab)) n \<noteq> ex_table tab n \<Longrightarrow> ex_table tab n = None"
  by (auto simp: ex_step_def ex_reg_prg_def ex_table_snoc Let_def split: prod.splits if_splits option.splits)

lemma ex_step_keeps: "ex_table tab n = Some r \<Longrightarrow> ex_table (fst (ex_step i tab)) n = Some r"
  using ex_step_table [of i tab n] by auto

interpretation exs: server ex_step "\<lambda>tab. ex_table tab n = Some r" "\<lambda>_ _. True" for n r
  by unfold_locales (rule ex_step_keeps)

lemma ex_run_keeps: "ex_table tab n = Some r \<Longrightarrow> ex_table (fst (serve ex_step is tab)) n = Some r"
  by (rule exs.inv_run) (auto intro: exs.always_legal)

text \<open>
  Registering and looking up a program: once a registration is answered, every later lookup of the
  name is answered with the entry and stack size of the first registration of that name, whatever is
  registered in between.
\<close>

theorem registered_program_is_found:
  fixes tab :: "ex_prg list" and c e :: pid_t and name name' ptr stack p pn q qn :: addr
    and str str' :: "addr \<Rightarrow> string"
  assumes "p \<noteq> NULL" and "pn \<noteq> NULL" and "str' name' = str name"
  defines "r \<equiv> ex_step (c, ex_regprg name ptr stack, p, pn, str) tab"
  shows "snd r = [Send c (ex_regprg name ptr stack)] \<and>
    (\<exists>m. snd (ex_step (e, ex_getprg name' junk, q, qn, str') (fst (serve ex_step ins (fst r)))) = [Send e m] \<and>
       getprg_result m = (case ex_table tab (str name) of None \<Rightarrow> (ptr, stack) | Some old \<Rightarrow> old))"
proof -
  let ?tab = "fst (serve ex_step ins (fst r))"
  let ?v = "case ex_table tab (str name) of None \<Rightarrow> (ptr, stack) | Some old \<Rightarrow> old"
  have r: "snd r = [Send c (ex_regprg name ptr stack)]" "ex_table (fst r) (str name) = Some ?v"
    using assms(1,2)
    by (auto simp: r_def ex_step_def ex_regprg_def ex_reg_prg_def ex_table_snoc Let_def split: option.splits)
  then have "ex_table ?tab (str name) = Some ?v" by (intro ex_run_keeps)
  then have "ex_get_prg (str name) ?tab = ?v" by (simp add: ex_get_prg_table)
  then show ?thesis
    using r(1) assms(3) by (simp add: ex_step_def ex_getprg_def ex_cmds Let_def getprg_result_def)
qed

definition example_strings :: "addr \<Rightarrow> string" where
  "example_strings a = (if a = 0x300 then ''sh'' else ''init'')"

definition example_ex_msg :: ex_msg where
  "example_ex_msg = \<lparr>ex_cmd = 0, ex_w0 = 0, ex_w1 = 0, ex_w2 = 0\<rparr>"

theorem registered_program_is_found_witness:
  "\<exists>m. snd (ex_step (5, ex_getprg 0x300 example_ex_msg, NULL, NULL, example_strings)
     (fst (ex_step (4, ex_regprg 0x300 0x200 0xE0, 0x1000, 0x1010, example_strings) ex_init_prg))) = [Send 5 m] \<and>
     getprg_result m = (0x200, 0xE0)"
  using registered_program_is_found [where p = "0x1000" and pn = "0x1010" and c = 4 and e = 5 and tab = ex_init_prg
      and name = "0x300" and name' = "0x300" and str = example_strings and str' = example_strings and ptr = "0x200"
      and stack = "0xE0" and ins = "[]" and q = NULL and qn = NULL and junk = example_ex_msg]
  by (simp add: ex_init_prg_def ex_table_def)

text \<open>
  A program that was never registered, or whose registration failed for want of memory, is reported
  as a null entry with stack size 0. The registration that fails is not answered at all, so the
  client, which waits in \<^verbatim>\<open>sendrec\<close>, is left blocked.
\<close>

theorem unregistered_program:
  fixes tab :: "ex_prg list" and c e :: pid_t and name ptr stack p pn q qn :: addr and str :: "addr \<Rightarrow> string"
  assumes "p = NULL \<or> pn = NULL" and "ex_table tab (str name) = None"
  defines "r \<equiv> ex_step (c, ex_regprg name ptr stack, p, pn, str) tab"
  shows "snd r = [] \<and>
    (\<exists>m. snd (ex_step (e, ex_getprg name junk, q, qn, str) (fst r)) = [Send e m] \<and> getprg_result m = (NULL, 0))"
  using assms
  by (auto simp: ex_step_def ex_regprg_def ex_getprg_def ex_reg_prg_def ex_get_prg_table ex_cmds Let_def
      getprg_result_def)

theorem unregistered_program_witness:
  "snd (ex_step (4, ex_regprg 0x300 0x200 0xE0, 0x1000, NULL, example_strings) ex_init_prg) = []"
  using unregistered_program [where p = "0x1000" and pn = NULL and c = 4 and tab = ex_init_prg
      and name = "0x300" and str = example_strings and ptr = "0x200" and stack = "0xE0"]
  by (simp add: ex_init_prg_def ex_table_def)

end
