(* ===== verification/Sema_Server.thy ===== *)
theory Sema_Server
  imports Server "HOL-Library.Monad_Syntax" "HOL-Library.Sublist"
begin

text \<open>
  \<^verbatim>\<open>servers/sema.c\<close>: counting semaphores. A client refers to a semaphore by its address, which the
  server does not check: using one that is not there is the value \<^term>\<open>None\<close>.
\<close>

section \<open>Model\<close>

record sema =
  s_value :: addr
  client_q :: "(addr \<times> pid_t) list"

record sema_state =
  sema_q :: "addr list"
  semas :: "addr \<Rightarrow> sema option"

definition SEMA_ERROR :: cint where "SEMA_ERROR = 0"
definition SEMA_CREATE :: cint where "SEMA_CREATE = 1"
definition SEMA_DELETE :: cint where "SEMA_DELETE = 2"
definition SEMA_WAIT :: cint where "SEMA_WAIT = 3"
definition SEMA_SIGNAL :: cint where "SEMA_SIGNAL = 4"
definition SEMA_GET :: cint where "SEMA_GET = 5"

lemmas sema_cmds = SEMA_ERROR_def SEMA_CREATE_def SEMA_DELETE_def SEMA_WAIT_def SEMA_SIGNAL_def SEMA_GET_def

record semamsg =
  m_sema :: addr
  m_cmd :: cint
  m_val :: addr

text \<open>In each operation \<open>p\<close> is what \<^verbatim>\<open>kmalloc\<close> returns.\<close>

definition newsema :: "addr \<Rightarrow> addr \<Rightarrow> sema_state \<Rightarrow> sema_state \<times> addr" where
  "newsema p val st =
     (if p \<noteq> NULL then (st\<lparr>semas := (semas st)(p \<mapsto> \<lparr>s_value = val, client_q = []\<rparr>)\<rparr>, p) else (st, NULL))"

definition decreasesema :: "addr \<Rightarrow> sema_state \<Rightarrow> (sema_state \<times> addr) option" where
  "decreasesema s st =
     (if s = NULL then Some (st, 0)
      else do {
        x \<leftarrow> semas st s;
        Some (if s_value x \<noteq> 0
              then st\<lparr>semas := (semas st)(s \<mapsto> x\<lparr>s_value := s_value x - 1\<rparr>)\<rparr> else st, s_value x)
      })"

definition increasesema :: "addr \<Rightarrow> sema_state \<Rightarrow> sema_state option" where
  "increasesema s st =
     (if s = NULL then Some st
      else do { x \<leftarrow> semas st s; Some (st\<lparr>semas := (semas st)(s \<mapsto> x\<lparr>s_value := s_value x + 1\<rparr>)\<rparr>) })"

definition addclient :: "addr \<Rightarrow> addr \<Rightarrow> pid_t \<Rightarrow> sema_state \<Rightarrow> (sema_state \<times> addr) option" where
  "addclient p s pid st =
     (if s = NULL \<or> pid = NULL then Some (st, NULL)
      else if p = NULL then Some (st, NULL)
      else do {
        x \<leftarrow> semas st s;
        Some (st\<lparr>semas := (semas st)(s \<mapsto> x\<lparr>client_q := client_q x @ [(p, pid)]\<rparr>)\<rparr>, p)
      })"

text \<open>\<^verbatim>\<open>FIRSTCLIENT(s)\<close>: the first record of the queue of clients, as its address and client.\<close>

definition FIRSTCLIENT :: "addr \<Rightarrow> sema_state \<Rightarrow> (addr \<times> pid_t) option option" where
  "FIRSTCLIENT s st =
     (if s = NULL then Some None
      else do { x \<leftarrow> semas st s; Some (case client_q x of [] \<Rightarrow> None | c # _ \<Rightarrow> Some c) })"

definition removeclient :: "addr \<Rightarrow> pid_t \<Rightarrow> sema_state \<Rightarrow> (sema_state \<times> semamsg act list) option" where
  "removeclient s pid st =
     (if pid = NULL then Some (st, [])
      else do {
        c \<leftarrow> FIRSTCLIENT s st;
        case c of
          None \<Rightarrow> Some (st, [])
        | Some (it, cpid) \<Rightarrow>
            if cpid \<noteq> pid then Some (st, [])
            else do {
              x \<leftarrow> semas st s;
              Some (st\<lparr>semas := (semas st)(s \<mapsto> x\<lparr>client_q := tl (client_q x)\<rparr>)\<rparr>, [Free it])
            }
      })"

definition waiter :: "addr \<Rightarrow> sema_state \<Rightarrow> pid_t option" where
  "waiter s st = do { c \<leftarrow> FIRSTCLIENT s st; Some (case c of None \<Rightarrow> NULL | Some (_, pid) \<Rightarrow> pid) }"

definition getvalue :: "addr \<Rightarrow> sema_state \<Rightarrow> addr option" where
  "getvalue s st = (if s = NULL then Some 0 else do { x \<leftarrow> semas st s; Some (s_value x) })"

text \<open>\<^verbatim>\<open>kfree(Q_REMV(&sema_q, s))\<close>.\<close>

definition dropsema :: "addr \<Rightarrow> sema_state \<Rightarrow> sema_state \<times> semamsg act list" where
  "dropsema s st =
     (if s = NULL then (st, [])
      else (st\<lparr>sema_q := remove1 s (sema_q st), semas := (semas st)(s := None)\<rparr>, [Free s]))"

type_synonym sema_in = "pid_t \<times> semamsg \<times> addr"

definition sema_step :: "sema_in \<Rightarrow> sema_state \<Rightarrow> (sema_state \<times> semamsg act list) option" where
  "sema_step = (\<lambda>(client, msg, p) st.
     let s = m_sema msg; cmd = m_cmd msg in
     if cmd = SEMA_CREATE then
       let (st1, q) = newsema p (m_val msg) st;
           st2 = (if q = NULL then st1 else st1\<lparr>sema_q := q # sema_q st1\<rparr>)
       in Some (st2, [Send client (msg\<lparr>m_sema := q\<rparr>)])
     else if cmd = SEMA_DELETE then do {
       w \<leftarrow> waiter s st;
       if w \<noteq> NULL then Some (st, [])
       else let (st1, fr) = dropsema s st in Some (st1, fr @ [Send client msg])
     }
     else if cmd = SEMA_WAIT then do {
       (st1, v) \<leftarrow> decreasesema s st;
       if v \<noteq> 0 then Some (st1, [Send client msg])
       else do { (st2, _) \<leftarrow> addclient p s client st1; Some (st2, []) }
     }
     else if cmd = SEMA_SIGNAL then do {
       w \<leftarrow> waiter s st;
       if w \<noteq> NULL then do {
         (st1, fr) \<leftarrow> removeclient s w st;
         Some (st1, fr @ [Send w msg])
       }
       else do { st1 \<leftarrow> increasesema s st; Some (st1, []) }
     }
     else if cmd = SEMA_GET then do {
       v \<leftarrow> getvalue s st;
       Some (st, [Send client (msg\<lparr>m_val := v\<rparr>)])
     }
     else Some (st, []))"

lemmas [server_defs] = newsema_def decreasesema_def increasesema_def addclient_def FIRSTCLIENT_def
  removeclient_def waiter_def getvalue_def dropsema_def sema_step_def

definition sema_init :: sema_state where
  "sema_init = \<lparr>sema_q = [], semas = (\<lambda>_. None)\<rparr>"

subsection \<open>The client functions\<close>

definition createsema :: "addr \<Rightarrow> semamsg \<Rightarrow> semamsg" where
  "createsema val junk = junk\<lparr>m_cmd := SEMA_CREATE, m_val := val\<rparr>"

definition deletesema :: "addr \<Rightarrow> semamsg \<Rightarrow> semamsg" where
  "deletesema s junk = junk\<lparr>m_cmd := SEMA_DELETE, m_sema := s\<rparr>"

definition waitsema :: "addr \<Rightarrow> semamsg \<Rightarrow> semamsg" where
  "waitsema s junk = junk\<lparr>m_cmd := SEMA_WAIT, m_sema := s\<rparr>"

definition signalsema :: "addr \<Rightarrow> semamsg \<Rightarrow> semamsg" where
  "signalsema s junk = junk\<lparr>m_cmd := SEMA_SIGNAL, m_sema := s\<rparr>"

definition getsema :: "addr \<Rightarrow> semamsg \<Rightarrow> semamsg" where
  "getsema s junk = junk\<lparr>m_cmd := SEMA_GET, m_sema := s\<rparr>"

section \<open>Invariant\<close>

text \<open>Somebody waits only if the value is 0; the clients and their records are not null.\<close>

definition sema_ok :: "sema \<Rightarrow> bool" where
  "sema_ok x \<longleftrightarrow> (client_q x \<noteq> [] \<longrightarrow> s_value x = 0) \<and> (\<forall>(it, pid) \<in> set (client_q x). it \<noteq> NULL \<and> pid \<noteq> NULL)"

definition sema_inv :: "sema_state \<Rightarrow> bool" where
  "sema_inv st \<longleftrightarrow> distinct (sema_q st) \<and> set (sema_q st) = dom (semas st) \<and> NULL \<notin> dom (semas st) \<and>
     (\<forall>s x. semas st s = Some x \<longrightarrow> sema_ok x)"

text \<open>
  What clients may send: a semaphore that exists or null; \<^verbatim>\<open>kmalloc\<close> returns null or memory not in use.
\<close>

definition sema_legal :: "sema_in \<Rightarrow> sema_state \<Rightarrow> bool" where
  "sema_legal = (\<lambda>(client, msg, p) st.
     client \<noteq> NULL \<and> (m_cmd msg \<noteq> SEMA_CREATE \<longrightarrow> m_sema msg = NULL \<or> m_sema msg \<in> dom (semas st)) \<and>
     (p = NULL \<or> p \<notin> dom (semas st)))"

text \<open>The effect of a step on one semaphore, as an operation on its value and its waiting clients.\<close>

fun sema_op :: "sema_in \<Rightarrow> sema \<Rightarrow> sema" where
  "sema_op (client, msg, p) x =
     (if m_cmd msg = SEMA_WAIT then
        if s_value x \<noteq> 0 then x\<lparr>s_value := s_value x - 1\<rparr>
        else if p \<noteq> NULL then x\<lparr>client_q := client_q x @ [(p, client)]\<rparr> else x
      else if m_cmd msg = SEMA_SIGNAL then
        if client_q x \<noteq> [] then x\<lparr>client_q := tl (client_q x)\<rparr> else x\<lparr>s_value := s_value x + 1\<rparr>
      else x)"

lemma sema_op_ok: "sema_ok x \<Longrightarrow> fst i \<noteq> NULL \<Longrightarrow> sema_ok (sema_op i x)"
  by (cases i; cases "client_q x") (auto simp: sema_ok_def)

lemma first_waiter:
  assumes "sema_inv st" "semas st s = Some x"
  shows "waiter s st = Some (case client_q x of [] \<Rightarrow> NULL | (it, pid) # _ \<Rightarrow> pid)"
    and "client_q x = (it, pid) # cs \<Longrightarrow> pid \<noteq> NULL" and "s \<noteq> NULL"
proof -
  show s: "s \<noteq> NULL" using assms by (auto simp: sema_inv_def dom_def)
  show "waiter s st = Some (case client_q x of [] \<Rightarrow> NULL | (it, pid) # _ \<Rightarrow> pid)"
    using assms(2) s by (auto simp: waiter_def FIRSTCLIENT_def split: list.split)
  show "client_q x = (it, pid) # cs \<Longrightarrow> pid \<noteq> NULL"
    using assms by (force simp: sema_inv_def sema_ok_def)
qed

text \<open>The two operations proper, on a semaphore that exists.\<close>

definition sema_answer :: "sema_in \<Rightarrow> sema \<Rightarrow> semamsg act list" where
  "sema_answer = (\<lambda>(client, msg, p) x.
     if m_cmd msg = SEMA_WAIT then (if s_value x \<noteq> 0 then [Send client msg] else [])
     else (case client_q x of [] \<Rightarrow> [] | (it, pid) # _ \<Rightarrow> [Free it, Send pid msg]))"

lemma sema_step_op:
  assumes "sema_inv st" "semas st (m_sema msg) = Some x" "m_cmd msg \<in> {SEMA_WAIT, SEMA_SIGNAL}" "client \<noteq> NULL"
  shows "sema_step (client, msg, p) st =
    Some (st\<lparr>semas := (semas st)(m_sema msg \<mapsto> sema_op (client, msg, p) x)\<rparr>, sema_answer (client, msg, p) x)"
proof -
  let ?s = "m_sema msg"
  note w = first_waiter [OF assms(1,2)]
  have triv: "st\<lparr>semas := (semas st)(?s \<mapsto> x)\<rparr> = st"
    using assms(2) by (simp add: map_upd_triv)
  consider "m_cmd msg = SEMA_WAIT" | "m_cmd msg = SEMA_SIGNAL" using assms(3) by auto
  then show ?thesis
  proof cases
    case 1
    then show ?thesis
      using assms(2,4) w(3) triv
      by (auto simp: sema_step_def sema_answer_def decreasesema_def addclient_def Let_def sema_cmds)
  next
    case 2
    show ?thesis
    proof (cases "client_q x")
      case Nil
      with 2 w(1,3) assms(2) show ?thesis
        by (simp add: sema_step_def sema_answer_def increasesema_def Let_def sema_cmds)
    next
      case (Cons c cs)
      moreover obtain it pid where "c = (it, pid)" by fastforce
      ultimately show ?thesis
        using 2 w assms(2)
        by (simp add: sema_step_def sema_answer_def removeclient_def FIRSTCLIENT_def Let_def sema_cmds)
    qed
  qed
qed

lemma sema_inv_upd:
  "sema_inv st \<Longrightarrow> semas st s = Some x \<Longrightarrow> sema_ok y \<Longrightarrow> sema_inv (st\<lparr>semas := (semas st)(s \<mapsto> y)\<rparr>)"
  by (auto simp: sema_inv_def dom_def)

lemma sema_create_inv:
  assumes "sema_inv st" "p = NULL \<or> p \<notin> dom (semas st)" "m_cmd msg = SEMA_CREATE"
  shows "\<exists>st' as. sema_step (client, msg, p) st = Some (st', as) \<and> sema_inv st'"
proof (cases "p = NULL")
  case True
  with assms show ?thesis by (simp add: sema_step_def newsema_def Let_def)
next
  case False
  let ?st = "st\<lparr>semas := (semas st)(p \<mapsto> \<lparr>s_value = m_val msg, client_q = []\<rparr>), sema_q := p # sema_q st\<rparr>"
  have "p \<notin> set (sema_q st)" using assms False by (auto simp: sema_inv_def)
  then have "sema_inv ?st" using assms False by (auto simp: sema_inv_def sema_ok_def)
  moreover have "sema_step (client, msg, p) st = Some (?st, [Send client (msg\<lparr>m_sema := p\<rparr>)])"
    using assms(3) False by (simp add: sema_step_def newsema_def Let_def)
  ultimately show ?thesis by blast
qed

lemma sema_delete_inv:
  assumes "sema_inv st" "semas st (m_sema msg) = Some x" "m_cmd msg = SEMA_DELETE"
  shows "sema_step (client, msg, p) st =
      (if client_q x \<noteq> [] then Some (st, [])
       else Some (fst (dropsema (m_sema msg) st), [Free (m_sema msg), Send client msg]))"
    and "sema_inv (fst (dropsema (m_sema msg) st))"
proof -
  note w = first_waiter [OF assms(1,2)]
  show "sema_step (client, msg, p) st =
      (if client_q x \<noteq> [] then Some (st, [])
       else Some (fst (dropsema (m_sema msg) st), [Free (m_sema msg), Send client msg]))"
    using w assms(3) by (cases "client_q x") (auto simp: sema_step_def dropsema_def Let_def sema_cmds)
  show "sema_inv (fst (dropsema (m_sema msg) st))"
    using assms(1) by (auto simp: sema_inv_def dropsema_def dom_def)
qed

lemma sema_null_step:
  assumes "m_sema msg = NULL" "m_cmd msg \<noteq> SEMA_CREATE"
  shows "\<exists>as. sema_step (client, msg, p) st = Some (st, as)"
  using assms
  by (simp add: sema_step_def waiter_def FIRSTCLIENT_def decreasesema_def addclient_def increasesema_def
      getvalue_def dropsema_def Let_def)

lemma sema_other_step:
  assumes "semas st (m_sema msg) = Some x" "m_cmd msg \<notin> {SEMA_CREATE, SEMA_DELETE, SEMA_WAIT, SEMA_SIGNAL}"
  shows "\<exists>as. sema_step (client, msg, p) st = Some (st, as)"
  using assms by (auto simp: sema_step_def getvalue_def Let_def)

interpretation sm: partial_server sema_step sema_inv sema_legal
proof
  fix st and i :: sema_in
  assume inv: "sema_inv st" and legal: "sema_legal i st"
  obtain client msg p where i: "i = (client, msg, p)" by (cases i)
  have l: "client \<noteq> NULL" "p = NULL \<or> p \<notin> dom (semas st)"
      "m_cmd msg \<noteq> SEMA_CREATE \<Longrightarrow> m_sema msg = NULL \<or> (\<exists>x. semas st (m_sema msg) = Some x)"
    using legal by (auto simp: sema_legal_def i)
  show "\<exists>st' as. sema_step i st = Some (st', as) \<and> sema_inv st'"
  proof (cases "m_cmd msg = SEMA_CREATE")
    case True
    with sema_create_inv [OF inv l(2)] show ?thesis by (simp add: i)
  next
    case False
    from l(3) [OF False] show ?thesis
    proof (elim disjE exE)
      assume "m_sema msg = NULL"
      from sema_null_step [OF this False, of client p st] inv show ?thesis unfolding i by blast
    next
      fix x assume x: "semas st (m_sema msg) = Some x"
      have "sema_ok x" using inv x by (auto simp: sema_inv_def)
      then have ok: "sema_inv (st\<lparr>semas := (semas st)(m_sema msg \<mapsto> sema_op i x)\<rparr>)"
        by (rule sema_inv_upd [OF inv x sema_op_ok]) (simp add: i l(1))
      consider "m_cmd msg \<in> {SEMA_WAIT, SEMA_SIGNAL}" | "m_cmd msg = SEMA_DELETE"
        | "m_cmd msg \<notin> {SEMA_CREATE, SEMA_DELETE, SEMA_WAIT, SEMA_SIGNAL}" using False by blast
      then show ?thesis
      proof cases
        case 1
        with sema_step_op [OF inv x _ l(1)] ok show ?thesis by (simp add: i)
      next
        case 2
        with sema_delete_inv [OF inv x] inv show ?thesis by (auto simp: i)
      next
        case 3
        with sema_other_step [OF x] inv show ?thesis by (force simp: i)
      qed
    qed
  qed
qed

section \<open>Runs\<close>

definition targets :: "addr \<Rightarrow> cint \<Rightarrow> sema_in \<Rightarrow> bool" where
  "targets s cmd = (\<lambda>(client, msg, p). m_sema msg = s \<and> m_cmd msg = cmd)"

text \<open>Requests of one kind for one semaphore, and the answers that let a client enter.\<close>

definition requests :: "addr \<Rightarrow> cint \<Rightarrow> sema_in list \<Rightarrow> nat" where
  "requests s cmd is = length (filter (targets s cmd) is)"

definition lets_in :: "addr \<Rightarrow> semamsg act \<Rightarrow> bool" where
  "lets_in s a = (case a of Send _ m \<Rightarrow> m_sema m = s \<and> m_cmd m \<in> {SEMA_WAIT, SEMA_SIGNAL} | Free _ \<Rightarrow> False)"

definition entered :: "addr \<Rightarrow> semamsg act list \<Rightarrow> nat" where
  "entered s as = length (filter (lets_in s) as)"

definition woken :: "addr \<Rightarrow> semamsg act list \<Rightarrow> pid_t list" where
  "woken s as = List.map_filter (\<lambda>a. case a of
     Send c m \<Rightarrow> if m_sema m = s \<and> m_cmd m = SEMA_SIGNAL then Some c else None | Free _ \<Rightarrow> None) as"

definition askers :: "addr \<Rightarrow> sema_in list \<Rightarrow> pid_t list" where
  "askers s is = map fst (filter (targets s SEMA_WAIT) is)"

lemma trace_simps [simp]:
  "requests s cmd [] = 0" "requests s cmd (i # is) = (if targets s cmd i then Suc (requests s cmd is) else requests s cmd is)"
  "entered s [] = 0" "entered s (as @ bs) = entered s as + entered s bs"
  "entered s (a # as) = (if lets_in s a then Suc (entered s as) else entered s as)"
  "woken s [] = []" "woken s (as @ bs) = woken s as @ woken s bs" "woken s (Free p # as) = woken s as"
  "woken s (Send c m # as) = (if m_sema m = s \<and> m_cmd m = SEMA_SIGNAL then c # woken s as else woken s as)"
  "askers s [] = []" "askers s (i # is) = (if targets s SEMA_WAIT i then fst i # askers s is else askers s is)"
  by (simp_all add: requests_def entered_def woken_def askers_def map_filter_def)

lemma lets_in_simps [simp]:
  "lets_in s (Send c m) \<longleftrightarrow> m_sema m = s \<and> m_cmd m \<in> {SEMA_WAIT, SEMA_SIGNAL}" "\<not> lets_in s (Free p)"
  by (simp_all add: lets_in_def)

definition on_sema :: "addr \<Rightarrow> sema_in \<Rightarrow> bool" where
  "on_sema s i \<longleftrightarrow> targets s SEMA_WAIT i \<or> targets s SEMA_SIGNAL i"

text \<open>A step that is no operation on the semaphore leaves it alone and lets nobody in.\<close>

lemma sema_step_elsewhere:
  assumes inv: "sema_inv st" and legal: "sema_legal (client, msg, p) st" and s: "semas st s = Some x"
    and nd: "\<not> targets s SEMA_DELETE (client, msg, p)" and step: "sema_step (client, msg, p) st = Some (st', as)"
    and off: "\<not> (m_cmd msg \<in> {SEMA_WAIT, SEMA_SIGNAL} \<and> m_sema msg \<noteq> NULL)"
  shows "semas st' s = Some x" "entered s as = 0" "woken s as = []"
proof -
  have l: "p = NULL \<or> p \<notin> dom (semas st)" "m_cmd msg \<noteq> SEMA_CREATE \<Longrightarrow> m_sema msg = NULL \<or> (\<exists>y. semas st (m_sema msg) = Some y)"
    using legal by (auto simp: sema_legal_def)
  have s0: "s \<noteq> NULL" "p \<noteq> s" using inv s l(1) by (auto simp: sema_inv_def dom_def)
  have "m_cmd msg \<noteq> SEMA_CREATE \<Longrightarrow> m_sema msg = NULL \<Longrightarrow> st' = st" using sema_null_step [of msg client p st] step by auto
  moreover have "semas st' s = Some x" if "m_cmd msg = SEMA_CREATE"
    using that step s s0 by (auto simp: sema_step_def newsema_def Let_def split: if_splits)
  moreover have "semas st' s = Some x" if y: "semas st (m_sema msg) = Some y" "m_cmd msg = SEMA_DELETE" for y
  proof -
    have "m_sema msg \<noteq> s" using nd y(2) by (auto simp: targets_def)
    then show ?thesis
      using step sema_delete_inv(1) [OF inv y, of client p] s by (auto simp: dropsema_def split: if_splits)
  qed
  moreover have "st' = st" if "semas st (m_sema msg) = Some y"
      "m_cmd msg \<notin> {SEMA_CREATE, SEMA_DELETE, SEMA_WAIT, SEMA_SIGNAL}" for y
    using sema_other_step [OF that, of client p] step by auto
  ultimately show "semas st' s = Some x"
    using l(2) s off by (cases "m_cmd msg = SEMA_CREATE"; cases "m_cmd msg = SEMA_DELETE") auto
  have "\<forall>a \<in> set as. \<not> lets_in s a"
    using step off s0
    by (auto simp: sema_step_def newsema_def dropsema_def getvalue_def decreasesema_def addclient_def waiter_def
        FIRSTCLIENT_def increasesema_def sema_cmds Let_def split: if_splits option.splits prod.splits Option.bind_splits)
  then show "entered s as = 0" "woken s as = []"
    by (induction as) (auto simp: lets_in_def split: act.splits)
qed

lemma sema_step_one:
  assumes inv: "sema_inv st" and legal: "sema_legal i st" and s: "semas st s = Some x"
    and nd: "\<not> targets s SEMA_DELETE i" and step: "sema_step i st = Some (st', as)"
  shows "semas st' s = Some (if on_sema s i then sema_op i x else x)"
    and "entered s as = (if on_sema s i then entered s (sema_answer i x) else 0)"
    and "woken s as = (if on_sema s i then woken s (sema_answer i x) else [])"
proof -
  obtain client msg p where i: "i = (client, msg, p)" by (cases i)
  have "semas st' s = Some (if on_sema s i then sema_op i x else x) \<and>
      entered s as = (if on_sema s i then entered s (sema_answer i x) else 0) \<and>
      woken s as = (if on_sema s i then woken s (sema_answer i x) else [])"
  proof (cases "m_cmd msg \<in> {SEMA_WAIT, SEMA_SIGNAL} \<and> m_sema msg \<noteq> NULL")
    case True
    then obtain y where y: "semas st (m_sema msg) = Some y" "client \<noteq> NULL" using legal by (auto simp: sema_cmds sema_legal_def i)
    have eq: "st' = st\<lparr>semas := (semas st)(m_sema msg \<mapsto> sema_op i y)\<rparr>" "as = sema_answer i y"
      using step sema_step_op [OF inv y(1) _ y(2), of p] True unfolding i by (simp_all del: sema_op.simps)
    have on: "on_sema s i \<longleftrightarrow> m_sema msg = s" using True by (auto simp: on_sema_def targets_def i)
    show ?thesis
    proof (cases "m_sema msg = s")
      case True
      with y s have "y = x" by simp
      with True show ?thesis by (simp add: on eq)
    next
      case False
      then have "entered s as = 0" "woken s as = []" by (auto simp: eq i sema_answer_def split: list.split)
      with False s show ?thesis by (simp add: on eq)
    qed
  next
    case False
    have "s \<noteq> NULL" using inv s by (auto simp: sema_inv_def dom_def)
    then have "\<not> on_sema s i" using False by (auto simp: on_sema_def targets_def i)
    then show ?thesis using sema_step_elsewhere [OF inv _ s _ _ False] legal nd step unfolding i by simp
  qed
  then show "semas st' s = Some (if on_sema s i then sema_op i x else x)"
      "entered s as = (if on_sema s i then entered s (sema_answer i x) else 0)"
      "woken s as = (if on_sema s i then woken s (sema_answer i x) else [])" by blast+
qed

lemma sema_op_counts:
  assumes "sema_ok x" "on_sema s i"
  shows "targets s SEMA_SIGNAL i \<Longrightarrow> unat (s_value x) + 1 < 2 ^ 16 \<Longrightarrow>
      entered s (sema_answer i x) + unat (s_value (sema_op i x)) = unat (s_value x) + 1"
    and "targets s SEMA_WAIT i \<Longrightarrow>
      entered s (sema_answer i x) + unat (s_value (sema_op i x)) = unat (s_value x)"
    and "unat (s_value (sema_op i x)) \<le> unat (s_value x) + (if targets s SEMA_SIGNAL i then 1 else 0)"
    and "\<exists>new. map snd (client_q x) @ new = woken s (sema_answer i x) @ map snd (client_q (sema_op i x)) \<and>
      subseq new (askers s [i])"
proof -
  obtain client msg p where i: "i = (client, msg, p)" by (cases i)
  have v: "unat (s_value x - 1) = unat (s_value x) - 1" "0 < unat (s_value x)" if "s_value x \<noteq> 0"
    using that by (simp_all add: unat_minus_one unat_gt_0)
  have v': "unat (s_value x + 1) = unat (s_value x) + 1" if "unat (s_value x) + 1 < 2 ^ 16"
    using that by (subst unat_plus) auto
  have v'': "unat (s_value x + 1) \<le> unat (s_value x) + 1"
    by (simp add: unat_word_ariths)
  show "targets s SEMA_SIGNAL i \<Longrightarrow> unat (s_value x) + 1 < 2 ^ 16 \<Longrightarrow>
      entered s (sema_answer i x) + unat (s_value (sema_op i x)) = unat (s_value x) + 1"
    using v' assms(1) by (cases "client_q x") (auto simp: i targets_def sema_answer_def sema_cmds sema_ok_def split: prod.split)
  show "targets s SEMA_WAIT i \<Longrightarrow>
      entered s (sema_answer i x) + unat (s_value (sema_op i x)) = unat (s_value x)"
    using v by (auto simp: i targets_def sema_answer_def)
  show "unat (s_value (sema_op i x)) \<le> unat (s_value x) + (if targets s SEMA_SIGNAL i then 1 else 0)"
    using assms(2) v v'' by (auto simp: i targets_def on_sema_def sema_cmds)
  show "\<exists>new. map snd (client_q x) @ new = woken s (sema_answer i x) @ map snd (client_q (sema_op i x)) \<and>
      subseq new (askers s [i])"
    using assms(2)
    by (cases "client_q x") (auto simp: i targets_def on_sema_def sema_answer_def sema_cmds split: prod.split)
qed


text \<open>
  Semaphores are fair: clients that have to wait enter in the order in which they asked. Those
  waiting at first, followed by those that join the queue in the order of their requests, are those
  woken up, in that order, followed by those still waiting.
\<close>

theorem semaphore_is_fifo:
  assumes "sema_inv st" and "sm.plegal_run is st" and "semas st s = Some x"
    and "requests s SEMA_DELETE is = 0" and "pserve sema_step is st = Some (st', as)"
  shows "\<exists>x' joined. semas st' s = Some x' \<and> subseq joined (askers s is) \<and>
    map snd (client_q x) @ joined = woken s as @ map snd (client_q x')"
  using assms
proof (induction "is" arbitrary: st x as)
  case (Cons i "is")
  obtain st1 as1 as2 where r: "sema_step i st = Some (st1, as1)" "pserve sema_step is st1 = Some (st', as2)"
      "as = as1 @ as2"
    using Cons.prems(5) by (auto split: option.splits)
  have l: "sema_legal i st" "sm.plegal_run is st1" using Cons.prems(2) r(1) by auto
  have inv: "sema_inv st1" using sm.pinv_step [OF Cons.prems(1) l(1)] r(1) by auto
  have nd: "\<not> targets s SEMA_DELETE i" "requests s SEMA_DELETE is = 0"
    using Cons.prems(4) by (auto split: if_splits)
  note one = sema_step_one [OF Cons.prems(1) l(1) Cons.prems(3) nd(1) r(1)]
  have ok: "sema_ok x" using Cons.prems(1,3) by (auto simp: sema_inv_def)
  let ?x = "if on_sema s i then sema_op i x else x"
  obtain new where new: "map snd (client_q x) @ new = woken s as1 @ map snd (client_q ?x)" "subseq new (askers s [i])"
    using sema_op_counts(4) [OF ok, of s i] one(3) by (cases "on_sema s i") auto
  obtain x' joined where x': "semas st' s = Some x'" "subseq joined (askers s is)"
      "map snd (client_q ?x) @ joined = woken s as2 @ map snd (client_q x')"
    using Cons.IH [OF inv l(2) one(1) nd(2) r(2)] by blast
  have "askers s (i # is) = askers s [i] @ askers s is" by simp
  then have "subseq (new @ joined) (askers s (i # is))" using new(2) x'(2) by (simp only: list_emb_append_mono)
  moreover have "map snd (client_q x) @ new @ joined = woken s as @ map snd (client_q x')"
    using new(1) x'(3) r(3) by (metis append.assoc trace_simps(7))
  ultimately show ?case using x'(1) by blast
qed auto

definition example_mutex :: sema_state where
  "example_mutex = \<lparr>sema_q = [0x100], semas = [0x100 \<mapsto> \<lparr>s_value = 1, client_q = []\<rparr>]\<rparr>"

definition blank_sema_msg :: semamsg where
  "blank_sema_msg = \<lparr>m_sema = 0, m_cmd = 0, m_val = 0\<rparr>"

definition example_requests :: "sema_in list" where
  "example_requests = [(5, waitsema 0x100 blank_sema_msg, 0x200), (6, waitsema 0x100 blank_sema_msg, 0x210),
     (5, signalsema 0x100 blank_sema_msg, NULL)]"

lemma example_mutex_inv: "sema_inv example_mutex"
  by (simp add: sema_inv_def example_mutex_def sema_ok_def)

lemmas example_run_simps = example_mutex_def waitsema_def signalsema_def blank_sema_msg_def
  sema_legal_def sema_step_def sema_cmds decreasesema_def addclient_def waiter_def FIRSTCLIENT_def removeclient_def

lemma example_legal: "sm.plegal_run example_requests example_mutex"
  unfolding example_requests_def sm.plegal_run.simps by (simp add: example_run_simps)


theorem semaphore_is_fifo_witness:
  "\<exists>st' as joined x'. pserve sema_step example_requests example_mutex = Some (st', as) \<and>
     semas st' 0x100 = Some x' \<and> subseq joined [5, 6] \<and> joined = woken 0x100 as @ map snd (client_q x')"
proof -
  obtain st' as where r: "pserve sema_step example_requests example_mutex = Some (st', as)"
    using sm.pinv_run [OF example_mutex_inv example_legal] by blast
  have x: "semas example_mutex 0x100 = Some \<lparr>s_value = 1, client_q = []\<rparr>" by (simp add: example_mutex_def)
  have n: "requests 0x100 SEMA_DELETE example_requests = 0" "askers 0x100 example_requests = [5, 6]"
    by (simp_all add: example_requests_def targets_def waitsema_def signalsema_def sema_cmds)
  from semaphore_is_fifo [OF example_mutex_inv example_legal x n(1) r] n(2) r show ?thesis by auto
qed

text \<open>
  Deleting a semaphore: with nobody waiting, the semaphore is removed, its memory freed and the
  request answered; with somebody waiting, nothing happens and no answer is sent, so the deleting
  client, which waits in \<^verbatim>\<open>sendrec\<close>, is left blocked.
\<close>

theorem delete_semaphore:
  assumes "sema_inv st" and "semas st s = Some x"
  shows "sema_step (c, deletesema s junk, p) st =
    (if client_q x = [] then Some (st\<lparr>sema_q := remove1 s (sema_q st), semas := (semas st)(s := None)\<rparr>,
       [Free s, Send c (deletesema s junk)])
     else Some (st, []))"
  using sema_delete_inv(1) [OF assms(1), of "deletesema s junk" x c p] assms first_waiter(3) [OF assms]
  by (auto simp: deletesema_def dropsema_def)

theorem delete_semaphore_witness:
  "sema_step (4, deletesema 0x100 blank_sema_msg, NULL)
     \<lparr>sema_q = [0x100], semas = [0x100 \<mapsto> \<lparr>s_value = 0, client_q = [(0x200, 6)]\<rparr>]\<rparr> =
   Some (\<lparr>sema_q = [0x100], semas = [0x100 \<mapsto> \<lparr>s_value = 0, client_q = [(0x200, 6)]\<rparr>]\<rparr>, [])"
  by (subst delete_semaphore) (auto simp: sema_inv_def sema_ok_def)

end
