(* ===== verification/Pm_Args.thy ===== *)
theory Pm_Args
  imports Server "HOL-Library.Monad_Syntax"
begin

text \<open>
  The argument block of a process (\<^verbatim>\<open>servers/pm.c\<close>): \<^verbatim>\<open>argc\<close>, \<^verbatim>\<open>pm_argstack_size\<close> and \<^verbatim>\<open>cook_argstack\<close>, with
  the C library's \<^verbatim>\<open>strlen\<close> and \<^verbatim>\<open>strcpy\<close>, on the bytes of memory. The loops follow whatever they
  find in memory and need not end: not returning is \<^term>\<open>None\<close>.
\<close>

section \<open>Model\<close>

type_synonym bytes = "addr \<Rightarrow> byte"

definition read_ptr :: "bytes \<Rightarrow> addr \<Rightarrow> addr" where
  "read_ptr mem a = ucast (mem a) OR push_bit 8 (ucast (mem (a + 1)))"

definition write_ptr :: "addr \<Rightarrow> addr \<Rightarrow> bytes \<Rightarrow> bytes" where
  "write_ptr a v mem = mem(a := ucast v, a + 1 := ucast (drop_bit 8 v))"

partial_function (option) strlen :: "bytes \<Rightarrow> addr \<Rightarrow> nat option" where
  "strlen mem p = (if mem p = 0 then Some 0 else Option.bind (strlen mem (p + 1)) (\<lambda>n. Some (Suc n)))"

partial_function (option) strcpy :: "bytes \<Rightarrow> addr \<Rightarrow> addr \<Rightarrow> bytes option" where
  "strcpy mem dst src =
     (if mem src = 0 then Some (mem(dst := 0)) else strcpy (mem(dst := mem src)) (dst + 1) (src + 1))"

partial_function (option) argc_loop :: "bytes \<Rightarrow> addr \<Rightarrow> cint \<Rightarrow> cint option" where
  "argc_loop mem argv i =
     (if argv \<noteq> NULL \<and> read_ptr mem (argv + 2 * i) \<noteq> NULL then argc_loop mem argv (i + 1) else Some i)"

definition argc :: "bytes \<Rightarrow> addr \<Rightarrow> cint option" where
  "argc mem argv = argc_loop mem argv 0"

partial_function (option) argsize_loop :: "bytes \<Rightarrow> addr \<Rightarrow> cint \<Rightarrow> addr \<Rightarrow> addr option" where
  "argsize_loop mem argv i sz =
     (if argv \<noteq> NULL \<and> read_ptr mem (argv + 2 * i) \<noteq> NULL
      then Option.bind (strlen mem (read_ptr mem (argv + 2 * i)))
             (\<lambda>n. argsize_loop mem argv (i + 1) (sz + (of_nat n + 1)))
      else Some (sz + 2 * (i + 1)))"

definition pm_argstack_size :: "bytes \<Rightarrow> addr \<Rightarrow> addr option" where
  "pm_argstack_size mem argv = argsize_loop mem argv 0 0"

text \<open>The state of the loop: memory, the end of what is filled in, and the index.\<close>

partial_function (option) cook_loop :: "addr \<Rightarrow> addr \<Rightarrow> cint \<Rightarrow> bytes \<Rightarrow> addr \<Rightarrow> cint \<Rightarrow> bytes option" where
  "cook_loop newargv argv num mem bottom i =
     (if sint i < sint num \<and> argv \<noteq> NULL \<and> read_ptr mem (argv + 2 * i) \<noteq> NULL
      then let mem1 = write_ptr (newargv + 2 * i) bottom mem
           in Option.bind (strcpy mem1 bottom (read_ptr mem1 (argv + 2 * i))) (\<lambda>mem2.
              Option.bind (strlen mem2 (read_ptr mem2 (argv + 2 * i))) (\<lambda>n.
              cook_loop newargv argv num mem2 (bottom + (of_nat n + 1)) (i + 1)))
      else Some (write_ptr (newargv + 2 * i) NULL mem))"

definition cook_argstack :: "bytes \<Rightarrow> addr \<Rightarrow> addr \<Rightarrow> bytes option" where
  "cook_argstack mem bottom argv =
     Option.bind (argc mem argv) (\<lambda>num. cook_loop bottom argv num mem (bottom + 2 * (num + 1)) 0)"

declare strlen.simps [code] strcpy.simps [code] argc_loop.simps [code] argsize_loop.simps [code] cook_loop.simps [code]

section \<open>Strings in memory\<close>

definition cstring :: "bytes \<Rightarrow> addr \<Rightarrow> byte list \<Rightarrow> bool" where
  "cstring mem p s \<longleftrightarrow> (\<forall>j < length s. mem (p + of_nat j) = s ! j) \<and> 0 \<notin> set s \<and> mem (p + of_nat (length s)) = 0"

text \<open>\<open>argv\<close> is an array of pointers to the strings, with a null pointer at its end.\<close>

definition holds_args :: "bytes \<Rightarrow> addr \<Rightarrow> byte list list \<Rightarrow> bool" where
  "holds_args mem argv strs \<longleftrightarrow>
     (\<forall>i < length strs. read_ptr mem (argv + 2 * of_nat i) \<noteq> NULL \<and>
        cstring mem (read_ptr mem (argv + 2 * of_nat i)) (strs ! i)) \<and>
     read_ptr mem (argv + 2 * of_nat (length strs)) = NULL"

definition block :: "addr \<Rightarrow> nat \<Rightarrow> addr set" where
  "block p n = (\<lambda>k. p + of_nat k) ` {..<n}"

definition args_space :: "bytes \<Rightarrow> addr \<Rightarrow> byte list list \<Rightarrow> addr set" where
  "args_space mem argv strs = block argv (2 * (length strs + 1)) \<union>
     (\<Union>i < length strs. block (read_ptr mem (argv + 2 * of_nat i)) (length (strs ! i) + 1))"

definition args_size :: "byte list list \<Rightarrow> nat" where
  "args_size strs = (\<Sum>s \<leftarrow> strs. length s + 1) + 2 * (length strs + 1)"

lemma cstring_Cons: "cstring mem p (c # s) \<longleftrightarrow> mem p = c \<and> c \<noteq> 0 \<and> cstring mem (p + 1) s"
  unfolding cstring_def by (auto simp: All_less_Suc2 add.assoc)

lemma strlen_cstring: "cstring mem p s \<Longrightarrow> strlen mem p = Some (length s)"
proof (induction s arbitrary: p)
  case Nil
  then show ?case by (simp add: cstring_def strlen.simps)
next
  case (Cons c s)
  then show ?case by (auto simp: cstring_Cons strlen.simps [of mem p])
qed

lemma in_block: "k < n \<Longrightarrow> p + of_nat k \<in> block p n"
  by (auto simp: block_def)

lemma cstring_cong:
  assumes "\<And>a. a \<in> block p (length s + 1) \<Longrightarrow> mem' a = mem a" "cstring mem p s"
  shows "cstring mem' p s"
  using assms(2) assms(1) [OF in_block [of _ "length s + 1" p]] by (auto simp: cstring_def)

lemma read_write_ptr: "read_ptr (write_ptr a v mem) a = v"
proof -
  have "(ucast (ucast v :: byte) :: addr) OR push_bit 8 (ucast (ucast (drop_bit 8 v) :: byte)) = v"
    by (rule bit_word_eqI) (auto simp: bit_simps)
  then show ?thesis by (simp add: read_ptr_def write_ptr_def)
qed

lemma read_ptr_cong: "mem' a = mem a \<Longrightarrow> mem' (a + 1) = mem (a + 1) \<Longrightarrow> read_ptr mem' a = read_ptr mem a"
  by (simp add: read_ptr_def)

lemma block_offset:
  assumes "k < 65536" "l < 65536"
  shows "p + (of_nat k :: addr) = p + of_nat l \<longleftrightarrow> k = l"
proof -
  have "unat (of_nat k :: addr) = k" "unat (of_nat l :: addr) = l" using assms by (simp_all add: unat_of_nat)
  then show ?thesis by (metis add_left_cancel)
qed

text \<open>Copying a string to a place apart from it.\<close>

lemma strcpy_cstring:
  assumes "cstring mem src s" "block dst (length s + 1) \<inter> block src (length s + 1) = {}" "length s < 65535"
  shows "\<exists>mem'. strcpy mem dst src = Some mem' \<and> cstring mem' dst s \<and> (\<forall>a. a \<notin> block dst (length s + 1) \<longrightarrow> mem' a = mem a)"
  using assms
proof (induction s arbitrary: mem dst src)
  case Nil
  then show ?case by (auto simp: cstring_def strcpy.simps block_def)
next
  case (Cons c s)
  let ?mem = "mem(dst := c)"
  have sub: "block (p + 1) (length s + 1) \<subseteq> block p (length (c # s) + 1)" for p
    by (force simp: block_def add.assoc)
  have src: "mem src = c" "c \<noteq> 0" "cstring mem (src + 1) s" using Cons.prems(1) by (auto simp: cstring_Cons)
  have d: "dst \<in> block dst (length (c # s) + 1)" using in_block [of 0 _ dst] by simp
  then have "dst \<notin> block (src + 1) (length s + 1)" using sub [of src] Cons.prems(2) by blast
  then have cs: "cstring ?mem (src + 1) s" by (intro cstring_cong [OF _ src(3)]) auto
  have dj: "block (dst + 1) (length s + 1) \<inter> block (src + 1) (length s + 1) = {}"
    using sub [of dst] sub [of src] Cons.prems(2) by blast
  have "length s < 65535" using Cons.prems(3) by simp
  then obtain mem' where m: "strcpy ?mem (dst + 1) (src + 1) = Some mem'" "cstring mem' (dst + 1) s"
      "\<forall>a. a \<notin> block (dst + 1) (length s + 1) \<longrightarrow> mem' a = ?mem a"
    using Cons.IH [OF cs dj \<open>length s < 65535\<close>] by blast
  have "dst \<noteq> dst + 1 + of_nat k" if "k < length s + 1" for k
    using block_offset [of 0 "Suc k" dst] that Cons.prems(3) by (simp add: add.assoc)
  then have "dst \<notin> block (dst + 1) (length s + 1)" by (auto simp: block_def)
  then have "mem' dst = c" using m(3) by simp
  moreover have "strcpy mem dst src = Some mem'" using src m(1) by (simp add: strcpy.simps [of mem])
  moreover have "\<forall>a. a \<notin> block dst (length (c # s) + 1) \<longrightarrow> mem' a = mem a"
    using m(3) sub [of dst] d by auto
  ultimately show ?case using m(2) src(2) by (auto simp: cstring_Cons)
qed

section \<open>Counting the arguments\<close>

lemma argc_loop_holds:
  assumes "holds_args mem argv strs" "argv \<noteq> NULL" "i \<le> length strs"
  shows "argc_loop mem argv (of_nat i) = Some (of_nat (length strs))"
  using assms(3)
proof (induction rule: inc_induct)
  case base
  with assms show ?case by (simp add: holds_args_def argc_loop.simps)
next
  case (step i)
  then show ?case
    using assms by (subst argc_loop.simps) (simp add: holds_args_def add.commute)
qed

lemma argc_holds: "holds_args mem argv strs \<Longrightarrow> argv \<noteq> NULL \<Longrightarrow> argc mem argv = Some (of_nat (length strs))"
  using argc_loop_holds [of mem argv strs 0] by (simp add: argc_def)

lemma argsize_loop_holds:
  assumes "holds_args mem argv strs" "argv \<noteq> NULL" "i \<le> length strs"
  shows "argsize_loop mem argv (of_nat i) sz =
    Some (sz + of_nat (\<Sum>s \<leftarrow> drop i strs. length s + 1) + 2 * (of_nat (length strs) + 1))"
  using assms(3)
proof (induction arbitrary: sz rule: inc_induct)
  case base
  with assms show ?case by (simp add: holds_args_def argsize_loop.simps)
next
  case (step i)
  have "strlen mem (read_ptr mem (argv + 2 * of_nat i)) = Some (length (strs ! i))"
    using assms(1) step(2) by (intro strlen_cstring) (simp add: holds_args_def)
  moreover have "drop i strs = strs ! i # drop (Suc i) strs" using step(2) by (simp add: Cons_nth_drop_Suc)
  moreover have "of_nat i + 1 = (of_nat (Suc i) :: cint)" by simp
  ultimately show ?case
    using assms step
    by (subst argsize_loop.simps) (simp add: holds_args_def add.assoc del: of_nat_Suc, simp)
qed

lemma argsize_holds:
  "holds_args mem argv strs \<Longrightarrow> argv \<noteq> NULL \<Longrightarrow> pm_argstack_size mem argv = Some (of_nat (args_size strs))"
  using argsize_loop_holds [of mem argv strs 0 0] by (simp add: pm_argstack_size_def args_size_def)

section \<open>Filling in the block\<close>

text \<open>The offset of the \<open>i\<close>-th string in the block.\<close>

definition arg_off :: "byte list list \<Rightarrow> nat \<Rightarrow> nat" where
  "arg_off strs i = 2 * (length strs + 1) + (\<Sum>s \<leftarrow> take i strs. length s + 1)"

lemma arg_off_Suc: "i < length strs \<Longrightarrow> arg_off strs (Suc i) = arg_off strs i + (length (strs ! i) + 1)"
  by (simp add: arg_off_def take_Suc_conv_app_nth)

lemma arg_off_mono: "i \<le> j \<Longrightarrow> j \<le> length strs \<Longrightarrow> arg_off strs i \<le> arg_off strs j"
proof (induction j)
  case (Suc j)
  then show ?case by (cases "i = Suc j") (auto simp: arg_off_Suc)
qed simp

lemma arg_off_end: "arg_off strs (length strs) = args_size strs"
  by (simp add: arg_off_def args_size_def)

lemma arg_off_bounds:
  assumes "i < length strs"
  shows "2 * (length strs + 1) \<le> arg_off strs i" "arg_off strs i + (length (strs ! i) + 1) \<le> args_size strs"
  using arg_off_mono [of "Suc i" "length strs" strs] arg_off_Suc [OF assms] assms
  by (auto simp: arg_off_end) (simp add: arg_off_def)

text \<open>What the loop has done when it reaches index \<open>i\<close>.\<close>

definition filled :: "addr \<Rightarrow> byte list list \<Rightarrow> bytes \<Rightarrow> nat \<Rightarrow> bytes \<Rightarrow> bool" where
  "filled bottom strs mem0 i mem \<longleftrightarrow>
     (\<forall>a. a \<notin> block bottom (args_size strs) \<longrightarrow> mem a = mem0 a) \<and>
     (\<forall>j < i. read_ptr mem (bottom + of_nat (2 * j)) = bottom + of_nat (arg_off strs j) \<and>
        cstring mem (bottom + of_nat (arg_off strs j)) (strs ! j))"

lemma sub_block:
  "k + n \<le> m \<Longrightarrow> block (p + of_nat k) n \<subseteq> block p m"
  by (force simp: block_def add.assoc simp flip: of_nat_add)

lemma blocks_apart:
  assumes "k + n \<le> l \<or> l + m \<le> k" "k + n \<le> 65536" "l + m \<le> 65536"
  shows "block (p + of_nat k) n \<inter> block (p + of_nat l) m = {}"
proof -
  have "p + of_nat k + of_nat x \<noteq> p + of_nat l + (of_nat y :: addr)" if "x < n" "y < m" for x y
    using block_offset [of "k + x" "l + y" p] assms that by (auto simp: add.assoc)
  then show ?thesis by (auto simp: block_def)
qed

lemma write_ptr_other: "b \<notin> block a 2 \<Longrightarrow> write_ptr a v mem b = mem b"
  by (auto simp: write_ptr_def block_def lessThan_Suc numeral_2_eq_2)

lemma read_ptr_other: "(\<And>b. b \<in> block a 2 \<Longrightarrow> mem' b = mem b) \<Longrightarrow> read_ptr mem' a = read_ptr mem a"
  by (rule read_ptr_cong) (auto simp: block_def lessThan_Suc numeral_2_eq_2)

lemma src_kept:
  assumes "holds_args mem0 argv strs" "args_space mem0 argv strs \<inter> B = {}" "\<And>a. a \<notin> B \<Longrightarrow> mem a = mem0 a" "i < length strs"
  shows "read_ptr mem (argv + 2 * of_nat i) = read_ptr mem0 (argv + 2 * of_nat i)"
    and "cstring mem (read_ptr mem0 (argv + 2 * of_nat i)) (strs ! i)"
proof -
  have "block (argv + of_nat (2 * i)) 2 \<subseteq> args_space mem0 argv strs"
    using sub_block [of "2 * i" 2 "2 * (length strs + 1)" argv] assms(4) by (auto simp: args_space_def)
  then have "mem b = mem0 b" if "b \<in> block (argv + of_nat (2 * i)) 2" for b
    using that assms(2,3) by blast
  from read_ptr_other [OF this] show "read_ptr mem (argv + 2 * of_nat i) = read_ptr mem0 (argv + 2 * of_nat i)"
    by simp
  have "block (read_ptr mem0 (argv + 2 * of_nat i)) (length (strs ! i) + 1) \<subseteq> args_space mem0 argv strs"
    using assms(4) unfolding args_space_def by blast
  then have "\<And>b. b \<in> block (read_ptr mem0 (argv + 2 * of_nat i)) (length (strs ! i) + 1) \<Longrightarrow> mem b = mem0 b"
    using assms(2,3) by blast
  then show "cstring mem (read_ptr mem0 (argv + 2 * of_nat i)) (strs ! i)"
    by (rule cstring_cong) (use assms(1,4) in \<open>simp_all add: holds_args_def\<close>)
qed

lemma cook_step:
  assumes src: "holds_args mem0 argv strs" "args_space mem0 argv strs \<inter> block bottom (args_size strs) = {}"
    and size: "args_size strs < 65536" and i: "i < length strs" and f: "filled bottom strs mem0 i mem"
  defines "q \<equiv> read_ptr mem0 (argv + 2 * of_nat i)" and "dst \<equiv> bottom + of_nat (arg_off strs i)"
  defines "mem1 \<equiv> write_ptr (bottom + of_nat (2 * i)) dst mem"
  shows "read_ptr mem (argv + 2 * of_nat i) = q" and "read_ptr mem1 (argv + 2 * of_nat i) = q"
    and "\<exists>mem2. strcpy mem1 dst q = Some mem2 \<and> read_ptr mem2 (argv + 2 * of_nat i) = q \<and>
      strlen mem2 q = Some (length (strs ! i)) \<and> filled bottom strs mem0 (Suc i) mem2"
proof -
  let ?B = "block bottom (args_size strs)" and ?n = "length (strs ! i) + 1" and ?p = "bottom + of_nat (2 * i)"
  note off = arg_off_bounds [OF i]
  note kept = src_kept [OF src _ i, folded q_def]
  have out: "\<And>a. a \<notin> ?B \<Longrightarrow> mem a = mem0 a" using f by (auto simp: filled_def)
  show "read_ptr mem (argv + 2 * of_nat i) = q" using out by (rule kept(1))
  have ptr: "block ?p 2 \<subseteq> ?B" using i off by (intro sub_block) auto
  have w: "mem1 a = mem a" if "a \<notin> block ?p 2" for a using that by (auto simp: mem1_def write_ptr_other)
  have out1: "\<And>a. a \<notin> ?B \<Longrightarrow> mem1 a = mem0 a" using out w ptr by (metis subsetD)
  show "read_ptr mem1 (argv + 2 * of_nat i) = q" using out1 by (rule kept(1))
  have dst: "block dst ?n \<subseteq> ?B" unfolding dst_def using off by (intro sub_block) auto
  have "block q ?n \<subseteq> args_space mem0 argv strs" using i unfolding q_def args_space_def by blast
  then have apart: "block dst ?n \<inter> block q ?n = {}" using dst src(2) by blast
  have "length (strs ! i) < 65535" using off size by simp
  from strcpy_cstring [OF kept(2) [OF out1] apart this]
  obtain mem2 where m: "strcpy mem1 dst q = Some mem2" "cstring mem2 dst (strs ! i)"
      "\<And>a. a \<notin> block dst ?n \<Longrightarrow> mem2 a = mem1 a" by blast
  have out2: "\<And>a. a \<notin> ?B \<Longrightarrow> mem2 a = mem0 a" using out1 m(3) dst by (metis subsetD)
  have same: "mem2 a = mem a" if "a \<in> block (bottom + of_nat k) n" "k + n \<le> 2 * i \<or> 2 * i + 2 \<le> k"
      "k + n \<le> arg_off strs i" for a k n
  proof -
    have "block (bottom + of_nat k) n \<inter> block ?p 2 = {}"
      by (rule blocks_apart) (use that(2,3) off size i in auto)
    moreover have "block (bottom + of_nat k) n \<inter> block dst ?n = {}"
      unfolding dst_def by (rule blocks_apart) (use that(3) off size in auto)
    ultimately show ?thesis using that(1) m(3) w by (metis disjoint_iff)
  qed
  have "read_ptr mem2 (bottom + of_nat (2 * j)) = read_ptr mem (bottom + of_nat (2 * j))" if "j < i" for j
    using that off i by (intro read_ptr_other same [of _ "2 * j" 2]) auto
  moreover have "cstring mem2 (bottom + of_nat (arg_off strs j)) (strs ! j)"
    if "j < i" "cstring mem (bottom + of_nat (arg_off strs j)) (strs ! j)" for j
    using that arg_off_mono [of "Suc j" i strs] arg_off_Suc [of j strs] arg_off_bounds(1) [of j strs] i
    by (intro cstring_cong [OF _ that(2)] same [of _ "arg_off strs j" "length (strs ! j) + 1"]) auto
  moreover have "read_ptr mem2 ?p = dst"
  proof -
    have "block ?p 2 \<inter> block dst ?n = {}" unfolding dst_def using off size i by (intro blocks_apart) auto
    then have "read_ptr mem2 ?p = read_ptr mem1 ?p" using m(3) by (intro read_ptr_other) blast
    then show ?thesis by (simp add: mem1_def read_write_ptr)
  qed
  ultimately have "filled bottom strs mem0 (Suc i) mem2"
    using f out2 m(2) unfolding filled_def dst_def by (auto simp: less_Suc_eq)
  then show "\<exists>mem2. strcpy mem1 dst q = Some mem2 \<and> read_ptr mem2 (argv + 2 * of_nat i) = q \<and>
      strlen mem2 q = Some (length (strs ! i)) \<and> filled bottom strs mem0 (Suc i) mem2"
    using m(1) kept [OF out2] strlen_cstring by blast
qed

lemma cook_loop_holds:
  assumes src: "holds_args mem0 argv strs" "args_space mem0 argv strs \<inter> block bottom (args_size strs) = {}"
    and size: "args_size strs < 65536" and argv: "argv \<noteq> NULL" and i: "i \<le> length strs" and f: "filled bottom strs mem0 i mem"
  shows "\<exists>mem'. cook_loop bottom argv (of_nat (length strs)) mem (bottom + of_nat (arg_off strs i)) (of_nat i) =
      Some (write_ptr (bottom + of_nat (2 * length strs)) NULL mem') \<and> filled bottom strs mem0 (length strs) mem'"
  using i f
proof (induction arbitrary: mem rule: inc_induct)
  case base
  then show ?case by (subst cook_loop.simps) (auto simp: Let_def)
next
  case (step i)
  have "2 * (length strs + 1) \<le> args_size strs" by (simp add: args_size_def)
  then have "length strs < 32768" using size by presburger
  then have lt: "sint (of_nat i :: cint) < sint (of_nat (length strs) :: cint)"
    using step(2) by (simp add: sint16 unat_of_nat)
  note cs = cook_step [OF src size step(2) step.prems]
  obtain mem2 where m: "strcpy (write_ptr (bottom + of_nat (2 * i)) (bottom + of_nat (arg_off strs i)) mem)
        (bottom + of_nat (arg_off strs i)) (read_ptr mem0 (argv + 2 * of_nat i)) = Some mem2"
      "read_ptr mem2 (argv + 2 * of_nat i) = read_ptr mem0 (argv + 2 * of_nat i)"
      "strlen mem2 (read_ptr mem0 (argv + 2 * of_nat i)) = Some (length (strs ! i))" "filled bottom strs mem0 (Suc i) mem2"
    using cs(3) by blast
  have nxt: "bottom + of_nat (arg_off strs i) + (of_nat (length (strs ! i)) + 1) = bottom + (of_nat (arg_off strs (Suc i)) :: addr)"
      "of_nat i + 1 = (of_nat (Suc i) :: cint)"
    using step(2) by (simp_all add: arg_off_Suc add.assoc)
  have nn: "read_ptr mem0 (argv + 2 * of_nat i) \<noteq> NULL" using src(1) step(2) by (simp add: holds_args_def)
  have "cook_loop bottom argv (of_nat (length strs)) mem (bottom + of_nat (arg_off strs i)) (of_nat i) =
      cook_loop bottom argv (of_nat (length strs)) mem2 (bottom + of_nat (arg_off strs (Suc i))) (of_nat (Suc i))"
    unfolding cook_loop.simps [of _ _ _ mem] using lt argv nn cs(1,2) m(1-3)
    by (simp add: Let_def nxt del: of_nat_Suc)
  with step.IH [OF m(4)] show ?case by simp
qed

text \<open>The block is complete once the null pointer is written.\<close>

lemma filled_holds:
  assumes f: "filled bottom strs mem0 (length strs) mem" and size: "args_size strs < 65536"
    and null: "NULL \<notin> block bottom (args_size strs)"
  shows "holds_args (write_ptr (bottom + of_nat (2 * length strs)) NULL mem) bottom strs"
proof -
  let ?n = "length strs" and ?mem = "write_ptr (bottom + of_nat (2 * length strs)) NULL mem"
  have "read_ptr ?mem (bottom + of_nat (2 * i)) = bottom + of_nat (arg_off strs i)" "bottom + of_nat (arg_off strs i) \<noteq> NULL"
      "cstring ?mem (bottom + of_nat (arg_off strs i)) (strs ! i)" if "i < ?n" for i
  proof -
    note off = arg_off_bounds [OF that]
    have same: "?mem a = mem a" if "a \<in> block (bottom + of_nat k) l" "k + l \<le> 2 * ?n \<or> 2 * ?n + 2 \<le> k" "k + l \<le> args_size strs" for a k l
      using that blocks_apart [of k l "2 * ?n" 2 bottom] off size by (intro write_ptr_other) auto
    have "read_ptr ?mem (bottom + of_nat (2 * i)) = read_ptr mem (bottom + of_nat (2 * i))"
      using that off by (intro read_ptr_other same [of _ "2 * i" 2]) auto
    then show "read_ptr ?mem (bottom + of_nat (2 * i)) = bottom + of_nat (arg_off strs i)"
      using f that by (simp add: filled_def)
    have "cstring mem (bottom + of_nat (arg_off strs i)) (strs ! i)" using f that by (simp add: filled_def)
    then show "cstring ?mem (bottom + of_nat (arg_off strs i)) (strs ! i)"
    proof (rule cstring_cong [rotated])
      fix a assume "a \<in> block (bottom + of_nat (arg_off strs i)) (length (strs ! i) + 1)"
      then show "?mem a = mem a" by (rule same) (use off in auto)
    qed
    show "bottom + of_nat (arg_off strs i) \<noteq> NULL" using in_block [of "arg_off strs i" "args_size strs" bottom] off null by auto
  qed
  moreover have "read_ptr ?mem (bottom + of_nat (2 * ?n)) = NULL" by (rule read_write_ptr)
  ultimately show ?thesis by (simp add: holds_args_def)
qed

lemma cook_holds:
  assumes src: "holds_args mem argv strs" "argv \<noteq> NULL" and size: "args_size strs < 65536"
    and blk: "args_space mem argv strs \<inter> block bottom (args_size strs) = {}"
  shows "\<exists>mem'. cook_argstack mem bottom argv = Some mem' \<and>
    (NULL \<notin> block bottom (args_size strs) \<longrightarrow> holds_args mem' bottom strs) \<and>
    (\<forall>a. a \<notin> block bottom (args_size strs) \<longrightarrow> mem' a = mem a)"
proof -
  let ?n = "length strs" and ?B = "block bottom (args_size strs)"
  have "filled bottom strs mem 0 mem" by (simp add: filled_def)
  from cook_loop_holds [OF src(1) blk size src(2) _ this]
  obtain m where m: "cook_loop bottom argv (of_nat ?n) mem (bottom + of_nat (arg_off strs 0)) 0 =
      Some (write_ptr (bottom + of_nat (2 * ?n)) NULL m)" "filled bottom strs mem ?n m" by auto
  let ?mem = "write_ptr (bottom + of_nat (2 * ?n)) NULL m" and ?p = "bottom + of_nat (2 * ?n)"
  have start: "bottom + 2 * (of_nat ?n + 1) = bottom + (of_nat (arg_off strs 0) :: addr)" by (simp add: arg_off_def)
  have cook: "cook_argstack mem bottom argv = Some ?mem"
    unfolding cook_argstack_def argc_holds [OF src] Option.bind.simps start by (rule m(1))
  have "block ?p 2 \<subseteq> ?B" by (intro sub_block) (simp add: args_size_def)
  then have "\<And>a. a \<notin> ?B \<Longrightarrow> ?mem a = m a" by (intro write_ptr_other) blast
  then have out: "\<forall>a. a \<notin> ?B \<longrightarrow> ?mem a = mem a" using m(2) by (simp add: filled_def)
  have "NULL \<notin> ?B \<longrightarrow> holds_args ?mem bottom strs" using filled_holds [OF m(2) size] by blast
  with cook out show ?thesis by blast
qed

text \<open>
  C19. The arguments of a process are copied: for a null-terminated array of strings,
  \<^verbatim>\<open>pm_argstack_size\<close> computes the size of a block that \<^verbatim>\<open>cook_argstack\<close> fills with an array of pointers
  and the strings, so that the block holds the same arguments as the original; nothing outside of
  the block is written. The block is apart from the original and does not contain address 0, and
  its size fits 16 bits.
\<close>

theorem arguments_are_copied:
  assumes src: "holds_args mem argv strs" "argv \<noteq> NULL" and size: "args_size strs < 65536"
    and blk: "args_space mem argv strs \<inter> block bottom (args_size strs) = {}" "NULL \<notin> block bottom (args_size strs)"
  shows "pm_argstack_size mem argv = Some (of_nat (args_size strs)) \<and>
    (\<exists>mem'. cook_argstack mem bottom argv = Some mem' \<and> holds_args mem' bottom strs \<and>
       (\<forall>a. a \<notin> block bottom (args_size strs) \<longrightarrow> mem' a = mem a))"
  using cook_holds [OF src size blk(1)] argsize_holds [OF src] blk(2) by blast

text \<open>Two strings at 0x300, with their pointers at 0x310.\<close>

definition example_args :: bytes where
  "example_args = (\<lambda>_. 0)(0x300 := 0x6C, 0x301 := 0x73, 0x303 := 0x2E, 0x310 := 0x00, 0x311 := 0x03, 0x312 := 0x03, 0x313 := 0x03)"

theorem arguments_are_copied_witness:
  "pm_argstack_size example_args 0x310 = Some 11 \<and>
     (\<exists>mem'. cook_argstack example_args 0x400 0x310 = Some mem' \<and> holds_args mem' 0x400 [[0x6C, 0x73], [0x2E]])"
proof -
  let ?s = "[[0x6C, 0x73], [0x2E]] :: byte list list"
  have "holds_args example_args 0x310 ?s \<and> args_space example_args 0x310 ?s \<inter> block 0x400 (args_size ?s) = {} \<and>
      args_size ?s = 11 \<and> NULL \<notin> block 0x400 (args_size ?s)"
    by code_simp
  then show ?thesis using arguments_are_copied [of example_args "0x310" ?s "0x400"] by auto
qed

end
