(* ===== verification/Pm_Server.thy ===== *)
theory Pm_Server
  imports Pm_Args Kernel "HOL-Library.Multiset"
begin

text \<open>
  \<^verbatim>\<open>servers/pm.c\<close>: the process manager. It keeps every process on one of three queues, running, waiting
  for a child, or dead but not yet waited for, and owns the memory that processes allocate.

  The calls to the kernel, to the file system and to \<^verbatim>\<open>kmalloc\<close> are recorded in order as actions; their
  results are inputs of the step. A dereference of a null pointer, and a loop over memory that does
  not end, is \<^term>\<open>None\<close>. A struct is identified by its address.
\<close>

section \<open>State\<close>

record pm_task =
  pt_item :: addr
  pt_pid :: pid_t
  pt_chunks :: "(addr \<times> addr) list"
  pt_word :: addr
  pt_parent :: addr
  pt_args :: addr

abbreviation waitfor :: "pm_task \<Rightarrow> pid_t" where "waitfor \<equiv> pt_word"
abbreviation exitcode :: "pm_task \<Rightarrow> cint" where "exitcode \<equiv> pt_word"

abbreviation sizeof_pm_task :: addr where "sizeof_pm_task \<equiv> 16"
abbreviation sizeof_mem_chunk :: addr where "sizeof_mem_chunk \<equiv> 6"

record pm_st =
  task_q :: "pm_task list"
  wait_q :: "pm_task list"
  zombie_q :: "pm_task list"
  pm_mem :: bytes

definition PM_SPAWN :: cint where "PM_SPAWN = 0"
definition PM_EXEC :: cint where "PM_EXEC = 1"
definition PM_WAIT :: cint where "PM_WAIT = 2"
definition PM_EXIT :: cint where "PM_EXIT = 3"
definition PM_MALLOC :: cint where "PM_MALLOC = 4"
definition PM_FREE :: cint where "PM_FREE = 5"

lemmas pm_cmds = PM_SPAWN_def PM_EXEC_def PM_WAIT_def PM_EXIT_def PM_MALLOC_def PM_FREE_def

text \<open>
  The union of a message is its three words: \<^verbatim>\<open>spawn\<close> is (\<^verbatim>\<open>ptp\<close> or \<^verbatim>\<open>pid\<close>, \<^verbatim>\<open>stack\<close>, \<^verbatim>\<open>argv\<close>), \<^verbatim>\<open>exec\<close> is
  (\<^verbatim>\<open>name\<close>, \<^verbatim>\<open>argv\<close>), \<^verbatim>\<open>exit\<close> is (\<^verbatim>\<open>code\<close>), \<^verbatim>\<open>wait\<close> is (\<^verbatim>\<open>pid\<close>, \<^verbatim>\<open>code\<close>), \<^verbatim>\<open>malloc\<close> is (\<^verbatim>\<open>size\<close> or \<^verbatim>\<open>ptr\<close>) and \<^verbatim>\<open>free\<close>
  is (\<^verbatim>\<open>ptr\<close>).
\<close>

record pmmsg =
  pm_cmd :: cint
  m0 :: addr
  m1 :: addr
  m2 :: addr

datatype pm_act =
    Kmalloc addr addr
  | Kfree addr
  | Createtask pid_t
  | Allocatestack pid_t addr
  | Setuptask pid_t addr addr
  | Starttask pid_t
  | Stoptask pid_t
  | Deletetask pid_t
  | Vfs_createtask pid_t pid_t
  | Vfs_deletetask pid_t
  | Reply pid_t pmmsg

text \<open>
  The inputs of one turn of the loop: the sender and its message, what the calls of \<^verbatim>\<open>kmalloc\<close> in this
  turn, \<^verbatim>\<open>createtask\<close>, \<^verbatim>\<open>vfs_createtask\<close> and \<^verbatim>\<open>ex_getprg\<close> return.
\<close>

record pm_in =
  n_client :: pid_t
  n_msg :: pmmsg
  n_mem1 :: addr
  n_mem2 :: addr
  n_task :: pid_t
  n_vfs :: pid_t
  n_prg :: "addr \<Rightarrow> addr \<times> addr"

section \<open>Processes\<close>

definition PM_CLIENT :: "pm_st \<Rightarrow> pm_task option" where
  "PM_CLIENT st = (case task_q st of [] \<Rightarrow> None | t # _ \<Rightarrow> Some t)"

definition PM_PIDOF :: "pm_task option \<Rightarrow> pid_t" where
  "PM_PIDOF p = (case p of None \<Rightarrow> NULL | Some t \<Rightarrow> pt_pid t)"

definition item_of :: "pm_task option \<Rightarrow> addr" where
  "item_of p = (case p of None \<Rightarrow> NULL | Some t \<Rightarrow> pt_item t)"

definition pm_newtask :: "addr \<Rightarrow> pid_t \<Rightarrow> pm_task option \<Rightarrow> pm_task option" where
  "pm_newtask p pid parent =
     (if p = NULL then None
      else Some \<lparr>pt_item = p, pt_pid = pid, pt_chunks = [], pt_word = 0, pt_parent = item_of parent, pt_args = NULL\<rparr>)"

definition pm_findbypid :: "pid_t \<Rightarrow> pm_st \<Rightarrow> pm_task option" where
  "pm_findbypid pid st = find (\<lambda>t. pt_pid t = pid) (task_q st)"

definition remove_item :: "addr \<Rightarrow> pm_task list \<Rightarrow> pm_task list" where
  "remove_item p q = filter (\<lambda>t. pt_item t \<noteq> p) q"

definition upd_item :: "addr \<Rightarrow> (pm_task \<Rightarrow> pm_task) \<Rightarrow> pm_task list \<Rightarrow> pm_task list" where
  "upd_item p f q = map (\<lambda>t. if pt_item t = p then f t else t) q"

text \<open>The callbacks of \<^verbatim>\<open>q_forall\<close>; \<open>c\<close> is \<^verbatim>\<open>PM_CLIENT\<close>, the address of the client.\<close>

definition pm_haschild :: "addr \<Rightarrow> pm_task \<Rightarrow> bool" where
  "pm_haschild c t \<longleftrightarrow> pt_parent t = c"

definition pm_findzombie :: "pm_task \<Rightarrow> pm_task \<Rightarrow> bool" where
  "pm_findzombie client t \<longleftrightarrow>
     pt_parent t = pt_item client \<and> (waitfor client = pt_pid t \<or> waitfor client = TASK_ANY)"

definition pm_makechildorphan :: "addr \<Rightarrow> pm_task \<Rightarrow> pm_task" where
  "pm_makechildorphan c t = (if pt_parent t = c then t\<lparr>pt_parent := NULL\<rparr> else t)"

definition pm_removechild :: "addr \<Rightarrow> pm_task list \<Rightarrow> pm_task list \<times> pm_act list" where
  "pm_removechild c q =
     (filter (\<lambda>t. pt_parent t \<noteq> c) q,
      concat (map (\<lambda>t. [Kfree (pt_args t), Kfree (pt_item t)]) (filter (\<lambda>t. pt_parent t = c) q)))"

definition pm_findmyparent :: "pm_task \<Rightarrow> pm_task \<Rightarrow> bool" where
  "pm_findmyparent client t \<longleftrightarrow> pt_parent client = pt_item t"

section \<open>Memory of a process\<close>

definition findchunk :: "pm_task option \<Rightarrow> addr \<Rightarrow> (addr \<times> addr) option" where
  "findchunk ptsk ptr =
     (case ptsk of
        None \<Rightarrow> None
      | Some t \<Rightarrow> if ptr = NULL then None else find (\<lambda>c. snd c = ptr) (pt_chunks t))"

definition pm_delchunks :: "(addr \<times> addr) list \<Rightarrow> pm_act list" where
  "pm_delchunks chunks = concat (map (\<lambda>(chunk, ptr). (if ptr \<noteq> NULL then [Kfree ptr] else []) @ [Kfree chunk]) chunks)"

definition do_pmalloc :: "pm_in \<Rightarrow> pmmsg \<Rightarrow> pm_st \<Rightarrow> (pm_st \<times> pmmsg \<times> pm_act list) option" where
  "do_pmalloc i msg st =
     (let chunk = n_mem1 i; ptr = n_mem2 i; a1 = [Kmalloc sizeof_mem_chunk chunk]; a2 = [Kmalloc (m0 msg) ptr]
      in if chunk = NULL then Some (st, msg\<lparr>m0 := NULL\<rparr>, a1)
         else if ptr = NULL then Some (st, msg\<lparr>m0 := NULL\<rparr>, a1 @ a2 @ [Kfree chunk])
         else case task_q st of
           [] \<Rightarrow> None
         | t # q \<Rightarrow> Some (st\<lparr>task_q := t\<lparr>pt_chunks := (chunk, ptr) # pt_chunks t\<rparr> # q\<rparr>, msg\<lparr>m0 := ptr\<rparr>, a1 @ a2))"

definition do_pmfree :: "pmmsg \<Rightarrow> pm_st \<Rightarrow> pm_st \<times> pm_act list" where
  "do_pmfree msg st =
     (case findchunk (PM_CLIENT st) (m0 msg) of
        None \<Rightarrow> (st, [Kfree NULL])
      | Some (chunk, ptr) \<Rightarrow>
          (st\<lparr>task_q := (hd (task_q st))\<lparr>pt_chunks := filter (\<lambda>c. fst c \<noteq> chunk) (pt_chunks (hd (task_q st)))\<rparr> # tl (task_q st)\<rparr>,
           [Kfree ptr, Kfree chunk]))"

section \<open>Setting up a process\<close>

text \<open>The process at address \<open>p\<close>, of which \<open>t\<close> is the struct; the result says whether it succeeded.\<close>

definition pm_setuptask :: "pm_task \<Rightarrow> addr \<Rightarrow> addr \<Rightarrow> addr \<Rightarrow> addr \<Rightarrow> pm_st \<Rightarrow> (pm_st \<times> pm_act list \<times> bool) option" where
  "pm_setuptask t stacksize ptr argv newargs st = do {
     sz \<leftarrow> pm_argstack_size (pm_mem st) argv;
     if newargs = NULL then Some (st, [Kmalloc sz newargs], False)
     else do {
       mem \<leftarrow> cook_argstack (pm_mem st) newargs argv;
       Some (st\<lparr>pm_mem := mem, task_q := upd_item (pt_item t) (\<lambda>t. t\<lparr>pt_chunks := [], pt_args := newargs\<rparr>) (task_q st)\<rparr>,
         [Kmalloc sz newargs, Stoptask (pt_pid t)] @ pm_delchunks (pt_chunks t) @
         (if pt_args t \<noteq> NULL then [Kfree (pt_args t)] else []) @
         [Allocatestack (pt_pid t) stacksize, Setuptask (pt_pid t) ptr newargs], True)
     }
   }"

definition do_spawn :: "pm_in \<Rightarrow> pmmsg \<Rightarrow> pm_st \<Rightarrow> (pm_st \<times> pmmsg \<times> pm_act list) option" where
  "do_spawn i msg st =
     (let task = n_task i; a0 = [Createtask task]
      in if task = NULL then Some (st, msg, a0)
         else let a1 = a0 @ [Kmalloc sizeof_pm_task (n_mem1 i)]
              in case pm_newtask (n_mem1 i) task (PM_CLIENT st) of
                   None \<Rightarrow> Some (st, msg, a1)
                 | Some t \<Rightarrow>
                     let st1 = st\<lparr>task_q := task_q st @ [t]\<rparr>;
                         a2 = a1 @ [Vfs_createtask task (PM_PIDOF (PM_CLIENT st1))]
                     in if n_vfs i = NULL then Some (st1, msg, a2)
                        else do {
                          (st2, a3, ok) \<leftarrow> pm_setuptask t (m1 msg) (m0 msg) (m2 msg) (n_mem2 i) st1;
                          if \<not> ok then Some (st2, msg, a2 @ a3)
                          else Some (st2, msg\<lparr>m0 := task\<rparr>, a2 @ a3 @ [Starttask task])
                        })"

text \<open>The last component says whether the client is answered.\<close>

definition do_exec :: "pm_in \<Rightarrow> pmmsg \<Rightarrow> pm_st \<Rightarrow> (pm_st \<times> pm_act list \<times> bool) option" where
  "do_exec i msg st =
     (let (ptr, stacksize) = n_prg i (m0 msg)
      in if ptr = NULL then Some (st, [], True)
         else case PM_CLIENT st of
           None \<Rightarrow> None
         | Some t \<Rightarrow> do {
             (st1, a, ok) \<leftarrow> pm_setuptask t stacksize ptr (m1 msg) (n_mem1 i) st;
             if \<not> ok then Some (st1, a, False) else Some (st1, a @ [Starttask (pt_pid t)], False)
           })"

definition do_spawnexec :: "pm_in \<Rightarrow> pmmsg \<Rightarrow> pm_st \<Rightarrow> (pm_st \<times> pmmsg \<times> pm_act list) option" where
  "do_spawnexec i msg st =
     (let task = n_task i; a0 = [Createtask task]
      in if task = NULL then Some (st, msg, a0)
         else let a1 = a0 @ [Vfs_createtask task (PM_PIDOF (PM_CLIENT st))]
              in if n_vfs i = NULL then Some (st, msg, a1)
                 else let a2 = a1 @ [Kmalloc sizeof_pm_task (n_mem1 i)]
                      in case pm_newtask (n_mem1 i) task (PM_CLIENT st) of
                           None \<Rightarrow> Some (st, msg, a2)
                         | Some t \<Rightarrow>
                             let st1 = st\<lparr>task_q := task_q st @ [t]\<rparr>; (ptr, stacksize) = n_prg i (m0 msg)
                             in if ptr = NULL then Some (st1, msg, a2)
                                else do {
                                  (st2, a3, ok) \<leftarrow> pm_setuptask t stacksize ptr (m1 msg) (n_mem2 i) st1;
                                  if \<not> ok then Some (st2, msg, a2 @ a3)
                                  else Some (st2, msg\<lparr>m0 := task\<rparr>, a2 @ a3 @ [Starttask task])
                                })"

section \<open>Exit and wait\<close>

text \<open>The result names the task to answer, if any.\<close>

definition do_exit :: "pmmsg \<Rightarrow> pm_st \<Rightarrow> (pm_st \<times> pmmsg \<times> pm_act list \<times> pid_t option) option" where
  "do_exit msg st =
     (case task_q st of
        [] \<Rightarrow> None
      | t # q \<Rightarrow>
          let c = pt_item t;
              a1 = pm_delchunks (pt_chunks t) @ [Stoptask (pt_pid t), Deletetask (pt_pid t), Vfs_deletetask (pt_pid t)];
              (zs, a2) = pm_removechild c (zombie_q st);
              ws = map (pm_makechildorphan c) (wait_q st);
              t' = pm_makechildorphan c (t\<lparr>pt_chunks := []\<rparr>);
              q' = map (pm_makechildorphan c) q
          in if pt_parent t' = NULL
             then Some (st\<lparr>task_q := q', wait_q := ws, zombie_q := zs\<rparr>, msg,
                    a1 @ a2 @ [Kfree (pt_args t'), Kfree c], None)
             else case find (pm_findmyparent t') ws of
               Some p \<Rightarrow>
                 if waitfor p = pt_pid t' \<or> waitfor p = TASK_ANY
                 then Some (st\<lparr>task_q := q' @ [p], wait_q := remove_item (pt_item p) ws, zombie_q := zs\<rparr>,
                        msg\<lparr>m0 := pt_pid t', m1 := m0 msg\<rparr>,
                        a1 @ a2 @ [Kfree (pt_args t'), Kfree c], Some (pt_pid p))
                 else Some (st\<lparr>task_q := q', wait_q := ws, zombie_q := zs @ [t'\<lparr>pt_word := m0 msg\<rparr>]\<rparr>, msg, a1 @ a2, None)
             | None \<Rightarrow> Some (st\<lparr>task_q := q', wait_q := ws, zombie_q := zs @ [t'\<lparr>pt_word := m0 msg\<rparr>]\<rparr>, msg, a1 @ a2, None))"

definition do_wait :: "pmmsg \<Rightarrow> pm_st \<Rightarrow> (pm_st \<times> pmmsg \<times> pm_act list \<times> bool) option" where
  "do_wait msg st =
     (case task_q st of
        [] \<Rightarrow> None
      | t # q \<Rightarrow>
          let t' = t\<lparr>pt_word := m0 msg\<rparr>
          in case find (pm_findzombie t') (zombie_q st) of
               Some z \<Rightarrow>
                 Some (st\<lparr>task_q := t' # q, zombie_q := remove_item (pt_item z) (zombie_q st)\<rparr>,
                   msg\<lparr>m0 := pt_pid z, m1 := exitcode z\<rparr>, [Kfree (pt_args z), Kfree (pt_item z)], True)
             | None \<Rightarrow>
                 if \<not> list_ex (pm_haschild (pt_item t)) (t' # q) \<and> \<not> list_ex (pm_haschild (pt_item t)) (wait_q st)
                 then Some (st\<lparr>task_q := t' # q\<rparr>, msg\<lparr>m0 := 0, m1 := 0\<rparr>, [], True)
                 else Some (st\<lparr>task_q := q, wait_q := wait_q st @ [t']\<rparr>, msg, [], False))"

section \<open>The server loop\<close>

definition to_front :: "pid_t \<Rightarrow> pm_st \<Rightarrow> pm_st" where
  "to_front pid st =
     (case pm_findbypid pid st of
        None \<Rightarrow> st
      | Some t \<Rightarrow> st\<lparr>task_q := t # remove_item (pt_item t) (task_q st)\<rparr>)"

definition pm_dispatch :: "pm_in \<Rightarrow> pm_st \<Rightarrow> (pm_st \<times> pmmsg \<times> pm_act list \<times> pid_t option) option" where
  "pm_dispatch i st =
     (let msg = n_msg i; cmd = pm_cmd msg; c = n_client i
      in if cmd = PM_SPAWN then do { (st', m, a) \<leftarrow> do_spawn i msg st; Some (st', m, a, Some c) }
         else if cmd = PM_EXEC
         then do { (st', a, r) \<leftarrow> do_exec i msg st; Some (st', msg, a, if r then Some c else None) }
         else if cmd = PM_EXIT then do_exit msg st
         else if cmd = PM_WAIT
         then do { (st', m, a, r) \<leftarrow> do_wait msg st; Some (st', m, a, if r then Some c else None) }
         else if cmd = PM_MALLOC then do { (st', m, a) \<leftarrow> do_pmalloc i msg st; Some (st', m, a, Some c) }
         else if cmd = PM_FREE then (let r = do_pmfree msg st in Some (fst r, msg, snd r, Some c))
         else Some (st, msg, [], None))"

definition pm_step :: "pm_in \<Rightarrow> pm_st \<Rightarrow> (pm_st \<times> pm_act list) option" where
  "pm_step i st = do {
     (st', m, a, r) \<leftarrow> pm_dispatch i (to_front (n_client i) st);
     Some (st', a @ (case r of None \<Rightarrow> [] | Some c \<Rightarrow> [Reply c m]))
   }"

text \<open>\<^verbatim>\<open>pm\<close> before its loop: the first process, which runs the program named by the arguments.\<close>

definition pm_init :: "bytes \<Rightarrow> pm_st" where
  "pm_init mem = \<lparr>task_q = [], wait_q = [], zombie_q = [], pm_mem = mem\<rparr>"

definition pm_start :: "pm_in \<Rightarrow> addr \<Rightarrow> bytes \<Rightarrow> (pm_st \<times> pm_act list) option" where
  "pm_start i args mem = do {
     (st, m, a) \<leftarrow> do_spawnexec i ((n_msg i)\<lparr>m0 := read_ptr mem args, m1 := args\<rparr>) (pm_init mem);
     Some (st, a @ [Kfree args])
   }"

lemmas [server_defs] = pm_newtask_def do_pmalloc_def do_pmfree_def pm_setuptask_def do_spawn_def do_exec_def
  do_spawnexec_def do_exit_def do_wait_def to_front_def pm_dispatch_def pm_step_def

section \<open>Client functions\<close>

definition spawntask_req :: "addr \<Rightarrow> addr \<Rightarrow> addr \<Rightarrow> pmmsg" where
  "spawntask_req ptsk stacksize argv = \<lparr>pm_cmd = PM_SPAWN, m0 = ptsk, m1 = stacksize, m2 = argv\<rparr>"

definition execv_req :: "addr \<Rightarrow> addr \<Rightarrow> pmmsg \<Rightarrow> pmmsg" where
  "execv_req name argv msg = msg\<lparr>pm_cmd := PM_EXEC, m0 := name, m1 := argv\<rparr>"

definition mexit_req :: "cint \<Rightarrow> pmmsg \<Rightarrow> pmmsg" where
  "mexit_req code msg = msg\<lparr>pm_cmd := PM_EXIT, m0 := code\<rparr>"

definition wait_req :: "pmmsg \<Rightarrow> pmmsg" where
  "wait_req msg = msg\<lparr>pm_cmd := PM_WAIT, m0 := TASK_ANY\<rparr>"

definition waitpid_req :: "pid_t \<Rightarrow> pmmsg \<Rightarrow> pmmsg" where
  "waitpid_req p msg = msg\<lparr>pm_cmd := PM_WAIT, m0 := p\<rparr>"

definition pmmalloc_req :: "addr \<Rightarrow> pmmsg \<Rightarrow> pmmsg" where
  "pmmalloc_req sz msg = msg\<lparr>pm_cmd := PM_MALLOC, m0 := sz\<rparr>"

definition pmfree_req :: "addr \<Rightarrow> pmmsg \<Rightarrow> pmmsg" where
  "pmfree_req ptr msg = msg\<lparr>pm_cmd := PM_FREE, m0 := ptr\<rparr>"

end
