(* ===== verification/Pm_Inv.thy ===== *)
theory Pm_Inv
  imports Pm_Server
begin

text \<open>
  The invariant of the process manager: the ownership of memory and the tree of processes, and that
  every request keeps them.
\<close>

section \<open>Ownership of memory\<close>

text \<open>The blocks of memory that a process struct stands for.\<close>

definition owned_by :: "pm_task \<Rightarrow> addr list" where
  "owned_by t = pt_item t # (if pt_args t \<noteq> NULL then [pt_args t] else []) @ concat (map (\<lambda>(c, p). [c, p]) (pt_chunks t))"

definition owned_q :: "pm_task list \<Rightarrow> addr multiset" where
  "owned_q q = mset (concat (map owned_by q))"

definition owned :: "pm_st \<Rightarrow> addr multiset" where
  "owned st = owned_q (task_q st) + owned_q (wait_q st) + owned_q (zombie_q st)"

text \<open>What a sequence of actions allocates and frees; a null pointer is no block.\<close>

definition allocated :: "pm_act list \<Rightarrow> addr multiset" where
  "allocated as = mset (concat (map (\<lambda>a. case a of Kmalloc n p \<Rightarrow> if p \<noteq> NULL then [p] else [] | _ \<Rightarrow> []) as))"

definition freed :: "pm_act list \<Rightarrow> addr multiset" where
  "freed as = mset (concat (map (\<lambda>a. case a of Kfree p \<Rightarrow> if p \<noteq> NULL then [p] else [] | _ \<Rightarrow> []) as))"

lemma act_simps [simp]:
  "allocated [] = {#}" "allocated (as @ bs) = allocated as + allocated bs"
  "allocated (a # as) = (case a of Kmalloc n p \<Rightarrow> if p \<noteq> NULL then {#p#} else {#} | _ \<Rightarrow> {#}) + allocated as"
  "freed [] = {#}" "freed (as @ bs) = freed as + freed bs"
  "freed (a # as) = (case a of Kfree p \<Rightarrow> if p \<noteq> NULL then {#p#} else {#} | _ \<Rightarrow> {#}) + freed as"
  by (auto simp: allocated_def freed_def split: pm_act.splits)

lemma owned_q_simps [simp]:
  "owned_q [] = {#}" "owned_q (t # q) = mset (owned_by t) + owned_q q" "owned_q (q @ r) = owned_q q + owned_q r"
  by (simp_all add: owned_q_def)

lemma owned_orphan [simp]: "owned_q (map (pm_makechildorphan c) q) = owned_q q" "owned_by (pm_makechildorphan c t) = owned_by t"
  by (auto simp: owned_q_def pm_makechildorphan_def owned_by_def comp_def intro!: arg_cong [where f = concat] map_cong
      arg_cong [where f = mset])

lemma owned_word [simp]: "owned_by (t\<lparr>pt_word := w\<rparr>) = owned_by t"
  by (simp add: owned_by_def)

lemma owned_filter: "owned_q (filter P q) + owned_q (filter (\<lambda>t. \<not> P t) q) = owned_q q"
  by (induction q) auto

lemma allocated_none [simp]: "allocated (pm_delchunks cs) = {#}" "allocated (snd (pm_removechild c q)) = {#}"
  by (induction cs) (auto simp: pm_delchunks_def allocated_def pm_removechild_def comp_def)

lemma freed_delchunks:
  assumes "\<forall>(c, p) \<in> set cs. c \<noteq> NULL \<and> p \<noteq> NULL"
  shows "freed (pm_delchunks cs) = mset (concat (map (\<lambda>(c, p). [c, p]) cs))"
  using assms by (induction cs) (auto simp: pm_delchunks_def)

lemma freed_removechild:
  assumes "\<forall>t \<in> set q. pt_chunks t = [] \<and> pt_item t \<noteq> NULL"
  shows "freed (snd (pm_removechild c q)) = owned_q (filter (\<lambda>t. pt_parent t = c) q)"
  using assms by (induction q) (auto simp: pm_removechild_def owned_by_def)

lemma remove_item_split:
  assumes "distinct (map pt_item q)" "t \<in> set q"
  shows "owned_q (remove_item (pt_item t) q) + mset (owned_by t) = owned_q q"
proof -
  from assms have "filter (\<lambda>x. \<not> pt_item x \<noteq> pt_item t) q = [t]"
    by (induction q) (auto simp: filter_empty_conv image_iff split: if_splits)
  then show ?thesis using owned_filter [of "\<lambda>x. pt_item x \<noteq> pt_item t" q] by (simp add: remove_item_def)
qed

lemma remove_item_absent: "p \<notin> pt_item ` set q \<Longrightarrow> remove_item p q = q"
  by (auto simp: remove_item_def filter_id_conv)

section \<open>The tree of processes\<close>

text \<open>
  The running, waiting and dead processes: structs are different; the parent of a process is null or
  a live process; live processes have different pids; a dead process has a parent that can wait for
  it; no process waits although there is a dead child that it waits for; a process that waits for
  any child has a live one.
\<close>

definition tree :: "pm_task list \<Rightarrow> pm_task list \<Rightarrow> pm_task list \<Rightarrow> bool" where
  "tree ts ws zs \<longleftrightarrow> distinct (map pt_item (ts @ ws @ zs)) \<and> NULL \<notin> pt_item ` set (ts @ ws @ zs) \<and>
     distinct (map pt_pid (ts @ ws)) \<and>
     (\<forall>t \<in> set (ts @ ws @ zs). pt_parent t = NULL \<or> pt_parent t \<in> pt_item ` set (ts @ ws) \<and> pt_parent t \<noteq> pt_item t) \<and>
     (\<forall>z \<in> set zs. pt_parent z \<noteq> NULL) \<and>
     (\<forall>w \<in> set ws. (\<forall>z \<in> set zs. \<not> pm_findzombie w z) \<and>
        (waitfor w = TASK_ANY \<longrightarrow> (\<exists>t \<in> set (ts @ ws). pt_parent t = pt_item w)))"

lemma tree_parts:
  assumes "tree ts ws zs"
  shows "distinct (map pt_item (ts @ ws @ zs))" and "NULL \<notin> pt_item ` (set ts \<union> set ws \<union> set zs)"
    and "distinct (map pt_pid (ts @ ws))"
    and "t \<in> set ts \<union> set ws \<union> set zs \<Longrightarrow>
      pt_parent t = NULL \<or> pt_parent t \<in> pt_item ` (set ts \<union> set ws) \<and> pt_parent t \<noteq> pt_item t"
    and "z \<in> set zs \<Longrightarrow> pt_parent z \<noteq> NULL" and "w \<in> set ws \<Longrightarrow> z \<in> set zs \<Longrightarrow> \<not> pm_findzombie w z"
    and "w \<in> set ws \<Longrightarrow> waitfor w = TASK_ANY \<Longrightarrow> \<exists>t \<in> set ts \<union> set ws. pt_parent t = pt_item w"
  using assms by (simp_all add: tree_def Un_assoc)

lemma treeI:
  assumes "distinct (map pt_item (ts @ ws @ zs))" and "NULL \<notin> pt_item ` (set ts \<union> set ws \<union> set zs)"
    and "distinct (map pt_pid (ts @ ws))"
    and "\<And>t. t \<in> set ts \<union> set ws \<union> set zs \<Longrightarrow>
      pt_parent t = NULL \<or> pt_parent t \<in> pt_item ` (set ts \<union> set ws) \<and> pt_parent t \<noteq> pt_item t"
    and "\<And>z. z \<in> set zs \<Longrightarrow> pt_parent z \<noteq> NULL" and "\<And>w z. w \<in> set ws \<Longrightarrow> z \<in> set zs \<Longrightarrow> \<not> pm_findzombie w z"
    and "\<And>w. w \<in> set ws \<Longrightarrow> waitfor w = TASK_ANY \<Longrightarrow> \<exists>t \<in> set ts \<union> set ws. pt_parent t = pt_item w"
  shows "tree ts ws zs"
  using assms by (simp add: tree_def Un_assoc)

definition pm_inv :: "pm_st \<Rightarrow> bool" where
  "pm_inv st \<longleftrightarrow> (\<forall>a. count (owned st) a \<le> 1) \<and> NULL \<notin># owned st \<and>
     tree (task_q st) (wait_q st) (zombie_q st) \<and> (\<forall>z \<in> set (zombie_q st). pt_chunks z = [])"

text \<open>The tree does not depend on the memory of the processes, nor on the order of the running ones.\<close>

definition bare :: "pm_task \<Rightarrow> pm_task" where
  "bare t = t\<lparr>pt_chunks := [], pt_args := NULL\<rparr>"

lemma bare_sels [simp]: "pt_item (bare t) = pt_item t" "pt_pid (bare t) = pt_pid t" "pt_parent (bare t) = pt_parent t"
    "pt_word (bare t) = pt_word t"
  by (simp_all add: bare_def)

lemma tree_bare: "tree (map bare ts) ws zs = tree ts ws zs"
  by (simp add: tree_def comp_def image_image ball_Un bex_Un image_Un)

lemma tree_bare_cong: "map bare ts' = map bare ts \<Longrightarrow> tree ts' ws zs = tree ts ws zs"
  using tree_bare by metis

lemma tree_perm:
  assumes "mset ts' = mset ts"
  shows "tree ts' ws zs = tree ts ws zs"
proof -
  have "set ts' = set ts" using assms by (metis set_mset_mset)
  moreover have "distinct (map f ts') = distinct (map f ts)" for f :: "pm_task \<Rightarrow> addr"
    using assms by (metis mset_eq_imp_distinct_iff mset_map)
  ultimately show ?thesis by (simp add: tree_def)
qed

lemma tree_spawn:
  assumes tr: "tree ts ws zs" and item: "pt_item t \<noteq> NULL" "pt_item t \<notin> pt_item ` (set ts \<union> set ws \<union> set zs)"
    and pid: "pt_pid t \<notin> pt_pid ` (set ts \<union> set ws)" and par: "pt_parent t = NULL \<or> pt_parent t \<in> pt_item ` set ts"
  shows "tree (ts @ [t]) ws zs"
proof (rule treeI)
  note p = tree_parts [OF tr]
  show "distinct (map pt_item ((ts @ [t]) @ ws @ zs))" "distinct (map pt_pid ((ts @ [t]) @ ws))"
    using p(1,3) item(2) pid by auto
  show "NULL \<notin> pt_item ` (set (ts @ [t]) \<union> set ws \<union> set zs)" using p(2) item(1) by auto
  show "pt_parent x = NULL \<or> pt_parent x \<in> pt_item ` (set (ts @ [t]) \<union> set ws) \<and> pt_parent x \<noteq> pt_item x"
    if "x \<in> set (ts @ [t]) \<union> set ws \<union> set zs" for x
  proof (cases "x = t")
    case True
    then show ?thesis using par item(2) by auto
  next
    case False
    then have "x \<in> set ts \<union> set ws \<union> set zs" using that by auto
    from p(4) [OF this] show ?thesis by auto
  qed
  show "\<exists>x \<in> set (ts @ [t]) \<union> set ws. pt_parent x = pt_item w" if "w \<in> set ws" "waitfor w = TASK_ANY" for w
    using p(7) [OF that] by auto
qed (use tree_parts(5,6) [OF tr] in auto)

text \<open>The client leaves: its dead children go, its other children lose their parent.\<close>

lemma orphan_sels [simp]:
  "pt_item (pm_makechildorphan c x) = pt_item x" "pt_pid (pm_makechildorphan c x) = pt_pid x"
  "pt_word (pm_makechildorphan c x) = pt_word x" "pt_chunks (pm_makechildorphan c x) = pt_chunks x"
  "pt_parent (pm_makechildorphan c x) = (if pt_parent x = c then NULL else pt_parent x)"
  "pm_findzombie (pm_makechildorphan c x) z = pm_findzombie x z"
  by (simp_all add: pm_makechildorphan_def pm_findzombie_def)

lemma tree_leave:
  assumes tr: "tree (t # q) ws zs" and par: "\<forall>w \<in> set ws. pt_parent t = pt_item w \<longrightarrow> waitfor w \<noteq> TASK_ANY"
  defines "c \<equiv> pt_item t"
  shows "tree (map (pm_makechildorphan c) q) (map (pm_makechildorphan c) ws) (filter (\<lambda>z. pt_parent z \<noteq> c) zs)"
    (is "tree ?q ?ws ?zs")
proof (rule treeI)
  note p = tree_parts [OF tr]
  show "distinct (map pt_item (?q @ ?ws @ ?zs))" "distinct (map pt_pid (?q @ ?ws))"
    using p(1,3) by (auto simp: comp_def distinct_map_filter)
  show "NULL \<notin> pt_item ` (set ?q \<union> set ?ws \<union> set ?zs)" using p(2) by auto
  show "pt_parent x = NULL \<or> pt_parent x \<in> pt_item ` (set ?q \<union> set ?ws) \<and> pt_parent x \<noteq> pt_item x"
    if "x \<in> set ?q \<union> set ?ws \<union> set ?zs" for x
  proof -
    have "pt_item ` (set ?q \<union> set ?ws) = pt_item ` (set q \<union> set ws)" by (simp add: image_image image_Un)
    moreover have "pt_parent y = NULL \<or> pt_parent y \<in> pt_item ` (set q \<union> set ws) \<and> pt_parent y \<noteq> pt_item y"
      if "y \<in> set q \<union> set ws \<union> set zs" "pt_parent y \<noteq> c" for y
      using p(4) [of y] that by (auto simp: c_def)
    moreover have "\<exists>y \<in> set q \<union> set ws \<union> set zs. pt_item x = pt_item y \<and>
        (pt_parent x = NULL \<or> pt_parent x = pt_parent y \<and> pt_parent y \<noteq> c)"
      using that by (elim UnE) (force split: if_splits)+
    ultimately show ?thesis by metis
  qed
  show "\<exists>x \<in> set ?q \<union> set ?ws. pt_parent x = pt_item w" if w: "w \<in> set ?ws" "waitfor w = TASK_ANY" for w
  proof -
    obtain w' where w': "w' \<in> set ws" "w = pm_makechildorphan c w'" using w(1) by auto
    obtain x where x: "x \<in> set (t # q) \<union> set ws" "pt_parent x = pt_item w'" using p(7) [of w'] w w' by auto
    have "pt_item w' \<in> pt_item ` set ws" "c \<notin> pt_item ` set ws" using p(1) w'(1) by (simp_all add: c_def)
    then have "pt_item w' \<noteq> c" by metis
    moreover have "x \<in> set q \<union> set ws" using x par w w' by auto
    ultimately show ?thesis using x(2) w' by (intro bexI [of _ "pm_makechildorphan c x"]) auto
  qed
qed (use tree_parts(5,6) [OF tr] in auto)

text \<open>A waiting process runs again; a process starts to wait; a dead process is added or removed.\<close>

lemma remove_item_set:
  assumes "distinct (map pt_item q)" "t \<in> set q"
  shows "mset (remove_item (pt_item t) q) = mset q - {#t#}" "set (remove_item (pt_item t) q) = set q - {t}"
    "mset q = add_mset t (mset (remove_item (pt_item t) q))"
proof -
  obtain xs ys where q: "q = xs @ t # ys" using assms(2) by (meson split_list)
  have "pt_item t \<notin> pt_item ` set xs" "pt_item t \<notin> pt_item ` set ys" using assms(1) q by simp_all
  then have out: "\<forall>x \<in> set xs. pt_item x \<noteq> pt_item t" "\<forall>x \<in> set ys. pt_item x \<noteq> pt_item t" by (metis imageI)+
  have "remove_item (pt_item t) xs = xs" "remove_item (pt_item t) ys = ys"
    unfolding remove_item_def using out by simp_all
  then have "remove_item (pt_item t) q = xs @ ys" "t \<notin> set xs" "t \<notin> set ys"
    using out by (auto simp: q remove_item_def)
  then show "mset (remove_item (pt_item t) q) = mset q - {#t#}" "set (remove_item (pt_item t) q) = set q - {t}"
      "mset q = add_mset t (mset (remove_item (pt_item t) q))"
    using q by auto
qed

lemma tree_wake:
  assumes tr: "tree ts ws zs" and p: "p \<in> set ws"
  shows "tree (ts @ [p]) (remove_item (pt_item p) ws) zs" (is "tree ?ts ?ws zs")
proof (rule treeI)
  have dist: "distinct (map pt_item ws)" using tree_parts(1) [OF tr] by auto
  note ms = remove_item_set [OF dist p]
  have all: "set ?ts \<union> set ?ws = set ts \<union> set ws" using ms(2) p by auto
  have "mset (?ts @ ?ws) = mset (ts @ ws)" using ms(3) by simp
  then have "mset (map f (?ts @ ?ws)) = mset (map f (ts @ ws))" for f :: "pm_task \<Rightarrow> addr" by (metis mset_map)
  then have d: "distinct (map f (?ts @ ?ws @ zs')) = distinct (map f (ts @ ws @ zs'))" for f :: "pm_task \<Rightarrow> addr" and zs'
    by (intro mset_eq_imp_distinct_iff) (metis append_assoc map_append mset_append)
  note t = tree_parts [OF tr]
  show "distinct (map pt_item (?ts @ ?ws @ zs))" "distinct (map pt_pid (?ts @ ?ws))"
    using t(1,3) d [of pt_item zs] d [of pt_pid "[]"] by simp_all
  show "NULL \<notin> pt_item ` (set ?ts \<union> set ?ws \<union> set zs)" using t(2) unfolding all .
  show "pt_parent x = NULL \<or> pt_parent x \<in> pt_item ` (set ?ts \<union> set ?ws) \<and> pt_parent x \<noteq> pt_item x"
    if "x \<in> set ?ts \<union> set ?ws \<union> set zs" for x
    using t(4) that unfolding all .
  show "\<exists>x \<in> set ?ts \<union> set ?ws. pt_parent x = pt_item w" if "w \<in> set ?ws" "waitfor w = TASK_ANY" for w
    using t(7) that ms(2) unfolding all by auto
  show "\<not> pm_findzombie w z" if "w \<in> set ?ws" "z \<in> set zs" for w z using t(6) that ms(2) by auto
qed (use tree_parts(5) [OF tr] in auto)

lemma tree_word: "tree (t\<lparr>pt_word := w\<rparr> # q) ws zs = tree (t # q) ws zs"
  by (simp add: tree_def)

lemma tree_block:
  assumes tr: "tree (t # q) ws zs" and z: "\<forall>z \<in> set zs. \<not> pm_findzombie t z"
    and child: "\<exists>x \<in> set q \<union> set ws. pt_parent x = pt_item t"
  shows "tree q (ws @ [t]) zs"
proof (rule treeI)
  note p = tree_parts [OF tr]
  have all: "set q \<union> set (ws @ [t]) = set (t # q) \<union> set ws" by auto
  show "distinct (map pt_item (q @ (ws @ [t]) @ zs))" "distinct (map pt_pid (q @ ws @ [t]))" using p(1,3) by auto
  show "NULL \<notin> pt_item ` (set q \<union> set (ws @ [t]) \<union> set zs)" using p(2) unfolding all .
  show "pt_parent x = NULL \<or> pt_parent x \<in> pt_item ` (set q \<union> set (ws @ [t])) \<and> pt_parent x \<noteq> pt_item x"
    if "x \<in> set q \<union> set (ws @ [t]) \<union> set zs" for x
    using p(4) that unfolding all .
  show "\<exists>x \<in> set q \<union> set (ws @ [t]). pt_parent x = pt_item w" if "w \<in> set (ws @ [t])" "waitfor w = TASK_ANY" for w
    using p(7) [of w] that child unfolding all by auto
  show "\<not> pm_findzombie w z" if "w \<in> set (ws @ [t])" "z \<in> set zs" for w z using p(6) that assms(2) by auto
qed (use tree_parts(5) [OF tr] in auto)

lemma tree_die:
  assumes tr: "tree ts ws zs" and item: "pt_item t \<noteq> NULL" "pt_item t \<notin> pt_item ` (set ts \<union> set ws \<union> set zs)"
    and par: "pt_parent t \<noteq> NULL" "pt_parent t \<in> pt_item ` (set ts \<union> set ws)" and no: "\<forall>w \<in> set ws. \<not> pm_findzombie w t"
  shows "tree ts ws (zs @ [t])"
proof (rule treeI)
  note p = tree_parts [OF tr]
  show "distinct (map pt_item (ts @ ws @ zs @ [t]))" using p(1) item(2) by auto
  show "NULL \<notin> pt_item ` (set ts \<union> set ws \<union> set (zs @ [t]))" using p(2) item(1) by auto
  show "pt_parent x = NULL \<or> pt_parent x \<in> pt_item ` (set ts \<union> set ws) \<and> pt_parent x \<noteq> pt_item x"
    if "x \<in> set ts \<union> set ws \<union> set (zs @ [t])" for x
  proof (cases "x = t")
    case True
    then show ?thesis using par item(2) by auto
  next
    case False
    then have "x \<in> set ts \<union> set ws \<union> set zs" using that by auto
    from p(4) [OF this] show ?thesis .
  qed
qed (use tree_parts(3,5-7) [OF tr] par no in auto)

lemma tree_reap:
  assumes tr: "tree ts ws zs"
  shows "tree ts ws (remove_item a zs)"
proof (rule treeI)
  note p = tree_parts [OF tr]
  have sub: "set (remove_item a zs) \<subseteq> set zs" by (auto simp: remove_item_def)
  show "distinct (map pt_item (ts @ ws @ remove_item a zs))"
    using p(1) by (auto simp: remove_item_def distinct_map_filter)
  show "NULL \<notin> pt_item ` (set ts \<union> set ws \<union> set (remove_item a zs))" using p(2) sub by blast
  show "pt_parent x = NULL \<or> pt_parent x \<in> pt_item ` (set ts \<union> set ws) \<and> pt_parent x \<noteq> pt_item x"
    if "x \<in> set ts \<union> set ws \<union> set (remove_item a zs)" for x
    using p(4) that sub by blast
  show "\<not> pm_findzombie w z" if "w \<in> set ws" "z \<in> set (remove_item a zs)" for w z using p(6) that sub by blast
  show "pt_parent z \<noteq> NULL" if "z \<in> set (remove_item a zs)" for z using p(5) that sub by blast
qed (use tree_parts(3,7) [OF tr] in auto)

section \<open>Every request conserves memory\<close>

lemma distinct_count: "distinct xs \<longleftrightarrow> (\<forall>a. count (mset xs) a \<le> 1)"
proof (induction xs)
  case (Cons x xs)
  have "(\<forall>a. count (mset (x # xs)) a \<le> 1) \<longleftrightarrow> count (mset xs) x = 0 \<and> (\<forall>a. count (mset xs) a \<le> 1)"
  proof (intro iffI conjI allI)
    assume h: "\<forall>a. count (mset (x # xs)) a \<le> 1"
    show "count (mset xs) x = 0" using spec [OF h, of x] by simp
    have "count (mset xs) a \<le> count (mset (x # xs)) a" for a by simp
    then show "count (mset xs) a \<le> 1" for a using spec [OF h, of a] le_trans by blast
  next
    assume "count (mset xs) x = 0 \<and> (\<forall>a. count (mset xs) a \<le> 1)"
    then show "count (mset (x # xs)) a \<le> 1" for a by (cases "a = x") auto
  qed
  then show ?case using Cons by (simp add: count_mset_0_iff)
qed simp

lemma inv_task:
  assumes "pm_inv st" "t \<in> set (task_q st)"
  shows "distinct (owned_by t)" "NULL \<notin> set (owned_by t)" "\<forall>(c, p) \<in> set (pt_chunks t). c \<noteq> NULL \<and> p \<noteq> NULL"
proof -
  obtain xs ys where "task_q st = xs @ t # ys" using assms(2) by (meson split_list)
  then have "count (mset (owned_by t)) a \<le> count (owned st) a" for a by (simp add: owned_def)
  moreover have "count (owned st) a \<le> 1" "count (owned st) NULL = 0" for a
    using assms(1) by (auto simp: pm_inv_def count_eq_zero_iff)
  ultimately show "distinct (owned_by t)" and null: "NULL \<notin> set (owned_by t)"
    by (metis distinct_count le_trans, metis count_mset_0_iff le_zero_eq)
  then show "\<forall>(c, p) \<in> set (pt_chunks t). c \<noteq> NULL \<and> p \<noteq> NULL" by (auto simp: owned_by_def)
qed

text \<open>What the requests do to the memory that is owned, given the invariant.\<close>

lemma do_pmalloc_conserves:
  "do_pmalloc i msg st = Some (st', m, as) \<Longrightarrow> owned st' + freed as = owned st + allocated as"
  by (auto simp: do_pmalloc_def owned_def owned_by_def Let_def split: if_splits list.splits)

lemma do_pmfree_conserves:
  assumes "pm_inv st"
  shows "owned (fst (do_pmfree msg st)) + freed (snd (do_pmfree msg st)) = owned st + allocated (snd (do_pmfree msg st))"
proof (cases "findchunk (PM_CLIENT st) (m0 msg)")
  case None
  then show ?thesis by (simp add: do_pmfree_def)
next
  case (Some cp)
  obtain chunk ptr where cp: "cp = (chunk, ptr)" by force
  obtain t q where q: "task_q st = t # q" "(chunk, ptr) \<in> set (pt_chunks t)"
    using Some cp by (auto simp: findchunk_def PM_CLIENT_def find_Some_iff split: list.splits if_splits)
  let ?cs = "pt_chunks t" and ?f = "\<lambda>(c, p). [c, p :: addr]"
  note t = inv_task [OF assms, of t]
  have nn: "chunk \<noteq> NULL" "ptr \<noteq> NULL" using t(3) q by auto
  obtain xs ys where xy: "?cs = xs @ (chunk, ptr) # ys" using q(2) by (meson split_list)
  have "chunk \<notin> fst ` set xs" "chunk \<notin> fst ` set ys" using t(1) q(1) xy by (force simp: owned_by_def)+
  then have "\<forall>c \<in> set xs. fst c \<noteq> chunk" "\<forall>c \<in> set ys. fst c \<noteq> chunk" by (metis imageI)+
  then have "filter (\<lambda>c. fst c \<noteq> chunk) ?cs = xs @ ys" by (simp add: xy)
  then show ?thesis using Some cp q(1) nn xy by (simp add: do_pmfree_def owned_def owned_by_def)
qed

lemma owned_upd:
  assumes "distinct (map pt_item q)" "t \<in> set q"
  shows "owned_q (upd_item (pt_item t) f q) + mset (owned_by t) = owned_q q + mset (owned_by (f t))"
proof -
  obtain xs ys where q: "q = xs @ t # ys" using assms(2) by (meson split_list)
  then have "pt_item t \<notin> pt_item ` set xs" "pt_item t \<notin> pt_item ` set ys" using assms(1) by simp_all
  then have "\<forall>x \<in> set xs. pt_item x \<noteq> pt_item t" "\<forall>x \<in> set ys. pt_item x \<noteq> pt_item t" by (metis imageI)+
  then have "upd_item (pt_item t) f xs = xs" "upd_item (pt_item t) f ys = ys" by (auto simp: upd_item_def map_idI)
  then have "upd_item (pt_item t) f q = xs @ f t # ys" by (simp add: q upd_item_def)
  then show ?thesis by (simp add: q)
qed

lemma inv_items:
  assumes "pm_inv st"
  shows "distinct (map pt_item (task_q st))" "distinct (map pt_item (wait_q st))" "distinct (map pt_item (zombie_q st))"
    "t \<in> set (task_q st) \<union> set (wait_q st) \<union> set (zombie_q st) \<Longrightarrow> pt_item t \<noteq> NULL \<and> pt_item t \<in># owned st"
proof -
  have tr: "tree (task_q st) (wait_q st) (zombie_q st)" using assms by (simp add: pm_inv_def)
  show "distinct (map pt_item (task_q st))" "distinct (map pt_item (wait_q st))" "distinct (map pt_item (zombie_q st))"
    using tree_parts(1) [OF tr] by simp_all
  have "pt_item t \<in># owned_q q" if "t \<in> set q" for q using that by (auto simp: owned_q_def owned_by_def)
  then show "t \<in> set (task_q st) \<union> set (wait_q st) \<union> set (zombie_q st) \<Longrightarrow> pt_item t \<noteq> NULL \<and> pt_item t \<in># owned st"
    using tree_parts(2) [OF tr] by (auto simp: owned_def)
qed

lemma pm_setuptask_conserves:
  assumes inv: "pm_inv st" and t: "t \<in> set (task_q st)" and r: "pm_setuptask t stk ptr argv newargs st = Some (st', as, ok)"
  shows "owned st' + freed as = owned st + allocated as"
proof (cases "newargs = NULL")
  case True
  with r show ?thesis by (auto simp: pm_setuptask_def split: Option.bind_splits)
next
  case False
  then obtain sz mem where r': "as = [Kmalloc sz newargs, Stoptask (pt_pid t)] @ pm_delchunks (pt_chunks t) @
         (if pt_args t \<noteq> NULL then [Kfree (pt_args t)] else []) @ [Allocatestack (pt_pid t) stk, Setuptask (pt_pid t) ptr newargs]"
      "st' = st\<lparr>pm_mem := mem, task_q := upd_item (pt_item t) (\<lambda>t. t\<lparr>pt_chunks := [], pt_args := newargs\<rparr>) (task_q st)\<rparr>"
    using r by (auto simp: pm_setuptask_def split: Option.bind_splits)
  have u: "owned_q (task_q st') + mset (owned_by t) = owned_q (task_q st) + {#pt_item t, newargs#}"
    using owned_upd [OF inv_items(1) [OF inv] t, of "\<lambda>t. t\<lparr>pt_chunks := [], pt_args := newargs\<rparr>"] False
    by (simp add: r'(2) owned_by_def)
  have f: "mset (owned_by t) = freed as + {#pt_item t#}" "allocated as = {#newargs#}"
    using freed_delchunks [OF inv_task(3) [OF inv t]] False by (simp_all add: r'(1) owned_by_def)
  have "owned_q (task_q st') + freed as = owned_q (task_q st) + allocated as"
    using u unfolding f by simp
  then show ?thesis by (simp add: r'(2) owned_def union_ac)
qed

text \<open>New blocks are not owned by any process.\<close>

lemma inv_conserve:
  assumes inv: "pm_inv st" and c: "owned st' + freed as = owned st + allocated as"
    and new: "\<And>a. count (allocated as) a \<le> 1" "\<And>a. a \<in># allocated as \<Longrightarrow> a \<notin># owned st"
    and tr: "tree (task_q st') (wait_q st') (zombie_q st')" "\<forall>z \<in> set (zombie_q st'). pt_chunks z = []"
  shows "pm_inv st'"
proof -
  have le: "count (owned st') a \<le> count (owned st) a + count (allocated as) a" for a
  proof -
    have "count (owned st') a \<le> count (owned st' + freed as) a" by simp
    then show ?thesis unfolding c by simp
  qed
  have sum: "count (owned st) a + count (allocated as) a \<le> 1" for a
  proof (cases "a \<in># allocated as")
    case True
    then have "count (owned st) a = 0" using new(2) by (simp add: not_in_iff)
    then show ?thesis using new(1) [of a] by simp
  next
    case False
    then have "count (allocated as) a = 0" by (simp add: not_in_iff)
    moreover have "count (owned st) a \<le> 1" using inv by (simp add: pm_inv_def)
    ultimately show ?thesis by simp
  qed
  have "NULL \<notin># allocated as" by (auto simp: allocated_def split: pm_act.splits if_splits)
  then have "count (owned st) NULL + count (allocated as) NULL = 0" using inv by (simp add: pm_inv_def not_in_iff)
  then have "NULL \<notin># owned st'" using le [of NULL] by (simp add: not_in_iff)
  moreover have "\<forall>a. count (owned st') a \<le> 1" using le sum le_trans by blast
  ultimately show ?thesis using tr by (simp add: pm_inv_def)
qed

section \<open>Every request keeps the invariant\<close>

definition pm_fresh :: "pm_in \<Rightarrow> pm_st \<Rightarrow> bool" where
  "pm_fresh i st \<longleftrightarrow> (n_mem1 i \<noteq> NULL \<longrightarrow> n_mem1 i \<notin># owned st) \<and> (n_mem2 i \<noteq> NULL \<longrightarrow> n_mem2 i \<notin># owned st) \<and>
     (n_mem1 i = n_mem2 i \<longrightarrow> n_mem1 i = NULL) \<and> n_task i \<notin> pt_pid ` (set (task_q st) \<union> set (wait_q st))"

text \<open>The goal of the lemmas below.\<close>

definition kept :: "pm_st \<Rightarrow> pm_st \<Rightarrow> pm_act list \<Rightarrow> bool" where
  "kept st st' as \<longleftrightarrow> pm_inv st' \<and> owned st' + freed as = owned st + allocated as"

lemma kept_refl: "pm_inv st \<Longrightarrow> freed as = allocated as \<Longrightarrow> kept st st as"
  by (simp add: kept_def)

lemma kept_trans: "kept st st1 as \<Longrightarrow> kept st1 st2 bs \<Longrightarrow> kept st st2 (as @ bs)"
  by (auto simp: kept_def union_ac)

lemma pmalloc_kept:
  assumes inv: "pm_inv st" and fresh: "pm_fresh i st" and r: "do_pmalloc i msg st = Some (st', m, as)"
  shows "kept st st' as"
proof -
  note c = do_pmalloc_conserves [OF r]
  have b: "map bare (task_q st') = map bare (task_q st)" "wait_q st' = wait_q st" "zombie_q st' = zombie_q st"
    using r by (auto simp: do_pmalloc_def Let_def bare_def split: if_splits list.splits)
  then have "tree (task_q st') (wait_q st') (zombie_q st')" "\<forall>z \<in> set (zombie_q st'). pt_chunks z = []"
    using tree_bare_cong [OF b(1)] b(2,3) inv by (simp_all add: pm_inv_def)
  moreover have "count (allocated as) a \<le> 1 \<and> (a \<in># allocated as \<longrightarrow> a \<notin># owned st)" for a
    using r fresh by (auto simp: do_pmalloc_def Let_def pm_fresh_def split: if_splits list.splits)
  ultimately show ?thesis using inv_conserve [OF inv c] c by (simp add: kept_def)
qed

lemma pmfree_kept:
  assumes inv: "pm_inv st"
  shows "kept st (fst (do_pmfree msg st)) (snd (do_pmfree msg st))"
proof -
  let ?st = "fst (do_pmfree msg st)" and ?as = "snd (do_pmfree msg st)"
  note c = do_pmfree_conserves [OF inv, of msg]
  have b: "map bare (task_q ?st) = map bare (task_q st)" "wait_q ?st = wait_q st" "zombie_q ?st = zombie_q st" "allocated ?as = {#}"
    by (auto simp: do_pmfree_def findchunk_def PM_CLIENT_def bare_def split: option.splits list.splits)
  have "tree (task_q ?st) (wait_q ?st) (zombie_q ?st)" "\<forall>z \<in> set (zombie_q ?st). pt_chunks z = []"
    using tree_bare_cong [OF b(1)] b(2,3) inv by (simp_all add: pm_inv_def)
  then show ?thesis using inv_conserve [OF inv c] b(4) c by (simp add: kept_def)
qed

lemma setuptask_kept:
  assumes inv: "pm_inv st" and t: "t \<in> set (task_q st)" and fresh: "newargs \<noteq> NULL \<Longrightarrow> newargs \<notin># owned st"
    and r: "pm_setuptask t stk ptr argv newargs st = Some (st', as, ok)"
  shows "kept st st' as"
proof -
  note c = pm_setuptask_conserves [OF inv t r]
  have b: "map bare (task_q st') = map bare (task_q st)" "wait_q st' = wait_q st" "zombie_q st' = zombie_q st"
    using r by (auto simp: pm_setuptask_def bare_def upd_item_def split: if_splits Option.bind_splits)
  then have "tree (task_q st') (wait_q st') (zombie_q st')" "\<forall>z \<in> set (zombie_q st'). pt_chunks z = []"
    using tree_bare_cong [OF b(1)] b(2,3) inv by (simp_all add: pm_inv_def)
  moreover have "allocated as = (if newargs = NULL then {#} else {#newargs#})"
    using r by (auto simp: pm_setuptask_def split: if_splits Option.bind_splits)
  ultimately show ?thesis using inv_conserve [OF inv c] c fresh by (auto simp: kept_def split: if_splits)
qed

lemma newtask_kept:
  assumes inv: "pm_inv st" and fresh: "pm_fresh i st" and t: "pm_newtask (n_mem1 i) (n_task i) (PM_CLIENT st) = Some t"
  shows "kept st (st\<lparr>task_q := task_q st @ [t]\<rparr>) [Kmalloc sizeof_pm_task (n_mem1 i)]" (is "kept st ?st ?as")
    and "n_mem2 i \<noteq> NULL \<Longrightarrow> n_mem2 i \<notin># owned (st\<lparr>task_q := task_q st @ [t]\<rparr>)"
proof -
  have tr: "tree (task_q st) (wait_q st) (zombie_q st)" using inv by (simp add: pm_inv_def)
  have t': "pt_item t = n_mem1 i" "n_mem1 i \<noteq> NULL" "pt_pid t = n_task i" "owned_by t = [n_mem1 i]"
      "pt_parent t = NULL \<or> pt_parent t \<in> pt_item ` set (task_q st)"
    using t by (auto simp: pm_newtask_def owned_by_def item_of_def PM_CLIENT_def split: if_splits option.splits list.splits)
  have "pt_item t \<notin> pt_item ` (set (task_q st) \<union> set (wait_q st) \<union> set (zombie_q st))"
    using inv_items(4) [OF inv] fresh t'(1,2) by (auto simp: pm_fresh_def)
  then have "tree (task_q ?st) (wait_q ?st) (zombie_q ?st)"
    using tree_spawn [OF tr] t' fresh by (simp add: pm_fresh_def)
  moreover have c: "owned ?st + freed ?as = owned st + allocated ?as" using t' by (simp add: owned_def)
  ultimately show "kept st ?st ?as"
    using inv_conserve [OF inv c] t'(2) fresh inv by (simp add: kept_def pm_fresh_def pm_inv_def)
  show "n_mem2 i \<noteq> NULL \<Longrightarrow> n_mem2 i \<notin># owned ?st" using fresh t' by (auto simp: owned_def pm_fresh_def)
qed

end
