(* ===== verification/Pm_Step.thy ===== *)
theory Pm_Step
  imports Pm_Inv Server
begin

text \<open>
  Every request to the process manager keeps its invariant and conserves memory, and a request that
  a live process makes is always served.
\<close>

section \<open>Creating a process and replacing its program\<close>

lemma kept_cong: "kept st st' as \<Longrightarrow> allocated bs = allocated as \<Longrightarrow> freed bs = freed as \<Longrightarrow> kept st st' bs"
  by (simp add: kept_def)

lemma kept_setup:
  assumes inv: "pm_inv st" and fresh: "pm_fresh i st" and t: "pm_newtask (n_mem1 i) (n_task i) (PM_CLIENT st) = Some t"
    and r: "pm_setuptask t stk ptr argv (n_mem2 i) (st\<lparr>task_q := task_q st @ [t]\<rparr>) = Some (st', as, ok)"
  shows "kept st st' (Kmalloc sizeof_pm_task (n_mem1 i) # as)"
proof -
  note n = newtask_kept [OF inv fresh t]
  have "pm_inv (st\<lparr>task_q := task_q st @ [t]\<rparr>)" using n(1) by (simp add: kept_def)
  from kept_trans [OF n(1) setuptask_kept [OF this _ n(2) r]] show ?thesis by simp
qed

lemma spawn_kept:
  assumes inv: "pm_inv st" and fresh: "pm_fresh i st" and r: "do_spawn i msg st = Some (st', m, as)"
  shows "kept st st' as"
proof (cases "n_task i = NULL \<or> n_mem1 i = NULL")
  case True
  then show ?thesis using r inv by (auto simp: do_spawn_def pm_newtask_def Let_def intro!: kept_refl split: if_splits)
next
  case False
  then obtain t where t: "pm_newtask (n_mem1 i) (n_task i) (PM_CLIENT st) = Some t" by (simp add: pm_newtask_def)
  show ?thesis
  proof (cases "n_vfs i = NULL")
    case True
    then show ?thesis using r t False
      by (auto simp: do_spawn_def Let_def intro!: kept_cong [OF newtask_kept(1) [OF inv fresh t]])
  next
    case vfs: False
    then show ?thesis using r t False
      by (auto simp: do_spawn_def Let_def split: Option.bind_splits if_splits intro!: kept_cong [OF kept_setup [OF inv fresh t]])
  qed
qed

lemma spawnexec_kept:
  assumes inv: "pm_inv st" and fresh: "pm_fresh i st" and r: "do_spawnexec i msg st = Some (st', m, as)"
  shows "kept st st' as"
proof (cases "n_task i = NULL \<or> n_vfs i = NULL \<or> n_mem1 i = NULL")
  case True
  then show ?thesis using r inv by (auto simp: do_spawnexec_def pm_newtask_def Let_def intro!: kept_refl split: if_splits)
next
  case False
  then obtain t where t: "pm_newtask (n_mem1 i) (n_task i) (PM_CLIENT st) = Some t" by (simp add: pm_newtask_def)
  obtain ptr stk where p: "n_prg i (m0 msg) = (ptr, stk)" by force
  show ?thesis
  proof (cases "ptr = NULL")
    case True
    then show ?thesis using r t p False
      by (auto simp: do_spawnexec_def Let_def intro!: kept_cong [OF newtask_kept(1) [OF inv fresh t]])
  next
    case prg: False
    then show ?thesis using r t p False
      by (auto simp: do_spawnexec_def Let_def split: Option.bind_splits if_splits intro!: kept_cong [OF kept_setup [OF inv fresh t]])
  qed
qed

lemma exec_kept:
  assumes inv: "pm_inv st" and fresh: "pm_fresh i st" and r: "do_exec i msg st = Some (st', as, b)"
  shows "kept st st' as"
proof -
  obtain ptr stk where p: "n_prg i (m0 msg) = (ptr, stk)" by force
  show ?thesis
  proof (cases "ptr = NULL")
    case True
    then show ?thesis using r p inv by (auto simp: do_exec_def intro!: kept_refl)
  next
    case False
    then obtain t where t: "PM_CLIENT st = Some t" "t \<in> set (task_q st)"
      using r p by (auto simp: do_exec_def PM_CLIENT_def split: list.splits)
    have "n_mem1 i \<noteq> NULL \<Longrightarrow> n_mem1 i \<notin># owned st" using fresh by (simp add: pm_fresh_def)
    note k = setuptask_kept [OF inv t(2) this, of stk ptr "m1 msg"]
    show ?thesis using r p t(1) False
      by (auto simp: do_exec_def split: Option.bind_splits if_splits intro!: kept_cong [OF k])
  qed
qed

section \<open>Exit and wait\<close>

lemma exit_frees:
  assumes inv: "pm_inv st" and q: "task_q st = t # q"
  shows "owned_q (filter (\<lambda>z. pt_parent z \<noteq> c) (zombie_q st)) + freed (snd (pm_removechild c (zombie_q st))) = owned_q (zombie_q st)"
    and "freed (pm_delchunks (pt_chunks t)) + freed [Kfree (pt_args t), Kfree (pt_item t)] = mset (owned_by t)"
proof -
  have "\<forall>z \<in> set (zombie_q st). pt_chunks z = [] \<and> pt_item z \<noteq> NULL"
    using inv inv_items(4) [OF inv] by (auto simp: pm_inv_def)
  from freed_removechild [OF this]
  show "owned_q (filter (\<lambda>z. pt_parent z \<noteq> c) (zombie_q st)) + freed (snd (pm_removechild c (zombie_q st))) = owned_q (zombie_q st)"
    using owned_filter [of "\<lambda>z. pt_parent z \<noteq> c" "zombie_q st"] by simp
  have "t \<in> set (task_q st)" using q by simp
  from freed_delchunks [OF inv_task(3) [OF inv this]] inv_items(4) [OF inv, of t]
  show "freed (pm_delchunks (pt_chunks t)) + freed [Kfree (pt_args t), Kfree (pt_item t)] = mset (owned_by t)"
    using q by (simp add: owned_by_def)
qed

lemma exit_tree:
  assumes tr: "tree (t # q) ws zs"
  defines "c \<equiv> pt_item t"
  defines "q' \<equiv> map (pm_makechildorphan c) q" and "ws' \<equiv> map (pm_makechildorphan c) ws"
    and "zs' \<equiv> filter (\<lambda>z. pt_parent z \<noteq> c) zs"
  shows "pt_parent t \<noteq> c"
    and "pt_parent t = NULL \<Longrightarrow> tree q' ws' zs'"
    and "find (pm_findmyparent t) ws' = Some p \<Longrightarrow> tree (q' @ [p]) (remove_item (pt_item p) ws') zs'"
    and "pt_parent t \<noteq> NULL \<Longrightarrow> \<forall>w \<in> set ws'. \<not> pm_findzombie w t \<Longrightarrow>
      tree q' ws' (zs' @ [t\<lparr>pt_chunks := [], pt_word := v\<rparr>])"
proof -
  note p = tree_parts [OF tr]
  have null: "pt_item x \<noteq> NULL" if "x \<in> set (t # q) \<union> set ws \<union> set zs" for x using p(2) imageI [OF that, of pt_item] by metis
  show par: "pt_parent t \<noteq> c" using p(4) [of t] null [of t] by (auto simp: c_def)
  show "tree q' ws' zs'" if "pt_parent t = NULL"
    unfolding q'_def ws'_def zs'_def c_def using tree_leave [OF tr] that null by auto
  show "tree (q' @ [p]) (remove_item (pt_item p) ws') zs'" if f: "find (pm_findmyparent t) ws' = Some p"
  proof -
    obtain p0 where p0: "p0 \<in> set ws" "p = pm_makechildorphan c p0" "pt_parent t = pt_item p0"
      using f by (auto simp: find_Some_iff pm_findmyparent_def ws'_def) (metis nth_mem)
    have "tree (t # (q @ [p0])) (remove_item (pt_item p0) ws) zs" using tree_wake [OF tr p0(1)] by simp
    moreover have "\<forall>w \<in> set (remove_item (pt_item p0) ws). pt_parent t = pt_item w \<longrightarrow> waitfor w \<noteq> TASK_ANY"
      using p0(3) by (auto simp: remove_item_def)
    ultimately have "tree (map (pm_makechildorphan c) (q @ [p0])) (map (pm_makechildorphan c) (remove_item (pt_item p0) ws)) zs'"
      unfolding c_def zs'_def by (rule tree_leave)
    moreover have "map (pm_makechildorphan c) (remove_item (pt_item p0) ws) = remove_item (pt_item p) ws'"
      by (simp add: p0(2) ws'_def remove_item_def filter_map comp_def)
    ultimately show ?thesis by (simp add: q'_def p0(2))
  qed
  show "tree q' ws' (zs' @ [t\<lparr>pt_chunks := [], pt_word := v\<rparr>])"
    if nn: "pt_parent t \<noteq> NULL" and no: "\<forall>w \<in> set ws'. \<not> pm_findzombie w t"
  proof (rule tree_die)
    have "\<forall>w \<in> set ws. pt_parent t = pt_item w \<longrightarrow> waitfor w \<noteq> TASK_ANY"
      using no by (auto simp: ws'_def pm_findzombie_def)
    from tree_leave [OF tr this] show "tree q' ws' zs'" unfolding q'_def ws'_def zs'_def c_def .
    have "c \<notin> pt_item ` (set q \<union> set ws \<union> set zs)" using p(1) by (auto simp: c_def)
    moreover have "pt_item ` (set q' \<union> set ws' \<union> set zs') \<subseteq> pt_item ` (set q \<union> set ws \<union> set zs)"
      by (auto simp: q'_def ws'_def zs'_def)
    ultimately show "pt_item (t\<lparr>pt_chunks := [], pt_word := v\<rparr>) \<notin> pt_item ` (set q' \<union> set ws' \<union> set zs')"
      by (simp add: c_def) blast
    have "pt_item ` (set q' \<union> set ws') = pt_item ` (set q \<union> set ws)" by (simp add: q'_def ws'_def image_image image_Un)
    then show "pt_parent (t\<lparr>pt_chunks := [], pt_word := v\<rparr>) \<in> pt_item ` (set q' \<union> set ws')"
      using p(4) [of t] nn par by (auto simp: c_def)
    show "\<forall>w \<in> set ws'. \<not> pm_findzombie w (t\<lparr>pt_chunks := [], pt_word := v\<rparr>)" using no by (simp add: pm_findzombie_def)
  qed (use null [of t] nn in simp_all)
qed

text \<open>The branches of \<^verbatim>\<open>do_exit\<close> for a client that is not its own parent.\<close>

lemma do_exit_eq:
  assumes q: "task_q st = t # q" and par: "pt_parent t \<noteq> pt_item t"
  shows "do_exit msg st = Some (
    let c = pt_item t; ws = map (pm_makechildorphan c) (wait_q st); q' = map (pm_makechildorphan c) q;
        zs = filter (\<lambda>z. pt_parent z \<noteq> c) (zombie_q st); dead = zs @ [t\<lparr>pt_chunks := [], pt_word := m0 msg\<rparr>];
        a = pm_delchunks (pt_chunks t) @ [Stoptask (pt_pid t), Deletetask (pt_pid t), Vfs_deletetask (pt_pid t)] @
            snd (pm_removechild c (zombie_q st));
        reap = [Kfree (pt_args t), Kfree c]
    in if pt_parent t = NULL then (st\<lparr>task_q := q', wait_q := ws, zombie_q := zs\<rparr>, msg, a @ reap, None)
       else case find (pm_findmyparent t) ws of
              None \<Rightarrow> (st\<lparr>task_q := q', wait_q := ws, zombie_q := dead\<rparr>, msg, a, None)
            | Some p \<Rightarrow>
                if waitfor p = pt_pid t \<or> waitfor p = TASK_ANY
                then (st\<lparr>task_q := q' @ [p], wait_q := remove_item (pt_item p) ws, zombie_q := zs\<rparr>,
                  msg\<lparr>m0 := pt_pid t, m1 := m0 msg\<rparr>, a @ reap, Some (pt_pid p))
                else (st\<lparr>task_q := q', wait_q := ws, zombie_q := dead\<rparr>, msg, a, None))"
proof -
  have "pm_makechildorphan (pt_item t) (t\<lparr>pt_chunks := []\<rparr>) = t\<lparr>pt_chunks := []\<rparr>"
      "pm_findmyparent (t\<lparr>pt_chunks := []\<rparr>) = pm_findmyparent t"
    using par by (simp_all add: pm_makechildorphan_def pm_findmyparent_def fun_eq_iff)
  note t' = this
  show ?thesis unfolding do_exit_def q list.case Let_def pm_removechild_def prod.case fst_conv snd_conv t'
    by (auto split: option.split)
qed

lemma findmyparent_SomeD:
  assumes "find (pm_findmyparent t) ws = Some p"
  shows "p \<in> set ws" "pt_parent t = pt_item p"
  using assms by (auto simp: find_Some_iff pm_findmyparent_def)

lemma exit_kept:
  assumes inv: "pm_inv st" and r: "do_exit msg st = Some (st', m, as, rep)"
  shows "kept st st' as"
proof -
  obtain t q where q: "task_q st = t # q" using r by (cases "task_q st") (simp_all add: do_exit_def)
  define ws q' zs where d: "ws = map (pm_makechildorphan (pt_item t)) (wait_q st)"
    "q' = map (pm_makechildorphan (pt_item t)) q" "zs = filter (\<lambda>z. pt_parent z \<noteq> pt_item t) (zombie_q st)"
  define a where "a = pm_delchunks (pt_chunks t) @ [Stoptask (pt_pid t), Deletetask (pt_pid t), Vfs_deletetask (pt_pid t)] @
            snd (pm_removechild (pt_item t) (zombie_q st))"
  have tr: "tree (t # q) (wait_q st) (zombie_q st)" and z: "\<forall>z \<in> set zs. pt_chunks z = []" using inv q by (auto simp: pm_inv_def d)
  note et = exit_tree [OF tr, folded d]
    and ef = exit_frees(1) [OF inv q, of "pt_item t", folded d(3)] exit_frees(2) [OF inv q]
  note r' = r [unfolded do_exit_eq [OF q et(1)], unfolded Let_def, folded d, folded a_def]
  have own: "owned st = mset (owned_by t) + owned_q q' + owned_q ws + owned_q (zombie_q st)" by (simp add: owned_def q d)
  have fa: "freed a = freed (pm_delchunks (pt_chunks t)) + freed (snd (pm_removechild (pt_item t) (zombie_q st)))" "allocated a = {#}"
    by (simp_all add: a_def)
  have all: "freed (a @ [Kfree (pt_args t), Kfree (pt_item t)]) + owned_q zs = mset (owned_by t) + owned_q (zombie_q st)"
    unfolding ef(1) [symmetric] ef(2) [symmetric] by (simp add: fa union_ac)
  have some: "mset (owned_by (t\<lparr>pt_chunks := [], pt_word := v\<rparr>)) + freed a + owned_q zs = mset (owned_by t) + owned_q (zombie_q st)" for v
    unfolding all [symmetric] using inv_items(4) [OF inv, of t] q by (simp add: owned_by_def union_ac)
  have "tree (task_q st') (wait_q st') (zombie_q st') \<and> (\<forall>z \<in> set (zombie_q st'). pt_chunks z = []) \<and>
      owned st' + freed as = owned st \<and> allocated as = {#}"
  proof (cases "pt_parent t = NULL")
    case True
    with r' all z own fa(2) et(2) show ?thesis by (auto simp: owned_def union_ac)
  next
    case par: False
    show ?thesis
    proof (cases "\<exists>w \<in> set ws. pm_findzombie w t")
      case True
      then obtain p where p: "find (pm_findmyparent t) ws = Some p"
        by (cases "find (pm_findmyparent t) ws") (auto simp: find_None_iff pm_findmyparent_def pm_findzombie_def)
      have dist: "distinct (map pt_item ws)" using tree_parts(1) [OF tr] by (simp add: d comp_def)
      have "waitfor p = pt_pid t \<or> waitfor p = TASK_ANY"
        using True findmyparent_SomeD [OF p] distinct_map [of pt_item ws] dist
        by (auto simp: pm_findzombie_def dest: inj_onD)
      with r' par p all z own fa(2) et(3) [OF p] remove_item_split [OF dist findmyparent_SomeD(1) [OF p]] show ?thesis
        by (auto simp: owned_def union_ac)
    next
      case False
      then have "\<forall>p. find (pm_findmyparent t) ws = Some p \<longrightarrow> \<not> (waitfor p = pt_pid t \<or> waitfor p = TASK_ANY)"
        using findmyparent_SomeD by (metis pm_findzombie_def)
      with r' par some z own fa(2) et(4) [OF par] False show ?thesis
        by (auto simp: owned_def union_ac split: option.splits)
    qed
  qed
  then show ?thesis using inv_conserve [OF inv, of st' as] by (auto simp: kept_def)
qed

lemma wait_kept:
  assumes inv: "pm_inv st" and r: "do_wait msg st = Some (st', m, as, b)"
  shows "kept st st' as"
proof -
  obtain t q where q: "task_q st = t # q" using r by (cases "task_q st") (simp_all add: do_wait_def)
  let ?t = "t\<lparr>pt_word := m0 msg\<rparr>"
  have tr: "tree (?t # q) (wait_q st) (zombie_q st)" and z: "\<forall>z \<in> set (zombie_q st). pt_chunks z = []"
    using inv q by (auto simp: pm_inv_def tree_word)
  have "tree (task_q st') (wait_q st') (zombie_q st') \<and> (\<forall>z \<in> set (zombie_q st'). pt_chunks z = []) \<and>
      owned st' + freed as = owned st \<and> allocated as = {#}"
  proof (cases "find (pm_findzombie ?t) (zombie_q st)")
    case (Some x)
    then have x: "x \<in> set (zombie_q st)" by (auto simp: find_Some_iff)
    have "freed [Kfree (pt_args x), Kfree (pt_item x)] = mset (owned_by x)"
      using z x inv_items(4) [OF inv, of x] by (simp add: owned_by_def)
    moreover note remove_item_split [OF inv_items(3) [OF inv] x]
    ultimately show ?thesis
      using r q Some z tree_reap [OF tr, of "pt_item x"] by (auto simp: do_wait_def owned_def remove_item_def add.assoc)
  next
    case None
    then have no: "\<forall>z \<in> set (zombie_q st). \<not> pm_findzombie ?t z" by (simp add: find_None_iff)
    show ?thesis
    proof (cases "list_ex (pm_haschild (pt_item t)) (?t # q) \<or> list_ex (pm_haschild (pt_item t)) (wait_q st)")
      case True
      moreover have "pt_parent t \<noteq> pt_item t" using exit_tree(1) [OF tr] by simp
      ultimately have "\<exists>x \<in> set q \<union> set (wait_q st). pt_parent x = pt_item ?t" by (auto simp: list_ex_iff pm_haschild_def)
      from tree_block [OF tr no this] True show ?thesis
        using r q None z by (auto simp: do_wait_def owned_def split: if_splits)
    next
      case False
      then show ?thesis using r q None z tr by (auto simp: do_wait_def owned_def)
    qed
  qed
  then show ?thesis using inv_conserve [OF inv, of st' as] by (auto simp: kept_def)
qed

section \<open>The loop\<close>

lemma front_kept:
  assumes inv: "pm_inv st"
  shows "kept st (to_front c st) []" and "owned (to_front c st) = owned st"
    and "set (task_q (to_front c st)) = set (task_q st)" "wait_q (to_front c st) = wait_q st" "zombie_q (to_front c st) = zombie_q st"
proof -
  have "mset (task_q (to_front c st)) = mset (task_q st) \<and> owned_q (task_q (to_front c st)) = owned_q (task_q st)"
  proof (cases "pm_findbypid c st")
    case (Some t)
    then have "t \<in> set (task_q st)" by (auto simp: pm_findbypid_def find_Some_iff)
    from remove_item_set(3) [OF inv_items(1) [OF inv] this] remove_item_split [OF inv_items(1) [OF inv] this] Some
    show ?thesis by (simp add: to_front_def union_commute)
  qed (simp add: to_front_def)
  then have p: "mset (task_q (to_front c st)) = mset (task_q st)" and o: "owned_q (task_q (to_front c st)) = owned_q (task_q st)"
    by simp_all
  show s: "set (task_q (to_front c st)) = set (task_q st)" using p by (metis set_mset_mset)
  show w: "wait_q (to_front c st) = wait_q st" "zombie_q (to_front c st) = zombie_q st"
    by (simp_all add: to_front_def split: option.splits)
  show own: "owned (to_front c st) = owned st" using w o by (simp add: owned_def)
  show "kept st (to_front c st) []" using inv tree_perm [OF p] w own by (simp add: kept_def pm_inv_def)
qed

lemma fresh_front: "pm_inv st \<Longrightarrow> pm_fresh i (to_front c st) = pm_fresh i st"
  by (simp add: pm_fresh_def front_kept)

lemma dispatch_kept:
  assumes inv: "pm_inv st" and fresh: "pm_fresh i st" and r: "pm_dispatch i st = Some (st', m, as, rep)"
  shows "kept st st' as"
  using r pmfree_kept [OF inv] inv
  by (auto simp: pm_dispatch_def Let_def split: if_splits Option.bind_splits
      intro: spawn_kept [OF inv fresh] exec_kept [OF inv fresh] exit_kept [OF inv] wait_kept [OF inv]
        pmalloc_kept [OF inv fresh] kept_refl)

lemma step_kept:
  assumes inv: "pm_inv st" and fresh: "pm_fresh i st" and r: "pm_step i st = Some (st', as)"
  shows "kept st st' as"
proof -
  obtain m bs rep where d: "pm_dispatch i (to_front (n_client i) st) = Some (st', m, bs, rep)"
      "as = bs @ (case rep of None \<Rightarrow> [] | Some c \<Rightarrow> [Reply c m])"
    using r by (auto simp: pm_step_def split: Option.bind_splits)
  note f = front_kept [OF inv, of "n_client i"]
  have "kept (to_front (n_client i) st) st' bs"
    using dispatch_kept [OF _ _ d(1)] f(1) fresh fresh_front [OF inv] by (simp add: kept_def)
  from kept_trans [OF f(1) this] d(2) show ?thesis by (auto intro: kept_cong split: option.splits)
qed

section \<open>Requests that are served\<close>

text \<open>
  A pointer to arguments is null or points to an array of strings that does not overlap the new block;
  the client of a request runs; new memory and a new task of the kernel are not in use.
\<close>

definition args_ok :: "bytes \<Rightarrow> addr \<Rightarrow> addr \<Rightarrow> bool" where
  "args_ok mem argv p \<longleftrightarrow> argv = NULL \<or>
     (\<exists>strs. holds_args mem argv strs \<and> args_size strs < 65536 \<and>
        (p \<noteq> NULL \<longrightarrow> args_space mem argv strs \<inter> block p (args_size strs) = {}))"

definition pm_legal :: "pm_in \<Rightarrow> pm_st \<Rightarrow> bool" where
  "pm_legal i st \<longleftrightarrow> pm_fresh i st \<and> n_client i \<in> pt_pid ` set (task_q st) \<and>
     (pm_cmd (n_msg i) = PM_SPAWN \<longrightarrow> args_ok (pm_mem st) (m2 (n_msg i)) (n_mem2 i)) \<and>
     (pm_cmd (n_msg i) = PM_EXEC \<longrightarrow> args_ok (pm_mem st) (m1 (n_msg i)) (n_mem1 i))"

lemma setuptask_total:
  assumes "args_ok (pm_mem st) argv p"
  shows "\<exists>st' as ok. pm_setuptask t stk ptr argv p st = Some (st', as, ok)"
proof (cases "argv = NULL")
  case True
  then show ?thesis
    by (auto simp: pm_setuptask_def pm_argstack_size_def argsize_loop.simps cook_argstack_def argc_def argc_loop.simps cook_loop.simps)
next
  case False
  then obtain strs where s: "holds_args (pm_mem st) argv strs" "args_size strs < 65536"
      "p \<noteq> NULL \<longrightarrow> args_space (pm_mem st) argv strs \<inter> block p (args_size strs) = {}"
    using assms by (auto simp: args_ok_def)
  have "p \<noteq> NULL \<Longrightarrow> \<exists>mem. cook_argstack (pm_mem st) p argv = Some mem"
    using cook_holds [OF s(1) False s(2)] s(3) by blast
  then show ?thesis using argsize_holds [OF s(1) False] by (cases "p = NULL") (auto simp: pm_setuptask_def)
qed

lemma step_total:
  assumes legal: "pm_legal i st"
  shows "\<exists>st' as. pm_step i st = Some (st', as)"
proof -
  let ?st = "to_front (n_client i) st"
  have mem: "pm_mem ?st = pm_mem st" by (simp add: to_front_def split: option.split)
  have "pm_findbypid (n_client i) st \<noteq> None" using legal by (auto simp: pm_legal_def pm_findbypid_def find_None_iff)
  then obtain t q where q: "task_q ?st = t # q" by (auto simp: to_front_def)
  have su: "\<exists>st' as ok. pm_setuptask t stk ptr argv p st1 = Some (st', as, ok)"
    if "args_ok (pm_mem st) argv p" "pm_mem st1 = pm_mem st" for t stk ptr argv p st1
    using setuptask_total [of st1 argv p t stk ptr] that by simp
  have "\<exists>r. pm_dispatch i ?st = Some r"
  proof (cases "pm_cmd (n_msg i) = PM_SPAWN \<or> pm_cmd (n_msg i) = PM_EXEC")
    case True
    then show ?thesis
    proof
      assume c: "pm_cmd (n_msg i) = PM_SPAWN"
      then have a: "args_ok (pm_mem st) (m2 (n_msg i)) (n_mem2 i)" using legal by (simp add: pm_legal_def)
      show ?thesis
      proof (cases "pm_newtask (n_mem1 i) (n_task i) (PM_CLIENT ?st)")
        case None
        then show ?thesis by (simp add: pm_dispatch_def Let_def c do_spawn_def)
      next
        case (Some x)
        let ?st1 = "?st\<lparr>task_q := task_q ?st @ [x]\<rparr>"
        obtain r where "pm_setuptask x (m1 (n_msg i)) (m0 (n_msg i)) (m2 (n_msg i)) (n_mem2 i) ?st1 = Some r"
          using su [OF a, of ?st1 x "m1 (n_msg i)" "m0 (n_msg i)"] mem by auto
        then show ?thesis using Some by (cases r) (simp add: pm_dispatch_def Let_def c do_spawn_def)
      qed
    next
      assume c: "pm_cmd (n_msg i) = PM_EXEC"
      then have a: "args_ok (pm_mem st) (m1 (n_msg i)) (n_mem1 i)" using legal by (simp add: pm_legal_def)
      obtain ptr stk where p: "n_prg i (m0 (n_msg i)) = (ptr, stk)" by force
      obtain r where "pm_setuptask t stk ptr (m1 (n_msg i)) (n_mem1 i) ?st = Some r" using su [OF a mem] by blast
      then show ?thesis using p by (cases r) (auto simp: pm_dispatch_def Let_def c do_exec_def PM_CLIENT_def q pm_cmds)
    qed
  next
    case False
    then show ?thesis
      by (auto simp: pm_dispatch_def Let_def do_exit_def do_wait_def do_pmalloc_def q pm_removechild_def split: option.splits)
  qed
  then show ?thesis by (auto simp: pm_step_def)
qed

interpretation pms: partial_server pm_step pm_inv pm_legal
proof
  fix st i assume inv: "pm_inv st" and legal: "pm_legal i st"
  obtain st' as where r: "pm_step i st = Some (st', as)" using step_total [OF legal] by blast
  have "pm_fresh i st" using legal by (simp add: pm_legal_def)
  from step_kept [OF inv this r] r show "\<exists>st' as. pm_step i st = Some (st', as) \<and> pm_inv st'" by (simp add: kept_def)
qed

text \<open>Memory over a run, and the start of the server.\<close>

lemma legal_fresh: "pm_legal i st \<Longrightarrow> pm_fresh i st"
  by (simp add: pm_legal_def)

lemma run_kept:
  "pm_inv st \<Longrightarrow> pms.plegal_run is st \<Longrightarrow> pserve pm_step is st = Some (st', as) \<Longrightarrow> kept st st' as"
proof (induction "is" arbitrary: st as)
  case Nil
  then show ?case by (simp add: kept_refl)
next
  case (Cons i "is")
  obtain st1 as1 as2 where r: "pm_step i st = Some (st1, as1)" "pserve pm_step is st1 = Some (st', as2)" "as = as1 @ as2"
    using Cons.prems(3) by (auto split: option.splits)
  have l: "pm_fresh i st" "pms.plegal_run is st1" using Cons.prems(2) r(1) legal_fresh by auto
  have k: "kept st st1 as1" by (rule step_kept [OF Cons.prems(1) l(1) r(1)])
  then have "pm_inv st1" by (simp add: kept_def)
  from kept_trans [OF k Cons.IH [OF this l(2) r(2)]] r(3) show ?case by simp
qed

lemma pm_init_inv: "pm_inv (pm_init mem)"
  by (simp add: pm_inv_def pm_init_def owned_def tree_def)

lemma start_kept:
  assumes "pm_fresh i (pm_init mem)" "pm_start i args mem = Some (st, as)"
  shows "\<exists>bs. as = bs @ [Kfree args] \<and> kept (pm_init mem) st bs"
  using assms spawnexec_kept [OF pm_init_inv assms(1)] by (auto simp: pm_start_def split: Option.bind_splits)

end
