(* ===== verification/Pm_Props.thy ===== *)
theory Pm_Props
  imports Pm_Step "HOL-Library.Sublist"
begin

text \<open>The properties of the process manager.\<close>

section \<open>Memory and the tree of processes over a run\<close>

lemma started_run:
  assumes fresh: "pm_fresh i (pm_init mem)" and start: "pm_start i args mem = Some (st0, as0)" and legal: "pms.plegal_run is st0"
  shows "\<exists>st as bs. pserve pm_step is st0 = Some (st, as) \<and> as0 = bs @ [Kfree args] \<and> kept (pm_init mem) st (bs @ as)"
proof -
  obtain bs where b: "as0 = bs @ [Kfree args]" "kept (pm_init mem) st0 bs" using start_kept [OF fresh start] by blast
  then have "pm_inv st0" by (simp add: kept_def)
  from pms.pinv_run [OF this legal] run_kept [OF this legal] kept_trans [OF b(2)] b(1) show ?thesis by fast
qed

text \<open>
  C14. Memory is conserved: from its start, the process manager serves every sequence of legal
  requests, and the blocks that its processes own, each one once, are the blocks that were
  allocated less those that were freed. So no block is freed twice, none is lost, and none
  belongs to two processes. (The block of arguments of \<^verbatim>\<open>pm\<close> itself, which its creator allocated, is
  freed too.)
\<close>

theorem memory_is_conserved:
  assumes "pm_fresh i (pm_init mem)" "pm_start i args mem = Some (st0, as0)" "args \<noteq> NULL" "pms.plegal_run is st0"
  shows "\<exists>st as. pserve pm_step is st0 = Some (st, as) \<and> (\<forall>a. count (owned st) a \<le> 1) \<and>
    owned st + freed (as0 @ as) = add_mset args (allocated (as0 @ as))"
  using started_run [OF assms(1,2,4)] assms(3) by (auto simp: kept_def pm_inv_def pm_init_def owned_def)

text \<open>
  C15. The tree of processes: after every sequence of legal requests the parent of a process is null
  or a live process, live processes have different pids, a dead process that is kept has a live
  parent that can still ask for it, and no wake-up is missed: no process waits while a dead child
  that it waits for is kept, and one that waits for any child has a live child.
\<close>

theorem process_tree:
  assumes "pm_fresh i (pm_init mem)" "pm_start i args mem = Some (st0, as0)" "pms.plegal_run is st0"
    and "pserve pm_step is st0 = Some (st, as)"
  shows "distinct (map pt_pid (task_q st @ wait_q st)) \<and>
    (\<forall>t \<in> set (task_q st @ wait_q st @ zombie_q st). pt_parent t \<noteq> NULL \<longrightarrow>
      (\<exists>p \<in> set (task_q st @ wait_q st). pt_parent t = pt_item p \<and> pt_item p \<noteq> pt_item t)) \<and>
    (\<forall>z \<in> set (zombie_q st). pt_parent z \<noteq> NULL) \<and>
    (\<forall>w \<in> set (wait_q st). \<forall>z \<in> set (zombie_q st). pt_parent z = pt_item w \<longrightarrow> waitfor w \<noteq> pt_pid z \<and> waitfor w \<noteq> TASK_ANY) \<and>
    (\<forall>w \<in> set (wait_q st). waitfor w = TASK_ANY \<longrightarrow> (\<exists>t \<in> set (task_q st @ wait_q st). pt_parent t = pt_item w))"
proof -
  have tr: "tree (task_q st) (wait_q st) (zombie_q st)"
    using started_run [OF assms(1-3)] assms(4) by (auto simp: kept_def pm_inv_def)
  note p = tree_parts [OF tr]
  show ?thesis
  proof (intro conjI ballI impI)
    fix t assume "t \<in> set (task_q st @ wait_q st @ zombie_q st)" "pt_parent t \<noteq> NULL"
    with p(4) [of t] show "\<exists>p \<in> set (task_q st @ wait_q st). pt_parent t = pt_item p \<and> pt_item p \<noteq> pt_item t" by auto
  qed (use p(3,5-7) in \<open>auto simp: pm_findzombie_def\<close>)
qed

section \<open>Exit and wait in either order\<close>

lemma front_eq:
  assumes inv: "pm_inv st" and t: "t \<in> set (task_q st)"
  shows "to_front (pt_pid t) st = st\<lparr>task_q := t # remove_item (pt_item t) (task_q st)\<rparr>"
proof -
  have "inj_on pt_pid (set (task_q st))" using inv by (auto simp: pm_inv_def tree_def distinct_map inj_on_Un)
  then have "pm_findbypid (pt_pid t) st = Some t"
    unfolding pm_findbypid_def using t
    by (cases "find (\<lambda>x. pt_pid x = pt_pid t) (task_q st)") (auto simp: find_Some_iff find_None_iff inj_on_def)
  then show ?thesis by (simp add: to_front_def)
qed

text \<open>The answers in a sequence of actions: to whom, and the first two words.\<close>

definition answers :: "pm_act list \<Rightarrow> (pid_t \<times> addr \<times> addr) list" where
  "answers as = concat (map (\<lambda>a. case a of Reply c m \<Rightarrow> [(c, m0 m, m1 m)] | _ \<Rightarrow> []) as)"

lemma answers_simps [simp]:
  "answers [] = []" "answers (as @ bs) = answers as @ answers bs"
  "answers (a # as) = (case a of Reply c m \<Rightarrow> [(c, m0 m, m1 m)] | _ \<Rightarrow> []) @ answers as"
  by (simp_all add: answers_def)

lemma answers_none [simp]: "answers (pm_delchunks cs) = []" "answers (snd (pm_removechild c q)) = []"
  by (auto simp: answers_def pm_delchunks_def pm_removechild_def)

lemma pm_cmd_reqs [simp]:
  "pm_cmd (mexit_req code m) = PM_EXIT" "m0 (mexit_req code m) = code" "pm_cmd (wait_req m) = PM_WAIT" "m0 (wait_req m) = TASK_ANY"
  "pm_cmd (waitpid_req p m) = PM_WAIT" "m0 (waitpid_req p m) = p" "pm_cmd (pmmalloc_req n m) = PM_MALLOC" "m0 (pmmalloc_req n m) = n"
  "pm_cmd (pmfree_req p m) = PM_FREE" "m0 (pmfree_req p m) = p"
  by (simp_all add: mexit_req_def wait_req_def waitpid_req_def pmmalloc_req_def pmfree_req_def)

lemma remove_items [simp]:
  "remove_item a (map (pm_makechildorphan c) q) = map (pm_makechildorphan c) (remove_item a q)"
  "remove_item a (remove_item b q) = remove_item b (remove_item a q)"
  by (simp_all add: remove_item_def filter_map comp_def conj_commute)

lemma step_exit:
  assumes inv: "pm_inv st" and c: "c \<in> set (task_q st)" and i: "n_client i = pt_pid c" "n_msg i = mexit_req code m"
  shows "pm_step i st = do {
     (st', m, a, r) \<leftarrow> do_exit (mexit_req code m) (st\<lparr>task_q := c # remove_item (pt_item c) (task_q st)\<rparr>);
     Some (st', a @ (case r of None \<Rightarrow> [] | Some c \<Rightarrow> [Reply c m])) }"
  unfolding pm_step_def i(1) front_eq [OF inv c] by (simp add: pm_dispatch_def i Let_def pm_cmds)

lemma step_wait:
  assumes inv: "pm_inv st" and p: "p \<in> set (task_q st)" and i: "n_client i = pt_pid p" "pm_cmd (n_msg i) = PM_WAIT"
  shows "pm_step i st = do {
     (st', m, a, r) \<leftarrow> do_wait (n_msg i) (st\<lparr>task_q := p # remove_item (pt_item p) (task_q st)\<rparr>);
     Some (st', a @ (if r then [Reply (pt_pid p) m] else [])) }"
  unfolding pm_step_def i(1) front_eq [OF inv p] by (auto simp: pm_dispatch_def i Let_def pm_cmds split: Option.bind_split)

lemma front_items:
  assumes inv: "pm_inv st" and t: "t \<in> set (task_q st)"
  shows "pm_inv (st\<lparr>task_q := t # remove_item (pt_item t) (task_q st)\<rparr>)"
    and "tree (t # remove_item (pt_item t) (task_q st)) (wait_q st) (zombie_q st)"
proof -
  show i: "pm_inv (st\<lparr>task_q := t # remove_item (pt_item t) (task_q st)\<rparr>)"
    using front_kept(1) [OF inv, of "pt_pid t"] unfolding front_eq [OF inv t] kept_def by (rule conjunct1)
  then show "tree (t # remove_item (pt_item t) (task_q st)) (wait_q st) (zombie_q st)" by (simp add: pm_inv_def)
qed

text \<open>A process and its child that both run, and a request of the parent to wait for the child or for any.\<close>

lemma family:
  assumes inv: "pm_inv st" and pc: "p \<in> set (task_q st)" "c \<in> set (task_q st)" "pt_parent c = pt_item p"
  shows "pt_item p \<noteq> NULL" "pt_item c \<noteq> pt_item p" "pt_item p \<notin> pt_item ` set (wait_q st)" "pt_item c \<notin> pt_item ` set (zombie_q st)"
    "p \<in> set (remove_item (pt_item c) (task_q st))" "c \<in> set (remove_item (pt_item p) (task_q st))"
proof -
  have tr: "tree (task_q st) (wait_q st) (zombie_q st)" using inv by (simp add: pm_inv_def)
  note t = tree_parts [OF tr]
  show n: "pt_item p \<noteq> NULL" using inv_items(4) [OF inv] pc by blast
  show ne: "pt_item c \<noteq> pt_item p" using t(4) [of c] pc n by auto
  have "pt_item p \<in> pt_item ` set (task_q st)" "pt_item c \<in> pt_item ` set (task_q st)" using pc by blast+
  then show "pt_item p \<notin> pt_item ` set (wait_q st)" "pt_item c \<notin> pt_item ` set (zombie_q st)"
    using t(1) by (auto simp only: map_append distinct_append set_map set_append)
  show "p \<in> set (remove_item (pt_item c) (task_q st))" "c \<in> set (remove_item (pt_item p) (task_q st))"
    using pc ne by (auto simp: remove_item_def)
qed

lemma find_snoc: "find P (xs @ [x]) = (case find P xs of None \<Rightarrow> if P x then Some x else None | Some y \<Rightarrow> Some y)"
  by (induction xs) auto

text \<open>The first turn of each order: the child is kept as a dead process, or the parent is put on the queue of waiting ones.\<close>

abbreviation exit_acts :: "pm_task \<Rightarrow> pm_st \<Rightarrow> pm_act list" where
  "exit_acts c st \<equiv> pm_delchunks (pt_chunks c) @ [Stoptask (pt_pid c), Deletetask (pt_pid c), Vfs_deletetask (pt_pid c)] @
      snd (pm_removechild (pt_item c) (zombie_q st))"

lemma child_exits:
  assumes inv: "pm_inv st" and pc: "p \<in> set (task_q st)" "c \<in> set (task_q st)" "pt_parent c = pt_item p"
    and ix: "n_client ix = pt_pid c" "n_msg ix = mexit_req code m"
  defines "orp \<equiv> pm_makechildorphan (pt_item c)"
  defines "st1 \<equiv> st\<lparr>task_q := map orp (remove_item (pt_item c) (task_q st)), wait_q := map orp (wait_q st),
    zombie_q := filter (\<lambda>z. pt_parent z \<noteq> pt_item c) (zombie_q st) @ [c\<lparr>pt_chunks := [], pt_word := code\<rparr>]\<rparr>"
  shows "pm_step ix st = Some (st1, exit_acts c st)" "pm_inv st1"
proof -
  note f = family [OF inv pc] and fr = front_items [OF inv pc(2)]
  have nf: "find (pm_findmyparent c) (map orp (wait_q st)) = None"
    using f(3) pc(3) by (auto simp: find_None_iff pm_findmyparent_def orp_def)
  have ex: "do_exit (mexit_req code m) (st\<lparr>task_q := c # remove_item (pt_item c) (task_q st)\<rparr>) =
      Some (st1, mexit_req code m, exit_acts c st, None)"
    using nf f(1,2) pc(3) by (subst do_exit_eq [where t = c and q = "remove_item (pt_item c) (task_q st)"])
      (simp_all add: Let_def orp_def st1_def)
  then show "pm_step ix st = Some (st1, exit_acts c st)" using step_exit [OF inv pc(2) ix] by simp
  show "pm_inv st1" using exit_kept [OF fr(1) ex] by (simp add: kept_def)
qed

lemma parent_waits:
  assumes inv: "pm_inv st" and pc: "p \<in> set (task_q st)" "c \<in> set (task_q st)" "pt_parent c = pt_item p"
    and none: "\<forall>z \<in> set (zombie_q st). \<not> pm_findzombie (p\<lparr>pt_word := m0 (n_msg iw)\<rparr>) z"
    and iw: "n_client iw = pt_pid p" "pm_cmd (n_msg iw) = PM_WAIT"
  defines "st1 \<equiv> st\<lparr>task_q := remove_item (pt_item p) (task_q st), wait_q := wait_q st @ [p\<lparr>pt_word := m0 (n_msg iw)\<rparr>]\<rparr>"
  shows "pm_step iw st = Some (st1, [])" "pm_inv st1"
proof -
  let ?R = "remove_item (pt_item p) (task_q st)" and ?p = "p\<lparr>pt_word := m0 (n_msg iw)\<rparr>"
  have "find (pm_findzombie ?p) (zombie_q st) = None" using none by (simp add: find_None_iff)
  moreover have "list_ex (pm_haschild (pt_item p)) (?p # ?R)"
    using family(6) [OF inv pc] pc(3) by (auto simp: list_ex_iff pm_haschild_def)
  ultimately have w: "do_wait (n_msg iw) (st\<lparr>task_q := p # ?R\<rparr>) = Some (st1, n_msg iw, [], False)"
    by (auto simp: do_wait_def st1_def Let_def)
  then show "pm_step iw st = Some (st1, [])" using step_wait [OF inv pc(1) iw] by simp
  show "pm_inv st1" using wait_kept [OF front_items(1) [OF inv pc(1)] w] by (simp add: kept_def)
qed

lemma exit_before_wait:
  assumes inv: "pm_inv st" and pc: "p \<in> set (task_q st)" "c \<in> set (task_q st)" "pt_parent c = pt_item p"
    and none: "\<forall>z \<in> set (zombie_q st). \<not> pm_findzombie (p\<lparr>pt_word := m0 (n_msg iw)\<rparr>) z"
    and ix: "n_client ix = pt_pid c" "n_msg ix = mexit_req code m"
    and iw: "n_client iw = pt_pid p" "pm_cmd (n_msg iw) = PM_WAIT" "m0 (n_msg iw) = pt_pid c \<or> m0 (n_msg iw) = TASK_ANY"
  defines "orp \<equiv> pm_makechildorphan (pt_item c)"
  shows "pserve pm_step [ix, iw] st = Some (st
    \<lparr>task_q := (orp p)\<lparr>pt_word := m0 (n_msg iw)\<rparr> # map orp (remove_item (pt_item p) (remove_item (pt_item c) (task_q st))),
     wait_q := map orp (wait_q st), zombie_q := filter (\<lambda>z. pt_parent z \<noteq> pt_item c) (zombie_q st)\<rparr>,
    exit_acts c st @ [Kfree (pt_args c), Kfree (pt_item c)] @
      [Reply (pt_pid p) ((n_msg iw)\<lparr>m0 := pt_pid c, m1 := code\<rparr>)])"
proof -
  note f = family [OF inv pc]
  let ?R = "remove_item (pt_item c) (task_q st)" and ?zs = "filter (\<lambda>z. pt_parent z \<noteq> pt_item c) (zombie_q st)"
  let ?c = "c\<lparr>pt_chunks := [], pt_word := code\<rparr>"
  define st1 where "st1 = st\<lparr>task_q := map orp ?R, wait_q := map orp (wait_q st), zombie_q := ?zs @ [?c]\<rparr>"
  have s1: "pm_step ix st = Some (st1, exit_acts c st)" and inv1: "pm_inv st1"
    using child_exits [OF inv pc ix] by (simp_all add: st1_def orp_def)
  have p1: "orp p \<in> set (task_q st1)" "pt_pid (orp p) = pt_pid p" "pt_item (orp p) = pt_item p"
    using f(5) by (simp_all add: st1_def orp_def)
  let ?p = "(orp p)\<lparr>pt_word := m0 (n_msg iw)\<rparr>"
  have fz: "pm_findzombie ?p = pm_findzombie (p\<lparr>pt_word := m0 (n_msg iw)\<rparr>)" by (simp add: fun_eq_iff pm_findzombie_def orp_def)
  have "find (pm_findzombie ?p) (?zs @ [?c]) = Some ?c"
  proof -
    have "find (pm_findzombie ?p) ?zs = None" unfolding fz using none by (auto simp: find_None_iff)
    moreover have "pm_findzombie ?p ?c" using pc(3) iw(3) by (auto simp: pm_findzombie_def orp_def)
    ultimately show ?thesis by (simp add: find_snoc)
  qed
  moreover have "remove_item (pt_item ?c) (?zs @ [?c]) = ?zs" using f(4) by (auto simp: remove_item_def image_iff intro!: filter_cong)
  ultimately have "do_wait (n_msg iw) (st1\<lparr>task_q := orp p # remove_item (pt_item p) (map orp ?R)\<rparr>) =
      Some (st\<lparr>task_q := ?p # remove_item (pt_item p) (map orp ?R), wait_q := map orp (wait_q st), zombie_q := ?zs\<rparr>,
        (n_msg iw)\<lparr>m0 := pt_pid c, m1 := code\<rparr>, [Kfree (pt_args c), Kfree (pt_item c)], True)"
    by (simp add: do_wait_def st1_def)
  then have "pm_step iw st1 = Some (st\<lparr>task_q := ?p # remove_item (pt_item p) (map orp ?R), wait_q := map orp (wait_q st), zombie_q := ?zs\<rparr>,
        [Kfree (pt_args c), Kfree (pt_item c)] @ [Reply (pt_pid p) ((n_msg iw)\<lparr>m0 := pt_pid c, m1 := code\<rparr>)])"
    using step_wait [OF inv1 p1(1)] iw(1,2) p1(2,3) by (simp add: st1_def)
  with s1 show ?thesis by (simp add: orp_def)
qed

lemma wait_before_exit:
  assumes inv: "pm_inv st" and pc: "p \<in> set (task_q st)" "c \<in> set (task_q st)" "pt_parent c = pt_item p"
    and none: "\<forall>z \<in> set (zombie_q st). \<not> pm_findzombie (p\<lparr>pt_word := m0 (n_msg iw)\<rparr>) z"
    and ix: "n_client ix = pt_pid c" "n_msg ix = mexit_req code m"
    and iw: "n_client iw = pt_pid p" "pm_cmd (n_msg iw) = PM_WAIT" "m0 (n_msg iw) = pt_pid c \<or> m0 (n_msg iw) = TASK_ANY"
  defines "orp \<equiv> pm_makechildorphan (pt_item c)"
  shows "pserve pm_step [iw, ix] st = Some (st
    \<lparr>task_q := map orp (remove_item (pt_item p) (remove_item (pt_item c) (task_q st))) @ [(orp p)\<lparr>pt_word := m0 (n_msg iw)\<rparr>],
     wait_q := map orp (wait_q st), zombie_q := filter (\<lambda>z. pt_parent z \<noteq> pt_item c) (zombie_q st)\<rparr>,
    exit_acts c st @ [Kfree (pt_args c), Kfree (pt_item c)] @
      [Reply (pt_pid p) ((mexit_req code m)\<lparr>m0 := pt_pid c, m1 := code\<rparr>)])"
proof -
  note f = family [OF inv pc]
  let ?R = "remove_item (pt_item p) (task_q st)" and ?p = "p\<lparr>pt_word := m0 (n_msg iw)\<rparr>"
  define st1 where "st1 = st\<lparr>task_q := ?R, wait_q := wait_q st @ [?p]\<rparr>"
  have s1: "pm_step iw st = Some (st1, [])" and inv1: "pm_inv st1"
    using parent_waits [OF inv pc none iw(1,2)] by (simp_all add: st1_def)
  have c1: "c \<in> set (task_q st1)" using f(6) by (simp add: st1_def)
  have fp: "find (pm_findmyparent c) (map orp (wait_q st @ [?p])) = Some (orp ?p)"
  proof -
    have "find (pm_findmyparent c) (map orp (wait_q st)) = None"
      using f(3) pc(3) by (auto simp: find_None_iff pm_findmyparent_def orp_def)
    then show ?thesis using pc(3) by (simp add: find_snoc pm_findmyparent_def orp_def)
  qed
  have out: "remove_item (pt_item p) (map orp (wait_q st @ [?p])) = map orp (wait_q st)"
    unfolding orp_def remove_items using remove_item_absent [OF f(3)] by (simp add: remove_item_def)
  have "pt_parent c \<noteq> pt_item c" "pt_parent c \<noteq> NULL" "waitfor (orp ?p) = m0 (n_msg iw)" "pt_item (orp ?p) = pt_item p"
      "pt_pid (orp ?p) = pt_pid p" "orp ?p = (orp p)\<lparr>pt_word := m0 (n_msg iw)\<rparr>"
    using f(1,2) pc(3) by (simp_all add: orp_def pm_makechildorphan_def)
  then have "do_exit (mexit_req code m) (st1\<lparr>task_q := c # remove_item (pt_item c) ?R\<rparr>) = Some (st
    \<lparr>task_q := map orp (remove_item (pt_item c) ?R) @ [(orp p)\<lparr>pt_word := m0 (n_msg iw)\<rparr>],
     wait_q := map orp (wait_q st), zombie_q := filter (\<lambda>z. pt_parent z \<noteq> pt_item c) (zombie_q st)\<rparr>,
    (mexit_req code m)\<lparr>m0 := pt_pid c, m1 := code\<rparr>,
    exit_acts c st @ [Kfree (pt_args c), Kfree (pt_item c)], Some (pt_pid p))"
    using fp out iw(3)
    by (subst do_exit_eq [where t = c and q = "remove_item (pt_item c) ?R"]) (auto simp: Let_def st1_def simp flip: orp_def)
  then have "pm_step ix st1 = Some (st
    \<lparr>task_q := map orp (remove_item (pt_item c) ?R) @ [(orp p)\<lparr>pt_word := m0 (n_msg iw)\<rparr>],
     wait_q := map orp (wait_q st), zombie_q := filter (\<lambda>z. pt_parent z \<noteq> pt_item c) (zombie_q st)\<rparr>,
    exit_acts c st @ [Kfree (pt_args c), Kfree (pt_item c)] @
      [Reply (pt_pid p) ((mexit_req code m)\<lparr>m0 := pt_pid c, m1 := code\<rparr>)])"
    using step_exit [OF inv1 c1 ix] by (simp add: st1_def)
  with s1 show ?thesis by simp
qed

text \<open>
  C16. A child may exit before or after its parent waits for it: in both orders the parent, and nobody
  else, is answered, with the pid and the exit code of the child, the same memory is freed, and the
  same processes are left, running, waiting and dead. (The parent has no other dead child that it
  waits for.)
\<close>

theorem exit_and_wait_commute:
  assumes inv: "pm_inv st" and pc: "p \<in> set (task_q st)" "c \<in> set (task_q st)" "pt_parent c = pt_item p"
    and none: "\<forall>z \<in> set (zombie_q st). pt_parent z = pt_item p \<longrightarrow> m0 (n_msg iw) \<noteq> pt_pid z \<and> m0 (n_msg iw) \<noteq> TASK_ANY"
    and ix: "n_client ix = pt_pid c" "n_msg ix = mexit_req code m"
    and iw: "n_client iw = pt_pid p" "n_msg iw = wait_req m' \<or> n_msg iw = waitpid_req (pt_pid c) m'"
  shows "\<exists>st1 as1 st2 as2. pserve pm_step [ix, iw] st = Some (st1, as1) \<and> pserve pm_step [iw, ix] st = Some (st2, as2) \<and>
    answers as1 = [(pt_pid p, pt_pid c, code)] \<and> answers as2 = [(pt_pid p, pt_pid c, code)] \<and> freed as1 = freed as2 \<and>
    mset (task_q st1) = mset (task_q st2) \<and> wait_q st1 = wait_q st2 \<and> zombie_q st1 = zombie_q st2"
proof -
  have w: "pm_cmd (n_msg iw) = PM_WAIT" "m0 (n_msg iw) = pt_pid c \<or> m0 (n_msg iw) = TASK_ANY" using iw(2) by auto
  have z: "\<forall>z \<in> set (zombie_q st). \<not> pm_findzombie (p\<lparr>pt_word := m0 (n_msg iw)\<rparr>) z" using none by (auto simp: pm_findzombie_def)
  show ?thesis unfolding exit_before_wait [OF inv pc z ix iw(1) w] wait_before_exit [OF inv pc z ix iw(1) w] by simp
qed

section \<open>Memory of a process\<close>

lemma step_malloc:
  assumes inv: "pm_inv st" and t: "t \<in> set (task_q st)" and i: "n_client i = pt_pid t" "n_msg i = pmmalloc_req n m"
    and mem: "n_mem1 i \<noteq> NULL" "n_mem2 i \<noteq> NULL"
  shows "pm_step i st = Some (st\<lparr>task_q := t\<lparr>pt_chunks := (n_mem1 i, n_mem2 i) # pt_chunks t\<rparr> # remove_item (pt_item t) (task_q st)\<rparr>,
    [Kmalloc sizeof_mem_chunk (n_mem1 i), Kmalloc n (n_mem2 i), Reply (pt_pid t) ((pmmalloc_req n m)\<lparr>m0 := n_mem2 i\<rparr>)])"
  unfolding pm_step_def i(1) front_eq [OF inv t] using mem by (simp add: pm_dispatch_def i Let_def pm_cmds do_pmalloc_def)

lemma step_free:
  assumes inv: "pm_inv st" and t: "t \<in> set (task_q st)" and i: "n_client i = pt_pid t" "n_msg i = pmfree_req ptr m"
  shows "pm_step i st = Some (case findchunk (Some t) ptr of
      None \<Rightarrow> (st\<lparr>task_q := t # remove_item (pt_item t) (task_q st)\<rparr>, [Kfree NULL, Reply (pt_pid t) (pmfree_req ptr m)])
    | Some (k, p) \<Rightarrow> (st\<lparr>task_q := t\<lparr>pt_chunks := filter (\<lambda>c. fst c \<noteq> k) (pt_chunks t)\<rparr> # remove_item (pt_item t) (task_q st)\<rparr>,
        [Kfree p, Kfree k, Reply (pt_pid t) (pmfree_req ptr m)]))"
  unfolding pm_step_def i(1) front_eq [OF inv t]
  by (simp add: pm_dispatch_def i Let_def pm_cmds do_pmfree_def PM_CLIENT_def split: option.split)

lemma freed_gone:
  assumes "pm_inv st" "A + F = owned st" "a \<in># F"
  shows "a \<notin># A"
proof -
  have "count A a + count F a = count (owned st) a" using assms(2) by (metis count_union)
  moreover have "count (owned st) a \<le> 1" using assms(1) by (simp add: pm_inv_def)
  moreover have "count F a > 0" using assms(3) by (rule count_greater_zero_iff [THEN iffD2])
  ultimately have "count A a = 0" by linarith
  then show ?thesis by (simp add: not_in_iff)
qed

lemma chunk_found:
  assumes "ptr \<noteq> NULL" "ptr \<in> snd ` set (pt_chunks t)"
  shows "\<exists>k. findchunk (Some t) ptr = Some (k, ptr) \<and> (k, ptr) \<in> set (pt_chunks t)"
proof -
  obtain c where c: "find (\<lambda>c. snd c = ptr) (pt_chunks t) = Some c"
    using assms(2) by (cases "find (\<lambda>c. snd c = ptr) (pt_chunks t)") (auto simp: find_None_iff)
  then have "c \<in> set (pt_chunks t)" "snd c = ptr" by (auto simp: find_Some_iff)
  with c assms(1) show ?thesis by (cases c) (simp add: findchunk_def)
qed

lemma chunk_owned: "t \<in> set (task_q st) \<Longrightarrow> (k, p) \<in> set (pt_chunks t) \<Longrightarrow> k \<in># owned st \<and> p \<in># owned st"
  by (force simp: owned_def owned_q_def owned_by_def)

text \<open>
  A process can free only memory that it allocated itself: the answer to a pointer of a chunk of
  the client frees that memory and its chunk struct; any other pointer frees nothing. In both cases
  no other process changes.
\<close>

theorem free_own_memory_only:
  assumes inv: "pm_inv st" and t: "t \<in> set (task_q st)" and i: "n_client i = pt_pid t" "n_msg i = pmfree_req ptr m"
  shows "\<exists>st' as. pm_step i st = Some (st', as) \<and>
    (if ptr \<in> snd ` set (pt_chunks t)
     then \<exists>k. (k, ptr) \<in> set (pt_chunks t) \<and> freed as = {#ptr, k#} \<and> k \<notin># owned st' \<and> ptr \<notin># owned st'
     else freed as = {#} \<and> mset (task_q st') = mset (task_q st)) \<and>
    remove_item (pt_item t) (task_q st') = remove_item (pt_item t) (task_q st) \<and> wait_q st' = wait_q st \<and> zombie_q st' = zombie_q st"
proof (cases "ptr \<in> snd ` set (pt_chunks t)")
  case True
  have nn: "\<forall>(k, p) \<in> set (pt_chunks t). k \<noteq> NULL \<and> p \<noteq> NULL" by (rule inv_task(3) [OF inv t])
  then have "ptr \<noteq> NULL" using True by auto
  then obtain k where f: "findchunk (Some t) ptr = Some (k, ptr)" "(k, ptr) \<in> set (pt_chunks t)"
    using True chunk_found [of ptr t] by auto
  let ?st = "st\<lparr>task_q := t\<lparr>pt_chunks := filter (\<lambda>c. fst c \<noteq> k) (pt_chunks t)\<rparr> # remove_item (pt_item t) (task_q st)\<rparr>"
  let ?as = "[Kfree ptr, Kfree k, Reply (pt_pid t) (pmfree_req ptr m)]"
  have r: "pm_step i st = Some (?st, ?as)" using step_free [OF assms] f(1) by simp
  have k: "k \<noteq> NULL" using nn f(2) by auto
  have "owned ?st + freed ?as = owned st + allocated ?as"
    using pmfree_kept [OF front_items(1) [OF inv t], of "pmfree_req ptr m"] f(1) front_kept(2) [OF inv, of "pt_pid t"]
    unfolding front_eq [OF inv t] by (simp add: do_pmfree_def PM_CLIENT_def kept_def)
  then have "owned ?st + {#ptr, k#} = owned st" using k \<open>ptr \<noteq> NULL\<close> by (simp add: add_mset_commute)
  from freed_gone [OF inv this] have "ptr \<notin># owned ?st" "k \<notin># owned ?st" by simp_all
  then show ?thesis using r True f(2) k \<open>ptr \<noteq> NULL\<close> by (auto simp: remove_item_def)
next
  case False
  then have f: "findchunk (Some t) ptr = None" by (force simp: findchunk_def find_None_iff)
  then show ?thesis using step_free [OF assms] False remove_item_set(3) [OF inv_items(1) [OF inv] t]
    by (auto simp: remove_item_def)
qed

text \<open>
  Allocating memory and freeing the pointer of the answer gives back the processes as they were,
  with the client at the front of its queue, and frees exactly what was allocated.
\<close>

lemma malloc_then_free:
  assumes inv: "pm_inv st" and t: "t \<in> set (task_q st)" and fresh: "pm_fresh im st" and mem: "n_mem1 im \<noteq> NULL" "n_mem2 im \<noteq> NULL"
    and im: "n_client im = pt_pid t" "n_msg im = pmmalloc_req n m" and ifr: "n_client ifr = pt_pid t" "n_msg ifr = pmfree_req (n_mem2 im) m'"
  defines "t1 \<equiv> t\<lparr>pt_chunks := (n_mem1 im, n_mem2 im) # pt_chunks t\<rparr>"
  shows "pm_step ifr (st\<lparr>task_q := t1 # remove_item (pt_item t) (task_q st)\<rparr>) = Some (to_front (pt_pid t) st,
      [Kfree (n_mem2 im), Kfree (n_mem1 im), Reply (pt_pid t) (pmfree_req (n_mem2 im) m')])"
proof -
  let ?st = "st\<lparr>task_q := t1 # remove_item (pt_item t) (task_q st)\<rparr>"
  have inv1: "pm_inv ?st" using step_kept [OF inv fresh step_malloc [OF inv t im mem]] by (simp add: kept_def t1_def)
  have "n_mem1 im \<notin> fst ` set (pt_chunks t)" using chunk_owned [OF t] fresh mem by (auto simp: pm_fresh_def)
  then have "filter (\<lambda>c. fst c \<noteq> n_mem1 im) (pt_chunks t) = pt_chunks t" by (force simp: filter_id_conv)
  moreover have "t1 \<in> set (task_q ?st)" "pt_pid t1 = pt_pid t" by (simp_all add: t1_def)
  ultimately show ?thesis
    using step_free [OF inv1, of t1 ifr "n_mem2 im" m'] ifr mem(2) unfolding front_eq [OF inv t]
    by (simp add: findchunk_def remove_item_def t1_def)
qed

theorem malloc_free_roundtrip:
  assumes inv: "pm_inv st" and t: "t \<in> set (task_q st)" and fresh: "pm_fresh im st" and mem: "n_mem1 im \<noteq> NULL" "n_mem2 im \<noteq> NULL"
    and im: "n_client im = pt_pid t" "n_msg im = pmmalloc_req n m" and ifr: "n_client ifr = pt_pid t" "n_msg ifr = pmfree_req (n_mem2 im) m'"
  shows "\<exists>as. pserve pm_step [im, ifr] st = Some (to_front (pt_pid t) st, as) \<and> freed as = allocated as \<and>
    hd (answers as) = (pt_pid t, n_mem2 im, m1 m)"
  using step_malloc [OF inv t im mem] malloc_then_free [OF assms] mem by (simp add: pmmalloc_req_def union_commute)

section \<open>Creation and end of a process\<close>

text \<open>
  C18. A successful \<^verbatim>\<open>spawntask\<close> creates a running process whose parent is the client, whose pid is the
  task of the kernel and in the answer, and which is set up with a copy of the arguments of the
  client: the kernel task starts at the entry point with a pointer to an array that holds the same
  strings.
\<close>

theorem spawn_creates_child:
  assumes inv: "pm_inv st" and t: "t \<in> set (task_q st)" and fresh: "pm_fresh i st"
    and i: "n_client i = pt_pid t" "n_msg i = spawntask_req entry stack argv"
    and ok: "n_task i \<noteq> NULL" "n_mem1 i \<noteq> NULL" "n_vfs i \<noteq> NULL" "n_mem2 i \<noteq> NULL"
    and args: "holds_args (pm_mem st) argv strs" "argv \<noteq> NULL" "args_size strs < 65536"
      "args_space (pm_mem st) argv strs \<inter> block (n_mem2 i) (args_size strs) = {}" "NULL \<notin> block (n_mem2 i) (args_size strs)"
  shows "\<exists>st' as c. pm_step i st = Some (st', as) \<and> c \<in> set (task_q st') \<and> pt_pid c = n_task i \<and> pt_parent c = pt_item t \<and>
    holds_args (pm_mem st') (pt_args c) strs \<and> answers as = [(pt_pid t, pt_pid c, stack)] \<and>
    subseq [Createtask (pt_pid c), Vfs_createtask (pt_pid c) (pt_pid t), Allocatestack (pt_pid c) stack,
      Setuptask (pt_pid c) entry (pt_args c), Starttask (pt_pid c)] as"
proof -
  obtain mem where mem: "cook_argstack (pm_mem st) (n_mem2 i) argv = Some mem" "holds_args mem (n_mem2 i) strs"
    using cook_holds [OF args(1-4)] args(5) by blast
  let ?st = "st\<lparr>task_q := t # remove_item (pt_item t) (task_q st)\<rparr>"
  let ?c = "\<lparr>pt_item = n_mem1 i, pt_pid = n_task i, pt_chunks = [], pt_word = 0, pt_parent = pt_item t, pt_args = NULL\<rparr>"
  let ?c' = "?c\<lparr>pt_args := n_mem2 i\<rparr>"
  let ?as = "[Createtask (n_task i), Kmalloc sizeof_pm_task (n_mem1 i), Vfs_createtask (n_task i) (pt_pid t),
      Kmalloc (of_nat (args_size strs)) (n_mem2 i), Stoptask (n_task i), Allocatestack (n_task i) stack,
      Setuptask (n_task i) entry (n_mem2 i), Starttask (n_task i)]"
  have new: "pm_newtask (n_mem1 i) (n_task i) (PM_CLIENT ?st) = Some ?c" using ok by (simp add: pm_newtask_def item_of_def PM_CLIENT_def)
  let ?st' = "?st\<lparr>task_q := upd_item (n_mem1 i) (\<lambda>t. t\<lparr>pt_chunks := [], pt_args := n_mem2 i\<rparr>) (task_q ?st @ [?c]), pm_mem := mem\<rparr>"
  have "pm_setuptask ?c stack entry argv (n_mem2 i) (?st\<lparr>task_q := task_q ?st @ [?c]\<rparr>) =
      Some (?st', drop 3 (butlast ?as), True)"
    using argsize_holds [OF args(1,2)] mem(1) ok by (simp add: pm_setuptask_def pm_delchunks_def)
  then have "do_spawn i (spawntask_req entry stack argv) ?st = Some (?st', (spawntask_req entry stack argv)\<lparr>m0 := n_task i\<rparr>, ?as)"
    using ok new by (simp add: do_spawn_def spawntask_req_def PM_PIDOF_def PM_CLIENT_def Let_def)
  then have "pm_step i st = Some (?st', ?as @ [Reply (pt_pid t) ((spawntask_req entry stack argv)\<lparr>m0 := n_task i\<rparr>)])"
    unfolding pm_step_def i(1) front_eq [OF inv t] by (simp add: pm_dispatch_def i Let_def spawntask_req_def pm_cmds)
  moreover have "?c' \<in> set (task_q ?st')" by (simp add: upd_item_def)
  moreover have "holds_args (pm_mem ?st') (pt_args ?c') strs" using mem(2) by simp
  moreover have "answers (?as @ [Reply (pt_pid t) ((spawntask_req entry stack argv)\<lparr>m0 := n_task i\<rparr>)]) = [(pt_pid t, pt_pid ?c', stack)]"
    by (simp add: spawntask_req_def)
  ultimately show ?thesis by (intro exI [of _ ?st'] exI [of _ ?c'] exI conjI) (assumption | simp)+
qed

text \<open>
  When the kernel, the file system or \<^verbatim>\<open>kmalloc\<close> refuses, the answer to \<^verbatim>\<open>spawntask\<close> is the request
  itself: its first word, where the client looks for the pid of the child, is the entry point of the
  program, which is not the null that would report an error.
\<close>

theorem failed_spawn_answers_entry:
  assumes inv: "pm_inv st" and t: "t \<in> set (task_q st)"
    and i: "n_client i = pt_pid t" "n_msg i = spawntask_req entry stack argv"
    and fail: "n_task i = NULL \<or> n_mem1 i = NULL \<or> n_vfs i = NULL \<or> n_mem2 i = NULL"
    and r: "pm_step i st = Some (st', as)"
  shows "answers as = [(pt_pid t, entry, stack)]"
proof -
  have "pm_dispatch i (to_front (pt_pid t) st) = do { (st', m, a) \<leftarrow> do_spawn i (n_msg i) (to_front (pt_pid t) st); Some (st', m, a, Some (pt_pid t)) }"
    by (simp add: pm_dispatch_def i Let_def spawntask_req_def)
  then obtain m a where d: "do_spawn i (n_msg i) (to_front (pt_pid t) st) = Some (st', m, a)" "as = a @ [Reply (pt_pid t) m]"
    using r unfolding pm_step_def i(1) by (auto split: Option.bind_splits)
  have "m = n_msg i \<and> answers a = []"
    using d(1) fail by (auto simp: do_spawn_def pm_setuptask_def Let_def pm_newtask_def split: if_splits Option.bind_splits)
  then show ?thesis using d(2) i(2) by (simp add: spawntask_req_def)
qed

lemma exit_shape:
  assumes "task_q st = t # q" "pt_parent t \<noteq> pt_item t" "do_exit msg st = Some (st', m, as, r)"
  defines "zs \<equiv> filter (\<lambda>z. pt_parent z \<noteq> pt_item t) (zombie_q st)"
  shows "\<exists>more. as = pm_delchunks (pt_chunks t) @ [Stoptask (pt_pid t), Deletetask (pt_pid t), Vfs_deletetask (pt_pid t)] @ more"
    and "set (task_q st') \<union> set (wait_q st') \<subseteq> pm_makechildorphan (pt_item t) ` (set q \<union> set (wait_q st))"
    and "zombie_q st' = zs \<or> pt_parent t \<noteq> NULL \<and> zombie_q st' = zs @ [t\<lparr>pt_chunks := [], pt_word := m0 msg\<rparr>]"
  using assms(3) do_exit_eq [OF assms(1,2), of msg]
  by (auto simp: zs_def Let_def remove_item_def split: if_splits option.splits dest!: findmyparent_SomeD(1))

text \<open>
  C17. Exit releases a process: all memory it allocated is freed; its task is stopped and deleted in
  the kernel and then in the file system; it neither runs nor waits any more and nobody has it as
  parent. Its struct is kept only among the dead, with the exit code, for a parent that is alive.
\<close>

theorem exit_releases_process:
  assumes inv: "pm_inv st" and c: "c \<in> set (task_q st)" and i: "n_client i = pt_pid c" "n_msg i = mexit_req code m"
  shows "\<exists>st' as. pm_step i st = Some (st', as) \<and> mset (concat (map (\<lambda>(k, p). [k, p]) (pt_chunks c))) \<subseteq># freed as \<and>
    subseq [Stoptask (pt_pid c), Deletetask (pt_pid c), Vfs_deletetask (pt_pid c)] as \<and>
    (\<forall>t \<in> set (task_q st') \<union> set (wait_q st'). pt_item t \<noteq> pt_item c \<and> pt_pid t \<noteq> pt_pid c) \<and>
    (\<forall>t \<in> set (task_q st') \<union> set (wait_q st') \<union> set (zombie_q st'). pt_parent t \<noteq> pt_item c) \<and>
    (\<forall>z \<in> set (zombie_q st') - set (zombie_q st). z = c\<lparr>pt_chunks := [], pt_word := code\<rparr> \<and> pt_parent c \<noteq> NULL)"
proof -
  define R where "R = remove_item (pt_item c) (task_q st)"
  let ?st = "st\<lparr>task_q := c # R\<rparr>"
  note fr = front_items [OF inv c, folded R_def]
  obtain x where "do_exit (mexit_req code m) ?st = Some x"
    using do_exit_eq [of ?st c R "mexit_req code m", OF _ exit_tree(1) [OF fr(2)]] by simp
  then obtain st' m' as r where e: "do_exit (mexit_req code m) ?st = Some (st', m', as, r)" by (cases x) simp
  have step: "pm_step i st = Some (st', as @ (case r of None \<Rightarrow> [] | Some c \<Rightarrow> [Reply c m']))"
    using step_exit [OF inv c i] e unfolding R_def by simp
  note sh = exit_shape [of ?st c R, OF _ exit_tree(1) [OF fr(2)] e, simplified]
  have nn: "pt_item c \<noteq> NULL" using inv_items(4) [OF inv] c by blast
  obtain more where more: "as = pm_delchunks (pt_chunks c) @ [Stoptask (pt_pid c), Deletetask (pt_pid c), Vfs_deletetask (pt_pid c)] @ more"
    using sh(1) by auto
  have "mset (concat (map (\<lambda>(k, p). [k, p]) (pt_chunks c))) \<subseteq># freed as"
    unfolding more freed_delchunks [OF inv_task(3) [OF inv c], symmetric] by simp
  moreover have "subseq [Stoptask (pt_pid c), Deletetask (pt_pid c), Vfs_deletetask (pt_pid c)] as"
    unfolding more by (intro list_emb_append2 list_emb_prefix subseq_order.refl)
  moreover have "pt_item t \<noteq> pt_item c \<and> pt_pid t \<noteq> pt_pid c \<and> pt_parent t \<noteq> pt_item c" if "t \<in> set (task_q st') \<union> set (wait_q st')" for t
  proof -
    have "t \<in> pm_makechildorphan (pt_item c) ` (set R \<union> set (wait_q st))" using sh(2) that by (elim UnE conjE) (erule (1) subsetD)+
    then obtain x where x: "t = pm_makechildorphan (pt_item c) x" "x \<in> set R \<union> set (wait_q st)" by (rule imageE)
    have "pt_item c \<notin> pt_item ` (set R \<union> set (wait_q st))" "pt_pid c \<notin> pt_pid ` (set R \<union> set (wait_q st))"
      using tree_parts(1,3) [OF fr(2)] by auto
    then have "pt_item x \<noteq> pt_item c" "pt_pid x \<noteq> pt_pid c" using x(2) by (metis imageI)+
    then show ?thesis using x(1) nn by simp
  qed
  moreover have "pt_parent z \<noteq> pt_item c" if "z \<in> set (zombie_q st')" for z
    using sh(3) that exit_tree(1) [OF fr(2)] by auto
  moreover have "z = c\<lparr>pt_chunks := [], pt_word := code\<rparr> \<and> pt_parent c \<noteq> NULL" if "z \<in> set (zombie_q st') - set (zombie_q st)" for z
    using sh(3) that by auto
  moreover let ?as = "as @ (case r of None \<Rightarrow> [] | Some c \<Rightarrow> [Reply c m'])"
  have "freed ?as = freed as" "subseq xs as \<Longrightarrow> subseq xs ?as" for xs by (auto split: option.split)
  ultimately show ?thesis using step by (intro exI [of _ st'] exI [of _ ?as]) auto
qed

section \<open>Examples\<close>

text \<open>
  A condition that implies that a sequence of requests is legal: no request passes arguments.
\<close>

primrec run_ok :: "pm_in list \<Rightarrow> pm_st \<Rightarrow> bool" where
  "run_ok [] st \<longleftrightarrow> True"
| "run_ok (i # is) st \<longleftrightarrow> pm_fresh i st \<and> n_client i \<in> set (map pt_pid (task_q st)) \<and>
     (pm_cmd (n_msg i) = PM_SPAWN \<longrightarrow> m2 (n_msg i) = NULL) \<and> (pm_cmd (n_msg i) = PM_EXEC \<longrightarrow> m1 (n_msg i) = NULL) \<and>
     (case pm_step i st of None \<Rightarrow> True | Some r \<Rightarrow> run_ok is (fst r))"

lemma run_ok_legal: "run_ok is st \<Longrightarrow> pms.plegal_run is st"
  by (induction "is" arbitrary: st) (auto simp: pm_legal_def args_ok_def)

lemma pm_inv_code [code]:
  "pm_inv st \<longleftrightarrow> (let as = concat (map owned_by (task_q st @ wait_q st @ zombie_q st)) in
     distinct as \<and> NULL \<notin> set as \<and> tree (task_q st) (wait_q st) (zombie_q st) \<and> (\<forall>z \<in> set (zombie_q st). pt_chunks z = []))"
  unfolding pm_inv_def distinct_count Let_def
  by (simp add: owned_def owned_q_def Un_assoc add.assoc)

definition pm_request :: "pid_t \<Rightarrow> pmmsg \<Rightarrow> addr \<Rightarrow> addr \<Rightarrow> pid_t \<Rightarrow> pm_in" where
  "pm_request c m p q t = \<lparr>n_client = c, n_msg = m, n_mem1 = p, n_mem2 = q, n_task = t, n_vfs = t, n_prg = (\<lambda>_. (0x1000, 64))\<rparr>"

text \<open>
  The first process; it spawns a child, which allocates memory; the parent waits, the child exits.
\<close>

definition empty_msg :: pmmsg where "empty_msg = \<lparr>pm_cmd = 0, m0 = 0, m1 = 0, m2 = 0\<rparr>"

definition first_in :: pm_in where "first_in = pm_request 0 empty_msg 0x200 0x220 0x10"

definition example_run :: "pm_in list" where
  "example_run =
     [pm_request 0x10 (spawntask_req 0x1100 80 NULL) 0x230 0x250 0x11,
      pm_request 0x11 (pmmalloc_req 10 empty_msg) 0x260 0x270 0,
      pm_request 0x10 (wait_req empty_msg) 0 0 0,
      pm_request 0x11 (mexit_req 7 empty_msg) 0 0 0]"

lemma example_run_ok:
  "case pm_start first_in 0x300 (\<lambda>_. 0) of None \<Rightarrow> False | Some r \<Rightarrow> pm_fresh first_in (pm_init (\<lambda>_. 0)) \<and> run_ok example_run (fst r) \<and>
     (case pserve pm_step example_run (fst r) of None \<Rightarrow> False | Some r' \<Rightarrow> answers (snd r') = [(0x10, 0x11, 80), (0x11, 0x270, 0), (0x10, 0x11, 7)] \<and>
        length (task_q (fst r')) = 1 \<and> zombie_q (fst r') = [])"
  by code_simp

theorem memory_is_conserved_witness:
  "\<exists>st0 as0 st as. pm_start first_in 0x300 (\<lambda>_. 0) = Some (st0, as0) \<and> pserve pm_step example_run st0 = Some (st, as) \<and>
     owned st + freed (as0 @ as) = add_mset 0x300 (allocated (as0 @ as))"
proof -
  obtain st0 as0 where s: "pm_start first_in 0x300 (\<lambda>_. 0) = Some (st0, as0)" "pm_fresh first_in (pm_init (\<lambda>_. 0))" "run_ok example_run st0"
    using example_run_ok by (auto split: option.splits)
  from memory_is_conserved [OF s(2,1) _ run_ok_legal [OF s(3)]] s(1) show ?thesis by auto
qed

theorem process_tree_witness:
  "\<exists>st0 as0 st as. pm_start first_in 0x300 (\<lambda>_. 0) = Some (st0, as0) \<and> pserve pm_step example_run st0 = Some (st, as) \<and>
     distinct (map pt_pid (task_q st @ wait_q st)) \<and> (\<forall>z \<in> set (zombie_q st). pt_parent z \<noteq> NULL)"
proof -
  obtain st0 as0 st as where s: "pm_start first_in 0x300 (\<lambda>_. 0) = Some (st0, as0)" "pm_fresh first_in (pm_init (\<lambda>_. 0))" "run_ok example_run st0"
      "pserve pm_step example_run st0 = Some (st, as)"
    using example_run_ok by (auto split: option.splits)
  from process_tree [OF s(2,1) run_ok_legal [OF s(3)] s(4)] s(1,4) show ?thesis by blast
qed

text \<open>A process and its child, which has allocated memory.\<close>

definition parent_task :: pm_task where
  "parent_task = \<lparr>pt_item = 0x200, pt_pid = 0x10, pt_chunks = [], pt_word = 0, pt_parent = NULL, pt_args = 0x220\<rparr>"

definition child_task :: pm_task where
  "child_task = \<lparr>pt_item = 0x230, pt_pid = 0x11, pt_chunks = [(0x260, 0x270)], pt_word = 0, pt_parent = 0x200, pt_args = 0x250\<rparr>"

definition family_st :: pm_st where
  "family_st = \<lparr>task_q = [parent_task, child_task], wait_q = [], zombie_q = [], pm_mem = example_args\<rparr>"

lemma family_ok: "pm_inv family_st" "parent_task \<in> set (task_q family_st)" "child_task \<in> set (task_q family_st)"
  by code_simp+

theorem exit_and_wait_commute_witness:
  "\<exists>st1 as1 st2 as2. pserve pm_step [pm_request 0x11 (mexit_req 7 empty_msg) 0 0 0, pm_request 0x10 (wait_req empty_msg) 0 0 0] family_st = Some (st1, as1) \<and>
     pserve pm_step [pm_request 0x10 (wait_req empty_msg) 0 0 0, pm_request 0x11 (mexit_req 7 empty_msg) 0 0 0] family_st = Some (st2, as2) \<and>
     answers as1 = [(0x10, 0x11, 7)] \<and> answers as2 = [(0x10, 0x11, 7)]"
proof -
  have "pt_parent child_task = pt_item parent_task" "zombie_q family_st = []" "pt_pid child_task = 0x11" "pt_pid parent_task = 0x10"
    by (simp_all add: child_task_def parent_task_def family_st_def)
  then show ?thesis
    using exit_and_wait_commute [OF family_ok(1,2,3), of "pm_request 0x10 (wait_req empty_msg) 0 0 0"
        "pm_request 0x11 (mexit_req 7 empty_msg) 0 0 0" 7 empty_msg empty_msg]
    by (auto simp: pm_request_def)
qed

theorem free_own_memory_only_witness:
  "(\<exists>st' as. pm_step (pm_request 0x11 (pmfree_req 0x270 empty_msg) 0 0 0) family_st = Some (st', as) \<and> 0x270 \<notin># owned st') \<and>
   (\<exists>st' as. pm_step (pm_request 0x10 (pmfree_req 0x270 empty_msg) 0 0 0) family_st = Some (st', as) \<and> freed as = {#})"
proof -
  have "pt_pid child_task = 0x11" "pt_pid parent_task = 0x10" "pt_chunks child_task = [(0x260, 0x270)]" "pt_chunks parent_task = []"
    by (simp_all add: child_task_def parent_task_def)
  then show ?thesis
    using free_own_memory_only [OF family_ok(1,3), of "pm_request 0x11 (pmfree_req 0x270 empty_msg) 0 0 0" "0x270" empty_msg]
      free_own_memory_only [OF family_ok(1,2), of "pm_request 0x10 (pmfree_req 0x270 empty_msg) 0 0 0" "0x270" empty_msg]
    by (auto simp: pm_request_def)
qed

theorem malloc_free_roundtrip_witness:
  "\<exists>as. pserve pm_step [pm_request 0x10 (pmmalloc_req 8 empty_msg) 0x300 0x308 0, pm_request 0x10 (pmfree_req 0x308 empty_msg) 0 0 0] family_st =
     Some (to_front 0x10 family_st, as) \<and> freed as = allocated as"
proof -
  have "pm_fresh (pm_request 0x10 (pmmalloc_req 8 empty_msg) 0x300 0x308 0) family_st" "pt_pid parent_task = 0x10" by code_simp+
  then show ?thesis
    using malloc_free_roundtrip [OF family_ok(1,2), of "pm_request 0x10 (pmmalloc_req 8 empty_msg) 0x300 0x308 0" 8 empty_msg
        "pm_request 0x10 (pmfree_req 0x308 empty_msg) 0 0 0" empty_msg]
    by (auto simp: pm_request_def)
qed

theorem spawn_creates_child_witness:
  "\<exists>st' as c. pm_step (pm_request 0x10 (spawntask_req 0x1100 80 0x310) 0x320 0x400 0x12) family_st = Some (st', as) \<and>
     c \<in> set (task_q st') \<and> pt_parent c = 0x200 \<and> holds_args (pm_mem st') (pt_args c) [[0x6C, 0x73], [0x2E]]"
proof -
  let ?s = "[[0x6C, 0x73], [0x2E]] :: byte list list" and ?i = "pm_request 0x10 (spawntask_req 0x1100 80 0x310) 0x320 0x400 0x12"
  have sz: "args_size ?s < 65536" by (simp add: args_size_def)
  have a: "holds_args (pm_mem family_st) 0x310 ?s"
      "args_space (pm_mem family_st) 0x310 ?s \<inter> block (n_mem2 ?i) (args_size ?s) = {}" "NULL \<notin> block (n_mem2 ?i) (args_size ?s)"
      "pm_fresh ?i family_st"
    by code_simp+
  have b: "n_client ?i = pt_pid parent_task" "n_msg ?i = spawntask_req 0x1100 80 0x310" "n_task ?i \<noteq> NULL" "n_mem1 ?i \<noteq> NULL"
      "n_vfs ?i \<noteq> NULL" "n_mem2 ?i \<noteq> NULL" "(0x310 :: addr) \<noteq> NULL" "pt_item parent_task = 0x200"
    by (simp_all add: parent_task_def pm_request_def)
  from spawn_creates_child [OF family_ok(1,2) a(4) b(1-6) a(1) b(7) sz a(2,3)] b(8) show ?thesis by auto
qed

theorem failed_spawn_answers_entry_witness:
  "\<exists>st' as. pm_step (pm_request 0x10 (spawntask_req 0x1100 80 NULL) 0 0 0x12) family_st = Some (st', as) \<and> answers as = [(0x10, 0x1100, 80)]"
proof -
  let ?i = "pm_request 0x10 (spawntask_req 0x1100 80 NULL) 0 0 0x12"
  have "pm_step ?i family_st \<noteq> None" "pt_pid parent_task = 0x10" by code_simp+
  moreover from this(1) obtain st' as where "pm_step ?i family_st = Some (st', as)" by auto
  ultimately show ?thesis using failed_spawn_answers_entry [OF family_ok(1,2), of ?i "0x1100" 80 NULL st' as] by (auto simp: pm_request_def)
qed

theorem exit_releases_process_witness:
  "\<exists>st' as. pm_step (pm_request 0x11 (mexit_req 7 empty_msg) 0 0 0) family_st = Some (st', as) \<and> {#0x260, 0x270#} \<subseteq># freed as \<and>
     subseq [Stoptask 0x11, Deletetask 0x11, Vfs_deletetask 0x11] as"
proof -
  have "pt_pid child_task = 0x11" "pt_chunks child_task = [(0x260, 0x270)]" by (simp_all add: child_task_def)
  then show ?thesis
    using exit_releases_process [OF family_ok(1,3), of "pm_request 0x11 (mexit_req 7 empty_msg) 0 0 0" 7 empty_msg]
    by (auto simp: pm_request_def)
qed

end
