(* ===== verification/Pm_Client.thy ===== *)
theory Pm_Client
  imports Pm_Props
begin

text \<open>
  The functions at the end of \<^verbatim>\<open>servers/pm.c\<close> with which programs use the process manager, and what they return
  when the process manager serves them.

  \<open>sendrec\<close> is the kernel call to \<^verbatim>\<open>pmtask\<close>: it takes the message and the world and gives the message with the
  answer in it and the new world, or \<^term>\<open>None\<close> when no answer ever comes. A local message is not
  initialised, so the functions take what is in it.
\<close>

section \<open>Client functions\<close>

type_synonym 'w pm_service = "pmmsg \<Rightarrow> 'w \<Rightarrow> (pmmsg \<times> 'w) option"

definition spawntask :: "'w pm_service \<Rightarrow> addr \<Rightarrow> addr \<Rightarrow> addr \<Rightarrow> 'w \<Rightarrow> (pid_t \<times> 'w) option" where
  "spawntask sendrec ptsk stacksize argv w = do {
     (msg, w') \<leftarrow> sendrec (spawntask_req ptsk stacksize argv) w;
     Some (m0 msg, w')
   }"

definition execv :: "'w pm_service \<Rightarrow> pmmsg \<Rightarrow> addr \<Rightarrow> addr \<Rightarrow> 'w \<Rightarrow> (cint \<times> 'w) option" where
  "execv sendrec msg name argv w = do {
     (_, w') \<leftarrow> sendrec (execv_req name argv msg) w;
     Some (- 1, w')
   }"

definition mexit :: "'w pm_service \<Rightarrow> pmmsg \<Rightarrow> cint \<Rightarrow> 'w \<Rightarrow> 'w option" where
  "mexit sendrec msg code w = do {
     (_, w') \<leftarrow> sendrec (mexit_req code msg) w;
     Some w'
   }"

text \<open>The second result is what is stored through the pointer \<^verbatim>\<open>code\<close>, if it is not null.\<close>

definition wait_result :: "addr \<Rightarrow> pmmsg \<Rightarrow> pid_t \<times> cint option" where
  "wait_result code msg = (m0 msg, if code \<noteq> NULL then Some (m1 msg) else None)"

definition wait :: "'w pm_service \<Rightarrow> pmmsg \<Rightarrow> addr \<Rightarrow> 'w \<Rightarrow> ((pid_t \<times> cint option) \<times> 'w) option" where
  "wait sendrec msg code w = do {
     (msg', w') \<leftarrow> sendrec (wait_req msg) w;
     Some (wait_result code msg', w')
   }"

definition waitpid :: "'w pm_service \<Rightarrow> pmmsg \<Rightarrow> pid_t \<Rightarrow> addr \<Rightarrow> 'w \<Rightarrow> ((pid_t \<times> cint option) \<times> 'w) option" where
  "waitpid sendrec msg p code w = do {
     (msg', w') \<leftarrow> sendrec (waitpid_req p msg) w;
     Some (wait_result code msg', w')
   }"

definition pmmalloc :: "'w pm_service \<Rightarrow> pmmsg \<Rightarrow> addr \<Rightarrow> 'w \<Rightarrow> (addr \<times> 'w) option" where
  "pmmalloc sendrec msg sz w = do {
     (msg', w') \<leftarrow> sendrec (pmmalloc_req sz msg) w;
     Some (m0 msg', w')
   }"

definition pmfree :: "'w pm_service \<Rightarrow> pmmsg \<Rightarrow> addr \<Rightarrow> 'w \<Rightarrow> 'w option" where
  "pmfree sendrec msg ptr w = do {
     (_, w') \<leftarrow> sendrec (pmfree_req ptr msg) w;
     Some w'
   }"

section \<open>The process manager as the service\<close>

text \<open>
  The client sends its request and is blocked until an answer to it is sent; meanwhile the process manager
  serves the requests of the others. The world is its state and these requests; \<open>inp\<close>
  completes a message to the input of a turn. When they are used up without an answer the client is still blocked.
\<close>

definition answer_to :: "pid_t \<Rightarrow> pm_act list \<Rightarrow> pmmsg option" where
  "answer_to pid as = map_option (\<lambda>a. case a of Reply _ m \<Rightarrow> m)
     (find (\<lambda>a. case a of Reply c _ \<Rightarrow> c = pid | _ \<Rightarrow> False) as)"

fun serve_until :: "pid_t \<Rightarrow> pm_in \<Rightarrow> pm_in list \<Rightarrow> pm_st \<Rightarrow> (pmmsg \<times> pm_st \<times> pm_in list) option" where
  "serve_until pid i js st = do {
     (st', as) \<leftarrow> pm_step i st;
     case answer_to pid as of
       Some m \<Rightarrow> Some (m, st', js)
     | None \<Rightarrow> (case js of [] \<Rightarrow> None | j # js' \<Rightarrow> serve_until pid j js' st')
   }"

declare serve_until.simps [simp del]

definition pm_sendrec :: "(pmmsg \<Rightarrow> pm_in) \<Rightarrow> (pm_st \<times> pm_in list) pm_service" where
  "pm_sendrec inp msg w = serve_until (n_client (inp msg)) (inp msg) (snd w) (fst w)"

definition client_of :: "(pmmsg \<Rightarrow> pm_in) \<Rightarrow> pid_t \<Rightarrow> bool" where
  "client_of inp pid \<longleftrightarrow> (\<forall>msg. n_client (inp msg) = pid \<and> n_msg (inp msg) = msg)"

lemma client_ofD: "client_of inp pid \<Longrightarrow> n_client (inp msg) = pid \<and> n_msg (inp msg) = msg"
  by (simp add: client_of_def)

lemma answer_to_simps [simp]:
  "answer_to pid [] = None"
  "answer_to pid (a # as) = (case a of Reply c m \<Rightarrow> if c = pid then Some m else answer_to pid as | _ \<Rightarrow> answer_to pid as)"
  by (auto simp: answer_to_def split: pm_act.split)

lemma answer_to_skip: "answers as = [] \<Longrightarrow> answer_to pid (as @ bs) = answer_to pid bs"
  by (induction as) (auto split: pm_act.splits)

text \<open>A service that answers at once, and one that answers in the turn of the next request.\<close>

lemma serve_now:
  "pm_step i st = Some (st', as) \<Longrightarrow> answer_to pid as = Some m \<Longrightarrow> serve_until pid i js st = Some (m, st', js)"
  by (subst serve_until.simps) simp

lemma serve_next:
  "pm_step i st = Some (st1, []) \<Longrightarrow> pm_step j st1 = Some (st', as) \<Longrightarrow> answer_to pid as = Some m \<Longrightarrow>
   serve_until pid i (j # js) st = Some (m, st', js)"
  by (subst serve_until.simps) (simp add: serve_now)

section \<open>Waiting for a child\<close>

lemma wait_served:
  assumes inv: "pm_inv st" and pc: "p \<in> set (task_q st)" "c \<in> set (task_q st)" "pt_parent c = pt_item p"
    and none: "\<forall>z \<in> set (zombie_q st). pt_parent z \<noteq> pt_item p"
    and ix: "n_client ix = pt_pid c" "n_msg ix = mexit_req x m"
    and iw: "n_client iw = pt_pid p" "pm_cmd (n_msg iw) = PM_WAIT" "m0 (n_msg iw) = pt_pid c \<or> m0 (n_msg iw) = TASK_ANY"
  shows "\<exists>st1 as1 m1 st2 m2 st3. pm_step ix st = Some (st1, as1) \<and>
    serve_until (pt_pid p) iw js st1 = Some (m1, st2, js) \<and> wait_result code m1 = (pt_pid c, if code \<noteq> NULL then Some x else None) \<and>
    serve_until (pt_pid p) iw (ix # js) st = Some (m2, st3, js) \<and> wait_result code m2 = (pt_pid c, if code \<noteq> NULL then Some x else None)"
proof -
  have z: "\<forall>z \<in> set (zombie_q st). \<not> pm_findzombie (p\<lparr>pt_word := m0 (n_msg iw)\<rparr>) z" using none by (auto simp: pm_findzombie_def)
  obtain st1 where s1: "pm_step ix st = Some (st1, exit_acts c st)" using child_exits(1) [OF inv pc ix] by blast
  with exit_before_wait [OF inv pc z ix iw]
  obtain st2 where s2: "pm_step iw st1 = Some (st2, [Kfree (pt_args c), Kfree (pt_item c), Reply (pt_pid p) ((n_msg iw)\<lparr>m0 := pt_pid c, m1 := x\<rparr>)])"
    by (auto split: option.splits prod.splits)
  obtain st1' where w1: "pm_step iw st = Some (st1', [])" using parent_waits(1) [OF inv pc z iw(1,2)] by blast
  with wait_before_exit [OF inv pc z ix iw]
  obtain st3 where w2: "pm_step ix st1' = Some (st3, exit_acts c st @ [Kfree (pt_args c), Kfree (pt_item c),
      Reply (pt_pid p) ((mexit_req x m)\<lparr>m0 := pt_pid c, m1 := x\<rparr>)])"
    by (auto split: option.splits prod.splits)
  have a: "answer_to (pt_pid p) (exit_acts c st @ bs) = answer_to (pt_pid p) bs" for bs by (rule answer_to_skip) simp
  have "serve_until (pt_pid p) iw js st1 = Some ((n_msg iw)\<lparr>m0 := pt_pid c, m1 := x\<rparr>, st2, js)"
    using serve_now [OF s2, where pid = "pt_pid p"] by simp
  moreover have "serve_until (pt_pid p) iw (ix # js) st = Some ((mexit_req x m)\<lparr>m0 := pt_pid c, m1 := x\<rparr>, st3, js)"
    by (rule serve_next [OF w1 w2]) (simp only: a, simp)
  ultimately show ?thesis using s1 by (auto simp: wait_result_def)
qed

text \<open>
  \<^verbatim>\<open>wait\<close> and \<^verbatim>\<open>waitpid\<close> return the pid of the child and store the code that the child has given to \<^verbatim>\<open>mexit\<close>,
  whether the child has exited before or exits while the parent is blocked. (The parent has no
  other child that is dead.)
\<close>

theorem wait_returns_exit_code:
  assumes inv: "pm_inv st" and pc: "p \<in> set (task_q st)" "c \<in> set (task_q st)" "pt_parent c = pt_item p"
    and none: "\<forall>z \<in> set (zombie_q st). pt_parent z \<noteq> pt_item p"
    and ix: "n_client ix = pt_pid c" "n_msg ix = mexit_req x m"
    and client: "client_of inp (pt_pid p)"
    and f: "f = wait (pm_sendrec inp) msg code \<or> f = waitpid (pm_sendrec inp) msg (pt_pid c) code"
  defines "result \<equiv> (pt_pid c, if code \<noteq> NULL then Some x else None)"
  shows "\<exists>st1 as1 st2 st3. pm_step ix st = Some (st1, as1) \<and>
    f (st1, js) = Some (result, st2, js) \<and> f (st, ix # js) = Some (result, st3, js)"
proof -
  obtain req where req: "f = (\<lambda>w. do { (msg', w') \<leftarrow> pm_sendrec inp req w; Some (wait_result code msg', w') })"
      "pm_cmd req = PM_WAIT" "m0 req = pt_pid c \<or> m0 req = TASK_ANY"
  proof -
    from f show thesis
    proof
      assume "f = wait (pm_sendrec inp) msg code"
      then show thesis by (intro that [of "wait_req msg"]) (simp_all add: fun_eq_iff wait_def)
    next
      assume "f = waitpid (pm_sendrec inp) msg (pt_pid c) code"
      then show thesis by (intro that [of "waitpid_req (pt_pid c) msg"]) (simp_all add: fun_eq_iff waitpid_def)
    qed
  qed
  have i: "n_client (inp req) = pt_pid p" "n_msg (inp req) = req" using client_ofD [OF client] by auto
  show ?thesis
    using wait_served [OF inv pc none ix i(1), of js code] i(2) req(2,3)
    by (auto simp: req(1) pm_sendrec_def i(1) result_def)
qed

theorem wait_returns_exit_code_witness:
  "\<exists>st1 as1 st2 st3. pm_step (pm_request 0x11 (mexit_req 7 empty_msg) 0 0 0) family_st = Some (st1, as1) \<and>
     wait (pm_sendrec (\<lambda>msg. pm_request 0x10 msg 0 0 0)) empty_msg 0x800 (st1, []) = Some ((0x11, Some 7), st2, []) \<and>
     wait (pm_sendrec (\<lambda>msg. pm_request 0x10 msg 0 0 0)) empty_msg 0x800
       (family_st, [pm_request 0x11 (mexit_req 7 empty_msg) 0 0 0]) = Some ((0x11, Some 7), st3, [])"
  using wait_returns_exit_code [OF family_ok, of "pm_request 0x11 (mexit_req 7 empty_msg) 0 0 0" 7 empty_msg
      "\<lambda>msg. pm_request 0x10 msg 0 0 0" _ empty_msg "0x800" "[]", OF _ _ _ _ _ disjI1 [OF refl]]
  by (simp add: parent_task_def child_task_def family_st_def client_of_def pm_request_def)

section \<open>Memory\<close>

text \<open>
  \<^verbatim>\<open>pmmalloc\<close> returns the memory that the kernel has given, and \<^verbatim>\<open>pmfree\<close> of it leaves the processes as they were, with
  the client at the front.
\<close>

theorem pmfree_undoes_pmmalloc:
  assumes inv: "pm_inv st" and t: "t \<in> set (task_q st)" and client: "client_of inp (pt_pid t)"
    and fresh: "pm_fresh (inp (pmmalloc_req n msg)) st"
    and mem: "n_mem1 (inp (pmmalloc_req n msg)) \<noteq> NULL" "n_mem2 (inp (pmmalloc_req n msg)) \<noteq> NULL"
  shows "\<exists>st1. pmmalloc (pm_sendrec inp) msg n (st, js) = Some (n_mem2 (inp (pmmalloc_req n msg)), st1, js) \<and>
    n_mem2 (inp (pmmalloc_req n msg)) \<in># owned st1 \<and>
    pmfree (pm_sendrec inp) msg' (n_mem2 (inp (pmmalloc_req n msg))) (st1, js) = Some (to_front (pt_pid t) st, js)"
proof -
  let ?im = "inp (pmmalloc_req n msg)" and ?if = "inp (pmfree_req (n_mem2 (inp (pmmalloc_req n msg))) msg')"
  note i = client_ofD [OF client, THEN conjunct1] client_ofD [OF client, THEN conjunct2]
  let ?t = "t\<lparr>pt_chunks := (n_mem1 ?im, n_mem2 ?im) # pt_chunks t\<rparr>"
  define st1 where "st1 = st\<lparr>task_q := ?t # remove_item (pt_item t) (task_q st)\<rparr>"
  have r: "pm_step ?im st = Some (st1, [Kmalloc sizeof_mem_chunk (n_mem1 ?im), Kmalloc n (n_mem2 ?im),
      Reply (pt_pid t) ((pmmalloc_req n msg)\<lparr>m0 := n_mem2 ?im\<rparr>)])"
    using step_malloc [OF inv t i mem] by (simp add: st1_def)
  have fr: "pm_step ?if st1 = Some (to_front (pt_pid t) st,
      [Kfree (n_mem2 ?im), Kfree (n_mem1 ?im), Reply (pt_pid t) (pmfree_req (n_mem2 ?im) msg')])"
    unfolding st1_def by (rule malloc_then_free [OF inv t fresh mem i(1) i(2) i(1) i(2)])
  have "pmmalloc (pm_sendrec inp) msg n (st, js) = Some (n_mem2 ?im, st1, js)"
    using serve_now [OF r, where pid = "pt_pid t"] by (simp add: pmmalloc_def pm_sendrec_def i(1))
  moreover have "pmfree (pm_sendrec inp) msg' (n_mem2 ?im) (st1, js) = Some (to_front (pt_pid t) st, js)"
    using serve_now [OF fr, where pid = "pt_pid t"] by (simp add: pmfree_def pm_sendrec_def i(1))
  moreover have "n_mem2 ?im \<in># owned st1" using chunk_owned [of ?t st1 "n_mem1 ?im"] by (simp add: st1_def)
  ultimately show ?thesis by blast
qed

end
