(* ===== verification/Vfs_Msg.thy ===== *)
theory Vfs_Msg
  imports Server "HOL-Library.Monad_Syntax"
begin

text \<open>
  \<^verbatim>\<open>servers/vfs.h\<close>: the messages between user tasks, the virtual file system and the drivers. The
  union of a message is kept as its four 16-bit words; the members are names for them, so that
  members that overlap in C do so here.
\<close>

definition VFS_HOLD :: cint where "VFS_HOLD = 0"
definition VFS_REPEAT :: cint where "VFS_REPEAT = 1"
definition VFS_FINAL :: cint where "VFS_FINAL = 2"
definition VFS_RD_INTERRUPT :: cint where "VFS_RD_INTERRUPT = 3"
definition VFS_WR_INTERRUPT :: cint where "VFS_WR_INTERRUPT = 4"
definition VFS_INODE_GRAB :: cint where "VFS_INODE_GRAB = 5"
definition VFS_INODE_RELEASE :: cint where "VFS_INODE_RELEASE = 6"
definition VFS_LINK :: cint where "VFS_LINK = 7"
definition VFS_UNLINK :: cint where "VFS_UNLINK = 8"
definition VFS_MKNOD :: cint where "VFS_MKNOD = 9"
definition VFS_MKDEV :: cint where "VFS_MKDEV = 10"
definition VFS_GET_DIRENTRY :: cint where "VFS_GET_DIRENTRY = 11"
definition VFS_DEBUG :: cint where "VFS_DEBUG = 12"
definition VFS_STAT :: cint where "VFS_STAT = 13"
definition VFS_DUP :: cint where "VFS_DUP = 14"
definition VFS_PIPE :: cint where "VFS_PIPE = 15"
definition VFS_OPEN :: cint where "VFS_OPEN = 16"
definition VFS_CLOSE :: cint where "VFS_CLOSE = 17"
definition VFS_CREAT :: cint where "VFS_CREAT = 18"
definition VFS_READC :: cint where "VFS_READC = 19"
definition VFS_WRITEC :: cint where "VFS_WRITEC = 20"
definition VFS_ADDTASK :: cint where "VFS_ADDTASK = 21"
definition VFS_DELTASK :: cint where "VFS_DELTASK = 22"

lemmas vfs_cmds = VFS_HOLD_def VFS_REPEAT_def VFS_FINAL_def VFS_RD_INTERRUPT_def VFS_WR_INTERRUPT_def
  VFS_INODE_GRAB_def VFS_INODE_RELEASE_def VFS_LINK_def VFS_UNLINK_def VFS_MKNOD_def VFS_MKDEV_def
  VFS_GET_DIRENTRY_def VFS_DEBUG_def VFS_STAT_def VFS_DUP_def VFS_PIPE_def VFS_OPEN_def VFS_CLOSE_def
  VFS_CREAT_def VFS_READC_def VFS_WRITEC_def VFS_ADDTASK_def VFS_DELTASK_def

record vfsmsg =
  v_cmd :: cint
  v_client :: pid_t
  w0 :: addr
  w1 :: addr
  w2 :: addr
  w3 :: addr

text \<open>
  The members: \<^verbatim>\<open>rw\<close> is (\<^verbatim>\<open>fd\<close> or \<^verbatim>\<open>ino\<close>, \<^verbatim>\<open>pos\<close> or \<^verbatim>\<open>bnum\<close>, \<^verbatim>\<open>data\<close>), \<^verbatim>\<open>link\<close> is (\<^verbatim>\<open>dir_ino\<close>, \<^verbatim>\<open>ino\<close>,
  \<^verbatim>\<open>name\<close>), \<^verbatim>\<open>mknod\<close> is (\<^verbatim>\<open>dev\<close> or \<^verbatim>\<open>ino\<close>, \<^verbatim>\<open>name\<close>), \<^verbatim>\<open>openclose\<close> is (\<^verbatim>\<open>dev\<close> or \<^verbatim>\<open>fd\<close> or \<^verbatim>\<open>name\<close>, \<^verbatim>\<open>ino\<close>),
  \<^verbatim>\<open>pipe\<close> is (\<^verbatim>\<open>fdi\<close>, \<^verbatim>\<open>fdo\<close>, \<^verbatim>\<open>result\<close>), \<^verbatim>\<open>adddel\<close> is (\<^verbatim>\<open>pid\<close>, \<^verbatim>\<open>parent\<close>), \<^verbatim>\<open>stat\<close> is (\<^verbatim>\<open>name\<close> or
  \<^verbatim>\<open>code\<close>, \<^verbatim>\<open>dev\<close>, \<^verbatim>\<open>ino\<close>, \<^verbatim>\<open>size\<close>), and \<^verbatim>\<open>iget\<close>, \<^verbatim>\<open>dup\<close> and \<^verbatim>\<open>interrupt\<close> are the first word.
\<close>

abbreviation rw_fd :: "vfsmsg \<Rightarrow> cint" where "rw_fd \<equiv> w0"
abbreviation rw_ino :: "vfsmsg \<Rightarrow> cint" where "rw_ino \<equiv> w0"
abbreviation rw_pos :: "vfsmsg \<Rightarrow> cint" where "rw_pos \<equiv> w1"
abbreviation rw_bnum :: "vfsmsg \<Rightarrow> cint" where "rw_bnum \<equiv> w1"
abbreviation rw_data :: "vfsmsg \<Rightarrow> cint" where "rw_data \<equiv> w2"
abbreviation link_dir_ino :: "vfsmsg \<Rightarrow> cint" where "link_dir_ino \<equiv> w0"
abbreviation link_ino :: "vfsmsg \<Rightarrow> cint" where "link_ino \<equiv> w1"
abbreviation link_name :: "vfsmsg \<Rightarrow> addr" where "link_name \<equiv> w2"
abbreviation mknod_ino :: "vfsmsg \<Rightarrow> cint" where "mknod_ino \<equiv> w0"
abbreviation mknod_name :: "vfsmsg \<Rightarrow> addr" where "mknod_name \<equiv> w1"
abbreviation iget_ino :: "vfsmsg \<Rightarrow> cint" where "iget_ino \<equiv> w0"
abbreviation open_dev :: "vfsmsg \<Rightarrow> cint" where "open_dev \<equiv> w0"
abbreviation open_ino :: "vfsmsg \<Rightarrow> cint" where "open_ino \<equiv> w1"
abbreviation open_fd :: "vfsmsg \<Rightarrow> cint" where "open_fd \<equiv> w0"

text \<open>
  What a driver does with one request of the file system: the messages it sends with \<^verbatim>\<open>VFS_REPEAT\<close>,
  each of which lets the file system answer a task that waits, and its final answer.
\<close>

type_synonym 'd driver = "vfsmsg \<Rightarrow> 'd \<Rightarrow> ('d \<times> vfsmsg list \<times> vfsmsg) option"

text \<open>An index of an array of \<open>n\<close> elements; outside of it the C code has no meaning.\<close>

definition idx :: "nat \<Rightarrow> cint \<Rightarrow> nat option" where
  "idx n i = (if 0 \<le> sint i \<and> sint i < int n then Some (unat i) else None)"

text \<open>The array element, where the index is in range.\<close>

definition at :: "'a list \<Rightarrow> cint \<Rightarrow> 'a option" where
  "at xs i = map_option (\<lambda>k. xs ! k) (idx (length xs) i)"

lemma idx_minus_one [simp]: "idx n (- 1) = None"
  by (simp add: idx_def)

lemma idx_less: "idx n i = Some k \<Longrightarrow> k < n"
proof -
  assume "idx n i = Some k"
  then have i: "0 \<le> sint i" "sint i < int n" "unat i = k" by (auto simp: idx_def split: if_splits)
  have "k < 65536" using unsigned_less [of i, where 'a = nat] i(3) by simp
  with i(1,2) show ?thesis unfolding sint16 i(3) by (auto split: if_splits)
qed

lemma idx_eq:
  assumes "n \<le> 32768"
  shows "idx n i = (if unat i < n then Some (unat i) else None)"
proof -
  obtain u where u: "unat i = u" by simp
  have "u < 65536" using unsigned_less [of i, where 'a = nat] u by simp
  then show ?thesis using assms unfolding idx_def sint16 u by auto
qed

lemma idx_Some_iff: "n \<le> 32768 \<Longrightarrow> idx n i = Some k \<longleftrightarrow> unat i = k \<and> k < n"
  by (auto simp: idx_eq)

text \<open>The first index with a property, or \<open>-1\<close>: the search loops of the C code.\<close>

definition find_index :: "('a \<Rightarrow> bool) \<Rightarrow> 'a list \<Rightarrow> cint" where
  "find_index P xs = (case find (\<lambda>i. P (xs ! i)) [0..<length xs] of None \<Rightarrow> - 1 | Some i \<Rightarrow> of_nat i)"

lemma find_index_cases:
  assumes "length xs \<le> 32768"
  obtains (none) "find_index P xs = - 1" "\<forall>x \<in> set xs. \<not> P x"
    | (some) k where "find_index P xs = of_nat k" "k < length xs" "P (xs ! k)" "\<forall>j < k. \<not> P (xs ! j)"
        "unat (find_index P xs) = k" "\<not> cneg (find_index P xs)"
proof (cases "find (\<lambda>i. P (xs ! i)) [0..<length xs]")
  case None
  then have "\<forall>x \<in> set xs. \<not> P x" by (auto simp: find_None_iff in_set_conv_nth)
  with None show ?thesis by (intro none) (simp_all add: find_index_def)
next
  case (Some k)
  then have k: "k < length xs" "P (xs ! k)" "\<forall>j < k. \<not> P (xs ! j)"
    by (auto simp: find_Some_iff)
  then have "unat (of_nat k :: cint) = k" using assms by (simp add: unat_of_nat)
  with Some k assms show ?thesis by (intro some [of k]) (simp_all add: find_index_def cneg_iff)
qed

lemma find_index_SomeD:
  assumes "length xs \<le> 32768" "\<not> cneg (find_index P xs)"
  shows "unat (find_index P xs) < length xs" "P (xs ! unat (find_index P xs))"
    "\<forall>j < unat (find_index P xs). \<not> P (xs ! j)"
  using find_index_cases [OF assms(1), of P] assms(2) cneg_minus_one by metis+

lemma find_index_cneg:
  assumes "length xs \<le> 32768"
  shows "cneg (find_index P xs) \<longleftrightarrow> (\<forall>x \<in> set xs. \<not> P x)"
  using find_index_cases [OF assms, of P] cneg_minus_one nth_mem by metis

lemma at_nth: "length xs \<le> 32768 \<Longrightarrow> unat i < length xs \<Longrightarrow> at xs i = Some (xs ! unat i)"
  using idx_Some_iff [of "length xs" i "unat i"] by (simp add: at_def)

lemma at_SomeD: "length xs \<le> 32768 \<Longrightarrow> at xs i = Some x \<Longrightarrow> unat i < length xs \<and> xs ! unat i = x"
  by (auto simp: at_def idx_Some_iff)

end
