(* ===== verification/Tty.thy ===== *)
theory Tty
  imports Vfs_Msg
begin

text \<open>
  \<^verbatim>\<open>drivers/tty.c\<close>: the terminal. Readers and received characters meet in one queue, writers and the
  interrupts of the transmitter in another; a line is collected in a buffer until it is complete.
  The step is one turn of the loop of \<^verbatim>\<open>tty_usart0\<close>. The register \<^verbatim>\<open>UDR0\<close> is read at most once in a turn:
  its value is an input; what is written to it is recorded.
\<close>

section \<open>Model\<close>

record tty =
  rd_q :: "vfsmsg list"
  wr_q :: "vfsmsg list"
  tbuf :: "byte list"
  t_idx :: cint
  ttymode :: byte
  udr_out :: "byte list"

text \<open>
  A message meets the first one in the queue if that is of kind \<open>k\<close>, which is then removed; else it is
  kept at the end of the queue, for which \<^verbatim>\<open>kmalloc\<close> must give memory (\<open>ok\<close>).
\<close>

definition meet :: "bool \<Rightarrow> cint \<Rightarrow> vfsmsg list \<Rightarrow> vfsmsg \<Rightarrow> (vfsmsg list \<times> vfsmsg option) option" where
  "meet ok k q m =
     (case q of
        c # cs \<Rightarrow> if v_cmd c = k then Some (cs, Some c) else if ok then Some (q @ [m], None) else None
      | [] \<Rightarrow> if ok then Some ([m], None) else None)"

definition usart0_serve_write :: "bool \<Rightarrow> vfsmsg \<Rightarrow> cint \<Rightarrow> tty \<Rightarrow> (tty \<times> vfsmsg) option" where
  "usart0_serve_write ok msg cmd st = do {
     (q, r) \<leftarrow> meet ok cmd (wr_q st) msg;
     case r of
       Some container \<Rightarrow>
         let src = (if v_cmd msg = VFS_WR_INTERRUPT then container else msg)
         in Some (st\<lparr>wr_q := q, udr_out := udr_out st @ [ucast (rw_data src)]\<rparr>,
              msg\<lparr>v_client := v_client src, w1 := 0, v_cmd := VFS_FINAL\<rparr>)
     | None \<Rightarrow> Some (st\<lparr>wr_q := q\<rparr>, msg\<lparr>v_cmd := VFS_HOLD\<rparr>)
   }"

text \<open>\<open>junk\<close> is what a local message holds before its members are set.\<close>

definition usart0_print_char :: "bool \<Rightarrow> vfsmsg \<Rightarrow> cint \<Rightarrow> tty \<Rightarrow> tty option" where
  "usart0_print_char ok junk c st =
     map_option fst (usart0_serve_write ok (junk\<lparr>v_cmd := VFS_WRITEC, v_client := NULL, w2 := c\<rparr>) VFS_WR_INTERRUPT st)"

definition usart_serve_read :: "bool \<Rightarrow> vfsmsg \<Rightarrow> cint \<Rightarrow> tty \<Rightarrow> (tty \<times> vfsmsg) option" where
  "usart_serve_read ok msg cmd st = do {
     (q, r) \<leftarrow> meet ok cmd (rd_q st) msg;
     case r of
       Some container \<Rightarrow>
         let i = (v_cmd msg = VFS_RD_INTERRUPT)
         in Some (st\<lparr>rd_q := q\<rparr>,
              msg\<lparr>v_client := v_client (if i then container else msg), w2 := w0 (if i then msg else container),
                w1 := 0, v_cmd := VFS_FINAL\<rparr>)
     | None \<Rightarrow> Some (st\<lparr>rd_q := q\<rparr>, msg\<lparr>v_cmd := VFS_HOLD\<rparr>)
   }"

text \<open>The second component are the messages sent with \<^verbatim>\<open>VFS_REPEAT\<close>.\<close>

definition usart_reply_char :: "bool \<Rightarrow> vfsmsg \<Rightarrow> cint \<Rightarrow> tty \<Rightarrow> (tty \<times> vfsmsg list) option" where
  "usart_reply_char ok junk c st = do {
     (st', m) \<leftarrow> usart_serve_read ok (junk\<lparr>v_cmd := VFS_RD_INTERRUPT, v_client := NULL, w0 := c\<rparr>) VFS_READC st;
     Some (st', if v_cmd m \<noteq> VFS_HOLD then [m\<lparr>v_cmd := VFS_REPEAT\<rparr>] else [])
   }"

primrec flush_loop :: "bool \<Rightarrow> vfsmsg \<Rightarrow> nat list \<Rightarrow> tty \<Rightarrow> (tty \<times> vfsmsg list) option" where
  "flush_loop ok junk [] st = Some (st, [])"
| "flush_loop ok junk (i # is) st = do {
     c \<leftarrow> at (tbuf st) (of_nat i);
     (st1, ms) \<leftarrow> usart_reply_char ok junk (scast c) st;
     (st2, ms') \<leftarrow> flush_loop ok junk is st1;
     Some (st2, ms @ ms')
   }"

definition tty_flush :: "bool \<Rightarrow> vfsmsg \<Rightarrow> tty \<Rightarrow> (tty \<times> vfsmsg list) option" where
  "tty_flush ok junk st = do {
     (st', ms) \<leftarrow> flush_loop ok junk [0..<unat (t_idx st)] st;
     Some (st'\<lparr>t_idx := 0\<rparr>, ms)
   }"

text \<open>\<^verbatim>\<open>tbuf[idx++] = data\<close>\<close>

definition store_char :: "cint \<Rightarrow> tty \<Rightarrow> tty option" where
  "store_char c st = do {
     k \<leftarrow> idx (length (tbuf st)) (t_idx st);
     Some (st\<lparr>tbuf := (tbuf st)[k := ucast c], t_idx := t_idx st + 1\<rparr>)
   }"

definition rd_interrupt :: "byte \<Rightarrow> bool \<Rightarrow> vfsmsg \<Rightarrow> vfsmsg \<Rightarrow> tty \<Rightarrow> (tty \<times> vfsmsg list \<times> vfsmsg) option" where
  "rd_interrupt udr ok junk msg0 st =
     (let msg = msg0\<lparr>w0 := ucast udr\<rparr>; c = w0 msg; hold = msg\<lparr>v_cmd := VFS_HOLD\<rparr>
      in if ttymode st = 0 then do { (st', m) \<leftarrow> usart_serve_read ok msg VFS_READC st; Some (st', [], m) }
         else if c = 0x04 then
           if t_idx st = 0
           then do { (st', ms) \<leftarrow> usart_reply_char ok junk EOF st; Some (st', ms, hold) }
           else do {
             st1 \<leftarrow> usart0_print_char ok junk 10 st;
             (st2, ms) \<leftarrow> tty_flush ok junk st1;
             Some (st2, ms, hold)
           }
         else if c = 0x03 then do { st1 \<leftarrow> usart0_print_char ok junk 10 (st\<lparr>t_idx := 0\<rparr>); Some (st1, [], hold) }
         else if c = 0x08 then Some (if t_idx st \<noteq> 0 then st\<lparr>t_idx := t_idx st - 1\<rparr> else st, [], hold)
         else if c = 13 \<or> c = 10 then do {
           st1 \<leftarrow> store_char c st;
           (st2, ms) \<leftarrow> tty_flush ok junk st1;
           Some (st2, ms, hold)
         }
         else do { st1 \<leftarrow> store_char c st; Some (st1, [], hold) })"

definition tty_usart0 :: "byte \<Rightarrow> bool \<Rightarrow> vfsmsg \<Rightarrow> tty driver" where
  "tty_usart0 udr ok junk msg st =
     (if v_cmd msg = VFS_READC
      then do { (st', m) \<leftarrow> usart_serve_read ok msg VFS_RD_INTERRUPT st; Some (st', [], m) }
      else if v_cmd msg = VFS_WRITEC
      then do { (st', m) \<leftarrow> usart0_serve_write ok msg VFS_WR_INTERRUPT st; Some (st', [], m) }
      else if v_cmd msg = VFS_RD_INTERRUPT then rd_interrupt udr ok junk msg st
      else if v_cmd msg = VFS_WR_INTERRUPT
      then do { (st', m) \<leftarrow> usart0_serve_write ok msg VFS_WRITEC st; Some (st', [], m) }
      else Some (st, [], msg))"

text \<open>Before the loop: the buffer has 128 bytes of any content.\<close>

definition tty_init :: "byte list \<Rightarrow> tty" where
  "tty_init buf = \<lparr>rd_q = [], wr_q = [], tbuf = buf, t_idx = 0, ttymode = 1, udr_out = []\<rparr>"

lemmas [server_defs] = usart0_serve_write_def usart_serve_read_def usart_reply_char_def rd_interrupt_def tty_usart0_def

section \<open>Two kinds of messages that meet\<close>

text \<open>
  \<open>as\<close> and \<open>bs\<close> are all messages of the two kinds so far: the first ones of each have met in pairs, and
  the queue holds the rest of the longer list.
\<close>

definition meets :: "cint \<Rightarrow> cint \<Rightarrow> vfsmsg list \<Rightarrow> vfsmsg list \<Rightarrow> vfsmsg list \<Rightarrow> bool" where
  "meets A B q as bs \<longleftrightarrow> (\<forall>m \<in> set as. v_cmd m = A) \<and> (\<forall>m \<in> set bs. v_cmd m = B) \<and>
     q = drop (length bs) as @ drop (length as) bs"

lemma meets_init: "meets A B [] [] []"
  by (simp add: meets_def)

lemma zip_snoc: "zip (as @ [x]) bs = zip as bs @ (if length as < length bs then [(x, bs ! length as)] else [])"
proof (induction as arbitrary: bs)
  case Nil
  show ?case by (cases bs) auto
next
  case (Cons a as)
  then show ?case by (cases bs) auto
qed

lemma meet_left:
  assumes m: "meets A B q as bs" and ne: "A \<noteq> B" and a: "v_cmd a = A"
  obtains q' r where "meet True B q a = Some (q', r)" "meets A B q' (as @ [a]) bs"
    "zip (as @ [a]) bs = zip as bs @ (case r of None \<Rightarrow> [] | Some b \<Rightarrow> [(a, b)])"
proof (cases "length as < length bs")
  case True
  then obtain b where b: "drop (length as) bs = b # drop (Suc (length as)) bs" "b = bs ! length as" "v_cmd b = B"
    using m by (metis Cons_nth_drop_Suc meets_def nth_mem)
  have "meet True B q a = Some (drop (Suc (length as)) bs, Some b)" using m True b by (simp add: meet_def meets_def)
  moreover have "meets A B (drop (Suc (length as)) bs) (as @ [a]) bs" using m True a by (simp add: meets_def)
  ultimately show ?thesis using that True b by (simp add: zip_snoc)
next
  case False
  then have q: "q = drop (length bs) as" using m by (simp add: meets_def)
  then have "\<forall>x \<in> set q. v_cmd x = A" using m by (metis in_set_dropD meets_def)
  then have "meet True B q a = Some (q @ [a], None)" using ne by (cases q) (auto simp: meet_def)
  moreover have "meets A B (q @ [a]) (as @ [a]) bs" using m False a q by (auto simp: meets_def)
  ultimately show ?thesis using that False by (simp add: zip_snoc)
qed

lemma meets_sym: "meets A B q as bs \<longleftrightarrow> meets B A q bs as"
  by (cases "length as \<le> length bs") (auto simp: meets_def)

lemma zip_flip: "zip xs ys = map (\<lambda>(y, x). (x, y)) (zip ys xs)"
  by (rule zip_commute)

lemma meet_right:
  assumes m: "meets A B q as bs" and ne: "A \<noteq> B" and b: "v_cmd b = B"
  obtains q' r where "meet True A q b = Some (q', r)" "meets A B q' as (bs @ [b])"
    "zip as (bs @ [b]) = zip as bs @ (case r of None \<Rightarrow> [] | Some a \<Rightarrow> [(a, b)])"
proof -
  have "meets B A q bs as" using m meets_sym by blast
  from meet_left [OF this ne [symmetric] b]
  obtain q' r where r: "meet True A q b = Some (q', r)" "meets B A q' (bs @ [b]) as"
      "zip (bs @ [b]) as = zip bs as @ (case r of None \<Rightarrow> [] | Some a \<Rightarrow> [(b, a)])"
    by blast
  moreover have "zip as (bs @ [b]) = zip as bs @ (case r of None \<Rightarrow> [] | Some a \<Rightarrow> [(a, b)])"
    using r(3) by (simp add: zip_flip [of as] split: option.split)
  ultimately show ?thesis using that meets_sym by blast
qed

section \<open>Readers and characters, writers and the transmitter\<close>

text \<open>
  The clients that asked for a character and the characters that were released to them, in order;
  the characters to send, in order, and how often the transmitter was ready.
\<close>

definition rd_state :: "tty \<Rightarrow> pid_t list \<Rightarrow> cint list \<Rightarrow> bool" where
  "rd_state st R C \<longleftrightarrow> (\<exists>rs cs. meets VFS_READC VFS_RD_INTERRUPT (rd_q st) rs cs \<and> R = map v_client rs \<and> C = map w0 cs)"

definition wr_state :: "tty \<Rightarrow> byte list \<Rightarrow> nat \<Rightarrow> bool" where
  "wr_state st W n \<longleftrightarrow> (\<exists>ws ts. meets VFS_WRITEC VFS_WR_INTERRUPT (wr_q st) ws ts \<and> W = map (\<lambda>m. ucast (rw_data m)) ws \<and>
     n = length ts \<and> udr_out st = map (\<lambda>(m, _). ucast (rw_data m)) (zip ws ts))"

lemma map_zip_take: "map (\<lambda>(x, _). f x) (zip xs ys) = take (length ys) (map f xs)"
proof (induction xs arbitrary: ys)
  case (Cons x xs)
  then show ?case by (cases ys) auto
qed simp

lemma wr_state_out: "wr_state st W n \<Longrightarrow> udr_out st = take n W"
proof -
  assume "wr_state st W n"
  then obtain ws and ts :: "vfsmsg list" where w: "W = map (\<lambda>m. ucast (rw_data m)) ws" "n = length ts" "udr_out st = map (\<lambda>(m, _). ucast (rw_data m)) (zip ws ts)"
    unfolding wr_state_def by blast
  then show ?thesis using map_zip_take [of "\<lambda>m. ucast (rw_data m)" ws ts] by simp
qed

lemma states_init: "rd_state (tty_init buf) [] []" "wr_state (tty_init buf) [] 0"
  by (auto simp: rd_state_def wr_state_def tty_init_def meets_init intro!: exI [of _ "[]"])

lemma rd_state_cong: "rd_q st' = rd_q st \<Longrightarrow> rd_state st' R C = rd_state st R C"
  by (simp add: rd_state_def)

lemma wr_state_cong: "wr_q st' = wr_q st \<Longrightarrow> udr_out st' = udr_out st \<Longrightarrow> wr_state st' W n = wr_state st W n"
  by (simp add: wr_state_def)

lemma cmds_apart [simp]: "VFS_READC \<noteq> VFS_RD_INTERRUPT" "VFS_WRITEC \<noteq> VFS_WR_INTERRUPT" "VFS_FINAL \<noteq> VFS_HOLD" "VFS_HOLD \<noteq> VFS_FINAL"
  by (simp_all add: vfs_cmds)

lemma read_step:
  assumes rd: "rd_state st R C" and m: "v_cmd m = VFS_READC"
  obtains q ans where "usart_serve_read True m VFS_RD_INTERRUPT st = Some (st\<lparr>rd_q := q\<rparr>, ans)"
    "rd_state (st\<lparr>rd_q := q\<rparr>) (R @ [v_client m]) C"
    "zip (R @ [v_client m]) C = zip R C @ (if v_cmd ans = VFS_FINAL then [(v_client ans, rw_data ans)] else [])"
proof -
  obtain rs cs where s: "meets VFS_READC VFS_RD_INTERRUPT (rd_q st) rs cs" "R = map v_client rs" "C = map w0 cs"
    using rd by (auto simp: rd_state_def)
  obtain q r where r: "meet True VFS_RD_INTERRUPT (rd_q st) m = Some (q, r)" "meets VFS_READC VFS_RD_INTERRUPT q (rs @ [m]) cs"
      "zip (rs @ [m]) cs = zip rs cs @ (case r of None \<Rightarrow> [] | Some b \<Rightarrow> [(m, b)])"
    by (rule meet_left [OF s(1) cmds_apart(1) m])
  define ans where "ans = (case r of None \<Rightarrow> m\<lparr>v_cmd := VFS_HOLD\<rparr> | Some c \<Rightarrow> m\<lparr>w2 := w0 c, w1 := 0, v_cmd := VFS_FINAL\<rparr>)"
  have "usart_serve_read True m VFS_RD_INTERRUPT st = Some (st\<lparr>rd_q := q\<rparr>, ans)"
    using r(1) m by (auto simp: usart_serve_read_def ans_def Let_def split: option.split)
  moreover have "rd_state (st\<lparr>rd_q := q\<rparr>) (R @ [v_client m]) C"
    unfolding rd_state_def using r(2) s by (intro exI [of _ "rs @ [m]"] exI [of _ cs]) simp
  moreover have "zip (R @ [v_client m]) C = zip R C @ (if v_cmd ans = VFS_FINAL then [(v_client ans, rw_data ans)] else [])"
    using arg_cong [OF r(3), of "map (\<lambda>(a, b). (v_client a, w0 b))"]
    by (simp add: s zip_map_map [symmetric] ans_def split: option.split)
  ultimately show ?thesis by (rule that)
qed

lemma reply_step:
  assumes rd: "rd_state st R C"
  obtains q ms where "usart_reply_char True junk c st = Some (st\<lparr>rd_q := q\<rparr>, ms)"
    "rd_state (st\<lparr>rd_q := q\<rparr>) R (C @ [c])" "zip R (C @ [c]) = zip R C @ map (\<lambda>m. (v_client m, rw_data m)) ms"
proof -
  obtain rs cs where s: "meets VFS_READC VFS_RD_INTERRUPT (rd_q st) rs cs" "R = map v_client rs" "C = map w0 cs"
    using rd by (auto simp: rd_state_def)
  define m where "m = junk\<lparr>v_cmd := VFS_RD_INTERRUPT, v_client := NULL, w0 := c\<rparr>"
  have m: "v_cmd m = VFS_RD_INTERRUPT" "w0 m = c" by (simp_all add: m_def)
  obtain q r where r: "meet True VFS_READC (rd_q st) m = Some (q, r)" "meets VFS_READC VFS_RD_INTERRUPT q rs (cs @ [m])"
      "zip rs (cs @ [m]) = zip rs cs @ (case r of None \<Rightarrow> [] | Some b \<Rightarrow> [(b, m)])"
    by (rule meet_right [OF s(1) cmds_apart(1) m(1)])
  define ms where "ms = (case r of None \<Rightarrow> [] | Some a \<Rightarrow> [m\<lparr>v_client := v_client a, w2 := c, w1 := 0, v_cmd := VFS_REPEAT\<rparr>])"
  have "usart_reply_char True junk c st = Some (st\<lparr>rd_q := q\<rparr>, ms)"
    using r(1) m unfolding usart_reply_char_def m_def [symmetric]
    by (auto simp: usart_serve_read_def ms_def Let_def split: option.split)
  moreover have "rd_state (st\<lparr>rd_q := q\<rparr>) R (C @ [c])"
    unfolding rd_state_def using r(2) s m by (intro exI [of _ rs] exI [of _ "cs @ [m]"]) simp
  moreover have "zip R (C @ [c]) = zip R C @ map (\<lambda>m. (v_client m, rw_data m)) ms"
    using arg_cong [OF r(3), of "map (\<lambda>(a, b). (v_client a, w0 b))"] m
    by (simp add: s zip_map_map [symmetric] ms_def split: option.split)
  ultimately show ?thesis by (rule that)
qed

lemma write_step:
  assumes wr: "wr_state st W n" and m: "v_cmd m = VFS_WRITEC"
  obtains q out ans where "usart0_serve_write True m VFS_WR_INTERRUPT st = Some (st\<lparr>wr_q := q, udr_out := out\<rparr>, ans)"
    "wr_state (st\<lparr>wr_q := q, udr_out := out\<rparr>) (W @ [ucast (rw_data m)]) n" "v_cmd ans \<noteq> VFS_READC"
proof -
  obtain ws and ts :: "vfsmsg list" where s: "meets VFS_WRITEC VFS_WR_INTERRUPT (wr_q st) ws ts" "W = map (\<lambda>m. ucast (rw_data m)) ws" "n = length ts"
      "udr_out st = map (\<lambda>(m, _). ucast (rw_data m)) (zip ws ts)"
    using wr unfolding wr_state_def by blast
  obtain q r where r: "meet True VFS_WR_INTERRUPT (wr_q st) m = Some (q, r)" "meets VFS_WRITEC VFS_WR_INTERRUPT q (ws @ [m]) ts"
      "zip (ws @ [m]) ts = zip ws ts @ (case r of None \<Rightarrow> [] | Some b \<Rightarrow> [(m, b)])"
    by (rule meet_left [OF s(1) cmds_apart(2) m])
  define out where "out = udr_out st @ (case r of None \<Rightarrow> [] | Some c \<Rightarrow> [ucast (rw_data m)])"
  obtain ans where "usart0_serve_write True m VFS_WR_INTERRUPT st = Some (st\<lparr>wr_q := q, udr_out := out\<rparr>, ans)" "v_cmd ans \<noteq> VFS_READC"
    using r(1) m by (cases r) (auto simp: usart0_serve_write_def out_def Let_def vfs_cmds)
  moreover have "wr_state (st\<lparr>wr_q := q, udr_out := out\<rparr>) (W @ [ucast (rw_data m)]) n"
    unfolding wr_state_def using r(2,3) s
    by (intro exI [of _ "ws @ [m]"] exI [of _ ts]) (simp add: out_def split: option.split)
  ultimately show ?thesis using that by blast
qed

lemma ready_step:
  assumes wr: "wr_state st W n" and m: "v_cmd m = VFS_WR_INTERRUPT"
  obtains q out ans where "usart0_serve_write True m VFS_WRITEC st = Some (st\<lparr>wr_q := q, udr_out := out\<rparr>, ans)"
    "wr_state (st\<lparr>wr_q := q, udr_out := out\<rparr>) W (Suc n)"
proof -
  obtain ws and ts :: "vfsmsg list" where s: "meets VFS_WRITEC VFS_WR_INTERRUPT (wr_q st) ws ts" "W = map (\<lambda>m. ucast (rw_data m)) ws" "n = length ts"
      "udr_out st = map (\<lambda>(m, _). ucast (rw_data m)) (zip ws ts)"
    using wr unfolding wr_state_def by blast
  obtain q r where r: "meet True VFS_WRITEC (wr_q st) m = Some (q, r)" "meets VFS_WRITEC VFS_WR_INTERRUPT q ws (ts @ [m])"
      "zip ws (ts @ [m]) = zip ws ts @ (case r of None \<Rightarrow> [] | Some b \<Rightarrow> [(b, m)])"
    by (rule meet_right [OF s(1) cmds_apart(2) m])
  define out where "out = udr_out st @ (case r of None \<Rightarrow> [] | Some c \<Rightarrow> [ucast (rw_data c)])"
  obtain ans where "usart0_serve_write True m VFS_WRITEC st = Some (st\<lparr>wr_q := q, udr_out := out\<rparr>, ans)"
    using r(1) m by (cases r) (auto simp: usart0_serve_write_def out_def Let_def)
  moreover have "wr_state (st\<lparr>wr_q := q, udr_out := out\<rparr>) W (Suc n)"
    unfolding wr_state_def using r(2,3) s
    by (intro exI [of _ ws] exI [of _ "ts @ [m]"]) (simp add: out_def split: option.split)
  ultimately show ?thesis using that by blast
qed

lemma print_step:
  assumes wr: "wr_state st W n"
  obtains q out where "usart0_print_char True junk c st = Some (st\<lparr>wr_q := q, udr_out := out\<rparr>)"
    "wr_state (st\<lparr>wr_q := q, udr_out := out\<rparr>) (W @ [ucast c]) n"
proof -
  let ?m = "junk\<lparr>v_cmd := VFS_WRITEC, v_client := NULL, w2 := c\<rparr>"
  obtain q out ans where "usart0_serve_write True ?m VFS_WR_INTERRUPT st = Some (st\<lparr>wr_q := q, udr_out := out\<rparr>, ans)"
      "wr_state (st\<lparr>wr_q := q, udr_out := out\<rparr>) (W @ [ucast (rw_data ?m)]) n"
    by (rule write_step [OF wr, of ?m]) simp_all
  then show ?thesis using that [of out q] by (simp add: usart0_print_char_def)
qed

section \<open>The line discipline\<close>

text \<open>The line that is being typed, as a list, and what a key releases to the readers and echoes.\<close>

definition edit :: "byte \<Rightarrow> byte list \<Rightarrow> byte list" where
  "edit c line = (if c = 0x08 then butlast line else if c \<in> {0x03, 0x04, 10, 13} then [] else line @ [c])"

definition release :: "byte \<Rightarrow> byte list \<Rightarrow> cint list" where
  "release c line =
     (if c = 0x04 then if line = [] then [EOF] else map scast line
      else if c \<in> {10, 13} then map scast (line @ [c]) else [])"

definition echo :: "byte \<Rightarrow> byte list \<Rightarrow> byte list" where
  "echo c line = (if c = 0x03 \<or> c = 0x04 \<and> line \<noteq> [] then [10] else [])"

text \<open>The buffer holds the line.\<close>

definition holds_line :: "tty \<Rightarrow> byte list \<Rightarrow> bool" where
  "holds_line st line \<longleftrightarrow> length (tbuf st) = 128 \<and> ttymode st = 1 \<and> t_idx st = of_nat (length line) \<and> length line \<le> 128 \<and>
     take (length line) (tbuf st) = line"

lemma holds_line_cong:
  "tbuf st' = tbuf st \<Longrightarrow> ttymode st' = ttymode st \<Longrightarrow> t_idx st' = t_idx st \<Longrightarrow> holds_line st' line = holds_line st line"
  by (simp add: holds_line_def)

lemma unat_len: "n \<le> 128 \<Longrightarrow> unat (of_nat n :: cint) = n"
  by (simp add: unat_of_nat)

lemma byte_back: "(ucast (ucast (c :: byte) :: cint) :: byte) = c"
  by (rule ucast_up_ucast_id) (simp add: is_up_def source_size_def target_size_def)

lemma store_step:
  assumes h: "holds_line st line" and fits: "length line < 128"
  obtains b where "store_char (ucast c) st = Some (st\<lparr>tbuf := b, t_idx := t_idx st + 1\<rparr>)"
    "holds_line (st\<lparr>tbuf := b, t_idx := t_idx st + 1\<rparr>) (line @ [c])"
proof -
  have i: "idx (length (tbuf st)) (t_idx st) = Some (length line)"
    using h fits by (simp add: holds_line_def idx_eq unat_len)
  have "take (Suc (length line)) ((tbuf st)[length line := c]) = line @ [c]"
    using h fits by (simp add: holds_line_def take_Suc_conv_app_nth)
  then show ?thesis using that [of "(tbuf st)[length line := c]"] i h fits byte_back [of c]
    by (simp add: store_char_def holds_line_def add.commute)
qed

lemma flush_loop_step:
  assumes "rd_state st R C" "length (tbuf st) = 128" "\<forall>i \<in> set is. i < 128"
  shows "\<exists>q ms. flush_loop True junk is st = Some (st\<lparr>rd_q := q\<rparr>, ms) \<and> rd_state (st\<lparr>rd_q := q\<rparr>) R (C @ map (\<lambda>i. scast (tbuf st ! i)) is) \<and>
    zip R (C @ map (\<lambda>i. scast (tbuf st ! i)) is) = zip R C @ map (\<lambda>m. (v_client m, rw_data m)) ms"
  using assms
proof (induction "is" arbitrary: st C)
  case Nil
  then show ?case by (intro exI [of _ "rd_q st"] exI [of _ "[]"]) simp
next
  case (Cons i "is")
  have c: "at (tbuf st) (of_nat i) = Some (tbuf st ! i)" using Cons.prems(2,3) by (simp add: at_nth unat_len)
  obtain q ms where r: "usart_reply_char True junk (scast (tbuf st ! i)) st = Some (st\<lparr>rd_q := q\<rparr>, ms)"
      "rd_state (st\<lparr>rd_q := q\<rparr>) R (C @ [scast (tbuf st ! i)])"
      "zip R (C @ [scast (tbuf st ! i)]) = zip R C @ map (\<lambda>m. (v_client m, rw_data m)) ms"
    by (rule reply_step [OF Cons.prems(1)])
  obtain q' ms' where r': "flush_loop True junk is (st\<lparr>rd_q := q\<rparr>) = Some (st\<lparr>rd_q := q'\<rparr>, ms')"
      "rd_state (st\<lparr>rd_q := q'\<rparr>) R ((C @ [scast (tbuf st ! i)]) @ map (\<lambda>i. scast (tbuf st ! i)) is)"
      "zip R ((C @ [scast (tbuf st ! i)]) @ map (\<lambda>i. scast (tbuf st ! i)) is) =
       zip R (C @ [scast (tbuf st ! i)]) @ map (\<lambda>m. (v_client m, rw_data m)) ms'"
    using Cons.IH [OF r(2)] Cons.prems(2,3) by auto
  then show ?case using c r by (intro exI [of _ q'] exI [of _ "ms @ ms'"]) simp
qed

lemma flush_step:
  assumes rd: "rd_state st R C" and h: "holds_line st line"
  obtains q ms where "tty_flush True junk st = Some (st\<lparr>rd_q := q, t_idx := 0\<rparr>, ms)"
    "rd_state (st\<lparr>rd_q := q, t_idx := 0\<rparr>) R (C @ map scast line)" "holds_line (st\<lparr>rd_q := q, t_idx := 0\<rparr>) []"
    "zip R (C @ map scast line) = zip R C @ map (\<lambda>m. (v_client m, rw_data m)) ms"
proof -
  have l: "length (tbuf st) = 128" "length line \<le> 128" "take (length line) (tbuf st) = line" "unat (t_idx st) = length line"
    using h by (auto simp: holds_line_def unat_len)
  have e: "map (\<lambda>i. scast (tbuf st ! i)) [0..<length line] = map scast line"
    using l by (intro nth_equalityI) (auto simp: nth_take_lemma, metis nth_take)
  obtain q ms where "flush_loop True junk [0..<length line] st = Some (st\<lparr>rd_q := q\<rparr>, ms)"
      "rd_state (st\<lparr>rd_q := q\<rparr>) R (C @ map scast line)" "zip R (C @ map scast line) = zip R C @ map (\<lambda>m. (v_client m, rw_data m)) ms"
    using flush_loop_step [OF rd l(1), of "[0..<length line]" junk, unfolded e] l(2) by auto
  then show ?thesis using that [of q ms] l h by (simp add: tty_flush_def rd_state_def holds_line_def)
qed

lemma ucast_byte_eq: "(ucast (c :: byte) :: cint) = ucast d \<longleftrightarrow> c = d"
  using byte_back by metis

lemma key_codes:
  "(ucast (c :: byte) :: cint) = 4 \<longleftrightarrow> c = 4" "(ucast c :: cint) = 3 \<longleftrightarrow> c = 3" "(ucast c :: cint) = 8 \<longleftrightarrow> c = 8"
  "(ucast c :: cint) = 13 \<longleftrightarrow> c = 13" "(ucast c :: cint) = 10 \<longleftrightarrow> c = 10"
  using ucast_byte_eq [of c 4] ucast_byte_eq [of c 3] ucast_byte_eq [of c 8] ucast_byte_eq [of c 13] ucast_byte_eq [of c 10] by simp_all

lemma idx_zero: "holds_line st line \<Longrightarrow> t_idx st = 0 \<longleftrightarrow> line = []"
  using unat_len [of "length line"] by (auto simp: holds_line_def)

lemma holds_line_back: "holds_line st line \<Longrightarrow> line \<noteq> [] \<Longrightarrow> holds_line (st\<lparr>t_idx := t_idx st - 1\<rparr>) (butlast line)"
  by (auto simp: holds_line_def butlast_take of_nat_diff Suc_le_eq dest: arg_cong [where f = butlast])

lemma holds_line_clear: "holds_line st line \<Longrightarrow> holds_line (st\<lparr>t_idx := 0\<rparr>) []"
  by (simp add: holds_line_def)

text \<open>One key: control keys, and keys that are stored in the line.\<close>

lemma control_key:
  assumes rd: "rd_state st R C" and wr: "wr_state st W n" and h: "holds_line st line" and ctrl: "c \<in> {3, 4, 8}"
  shows "\<exists>st' ms ans. rd_interrupt c True junk msg st = Some (st', ms, ans) \<and> rd_state st' R (C @ release c line) \<and>
    wr_state st' (W @ echo c line) n \<and> holds_line st' (edit c line) \<and>
    zip R (C @ release c line) = zip R C @ map (\<lambda>m. (v_client m, rw_data m)) ms"
proof -
  have mode: "ttymode st \<noteq> 0" using h by (simp add: holds_line_def)
  consider (d_empty) "c = 4" "line = []" | (d) "c = 4" "line \<noteq> []" | (c) "c = 3" | (del) "c = 8" using ctrl by blast
  then show ?thesis
  proof cases
    case d_empty
    obtain q ms where r: "usart_reply_char True junk EOF st = Some (st\<lparr>rd_q := q\<rparr>, ms)" "rd_state (st\<lparr>rd_q := q\<rparr>) R (C @ [EOF])"
        "zip R (C @ [EOF]) = zip R C @ map (\<lambda>m. (v_client m, rw_data m)) ms"
      by (rule reply_step [OF rd])
    moreover have "wr_state (st\<lparr>rd_q := q\<rparr>) W n" "holds_line (st\<lparr>rd_q := q\<rparr>) []"
      using wr h d_empty wr_state_cong [of "st\<lparr>rd_q := q\<rparr>" st] by (simp_all add: holds_line_def)
    ultimately show ?thesis using d_empty mode idx_zero [OF h]
      by (simp add: rd_interrupt_def release_def echo_def edit_def)
  next
    case d
    obtain q out where p: "usart0_print_char True junk 10 st = Some (st\<lparr>wr_q := q, udr_out := out\<rparr>)"
        "wr_state (st\<lparr>wr_q := q, udr_out := out\<rparr>) (W @ [ucast (10 :: cint)]) n"
      by (rule print_step [OF wr])
    let ?st = "st\<lparr>wr_q := q, udr_out := out\<rparr>"
    have "rd_state ?st R C" "holds_line ?st line" using rd h by (simp_all add: rd_state_def holds_line_def)
    from flush_step [OF this, of junk]
    obtain q' ms where f: "tty_flush True junk ?st = Some (?st\<lparr>rd_q := q', t_idx := 0\<rparr>, ms)"
        "rd_state (?st\<lparr>rd_q := q', t_idx := 0\<rparr>) R (C @ map scast line)" "holds_line (?st\<lparr>rd_q := q', t_idx := 0\<rparr>) []"
        "zip R (C @ map scast line) = zip R C @ map (\<lambda>m. (v_client m, rw_data m)) ms"
      by blast
    moreover have "wr_state (?st\<lparr>rd_q := q', t_idx := 0\<rparr>) (W @ [10]) n" using p(2) by (simp add: wr_state_def)
    ultimately show ?thesis using d mode idx_zero [OF h] p(1)
      by (simp add: rd_interrupt_def release_def echo_def edit_def)
  next
    case c
    have "wr_state (st\<lparr>t_idx := 0\<rparr>) W n" using wr by (simp add: wr_state_def)
    from print_step [OF this, of junk 10]
    obtain q out where p: "usart0_print_char True junk 10 (st\<lparr>t_idx := 0\<rparr>) = Some (st\<lparr>t_idx := 0, wr_q := q, udr_out := out\<rparr>)"
        "wr_state (st\<lparr>t_idx := 0, wr_q := q, udr_out := out\<rparr>) (W @ [ucast (10 :: cint)]) n"
      by blast
    moreover have "rd_state (st\<lparr>t_idx := 0, wr_q := q, udr_out := out\<rparr>) R C" "holds_line (st\<lparr>t_idx := 0, wr_q := q, udr_out := out\<rparr>) []"
      using rd h by (simp_all add: rd_state_def holds_line_def)
    ultimately show ?thesis using c mode by (simp add: rd_interrupt_def release_def echo_def edit_def)
  next
    case del
    then show ?thesis using mode rd wr h idx_zero [OF h] holds_line_back [OF h]
      by (cases "line = []") (auto simp: rd_interrupt_def release_def echo_def edit_def rd_state_def wr_state_def)
  qed
qed

lemma stored_key:
  assumes rd: "rd_state st R C" and wr: "wr_state st W n" and h: "holds_line st line" and fits: "c \<notin> {3, 4, 8}" "length line < 128"
  shows "\<exists>st' ms ans. rd_interrupt c True junk msg st = Some (st', ms, ans) \<and> rd_state st' R (C @ release c line) \<and>
    wr_state st' (W @ echo c line) n \<and> holds_line st' (edit c line) \<and>
    zip R (C @ release c line) = zip R C @ map (\<lambda>m. (v_client m, rw_data m)) ms"
proof -
  have mode: "ttymode st \<noteq> 0" using h by (simp add: holds_line_def)
  obtain b where b: "store_char (ucast c) st = Some (st\<lparr>tbuf := b, t_idx := t_idx st + 1\<rparr>)"
      "holds_line (st\<lparr>tbuf := b, t_idx := t_idx st + 1\<rparr>) (line @ [c])"
    using store_step [OF h fits(2)] by blast
  show ?thesis
  proof (cases "c = 13 \<or> c = 10")
    case True
    let ?st = "st\<lparr>tbuf := b, t_idx := t_idx st + 1\<rparr>"
    have "rd_state ?st R C" using rd by (simp add: rd_state_def)
    from flush_step [OF this b(2), of junk]
    obtain q' ms where f: "tty_flush True junk ?st = Some (?st\<lparr>rd_q := q', t_idx := 0\<rparr>, ms)"
        "rd_state (?st\<lparr>rd_q := q', t_idx := 0\<rparr>) R (C @ map scast (line @ [c]))" "holds_line (?st\<lparr>rd_q := q', t_idx := 0\<rparr>) []"
        "zip R (C @ map scast (line @ [c])) = zip R C @ map (\<lambda>m. (v_client m, rw_data m)) ms"
      by blast
    moreover have "wr_state (?st\<lparr>rd_q := q', t_idx := 0\<rparr>) W n" using wr by (simp add: wr_state_def)
    ultimately show ?thesis using True mode b(1)
      by (auto simp: rd_interrupt_def release_def echo_def edit_def key_codes Let_def)
  next
    case False
    then show ?thesis using fits(1) b mode rd wr
      by (simp add: rd_interrupt_def release_def echo_def edit_def key_codes Let_def rd_state_def wr_state_def)
  qed
qed

section \<open>Runs\<close>

text \<open>
  A turn: the register, the content of local messages, and the message. \<^verbatim>\<open>kmalloc\<close> always gives memory.
  The result lists the readers that are answered with their characters.
\<close>

type_synonym tty_in = "byte \<times> vfsmsg \<times> vfsmsg"

definition got :: "vfsmsg \<Rightarrow> vfsmsg list \<Rightarrow> vfsmsg \<Rightarrow> (pid_t \<times> cint) list" where
  "got msg reps ans = map (\<lambda>m. (v_client m, rw_data m)) reps @
     (if v_cmd msg = VFS_READC \<and> v_cmd ans = VFS_FINAL then [(v_client ans, rw_data ans)] else [])"

fun tty_run :: "tty_in list \<Rightarrow> tty \<Rightarrow> (tty \<times> (pid_t \<times> cint) list) option" where
  "tty_run [] st = Some (st, [])"
| "tty_run ((udr, junk, msg) # is) st = do {
     (st1, reps, ans) \<leftarrow> tty_usart0 udr True junk msg st;
     (st2, g) \<leftarrow> tty_run is st1;
     Some (st2, got msg reps ans @ g)
   }"

text \<open>
  What a run means, independent of how it is interleaved: the readers in the order of their
  requests; the characters that the keys release; the characters to send; how often the transmitter
  was ready; and that no line is longer than the buffer.
\<close>

definition readers :: "tty_in list \<Rightarrow> pid_t list" where
  "readers is = map (\<lambda>(_, _, m). v_client m) (filter (\<lambda>(_, _, m). v_cmd m = VFS_READC) is)"

definition readies :: "tty_in list \<Rightarrow> nat" where
  "readies is = length (filter (\<lambda>(_, _, m). v_cmd m = VFS_WR_INTERRUPT) is)"

fun released :: "tty_in list \<Rightarrow> byte list \<Rightarrow> cint list" where
  "released [] line = []"
| "released ((c, _, m) # is) line =
     (if v_cmd m = VFS_RD_INTERRUPT then release c line @ released is (edit c line) else released is line)"

fun to_send :: "tty_in list \<Rightarrow> byte list \<Rightarrow> byte list" where
  "to_send [] line = []"
| "to_send ((c, _, m) # is) line =
     (if v_cmd m = VFS_RD_INTERRUPT then echo c line @ to_send is (edit c line)
      else if v_cmd m = VFS_WRITEC then ucast (rw_data m) # to_send is line
      else to_send is line)"

fun lines_fit :: "tty_in list \<Rightarrow> byte list \<Rightarrow> bool" where
  "lines_fit [] line \<longleftrightarrow> True"
| "lines_fit ((c, _, m) # is) line \<longleftrightarrow>
     (if v_cmd m = VFS_RD_INTERRUPT then (c \<in> {3, 4, 8} \<or> length line < 128) \<and> lines_fit is (edit c line)
      else lines_fit is line)"

lemma run_step:
  assumes rd: "rd_state st R C" and wr: "wr_state st W n" and h: "holds_line st line" and fit: "lines_fit ((c, junk, m) # is) line"
  defines "line' \<equiv> if v_cmd m = VFS_RD_INTERRUPT then edit c line else line"
  shows "\<exists>st' reps ans. tty_usart0 c True junk m st = Some (st', reps, ans) \<and>
    rd_state st' (R @ readers [(c, junk, m)]) (C @ released [(c, junk, m)] line) \<and>
    wr_state st' (W @ to_send [(c, junk, m)] line) (n + readies [(c, junk, m)]) \<and> holds_line st' line' \<and>
    zip (R @ readers [(c, junk, m)]) (C @ released [(c, junk, m)] line) = zip R C @ got m reps ans"
proof -
  consider (r) "v_cmd m = VFS_READC" | (w) "v_cmd m = VFS_WRITEC" | (ri) "v_cmd m = VFS_RD_INTERRUPT" | (wi) "v_cmd m = VFS_WR_INTERRUPT"
    | (o) "v_cmd m \<notin> {VFS_READC, VFS_WRITEC, VFS_RD_INTERRUPT, VFS_WR_INTERRUPT}" by blast
  then show ?thesis
  proof cases
    case r
    show ?thesis
      by (rule read_step [OF rd r])
        (use r h wr in \<open>simp add: tty_usart0_def readers_def readies_def line'_def got_def wr_state_def holds_line_def vfs_cmds\<close>)
  next
    case w
    show ?thesis
      by (rule write_step [OF wr w])
        (use w h rd in \<open>simp add: tty_usart0_def readers_def readies_def line'_def got_def rd_state_def holds_line_def vfs_cmds\<close>)
  next
    case ri
    have "\<exists>st' ms ans. rd_interrupt c True junk m st = Some (st', ms, ans) \<and> rd_state st' R (C @ release c line) \<and>
        wr_state st' (W @ echo c line) n \<and> holds_line st' (edit c line) \<and>
        zip R (C @ release c line) = zip R C @ map (\<lambda>m. (v_client m, rw_data m)) ms"
      using control_key [OF rd wr h] stored_key [OF rd wr h] fit ri by (cases "c \<in> {3, 4, 8}") auto
    then show ?thesis using ri by (auto simp: tty_usart0_def readers_def readies_def line'_def got_def vfs_cmds)
  next
    case wi
    show ?thesis
      by (rule ready_step [OF wr wi])
        (use wi h rd in \<open>simp add: tty_usart0_def readers_def readies_def line'_def got_def rd_state_def holds_line_def vfs_cmds\<close>)
  next
    case o
    then show ?thesis using rd wr h by (simp add: tty_usart0_def readers_def readies_def line'_def got_def)
  qed
qed

lemma run_spec:
  assumes "rd_state st R C" "wr_state st W n" "holds_line st line" "lines_fit is line"
  shows "\<exists>st' g. tty_run is st = Some (st', g) \<and> zip (R @ readers is) (C @ released is line) = zip R C @ g \<and>
    wr_state st' (W @ to_send is line) (n + readies is)"
  using assms
proof (induction "is" arbitrary: st R C W n line)
  case Nil
  then show ?case by (simp add: readers_def readies_def)
next
  case (Cons i "is")
  obtain c junk m where i: "i = (c, junk, m)" by (cases i)
  define line' where "line' = (if v_cmd m = VFS_RD_INTERRUPT then edit c line else line)"
  obtain st1 reps ans where s: "tty_usart0 c True junk m st = Some (st1, reps, ans)"
      "rd_state st1 (R @ readers [i]) (C @ released [i] line)" "wr_state st1 (W @ to_send [i] line) (n + readies [i])" "holds_line st1 line'"
      "zip (R @ readers [i]) (C @ released [i] line) = zip R C @ got m reps ans"
    using run_step [OF Cons.prems(1-4) [unfolded i]] unfolding i line'_def by blast
  have app: "readers (i # is) = readers [i] @ readers is" "readies (i # is) = readies [i] + readies is"
      "released (i # is) line = released [i] line @ released is line'" "to_send (i # is) line = to_send [i] line @ to_send is line'"
    by (simp_all add: readers_def readies_def i line'_def)
  have "lines_fit is line'" using Cons.prems(4) by (simp add: i line'_def split: if_splits)
  from Cons.IH [OF s(2-4) this] obtain st' g where r: "tty_run is st1 = Some (st', g)"
      "zip ((R @ readers [i]) @ readers is) ((C @ released [i] line) @ released is line') = zip (R @ readers [i]) (C @ released [i] line) @ g"
      "wr_state st' ((W @ to_send [i] line) @ to_send is line') (n + readies [i] + readies is)"
    by blast
  then show ?case unfolding app using s(1,5) by (simp add: i add.assoc)
qed

text \<open>
  C20. The terminal, for requests and interrupts in any order and as long as no line is longer than the
  buffer of 128 bytes: the n-th request for a character is answered with the n-th character that the
  typed lines release, after editing with backspace, Ctrl-C and Ctrl-D, as soon as both are there; and
  the transmitter gets, one for each time it is ready, the characters that were written and echoed,
  in order.
\<close>

theorem terminal_line_discipline:
  assumes "length buf = 128" "lines_fit is []"
  shows "\<exists>st. tty_run is (tty_init buf) = Some (st, zip (readers is) (released is [])) \<and>
    udr_out st = take (readies is) (to_send is [])"
proof -
  have "holds_line (tty_init buf) []" using assms(1) by (simp add: holds_line_def tty_init_def)
  from run_spec [OF states_init this assms(2)] show ?thesis using wr_state_out by fastforce
qed

text \<open>Ctrl-C, "ab", backspace, "c" and return; two readers, one before the line is complete.\<close>

definition tty_msg :: "cint \<Rightarrow> pid_t \<Rightarrow> cint \<Rightarrow> vfsmsg" where
  "tty_msg cmd c d = \<lparr>v_cmd = cmd, v_client = c, w0 = 0, w1 = 0, w2 = d, w3 = 0\<rparr>"

definition tty_example :: "tty_in list" where
  "tty_example = map (\<lambda>(c, m). (c, tty_msg 0 0 0, m))
     [(0x78, tty_msg VFS_RD_INTERRUPT 0 0), (0x03, tty_msg VFS_RD_INTERRUPT 0 0), (0x61, tty_msg VFS_RD_INTERRUPT 0 0), (0x62, tty_msg VFS_RD_INTERRUPT 0 0),
      (0x08, tty_msg VFS_RD_INTERRUPT 0 0), (0, tty_msg VFS_READC 7 0), (0x63, tty_msg VFS_RD_INTERRUPT 0 0), (0, tty_msg VFS_WR_INTERRUPT 0 0),
      (0x0D, tty_msg VFS_RD_INTERRUPT 0 0), (0, tty_msg VFS_READC 8 0)]"

theorem terminal_line_discipline_witness:
  "\<exists>st. tty_run tty_example (tty_init (replicate 128 0)) = Some (st, [(7, 0x61), (8, 0x63)]) \<and> udr_out st = [10]"
proof -
  have "lines_fit tty_example [] \<and> readers tty_example = [7, 8] \<and> released tty_example [] = [0x61, 0x63, 0x0D] \<and>
      readies tty_example = 1 \<and> to_send tty_example [] = [10]"
    by code_simp
  then show ?thesis using terminal_line_discipline [of "replicate 128 0" tty_example] by simp
qed

text \<open>
  The buffer has no check: the character after 128 others of an unfinished line is stored outside of
  it.
\<close>

lemma terminal_line_overflow:
  assumes "holds_line st line" "length line = 128" "v_cmd m = VFS_RD_INTERRUPT" "c \<notin> {3, 4, 8}"
  shows "tty_usart0 c ok junk m st = None"
proof -
  have "ttymode st \<noteq> 0" "idx (length (tbuf st)) (t_idx st) = None"
    using assms(1,2) by (simp_all add: holds_line_def idx_eq)
  then show ?thesis using assms(3,4)
    by (simp add: tty_usart0_def rd_interrupt_def store_char_def key_codes Let_def vfs_cmds)
qed

end
