(* ===== verification/Vfs.thy ===== *)
theory Vfs
  imports Vfs_Msg "HOL-Library.Multiset"
begin

text \<open>
  \<^verbatim>\<open>servers/vfs.c\<close>: the virtual file system. It keeps the table of devices, the table of open files and
  the file descriptors of every task, and passes requests on to the drivers.

  The drivers are parameters: \<open>drv str pid msg d\<close> is the answer of the driver task \<open>pid\<close> to a message,
  where \<open>d\<close> is the state of all devices and \<open>str\<close> gives the strings in memory. A task struct is referred
  to by its position in the list of tasks, and \<^term>\<open>None\<close> where the C code has a null pointer. An operation
  whose C code has no defined result, or waits for ever, is \<^term>\<open>None\<close>.
\<close>

section \<open>State\<close>

abbreviation MAX_DEV :: nat where "MAX_DEV \<equiv> 6"
abbreviation MAX_FILP :: nat where "MAX_FILP \<equiv> 16"
abbreviation MAX_FD :: nat where "MAX_FD \<equiv> 8"
abbreviation sizeof_vfs_task :: nat where "sizeof_vfs_task \<equiv> 30"

record filp =
  fp_dev :: cint
  fp_ino :: cint
  fp_refcnt :: byte
  fp_pos :: cint

record vfs_task =
  v_pid :: pid_t
  v_fd :: "cint list"
  v_wdev :: cint
  v_wino :: cint
  v_rdev :: cint
  v_rino :: cint

record 'd vfs_st =
  devtab :: "pid_t list"
  filps :: "filp list"
  vtasks :: "vfs_task list"
  pipedev_idx :: cint
  debugn :: cint
  devs :: 'd

type_synonym strings = "addr \<Rightarrow> byte list"

type_synonym 'd drivers = "strings \<Rightarrow> pid_t \<Rightarrow> 'd driver"

type_synonym 'd vres = "('d vfs_st \<times> vfsmsg \<times> vfsmsg act list) option"

definition upd_filp :: "nat \<Rightarrow> (filp \<Rightarrow> filp) \<Rightarrow> 'd vfs_st \<Rightarrow> 'd vfs_st" where
  "upd_filp j f st = st\<lparr>filps := (filps st)[j := f (filps st ! j)]\<rparr>"

definition set_fd :: "nat \<Rightarrow> nat \<Rightarrow> cint \<Rightarrow> 'd vfs_st \<Rightarrow> 'd vfs_st" where
  "set_fd k i fp st =
     st\<lparr>vtasks := (vtasks st)[k := (vtasks st ! k)\<lparr>v_fd := (v_fd (vtasks st ! k))[i := fp]\<rparr>]\<rparr>"

definition inc_refcnt :: "filp \<Rightarrow> filp" where
  "inc_refcnt f = f\<lparr>fp_refcnt := fp_refcnt f + 1\<rparr>"

definition find_empty_devtab :: "'d vfs_st \<Rightarrow> cint" where
  "find_empty_devtab st = find_index (\<lambda>p. p = NULL) (devtab st)"

definition find_empty_filp :: "'d vfs_st \<Rightarrow> cint" where
  "find_empty_filp st = find_index (\<lambda>f. fp_refcnt f = 0) (filps st)"

definition find_empty_fd :: "vfs_task \<Rightarrow> cint" where
  "find_empty_fd t = find_index (\<lambda>fp. cneg fp) (v_fd t)"

section \<open>Talking to drivers\<close>

text \<open>
  A message to the task \<open>pid\<close>. A null pid never answers. \<open>ask\<close> is for the requests that are answered
  once.
\<close>

definition call :: "'d drivers \<Rightarrow> strings \<Rightarrow> pid_t \<Rightarrow> vfsmsg \<Rightarrow> 'd vfs_st \<Rightarrow>
  ('d vfs_st \<times> vfsmsg list \<times> vfsmsg) option"
where
  "call drv str pid msg st =
     (if pid = NULL then None
      else do { (d, reps, ans) \<leftarrow> drv str pid msg (devs st); Some (st\<lparr>devs := d\<rparr>, reps, ans) })"

definition dev_pid :: "cint \<Rightarrow> 'd vfs_st \<Rightarrow> pid_t option" where
  "dev_pid dev st = at (devtab st) dev"

definition ask :: "'d drivers \<Rightarrow> strings \<Rightarrow> cint \<Rightarrow> vfsmsg \<Rightarrow> 'd vfs_st \<Rightarrow> ('d vfs_st \<times> vfsmsg) option" where
  "ask drv str dev msg st = do {
     pid \<leftarrow> dev_pid dev st;
     (st', reps, ans) \<leftarrow> call drv str pid msg st;
     if reps = [] then Some (st', ans) else None
   }"

text \<open>The loop on \<^verbatim>\<open>VFS_REPEAT\<close>: each such message goes on to the task it is for.\<close>

definition pass_on :: "vfsmsg list \<Rightarrow> vfsmsg act list" where
  "pass_on reps = map (\<lambda>m. Send (v_client m) (m\<lparr>v_cmd := VFS_FINAL\<rparr>)) (filter (\<lambda>m. v_client m \<noteq> NULL) reps)"

section \<open>Operations\<close>

definition do_dup :: "nat option \<Rightarrow> vfsmsg \<Rightarrow> 'd vfs_st \<Rightarrow> 'd vres" where
  "do_dup client msg st =
     (if cneg (w0 msg) then Some (st, msg\<lparr>w0 := - 1\<rparr>, [])
      else do {
        k \<leftarrow> client;
        i \<leftarrow> idx MAX_FD (w0 msg);
        let fp = v_fd (vtasks st ! k) ! i;
        if cneg fp then Some (st, msg\<lparr>w0 := - 1\<rparr>, [])
        else do {
          let fd = find_empty_fd (vtasks st ! k);
          if cneg fd then Some (st, msg\<lparr>w0 := - 1\<rparr>, [])
          else do {
            j \<leftarrow> idx MAX_FILP fp;
            Some (upd_filp j inc_refcnt (set_fd k (unat fd) fp st), msg\<lparr>w0 := fd\<rparr>, [])
          }
        }
      })"

text \<open>\<open>pid\<close> is the task that \<^verbatim>\<open>setup_dev\<close> creates with calls to the kernel.\<close>

definition do_mkdev :: "pid_t \<Rightarrow> vfsmsg \<Rightarrow> 'd vfs_st \<Rightarrow> 'd vfs_st \<times> vfsmsg" where
  "do_mkdev pid msg st =
     (let i = find_empty_devtab st
      in if cneg i then (st, msg\<lparr>w0 := - 1\<rparr>)
         else (st\<lparr>devtab := (devtab st)[unat i := pid]\<rparr>, msg\<lparr>w0 := i\<rparr>))"

text \<open>
  \<open>mem size\<close> is what \<^verbatim>\<open>kmalloc\<close> returns for a request of that size; the copy of the name is freed before
  the operation goes on. The rest of the message is uninitialised (\<open>junk\<close>).
\<close>

definition vfs_get_direntry ::
  "'d drivers \<Rightarrow> strings \<Rightarrow> (nat \<Rightarrow> addr) \<Rightarrow> vfsmsg \<Rightarrow> cint \<Rightarrow> cint \<Rightarrow> byte list \<Rightarrow> 'd vfs_st \<Rightarrow> ('d vfs_st \<times> cint) option"
where
  "vfs_get_direntry drv str mem junk dev ino name st = (let n = mem (length name + 1) in
     if n = NULL then Some (st, - 1)
      else do {
        (st', ans) \<leftarrow> ask drv (str(n := name)) dev (junk\<lparr>v_cmd := VFS_GET_DIRENTRY, w1 := ino, w2 := n\<rparr>) st;
        Some (st', link_ino ans)
      })"

abbreviation slash :: byte where
  "slash \<equiv> 0x2F"

function walk_path ::
  "'d drivers \<Rightarrow> strings \<Rightarrow> (nat \<Rightarrow> addr) \<Rightarrow> vfsmsg \<Rightarrow> cint \<Rightarrow> cint \<Rightarrow> byte list \<Rightarrow> 'd vfs_st \<Rightarrow> ('d vfs_st \<times> cint) option"
where
  "walk_path drv str mem junk dev ino path st =
     (if cneg ino then Some (st, ino)
      else let comp = takeWhile (\<lambda>c. c \<noteq> slash) path; rest = dropWhile (\<lambda>c. c \<noteq> slash) path
           in if rest = [] then Some (st, ino)
              else case vfs_get_direntry drv str mem junk dev ino comp st of
                None \<Rightarrow> None
              | Some (st', ino') \<Rightarrow> walk_path drv str mem junk dev ino' (tl rest) st')"
  by auto
termination
proof (relation "measure (\<lambda>(drv, str, mem, junk, dev, ino, path, st). length path)", goal_cases)
  case (2 drv str mem junk dev ino path st comp rest x2 st' ino')
  then have "length rest \<le> length path" "rest \<noteq> []" using length_dropWhile_le [of _ path] by auto
  then have "length (tl rest) < length path" by (cases rest) auto
  then show ?case by simp
qed simp

declare walk_path.simps [simp del]

text \<open>
  The directory of a path: its device, its node, or a negative number. \<open>dev0\<close> is the uninitialised
  variable for the device.
\<close>

definition vfs_get_dir ::
  "'d drivers \<Rightarrow> strings \<Rightarrow> (nat \<Rightarrow> addr) \<Rightarrow> vfsmsg \<Rightarrow> cint \<Rightarrow> nat option \<Rightarrow> addr \<Rightarrow> 'd vfs_st \<Rightarrow> ('d vfs_st \<times> cint \<times> cint) option"
where
  "vfs_get_dir drv str mem junk dev0 client path st =
     (if path = NULL \<or> str path = [] then Some (st, dev0, - 1)
      else do {
        k \<leftarrow> client;
        let t = vtasks st ! k;
        let (dev, ino, p) = (if hd (str path) = slash then (v_rdev t, v_rino t, tl (str path))
                             else (v_wdev t, v_wino t, str path));
        (st', ino') \<leftarrow> walk_path drv str mem junk dev ino p st;
        Some (st', dev, ino')
      })"

text \<open>The loop of \<^verbatim>\<open>basename\<close>: the rest of the path, the base name so far and its length so far.\<close>

fun basename_loop :: "byte list \<Rightarrow> byte list \<Rightarrow> int \<Rightarrow> byte list \<times> int" where
  "basename_loop [] bn len = (bn, len)"
| "basename_loop (c # path) bn len =
     (if c = slash then basename_loop path path (- 1 + 1) else basename_loop path bn (len + 1))"

definition basename :: "byte list \<Rightarrow> byte list \<times> int" where
  "basename path = basename_loop path path 0"

definition vfs_get_node ::
  "'d drivers \<Rightarrow> strings \<Rightarrow> (nat \<Rightarrow> addr) \<Rightarrow> vfsmsg \<Rightarrow> cint \<Rightarrow> nat option \<Rightarrow> addr \<Rightarrow> 'd vfs_st \<Rightarrow> ('d vfs_st \<times> cint \<times> cint) option"
where
  "vfs_get_node drv str mem junk dev0 client path st = do {
     (st', dev, ino) \<leftarrow> vfs_get_dir drv str mem junk dev0 client path st;
     if cneg ino then Some (st', dev, - 1)
     else do {
       let (bn, len) = basename (str path);
       if len > 0
       then do { (st'', ino') \<leftarrow> vfs_get_direntry drv str mem junk dev ino (take (nat len) bn) st'; Some (st'', dev, ino') }
       else Some (st', dev, ino)
     }
   }"

definition do_mknod ::
  "'d drivers \<Rightarrow> strings \<Rightarrow> (nat \<Rightarrow> addr) \<Rightarrow> vfsmsg \<Rightarrow> cint \<Rightarrow> nat option \<Rightarrow> vfsmsg \<Rightarrow> 'd vfs_st \<Rightarrow> 'd vres"
where
  "do_mknod drv str mem junk dev0 client msg st = do {
     let name = mknod_name msg;
     (st1, dev, dir_ino) \<leftarrow> vfs_get_dir drv str mem junk dev0 client name st;
     if cneg dir_ino then Some (st1, msg\<lparr>w0 := - 1\<rparr>, [])
     else do {
       (st2, m2) \<leftarrow> ask drv str dev msg st1;
       let ino = mknod_ino m2;
       (st3, m3) \<leftarrow> ask drv str dev (m2\<lparr>v_cmd := VFS_LINK, w2 := name, w1 := ino, w0 := dir_ino\<rparr>) st2;
       if cneg (link_ino m3) then Some (st3, m3\<lparr>w0 := - 1\<rparr>, [])
       else Some (st3, m3\<lparr>w0 := ino\<rparr>, [])
     }
   }"

definition do_stat ::
  "'d drivers \<Rightarrow> strings \<Rightarrow> (nat \<Rightarrow> addr) \<Rightarrow> vfsmsg \<Rightarrow> cint \<Rightarrow> nat option \<Rightarrow> vfsmsg \<Rightarrow> 'd vfs_st \<Rightarrow> 'd vres"
where
  "do_stat drv str mem junk dev0 client msg st = do {
     (st', dev, ino) \<leftarrow> vfs_get_node drv str mem junk dev0 client (w0 msg) st;
     Some (st', msg\<lparr>w0 := (if cneg ino then - 1 else 0), w1 := dev, w2 := ino\<rparr>, [])
   }"

text \<open>One end of a pipe (the lines for the input and for the output are the same): the new descriptor.\<close>

definition pipe_end :: "nat \<Rightarrow> cint \<Rightarrow> 'd vfs_st \<Rightarrow> ('d vfs_st \<times> cint) option" where
  "pipe_end k ino st =
     (let fp = find_empty_filp st; fd = find_empty_fd (vtasks st ! k)
      in if cneg fp \<or> cneg fd then None
         else Some (set_fd k (unat fd) fp
                (upd_filp (unat fp) (\<lambda>f. inc_refcnt (f\<lparr>fp_dev := pipedev_idx st, fp_ino := ino\<rparr>)) st), fd))"

definition do_pipe :: "'d drivers \<Rightarrow> strings \<Rightarrow> nat option \<Rightarrow> vfsmsg \<Rightarrow> 'd vfs_st \<Rightarrow> 'd vres" where
  "do_pipe drv str client msg st = do {
     (st1, m1) \<leftarrow> ask drv str (pipedev_idx st) (msg\<lparr>v_cmd := VFS_MKNOD\<rparr>) st;
     if cneg (mknod_ino m1) then Some (st1, m1\<lparr>w2 := - 1\<rparr>, [])
     else do {
       let ino = mknod_ino m1;
       (st2, m2) \<leftarrow> ask drv str (pipedev_idx st1) (m1\<lparr>v_cmd := VFS_INODE_GRAB, w0 := ino\<rparr>) st1;
       if cneg (iget_ino m2) then Some (st2, m2\<lparr>w2 := - 1\<rparr>, [])
       else do {
         (st3, m3) \<leftarrow> ask drv str (pipedev_idx st2) (m2\<lparr>v_cmd := VFS_INODE_GRAB, w0 := ino\<rparr>) st2;
         if cneg (iget_ino m3) then Some (st3, m3\<lparr>w2 := - 1\<rparr>, [])
         else if cneg (find_empty_filp st3) then Some (st3, m3\<lparr>w2 := - 1\<rparr>, [])
         else do {
           k \<leftarrow> client;
           case pipe_end k ino st3 of
             None \<Rightarrow> Some (st3, m3\<lparr>w2 := - 1\<rparr>, [])
           | Some (st4, fdi) \<Rightarrow>
               (case pipe_end k ino st4 of
                  None \<Rightarrow> Some (st4, m3\<lparr>w0 := fdi, w2 := - 1\<rparr>, [])
                | Some (st5, fdo) \<Rightarrow> Some (st5, m3\<lparr>w0 := fdi, w1 := fdo, w2 := 0\<rparr>, []))
         }
       }
     }
   }"

definition do_open :: "'d drivers \<Rightarrow> strings \<Rightarrow> nat option \<Rightarrow> vfsmsg \<Rightarrow> 'd vfs_st \<Rightarrow> 'd vres" where
  "do_open drv str client msg st = do {
     k \<leftarrow> client;
     let fd = find_empty_fd (vtasks st ! k);
     if cneg fd then Some (st, msg\<lparr>w0 := - 1\<rparr>, [])
     else do {
       let fp = find_empty_filp st;
       if cneg fp then Some (st, msg\<lparr>w0 := - 1\<rparr>, [])
       else do {
         let st1 = upd_filp (unat fp) (\<lambda>f. f\<lparr>fp_dev := open_dev msg, fp_ino := open_ino msg, fp_pos := 0\<rparr>) st;
         (st2, m2) \<leftarrow> ask drv str (open_dev msg) (msg\<lparr>v_cmd := VFS_INODE_GRAB, w0 := open_ino msg\<rparr>) st1;
         if cneg (iget_ino m2) then Some (st2, m2\<lparr>w0 := - 1\<rparr>, [])
         else Some (set_fd k (unat fd) fp (upd_filp (unat fp) inc_refcnt st2), m2\<lparr>w0 := fd\<rparr>, [])
       }
     }
   }"

definition do_close :: "'d drivers \<Rightarrow> strings \<Rightarrow> nat option \<Rightarrow> vfsmsg \<Rightarrow> 'd vfs_st \<Rightarrow> 'd vres" where
  "do_close drv str client msg st =
     (if cneg (open_fd msg) then Some (st, msg, [])
      else do {
        k \<leftarrow> client;
        i \<leftarrow> idx MAX_FD (open_fd msg);
        let fp = v_fd (vtasks st ! k) ! i;
        let st1 = set_fd k i (- 1) st;
        if cneg fp then Some (st1, msg, [])
        else do {
          j \<leftarrow> idx MAX_FILP fp;
          if fp_refcnt (filps st1 ! j) = 0 then Some (st1, msg, [])
          else do {
            let st2 = upd_filp j (\<lambda>f. f\<lparr>fp_refcnt := fp_refcnt f - 1\<rparr>) st1;
            if fp_refcnt (filps st2 ! j) \<noteq> 0 then Some (st2, msg, [])
            else do {
              pid \<leftarrow> dev_pid (fp_dev (filps st2 ! j)) st2;
              (st3, reps, ans) \<leftarrow> call drv str pid (msg\<lparr>v_cmd := VFS_INODE_RELEASE, w0 := fp_ino (filps st2 ! j)\<rparr>) st2;
              if \<exists>m \<in> set reps. v_client m = NULL then None else Some (st3, ans, pass_on reps)
            }
          }
        }
      })"

definition do_rw :: "'d drivers \<Rightarrow> strings \<Rightarrow> nat option \<Rightarrow> vfsmsg \<Rightarrow> 'd vfs_st \<Rightarrow> 'd vres" where
  "do_rw drv str client msg st =
     (if cneg (rw_fd msg) then Some (st, msg\<lparr>w2 := EOF\<rparr>, [])
      else do {
        k \<leftarrow> client;
        i \<leftarrow> idx MAX_FD (rw_fd msg);
        let fp = v_fd (vtasks st ! k) ! i;
        if cneg fp then Some (st, msg\<lparr>w2 := EOF\<rparr>, [])
        else do {
          j \<leftarrow> idx MAX_FILP fp;
          let f = filps st ! j;
          pid \<leftarrow> dev_pid (fp_dev f) st;
          (st1, reps, ans) \<leftarrow> call drv str pid (msg\<lparr>w0 := fp_ino f, w1 := fp_pos f\<rparr>) st;
          Some (upd_filp j (\<lambda>f. f\<lparr>fp_pos := fp_pos f + rw_bnum ans\<rparr>) st1, ans, pass_on reps)
        }
      })"

definition do_int :: "'d drivers \<Rightarrow> strings \<Rightarrow> vfsmsg \<Rightarrow> 'd vfs_st \<Rightarrow> 'd vres" where
  "do_int drv str msg st = do {
     (st1, reps, ans) \<leftarrow> call drv str (v_client msg) msg st;
     Some (st1, ans, pass_on reps)
   }"

section \<open>Tasks\<close>

definition vfs_findbypid :: "pid_t \<Rightarrow> 'd vfs_st \<Rightarrow> nat option" where
  "vfs_findbypid pid st = find (\<lambda>k. v_pid (vtasks st ! k) = pid) [0..<length (vtasks st)]"

primrec close_all :: "'d drivers \<Rightarrow> strings \<Rightarrow> nat \<Rightarrow> nat list \<Rightarrow> vfsmsg \<Rightarrow> 'd vfs_st \<Rightarrow> 'd vres" where
  "close_all drv str k [] msg st = Some (st, msg, [])"
| "close_all drv str k (i # is) msg st = do {
     (st1, m1, as) \<leftarrow> do_close drv str (Some k) (msg\<lparr>w0 := of_nat i\<rparr>) st;
     (st2, m2, bs) \<leftarrow> close_all drv str k is m1 st1;
     Some (st2, m2, as @ bs)
   }"

definition remove_nth :: "nat \<Rightarrow> 'a list \<Rightarrow> 'a list" where
  "remove_nth k xs = take k xs @ drop (Suc k) xs"

definition vfs_removetask :: "'d drivers \<Rightarrow> strings \<Rightarrow> vfsmsg \<Rightarrow> 'd vfs_st \<Rightarrow> 'd vres" where
  "vfs_removetask drv str msg st =
     (case vfs_findbypid (w0 msg) st of
        None \<Rightarrow> Some (st, msg, [])
      | Some k \<Rightarrow> do {
          (st1, m1, as) \<leftarrow> close_all drv str k [0..<MAX_FD] msg st;
          Some (st1\<lparr>vtasks := remove_nth k (vtasks st1)\<rparr>, m1, as)
        })"

text \<open>A child shares the open files of its parent.\<close>

primrec inherit :: "nat \<Rightarrow> nat \<Rightarrow> nat list \<Rightarrow> 'd vfs_st \<Rightarrow> 'd vfs_st option" where
  "inherit k parent [] st = Some st"
| "inherit k parent (i # is) st =
     (let fp = v_fd (vtasks st ! parent) ! i
      in if cneg fp then inherit k parent is st
         else do {
           j \<leftarrow> idx MAX_FILP fp;
           inherit k parent is (upd_filp j inc_refcnt (set_fd k i fp st))
         })"

text \<open>\<open>ok\<close> says whether \<^verbatim>\<open>kmalloc\<close> returned memory.\<close>

definition vfs_addnewtask :: "'d drivers \<Rightarrow> strings \<Rightarrow> bool \<Rightarrow> vfsmsg \<Rightarrow> 'd vfs_st \<Rightarrow> 'd vres" where
  "vfs_addnewtask drv str ok msg st =
     (if \<not> ok then Some (st, msg\<lparr>w0 := NULL\<rparr>, [])
      else
        let k = length (vtasks st);
            new = \<lparr>v_pid = w0 msg, v_fd = replicate MAX_FD (- 1), v_wdev = 0, v_wino = 0, v_rdev = 0, v_rino = 0\<rparr>;
            st1 = st\<lparr>vtasks := vtasks st @ [new]\<rparr>
        in if w1 msg = NULL
           then Some (st1\<lparr>vtasks := (vtasks st1)[k := new\<lparr>v_rdev := 1, v_rino := 0, v_wdev := 1, v_wino := 0\<rparr>]\<rparr>, msg, [])
           else (case vfs_findbypid (w1 msg) st1 of
             None \<Rightarrow> do {
               (st2, m2, as) \<leftarrow> vfs_removetask drv str msg st1;
               Some (st2, m2\<lparr>w0 := NULL\<rparr>, as)
             }
           | Some p \<Rightarrow> do {
               let t = vtasks st1 ! p;
               let st2 = st1\<lparr>vtasks := (vtasks st1)[k := (vtasks st1 ! k)\<lparr>v_rdev := v_rdev t, v_rino := v_rino t,
                            v_wdev := v_wdev t, v_wino := v_wino t\<rparr>]\<rparr>;
               st3 \<leftarrow> inherit k p [0..<MAX_FD] st2;
               Some (st3, msg, [])
             }))"

definition vfs_init :: "pid_t \<Rightarrow> 'd \<Rightarrow> vfsmsg \<Rightarrow> 'd vfs_st" where
  "vfs_init pid d msg =
     (let st = \<lparr>devtab = replicate MAX_DEV NULL,
                filps = replicate MAX_FILP \<lparr>fp_dev = 0, fp_ino = 0, fp_refcnt = 0, fp_pos = 0\<rparr>,
                vtasks = [], pipedev_idx = 0, debugn = 0, devs = d\<rparr>;
          (st1, m) = do_mkdev pid msg st
      in st1\<lparr>pipedev_idx := w0 m\<rparr>)"

section \<open>The server loop\<close>

text \<open>
  The inputs of one turn of the loop: the sender and its message; the results of \<^verbatim>\<open>kmalloc\<close> and
  \<^verbatim>\<open>createtask\<close>; the strings in memory; uninitialised variables.
\<close>

record vfs_in =
  i_client :: pid_t
  i_msg :: vfsmsg
  i_mem :: "nat \<Rightarrow> addr"
  i_task :: pid_t
  i_str :: strings
  i_junk :: vfsmsg
  i_dev :: cint

definition vfs_dispatch :: "'d drivers \<Rightarrow> vfs_in \<Rightarrow> 'd vfs_st \<Rightarrow> 'd vres" where
  "vfs_dispatch drv i st =
     (let msg = i_msg i; cmd = v_cmd msg; str = i_str i; client = vfs_findbypid (i_client i) st
      in if cmd = VFS_ADDTASK then vfs_addnewtask drv str (i_mem i sizeof_vfs_task \<noteq> NULL) msg st
         else if cmd = VFS_DELTASK then vfs_removetask drv str msg st
         else if cmd = VFS_MKDEV then (let r = do_mkdev (i_task i) msg st in Some (fst r, snd r, []))
         else if cmd = VFS_MKNOD then do_mknod drv str (i_mem i) (i_junk i) (i_dev i) client msg st
         else if cmd = VFS_DUP then do_dup client msg st
         else if cmd = VFS_PIPE then do_pipe drv str client msg st
         else if cmd = VFS_STAT then do_stat drv str (i_mem i) (i_junk i) (i_dev i) client msg st
         else if cmd = VFS_OPEN then do_open drv str client msg st
         else if cmd = VFS_CLOSE then do_close drv str client msg st
         else if cmd = VFS_RD_INTERRUPT \<or> cmd = VFS_WR_INTERRUPT then do_int drv str msg st
         else if cmd = VFS_READC \<or> cmd = VFS_WRITEC then do_rw drv str client (msg\<lparr>v_client := i_client i\<rparr>) st
         else if cmd = VFS_DEBUG
         then (let st' = (if w0 msg \<noteq> 0 then st\<lparr>debugn := 0\<rparr> else st) in Some (st', msg\<lparr>w0 := debugn st'\<rparr>, []))
         else Some (st, msg, []))"

definition vfs_step :: "'d drivers \<Rightarrow> vfs_in \<Rightarrow> 'd vfs_st \<Rightarrow> ('d vfs_st \<times> vfsmsg act list) option" where
  "vfs_step drv i st = do {
     (st', m, as) \<leftarrow> vfs_dispatch drv i st;
     let client = (if v_cmd (i_msg i) = VFS_RD_INTERRUPT \<or> v_cmd (i_msg i) = VFS_WR_INTERRUPT
                   then v_client m else i_client i);
     Some (st', as @ (if v_cmd m \<noteq> VFS_HOLD \<and> client \<noteq> NULL
                      then [Send client (m\<lparr>v_cmd := VFS_FINAL\<rparr>)] else []))
   }"

lemmas [server_defs] = do_dup_def do_mkdev_def do_mknod_def do_stat_def do_pipe_def do_open_def do_close_def do_rw_def
  do_int_def vfs_removetask_def vfs_addnewtask_def vfs_dispatch_def vfs_step_def

section \<open>Reference counts\<close>

text \<open>How many descriptors of all tasks refer to an open file.\<close>

definition refs :: "'d vfs_st \<Rightarrow> cint \<Rightarrow> nat" where
  "refs st y = (\<Sum>t \<leftarrow> vtasks st. count (mset (v_fd t)) y)"

definition task_ok :: "vfs_task \<Rightarrow> bool" where
  "task_ok t \<longleftrightarrow> length (v_fd t) = MAX_FD \<and> (\<forall>fp \<in> set (v_fd t). fp = - 1 \<or> unat fp < MAX_FILP)"

text \<open>
  The invariant: every descriptor is \<open>-1\<close> or refers to the table of open files, and every entry of the
  table counts the descriptors that refer to it. The count is a \<^verbatim>\<open>char\<close>, which 31 tasks cannot overflow.
\<close>

definition vfs_inv :: "'d vfs_st \<Rightarrow> bool" where
  "vfs_inv st \<longleftrightarrow> length (devtab st) = MAX_DEV \<and> length (filps st) = MAX_FILP \<and> length (vtasks st) \<le> 31 \<and>
     (\<forall>t \<in> set (vtasks st). task_ok t) \<and>
     (\<forall>j < MAX_FILP. unat (fp_refcnt (filps st ! j)) = refs st (of_nat j))"

lemma vfs_inv_parts:
  assumes "vfs_inv st"
  shows "length (devtab st) = 6" "length (filps st) = 16" "length (vtasks st) \<le> 31"
    and "t \<in> set (vtasks st) \<Longrightarrow> task_ok t"
    and "k < length (vtasks st) \<Longrightarrow> task_ok (vtasks st ! k)"
    and "j < 16 \<Longrightarrow> unat (fp_refcnt (filps st ! j)) = refs st (of_nat j)"
  using assms by (auto simp: vfs_inv_def)

lemma vfs_inv_devs [simp]: "vfs_inv (st\<lparr>devs := d\<rparr>) = vfs_inv st" "vfs_inv (st\<lparr>debugn := n\<rparr>) = vfs_inv st"
  by (simp_all add: vfs_inv_def refs_def)

lemma slot_cases:
  assumes "vfs_inv st" "k < length (vtasks st)" "i < MAX_FD"
  shows "v_fd (vtasks st ! k) ! i = - 1 \<and> cneg (v_fd (vtasks st ! k) ! i) \<or>
    unat (v_fd (vtasks st ! k) ! i) < 16 \<and> \<not> cneg (v_fd (vtasks st ! k) ! i)"
proof -
  have "task_ok (vtasks st ! k)" using vfs_inv_parts(5) [OF assms(1,2)] .
  then have "v_fd (vtasks st ! k) ! i = - 1 \<or> unat (v_fd (vtasks st ! k) ! i) < 16"
    using assms(3) by (auto simp: task_ok_def)
  then show ?thesis by (auto simp: cneg_iff simp del: cneg_minus_one) (auto simp: cneg_iff [symmetric])
qed

lemma set_fd_sels [simp]:
  "filps (set_fd k i x st) = filps st" "devtab (set_fd k i x st) = devtab st" "devs (set_fd k i x st) = devs st"
  "length (vtasks (set_fd k i x st)) = length (vtasks st)" "pipedev_idx (set_fd k i x st) = pipedev_idx st"
  by (simp_all add: set_fd_def)

lemma upd_filp_sels [simp]:
  "vtasks (upd_filp j f st) = vtasks st" "devtab (upd_filp j f st) = devtab st" "devs (upd_filp j f st) = devs st"
  "length (filps (upd_filp j f st)) = length (filps st)" "pipedev_idx (upd_filp j f st) = pipedev_idx st"
  "refs (upd_filp j f st) = refs st"
  by (simp_all add: upd_filp_def refs_def fun_eq_iff)

lemma upd_filp_nth:
  "j < length (filps st) \<Longrightarrow> filps (upd_filp j f st) ! i = (if i = j then f (filps st ! j) else filps st ! i)"
  by (simp add: upd_filp_def nth_list_update)

lemma set_fd_nth:
  "k < length (vtasks st) \<Longrightarrow> vtasks (set_fd k i x st) ! l =
     (if l = k then (vtasks st ! k)\<lparr>v_fd := (v_fd (vtasks st ! k))[i := x]\<rparr> else vtasks st ! l)"
  by (simp add: set_fd_def nth_list_update)

lemma upd_set_comm: "upd_filp j f (set_fd k i x st) = set_fd k i x (upd_filp j f st)"
  by (simp add: upd_filp_def set_fd_def)

lemma refs_set_fd:
  assumes "k < length (vtasks st)" "i < length (v_fd (vtasks st ! k))"
  shows "refs (set_fd k i x st) y + of_bool (v_fd (vtasks st ! k) ! i = y) = refs st y + of_bool (x = y)"
proof -
  let ?t = "vtasks st ! k"
  let ?c = "\<lambda>t. count (mset (v_fd t)) y"
  let ?t' = "?t\<lparr>v_fd := (v_fd ?t)[i := x]\<rparr>"
  have pos: "0 < count (mset (v_fd ?t)) (v_fd ?t ! i)" using assms(2) by simp
  have "mset (v_fd ?t') = add_mset x (mset (v_fd ?t) - {#v_fd ?t ! i#})"
    using assms(2) by (simp add: mset_update)
  then have c: "?c ?t' + of_bool (v_fd ?t ! i = y) = ?c ?t + of_bool (x = y)"
    using pos by (auto simp del: count_greater_zero_iff)
  have "?c ?t \<le> (\<Sum>t \<leftarrow> vtasks st. ?c t)"
    using assms(1) by (intro member_le_sum_list) auto
  moreover have "refs (set_fd k i x st) y = refs st y + ?c ?t' - ?c ?t"
    using assms(1) by (simp add: refs_def set_fd_def map_update sum_list_update)
  ultimately show ?thesis using c unfolding refs_def by linarith
qed

lemma refs_bound:
  assumes "\<forall>t \<in> set (vtasks st). task_ok t"
  shows "refs st y \<le> 8 * length (vtasks st)"
proof -
  have "count (mset (v_fd t)) y \<le> 8" if "t \<in> set (vtasks st)" for t
    using that assms count_le_size [of "mset (v_fd t)" y] by (force simp: task_ok_def)
  then have "(\<Sum>t \<leftarrow> vtasks st. count (mset (v_fd t)) y) \<le> (\<Sum>t \<leftarrow> vtasks st. 8)"
    by (intro sum_list_mono) auto
  then show ?thesis by (simp add: refs_def sum_list_triv mult.commute)
qed

lemma task_ok_set_fd:
  assumes "\<forall>t \<in> set (vtasks st). task_ok t" "k < length (vtasks st)" "x = - 1 \<or> unat x < 16"
  shows "\<forall>t \<in> set (vtasks (set_fd k i x st)). task_ok t"
proof
  fix t assume t: "t \<in> set (vtasks (set_fd k i x st))"
  have k: "task_ok (vtasks st ! k)" using assms by simp
  have "t = (vtasks st ! k)\<lparr>v_fd := (v_fd (vtasks st ! k))[i := x]\<rparr> \<or> t \<in> set (vtasks st)"
    using t set_update_subset_insert by (fastforce simp: set_fd_def)
  moreover have "\<forall>fp \<in> set ((v_fd (vtasks st ! k))[i := x]). fp = - 1 \<or> unat fp < 16"
    using k assms(3) set_update_subset_insert [of "v_fd (vtasks st ! k)" i x] unfolding task_ok_def by blast
  ultimately show "task_ok t" using assms(1) k by (auto simp: task_ok_def)
qed

lemma refs_byte:
  assumes "vfs_inv st"
  shows "refs st y \<le> 248"
  using refs_bound [of st y] assms by (auto simp: vfs_inv_def)

lemma of_nat_slot: "unat (fp :: cint) < 16 \<Longrightarrow> of_nat (unat fp) = fp" "j < 16 \<Longrightarrow> (of_nat j :: cint) \<noteq> - 1"
  "j < 16 \<Longrightarrow> i < 16 \<Longrightarrow> (of_nat i :: cint) = of_nat j \<longleftrightarrow> i = j"
proof -
  show "j < 16 \<Longrightarrow> (of_nat j :: cint) \<noteq> - 1"
  proof
    assume "j < 16" "(of_nat j :: cint) = - 1"
    then have "unat (of_nat j :: cint) = unat (- 1 :: cint)" by simp
    then show False using \<open>j < 16\<close> by (simp add: unat_of_nat unsigned_minus_1_eq_mask mask_eq_exp_minus_1)
  qed
  show "j < 16 \<Longrightarrow> i < 16 \<Longrightarrow> (of_nat i :: cint) = of_nat j \<longleftrightarrow> i = j"
  proof -
    assume "j < 16" "i < 16"
    then have "unat (of_nat i :: cint) = i" "unat (of_nat j :: cint) = j" by (simp_all add: unat_of_nat)
    then show ?thesis by metis
  qed
qed simp

text \<open>A free slot takes over a reference.\<close>

lemma inv_share:
  assumes inv: "vfs_inv st" and k: "k < length (vtasks st)" "i < MAX_FD" and old: "v_fd (vtasks st ! k) ! i = - 1"
    and fp: "unat fp < MAX_FILP" and f: "fp_refcnt (f (filps st ! unat fp)) = fp_refcnt (filps st ! unat fp) + 1"
  shows "vfs_inv (upd_filp (unat fp) f (set_fd k i fp st))"
proof -
  let ?st = "set_fd k i fp st"
  note p = vfs_inv_parts [OF inv]
  have len: "i < length (v_fd (vtasks st ! k))" using p(5) [OF k(1)] k(2) by (simp add: task_ok_def)
  have tasks: "\<forall>t \<in> set (vtasks ?st). task_ok t"
    using p(4) by (intro task_ok_set_fd k) (use fp in auto)
  have refs: "refs ?st (of_nat j) = refs st (of_nat j) + of_bool (j = unat fp)" if "j < 16" for j
  proof -
    have "(- 1 = (of_nat j :: cint)) = False" using of_nat_slot(2) [OF that] by metis
    moreover have "(fp = of_nat j) = (j = unat fp)" using of_nat_slot(1) [OF fp] that by (auto simp: unat_of_nat)
    ultimately show ?thesis using refs_set_fd [OF k(1) len, of fp "of_nat j"] old by simp
  qed
  have "refs ?st (of_nat (unat fp)) \<le> 8 * length (vtasks ?st)" by (rule refs_bound [OF tasks])
  then have "unat (fp_refcnt (filps st ! unat fp)) < 255"
    using refs [OF fp] p(3) p(6) [OF fp] by simp
  then have "unat (fp_refcnt (filps st ! unat fp) + 1) = unat (fp_refcnt (filps st ! unat fp)) + 1"
    by (simp add: unat_plus)
  then have "\<forall>j < 16. unat (fp_refcnt (filps (upd_filp (unat fp) f ?st) ! j)) = refs (upd_filp (unat fp) f ?st) (of_nat j)"
    using refs p(2,6) fp f by (auto simp: upd_filp_nth)
  then show ?thesis using p(1-3) tasks by (simp add: vfs_inv_def)
qed

text \<open>A slot gives up its reference.\<close>

lemma inv_unshare:
  assumes inv: "vfs_inv st" and k: "k < length (vtasks st)" "i < MAX_FD"
  shows "cneg (v_fd (vtasks st ! k) ! i) \<Longrightarrow> vfs_inv (set_fd k i (- 1) st)"
    and "\<not> cneg (v_fd (vtasks st ! k) ! i) \<Longrightarrow>
      fp_refcnt (filps st ! unat (v_fd (vtasks st ! k) ! i)) \<noteq> 0 \<and>
      vfs_inv (upd_filp (unat (v_fd (vtasks st ! k) ! i)) (\<lambda>f. f\<lparr>fp_refcnt := fp_refcnt f - 1\<rparr>) (set_fd k i (- 1) st))"
proof -
  let ?fp = "v_fd (vtasks st ! k) ! i"
  let ?st = "set_fd k i (- 1) st"
  note p = vfs_inv_parts [OF inv]
  have len: "i < length (v_fd (vtasks st ! k))" using p(5) [OF k(1)] k(2) by (simp add: task_ok_def)
  have tasks: "\<forall>t \<in> set (vtasks ?st). task_ok t" using p(4) by (intro task_ok_set_fd k) auto
  have refs: "refs ?st (of_nat j) + of_bool (?fp = of_nat j) = refs st (of_nat j)" if "j < 16" for j
    using refs_set_fd [OF k(1) len, of "- 1" "of_nat j"] of_nat_slot(2) [OF that] by auto
  show "vfs_inv ?st" if "cneg ?fp"
  proof -
    have "?fp = - 1" using slot_cases [OF inv k] that by auto
    with refs of_nat_slot(2) have "\<forall>j < 16. refs ?st (of_nat j) = refs st (of_nat j)" by fastforce
    then show ?thesis using p(1-3,6) tasks by (simp add: vfs_inv_def)
  qed
  assume "\<not> cneg ?fp"
  then have fp: "unat ?fp < 16" using slot_cases [OF inv k] by auto
  have eq: "(?fp = of_nat j) = (j = unat ?fp)" if "j < 16" for j
    using of_nat_slot(1) [OF fp] that by (auto simp: unat_of_nat)
  let ?f = "filps st ! unat ?fp"
  have "0 < unat (fp_refcnt ?f)" using refs [OF fp] eq [OF fp] p(6) [OF fp] by simp
  then have nz: "fp_refcnt ?f \<noteq> 0" by (metis unat_0 less_irrefl)
  have dec: "unat (fp_refcnt ?f - 1) = unat (fp_refcnt ?f) - 1" using nz by (rule unat_minus_one)
  have "\<forall>j < 16. unat (fp_refcnt (filps (upd_filp (unat ?fp) (\<lambda>f. f\<lparr>fp_refcnt := fp_refcnt f - 1\<rparr>) ?st) ! j)) =
      refs ?st (of_nat j)"
    using refs eq p(2,6) fp dec by (fastforce simp: upd_filp_nth)
  then show "fp_refcnt ?f \<noteq> 0 \<and> vfs_inv (upd_filp (unat ?fp) (\<lambda>f. f\<lparr>fp_refcnt := fp_refcnt f - 1\<rparr>) ?st)"
    using nz p(1-3) tasks by (simp add: vfs_inv_def)
qed

end
