(* ===== verification/Pipe_Dev.thy ===== *)
theory Pipe_Dev
  imports Vfs_Msg
begin

text \<open>
  \<^verbatim>\<open>drivers/pipe.c\<close>: the pipe device. A node holds the requests that wait for a partner: readers or
  writers, never both. The step is one turn of the driver's loop for a request of the file system.
\<close>

section \<open>Model\<close>

abbreviation PD_MAX_NODES :: nat where
  "PD_MAX_NODES \<equiv> 8"

record pdnode =
  n_refcnt :: byte
  n_links :: byte
  n_msgs :: "vfsmsg list"

type_synonym pd_nodes = "pdnode option list"

definition pd_init :: pd_nodes where
  "pd_init = replicate PD_MAX_NODES None"

definition pd_find_empty_node :: "pd_nodes \<Rightarrow> cint" where
  "pd_find_empty_node nodes = find_index (\<lambda>n. n = None) nodes"

text \<open>
  The cases of the switch. \<open>ok\<close> says whether \<^verbatim>\<open>kmalloc\<close> returned memory, which the code takes for
  granted. An index outside the table and a null node that is dereferenced are \<^term>\<open>None\<close>.
\<close>

definition pd_mknod :: "bool \<Rightarrow> pd_nodes driver" where
  "pd_mknod ok msg nodes = do {
     let ino = pd_find_empty_node nodes;
     i \<leftarrow> idx (length nodes) ino;
     if ok then Some (nodes[i := Some \<lparr>n_refcnt = 0, n_links = 0, n_msgs = []\<rparr>], [], msg\<lparr>w0 := ino\<rparr>) else None
   }"

definition pd_link :: "pd_nodes driver" where
  "pd_link msg nodes = do {
     i \<leftarrow> idx (length nodes) (link_ino msg);
     case nodes ! i of
       None \<Rightarrow> Some (nodes, [], msg\<lparr>w1 := - 1\<rparr>)
     | Some n \<Rightarrow> Some (nodes[i := Some (n\<lparr>n_links := n_links n + 1\<rparr>)], [], msg)
   }"

definition pd_unlink :: "pd_nodes driver" where
  "pd_unlink msg nodes = do {
     i \<leftarrow> idx (length nodes) (link_ino msg);
     case nodes ! i of
       None \<Rightarrow> Some (nodes, [], msg\<lparr>w1 := - 1\<rparr>)
     | Some n \<Rightarrow>
         let n' = n\<lparr>n_links := n_links n - 1\<rparr>
         in if n_refcnt n' \<noteq> 0 \<or> n_links n' \<noteq> 0 then Some (nodes[i := Some n'], [], msg)
            else Some (nodes[i := None], [], msg)
   }"

definition pd_grab :: "pd_nodes driver" where
  "pd_grab msg nodes = do {
     i \<leftarrow> idx (length nodes) (iget_ino msg);
     case nodes ! i of
       None \<Rightarrow> Some (nodes, [], msg\<lparr>w0 := - 1\<rparr>)
     | Some n \<Rightarrow> Some (nodes[i := Some (n\<lparr>n_refcnt := n_refcnt n + 1\<rparr>)], [], msg)
   }"

text \<open>The message that tells a waiting task that the other end is gone.\<close>

definition pd_eof :: "vfsmsg \<Rightarrow> vfsmsg" where
  "pd_eof m = m\<lparr>w2 := EOF, w1 := 0, v_cmd := VFS_REPEAT\<rparr>"

definition pd_release :: "pd_nodes driver" where
  "pd_release msg nodes = do {
     i \<leftarrow> idx (length nodes) (iget_ino msg);
     case nodes ! i of
       None \<Rightarrow> Some (nodes, [], msg\<lparr>w0 := - 1\<rparr>)
     | Some n \<Rightarrow>
         let n' = n\<lparr>n_refcnt := n_refcnt n - 1\<rparr>
         in if n_refcnt n' = 1
            then Some (nodes[i := Some (n'\<lparr>n_msgs := []\<rparr>)], map pd_eof (n_msgs n'), msg)
            else if n_refcnt n' \<noteq> 0 then Some (nodes[i := Some n'], [], msg)
            else if n_links n' \<noteq> 0 then Some (nodes[i := Some n'], [], msg)
            else Some (nodes[i := None], [], msg)
   }"

text \<open>A request that meets a waiting partner: the waiting message as sent back, and the new message.\<close>

definition pd_match :: "vfsmsg \<Rightarrow> vfsmsg \<Rightarrow> vfsmsg \<times> vfsmsg" where
  "pd_match waiting msg =
     (let w' = (if v_cmd waiting = VFS_READC then waiting\<lparr>w2 := rw_data msg\<rparr> else waiting);
          m' = (if v_cmd waiting = VFS_WRITEC then msg\<lparr>w2 := rw_data waiting\<rparr> else msg)
      in (w'\<lparr>v_cmd := VFS_REPEAT, w1 := 0\<rparr>, m'))"

definition pd_rw :: "bool \<Rightarrow> pd_nodes driver" where
  "pd_rw ok msg nodes = do {
     i \<leftarrow> idx (length nodes) (rw_ino msg);
     n \<leftarrow> nodes ! i;
     case n_msgs n of
       [] \<Rightarrow>
         if sint (n_refcnt n) \<le> 1 \<and> n_links n = 0
         then Some (nodes, [], msg\<lparr>w2 := EOF, w1 := 0\<rparr>)
         else if ok then Some (nodes[i := Some (n\<lparr>n_msgs := [msg]\<rparr>)], [], msg\<lparr>v_cmd := VFS_HOLD, w1 := 0\<rparr>)
         else None
     | c # cs \<Rightarrow>
         if v_cmd c = v_cmd msg
         then if ok
              then Some (nodes[i := Some (n\<lparr>n_msgs := n_msgs n @ [msg]\<rparr>)], [], msg\<lparr>v_cmd := VFS_HOLD, w1 := 0\<rparr>)
              else None
         else let (w, m) = pd_match c msg
              in Some (nodes[i := Some (n\<lparr>n_msgs := cs\<rparr>)], [w], m\<lparr>w1 := 0\<rparr>)
   }"

definition pipedev :: "bool \<Rightarrow> pd_nodes driver" where
  "pipedev ok msg nodes =
     (if v_cmd msg = VFS_MKNOD then pd_mknod ok msg nodes
      else if v_cmd msg = VFS_LINK then pd_link msg nodes
      else if v_cmd msg = VFS_UNLINK then pd_unlink msg nodes
      else if v_cmd msg = VFS_INODE_GRAB then pd_grab msg nodes
      else if v_cmd msg = VFS_INODE_RELEASE then pd_release msg nodes
      else if v_cmd msg = VFS_WRITEC \<or> v_cmd msg = VFS_READC then pd_rw ok msg nodes
      else Some (nodes, [], msg))"

lemmas [server_defs] = pd_mknod_def pd_link_def pd_unlink_def pd_grab_def pd_release_def pd_rw_def pipedev_def

section \<open>Invariant\<close>

text \<open>All requests that wait at a node are of the same kind.\<close>

definition pd_node_ok :: "pdnode \<Rightarrow> bool" where
  "pd_node_ok n \<longleftrightarrow> (\<exists>c \<in> {VFS_READC, VFS_WRITEC}. \<forall>m \<in> set (n_msgs n). v_cmd m = c)"

definition pd_ok :: "pd_nodes \<Rightarrow> bool" where
  "pd_ok nodes \<longleftrightarrow> length nodes = PD_MAX_NODES \<and> (\<forall>n. Some n \<in> set nodes \<longrightarrow> pd_node_ok n)"

lemma pd_node_ok_empty [simp]: "n_msgs n = [] \<Longrightarrow> pd_node_ok n"
  by (auto simp: pd_node_ok_def)

lemma pd_ok_update:
  assumes "pd_ok nodes" "case x of None \<Rightarrow> True | Some n \<Rightarrow> pd_node_ok n"
  shows "pd_ok (nodes[i := x])"
  using assms set_update_subset_insert [of nodes i x] by (auto simp: pd_ok_def split: option.splits)

lemma pd_ok_nth: "pd_ok nodes \<Longrightarrow> i < PD_MAX_NODES \<Longrightarrow> nodes ! i = Some n \<Longrightarrow> pd_node_ok n"
  by (metis nth_mem pd_ok_def)

lemma pd_rw_ok:
  assumes "pd_ok nodes" "pd_rw ok msg nodes = Some (nodes', reps, ans)" "v_cmd msg \<in> {VFS_READC, VFS_WRITEC}"
  shows "pd_ok nodes'"
proof -
  obtain i n where i: "idx (length nodes) (rw_ino msg) = Some i" "nodes ! i = Some n"
    using assms(2) by (auto simp: pd_rw_def split: Option.bind_splits)
  then have "i < PD_MAX_NODES" using assms(1) by (simp add: pd_ok_def idx_Some_iff)
  with assms(1) i have n: "pd_node_ok n" by (intro pd_ok_nth)
  show ?thesis
    using assms i n
    by (auto simp: pd_rw_def pd_node_ok_def Let_def split: list.splits if_splits prod.splits
        intro!: pd_ok_update)
qed

lemma pipedev_ok:
  assumes "pd_ok nodes" "pipedev ok msg nodes = Some (nodes', reps, ans)"
  shows "pd_ok nodes'"
proof (cases "v_cmd msg \<in> {VFS_READC, VFS_WRITEC}")
  case True
  with assms pd_rw_ok [of nodes ok msg] show ?thesis by (auto simp: pipedev_def vfs_cmds)
next
  case False
  have n: "pd_node_ok n" if "idx (length nodes) k = Some i" "nodes ! i = Some n" for k i n
    using that assms(1) by (intro pd_ok_nth [of nodes i]) (auto simp: pd_ok_def idx_Some_iff)
  have up: "pd_ok (nodes[i := x])" if "case x of None \<Rightarrow> True | Some n \<Rightarrow> pd_node_ok n" for i x
    using assms(1) that by (rule pd_ok_update)
  show ?thesis
    using assms False n
    by (auto simp: pipedev_def pd_mknod_def pd_link_def pd_unlink_def pd_grab_def pd_release_def pd_node_ok_def Let_def
        split: if_splits option.splits Option.bind_splits intro!: up)
qed

section \<open>A pipe as a channel\<close>

text \<open>
  What the two ends see: a reader that gets a character, a writer whose character was taken. The
  messages with \<^verbatim>\<open>VFS_REPEAT\<close> answer tasks of the other kind than the new request.
\<close>

datatype pipe_event = Got pid_t cint | Put pid_t

definition pd_events :: "vfsmsg \<Rightarrow> vfsmsg list \<Rightarrow> vfsmsg \<Rightarrow> pipe_event list" where
  "pd_events msg reps ans =
     (if v_cmd msg = VFS_WRITEC
      then map (\<lambda>m. Got (v_client m) (rw_data m)) reps @
           (if v_cmd ans = VFS_HOLD then [] else [Put (v_client ans)])
      else map (\<lambda>m. Put (v_client m)) reps @
           (if v_cmd ans = VFS_HOLD then [] else [Got (v_client ans) (rw_data ans)]))"

definition pipe_chan :: "vfsmsg \<Rightarrow> pd_nodes \<Rightarrow> (pd_nodes \<times> pipe_event list) option" where
  "pipe_chan msg nodes = do {
     (nodes', reps, ans) \<leftarrow> pipedev True msg nodes;
     Some (nodes', pd_events msg reps ans)
   }"

definition of_kind :: "cint \<Rightarrow> vfsmsg list \<Rightarrow> vfsmsg list" where
  "of_kind c ms = filter (\<lambda>m. v_cmd m = c) ms"

lemma of_kind_simps [simp]:
  "of_kind c [] = []" "of_kind c (m # ms) = (if v_cmd m = c then m # of_kind c ms else of_kind c ms)"
  "of_kind c (ms @ ns) = of_kind c ms @ of_kind c ns"
  by (simp_all add: of_kind_def)

definition gots :: "pipe_event list \<Rightarrow> (pid_t \<times> cint) list" where
  "gots ev = List.map_filter (\<lambda>e. case e of Got c d \<Rightarrow> Some (c, d) | Put _ \<Rightarrow> None) ev"

definition puts :: "pipe_event list \<Rightarrow> pid_t list" where
  "puts ev = List.map_filter (\<lambda>e. case e of Got _ _ \<Rightarrow> None | Put c \<Rightarrow> Some c) ev"

lemma event_simps [simp]:
  "gots [] = []" "gots (Got c d # ev) = (c, d) # gots ev" "gots (Put c # ev) = gots ev"
  "gots (ev @ ev') = gots ev @ gots ev'"
  "puts [] = []" "puts (Got c d # ev) = puts ev" "puts (Put c # ev) = c # puts ev"
  "puts (ev @ ev') = puts ev @ puts ev'"
  by (simp_all add: gots_def puts_def map_filter_def)

text \<open>The step on an open pipe: queue the request, or serve the first request of the other kind.\<close>

definition pd_open :: "pdnode \<Rightarrow> bool" where
  "pd_open n \<longleftrightarrow> \<not> (sint (n_refcnt n) \<le> 1 \<and> n_links n = 0)"

lemma pipe_chan_step:
  assumes "idx (length nodes) (rw_ino msg) = Some i" "nodes ! i = Some n" "pd_open n"
    and "v_cmd msg \<in> {VFS_READC, VFS_WRITEC}" "pd_node_ok n"
  shows "pipe_chan msg nodes =
    (case n_msgs n of
       c # cs \<Rightarrow>
         if v_cmd c \<noteq> v_cmd msg
         then Some (nodes[i := Some (n\<lparr>n_msgs := cs\<rparr>)],
           if v_cmd msg = VFS_WRITEC then [Got (v_client c) (rw_data msg), Put (v_client msg)]
           else [Put (v_client c), Got (v_client msg) (rw_data c)])
         else Some (nodes[i := Some (n\<lparr>n_msgs := n_msgs n @ [msg]\<rparr>)], [])
     | [] \<Rightarrow> Some (nodes[i := Some (n\<lparr>n_msgs := n_msgs n @ [msg]\<rparr>)], []))"
proof -
  have "v_cmd c \<in> {VFS_READC, VFS_WRITEC}" if "c \<in> set (n_msgs n)" for c
    using that assms(5) by (auto simp: pd_node_ok_def)
  then show ?thesis
    using assms(1-4)
    by (cases "n_msgs n")
      (auto simp: pipe_chan_def pipedev_def pd_rw_def pd_match_def pd_events_def pd_open_def vfs_cmds Let_def)
qed

text \<open>What is to be shown of a run from nodes of which the one with index \<open>i\<close> is \<open>n\<close>.\<close>

definition fifo_run :: "nat \<Rightarrow> vfsmsg list \<Rightarrow> pd_nodes \<Rightarrow> pdnode \<Rightarrow> bool" where
  "fifo_run i ms nodes n \<longleftrightarrow>
     (let R = map v_client (of_kind VFS_READC (n_msgs n @ ms)); W = of_kind VFS_WRITEC (n_msgs n @ ms)
      in \<exists>nodes' n' ev. pserve pipe_chan ms nodes = Some (nodes', ev) \<and> nodes' ! i = Some n' \<and>
        gots ev = zip R (map rw_data W) \<and> puts ev = take (length R) (map v_client W) \<and>
        map v_client (of_kind VFS_READC (n_msgs n')) = drop (length W) R \<and>
        of_kind VFS_WRITEC (n_msgs n') = drop (length R) W)"

lemma one_kind: "pd_node_ok n \<Longrightarrow> of_kind VFS_READC (n_msgs n) = [] \<or> of_kind VFS_WRITEC (n_msgs n) = []"
  by (auto simp: pd_node_ok_def of_kind_def vfs_cmds)

lemma fifo_queued:
  assumes "pipe_chan m nodes = Some (nodes[i := Some (n\<lparr>n_msgs := n_msgs n @ [m]\<rparr>)], [])"
    and "fifo_run i ms (nodes[i := Some (n\<lparr>n_msgs := n_msgs n @ [m]\<rparr>)]) (n\<lparr>n_msgs := n_msgs n @ [m]\<rparr>)"
  shows "fifo_run i (m # ms) nodes n"
  using assms by (auto simp: fifo_run_def Let_def)

lemma fifo_matched:
  assumes c: "n_msgs n = c # cs" "v_cmd c \<noteq> v_cmd m" and m: "v_cmd m \<in> {VFS_READC, VFS_WRITEC}" and ok: "pd_node_ok n"
    and q: "pipe_chan m nodes = Some (nodes[i := Some (n\<lparr>n_msgs := cs\<rparr>)],
      if v_cmd m = VFS_WRITEC then [Got (v_client c) (rw_data m), Put (v_client m)] else [Put (v_client c), Got (v_client m) (rw_data c)])"
    and "fifo_run i ms (nodes[i := Some (n\<lparr>n_msgs := cs\<rparr>)]) (n\<lparr>n_msgs := cs\<rparr>)"
  shows "fifo_run i (m # ms) nodes n"
proof -
  let ?ev = "if v_cmd m = VFS_WRITEC then [Got (v_client c) (rw_data m), Put (v_client m)] else [Put (v_client c), Got (v_client m) (rw_data c)]"
  obtain nodes' n' ev where r: "pserve pipe_chan ms (nodes[i := Some (n\<lparr>n_msgs := cs\<rparr>)]) = Some (nodes', ev)" "nodes' ! i = Some n'"
      "gots ev = zip (map v_client (of_kind VFS_READC (cs @ ms))) (map rw_data (of_kind VFS_WRITEC (cs @ ms)))"
      "puts ev = take (length (of_kind VFS_READC (cs @ ms))) (map v_client (of_kind VFS_WRITEC (cs @ ms)))"
      "map v_client (of_kind VFS_READC (n_msgs n')) = drop (length (of_kind VFS_WRITEC (cs @ ms))) (map v_client (of_kind VFS_READC (cs @ ms)))"
      "of_kind VFS_WRITEC (n_msgs n') = drop (length (of_kind VFS_READC (cs @ ms))) (of_kind VFS_WRITEC (cs @ ms))"
    using assms(6) by (auto simp: fifo_run_def Let_def)
  have run: "pserve pipe_chan (m # ms) nodes = Some (nodes', ?ev @ ev)" using q r(1) by simp
  have cc: "v_cmd c \<in> {VFS_READC, VFS_WRITEC}" using ok c(1) by (auto simp: pd_node_ok_def)
  have ne: "VFS_READC \<noteq> VFS_WRITEC" by (simp add: vfs_cmds)
  consider "v_cmd c = VFS_READC" "v_cmd m = VFS_WRITEC" "of_kind VFS_WRITEC cs = []"
    | "v_cmd c = VFS_WRITEC" "v_cmd m = VFS_READC" "of_kind VFS_READC cs = []"
    using cc m c one_kind [OF ok] ne by auto
  then show ?thesis by cases (use run r c ne in \<open>auto simp: fifo_run_def Let_def\<close>)
qed

lemma pipe_fifo:
  assumes "pd_ok nodes" "i < PD_MAX_NODES" "nodes ! i = Some n" "pd_open n"
    and "\<forall>m \<in> set ms. v_cmd m \<in> {VFS_READC, VFS_WRITEC} \<and> rw_ino m = of_nat i"
  shows "fifo_run i ms nodes n"
  using assms
proof (induction ms arbitrary: nodes n)
  case Nil
  with one_kind [OF pd_ok_nth [OF Nil.prems(1-3)]] show ?case by (auto simp: fifo_run_def)
next
  case (Cons m ms)
  have m: "v_cmd m \<in> {VFS_READC, VFS_WRITEC}" "rw_ino m = of_nat i" using Cons.prems(5) by auto
  have len: "length nodes = 8" using Cons.prems(1) by (simp add: pd_ok_def)
  have ix: "idx (length nodes) (rw_ino m) = Some i" using Cons.prems(2) len m(2) by (simp add: idx_Some_iff unat_of_nat)
  have ok: "pd_node_ok n" using Cons.prems(1-3) by (rule pd_ok_nth)
  have next_ok: "pd_ok nodes'" if "pipe_chan m nodes = Some (nodes', ev)" for nodes' ev
    using that pipedev_ok [OF Cons.prems(1)] by (auto simp: pipe_chan_def split: Option.bind_splits)
  have IH: "fifo_run i ms (nodes[i := Some x]) x" if "pipe_chan m nodes = Some (nodes[i := Some x], ev)" "pd_open x" for x ev
    using Cons.IH [OF next_ok [OF that(1)] Cons.prems(2) _ that(2)] Cons.prems(2,5) len by simp
  have o: "pd_open (n\<lparr>n_msgs := xs\<rparr>)" for xs using Cons.prems(4) by (simp add: pd_open_def)
  note step = pipe_chan_step [OF ix Cons.prems(3,4) m(1) ok]
  show ?case
  proof (cases "\<exists>c cs. n_msgs n = c # cs \<and> v_cmd c \<noteq> v_cmd m")
    case False
    then have q: "pipe_chan m nodes = Some (nodes[i := Some (n\<lparr>n_msgs := n_msgs n @ [m]\<rparr>)], [])"
      using step by (auto split: list.splits)
    show ?thesis by (rule fifo_queued [OF q IH [OF q o]])
  next
    case True
    then obtain c cs where c: "n_msgs n = c # cs" "v_cmd c \<noteq> v_cmd m" by blast
    then have q: "pipe_chan m nodes = Some (nodes[i := Some (n\<lparr>n_msgs := cs\<rparr>)],
        if v_cmd m = VFS_WRITEC then [Got (v_client c) (rw_data m), Put (v_client m)] else [Put (v_client c), Got (v_client m) (rw_data c)])"
      using step by simp
    show ?thesis by (rule fifo_matched [OF c m(1) ok q IH [OF q o]])
  qed
qed

text \<open>
  C31. A pipe is a first-in first-out channel: over any sequence of reads and writes at an open pipe, the
  readers, in the order in which they ask, get the characters in the order in which they are written,
  each exactly once; the writers are answered in order as their characters are taken; and what is left
  waiting is exactly the readers or the characters in excess.
\<close>

theorem pipe_is_fifo:
  assumes "pd_ok nodes" and "i < PD_MAX_NODES" and "nodes ! i = Some n" and "pd_open n"
    and "\<forall>m \<in> set ms. v_cmd m \<in> {VFS_READC, VFS_WRITEC} \<and> rw_ino m = of_nat i"
  defines "R \<equiv> map v_client (of_kind VFS_READC (n_msgs n @ ms))"
    and "W \<equiv> of_kind VFS_WRITEC (n_msgs n @ ms)"
  shows "\<exists>nodes' n' ev. pserve pipe_chan ms nodes = Some (nodes', ev) \<and> nodes' ! i = Some n' \<and>
    gots ev = zip R (map rw_data W) \<and> puts ev = take (length R) (map v_client W) \<and>
    map v_client (of_kind VFS_READC (n_msgs n')) = drop (length W) R \<and>
    of_kind VFS_WRITEC (n_msgs n') = drop (length R) W"
  using pipe_fifo [OF assms(1-5)] unfolding fifo_run_def Let_def R_def W_def .

definition blank_vfsmsg :: vfsmsg where
  "blank_vfsmsg = \<lparr>v_cmd = 0, v_client = 0, w0 = 0, w1 = 0, w2 = 0, w3 = 0\<rparr>"

definition example_pipe :: pd_nodes where
  "example_pipe = Some \<lparr>n_refcnt = 2, n_links = 0, n_msgs = []\<rparr> # replicate 7 None"

definition example_rw :: "vfsmsg list" where
  "example_rw = [blank_vfsmsg\<lparr>v_cmd := VFS_READC, v_client := 5\<rparr>,
     blank_vfsmsg\<lparr>v_cmd := VFS_WRITEC, v_client := 6, w2 := 65\<rparr>]"

theorem pipe_is_fifo_witness:
  "\<exists>nodes' ev. pserve pipe_chan example_rw example_pipe = Some (nodes', ev) \<and> gots ev = [(5, 65)]"
proof -
  have "pd_ok example_pipe" by (auto simp: pd_ok_def example_pipe_def)
  moreover have "pd_open \<lparr>n_refcnt = 2, n_links = 0, n_msgs = []\<rparr>" by (simp add: pd_open_def)
  moreover have "\<forall>m \<in> set example_rw. v_cmd m \<in> {VFS_READC, VFS_WRITEC} \<and> rw_ino m = of_nat 0"
    by (simp add: example_rw_def blank_vfsmsg_def)
  ultimately show ?thesis
    using pipe_is_fifo [of example_pipe 0 "\<lparr>n_refcnt = 2, n_links = 0, n_msgs = []\<rparr>" example_rw]
    by (auto simp: example_pipe_def example_rw_def blank_vfsmsg_def vfs_cmds)
qed

text \<open>
  When the last but one user of a pipe closes it, every task that waits at the pipe is told so with
  \<^verbatim>\<open>EOF\<close>, in order, and none is left waiting; from then on reads and writes are answered with \<^verbatim>\<open>EOF\<close> at
  once, if there is no link to the node.
\<close>

theorem pipe_close_wakes_all:
  assumes "pd_ok nodes" and "i < PD_MAX_NODES" and "nodes ! i = Some n" and "n_refcnt n = 2"
    and "v_cmd msg = VFS_INODE_RELEASE" and "iget_ino msg = of_nat i"
  shows "\<exists>nodes' reps. pipedev ok msg nodes = Some (nodes', reps, msg) \<and>
    nodes' = nodes[i := Some (n\<lparr>n_refcnt := 1, n_msgs := []\<rparr>)] \<and>
    map v_client reps = map v_client (n_msgs n) \<and>
    (\<forall>m \<in> set reps. v_cmd m = VFS_REPEAT \<and> rw_data m = EOF) \<and>
    (\<forall>rw. v_cmd rw \<in> {VFS_READC, VFS_WRITEC} \<longrightarrow> rw_ino rw = of_nat i \<longrightarrow> n_links n = 0 \<longrightarrow>
       pipedev ok rw nodes' = Some (nodes', [], rw\<lparr>w2 := EOF, w1 := 0\<rparr>))"
proof -
  let ?nodes = "nodes[i := Some (n\<lparr>n_refcnt := 1, n_msgs := []\<rparr>)]"
  have len: "length nodes = 8" using assms(1) by (simp add: pd_ok_def)
  have ix: "idx 8 (of_nat i) = Some i" using assms(2) by (simp add: idx_Some_iff unat_of_nat)
  have rel: "pipedev ok msg nodes = Some (?nodes, map pd_eof (n_msgs n), msg)"
    using assms len ix by (simp add: pipedev_def pd_release_def vfs_cmds)
  have rw: "pipedev ok rw ?nodes = Some (?nodes, [], rw\<lparr>w2 := EOF, w1 := 0\<rparr>)"
    if "v_cmd rw \<in> {VFS_READC, VFS_WRITEC}" "rw_ino rw = of_nat i" "n_links n = 0" for rw
    using that assms(2) len ix by (auto simp: pipedev_def pd_rw_def vfs_cmds)
  have "map v_client (map pd_eof (n_msgs n)) = map v_client (n_msgs n)"
      "\<forall>m \<in> set (map pd_eof (n_msgs n)). v_cmd m = VFS_REPEAT \<and> rw_data m = EOF"
    by (auto simp: pd_eof_def)
  with rel rw show ?thesis by blast
qed

theorem pipe_close_wakes_all_witness:
  "\<exists>nodes' reps. pipedev True (blank_vfsmsg\<lparr>v_cmd := VFS_INODE_RELEASE\<rparr>)
     (Some \<lparr>n_refcnt = 2, n_links = 0, n_msgs = [blank_vfsmsg\<lparr>v_cmd := VFS_READC, v_client := 5\<rparr>]\<rparr> # replicate 7 None)
     = Some (nodes', reps, blank_vfsmsg\<lparr>v_cmd := VFS_INODE_RELEASE\<rparr>) \<and> map v_client reps = [5]"
proof -
  let ?n = "\<lparr>n_refcnt = 2, n_links = 0, n_msgs = [blank_vfsmsg\<lparr>v_cmd := VFS_READC, v_client := 5\<rparr>]\<rparr>"
  have "pd_ok (Some ?n # replicate 7 None)" by (auto simp: pd_ok_def pd_node_ok_def)
  from pipe_close_wakes_all [OF this, of 0 ?n "blank_vfsmsg\<lparr>v_cmd := VFS_INODE_RELEASE\<rparr>" True]
  show ?thesis by (auto simp: blank_vfsmsg_def)
qed

text \<open>
  Creating a node: while a node is free the first free one is taken, with no users and nothing
  waiting. When all eight are in use the code writes to \<^verbatim>\<open>nodes[-1]\<close>, which has no defined result.
\<close>

theorem pipe_mknod:
  assumes "pd_ok nodes" and "v_cmd msg = VFS_MKNOD"
  shows "(None \<notin> set nodes \<longrightarrow> pipedev True msg nodes = None) \<and>
    (None \<in> set nodes \<longrightarrow> (\<exists>i < PD_MAX_NODES. nodes ! i = None \<and> (\<forall>j < i. nodes ! j \<noteq> None) \<and>
       pipedev True msg nodes =
         Some (nodes[i := Some \<lparr>n_refcnt = 0, n_links = 0, n_msgs = []\<rparr>], [], msg\<lparr>w0 := of_nat i\<rparr>)))"
proof -
  have len: "length nodes = 8" and le: "length nodes \<le> 32768" using assms(1) by (simp_all add: pd_ok_def)
  consider (none) "find_index (\<lambda>n. n = None) nodes = - 1" "\<forall>n \<in> set nodes. n \<noteq> None"
    | (some) k where "find_index (\<lambda>n. n = None) nodes = of_nat k" "k < length nodes" "nodes ! k = None"
        "\<forall>j < k. nodes ! j \<noteq> None"
    by (rule find_index_cases [OF le, of "\<lambda>n. n = None"])
  then show ?thesis
  proof cases
    case none
    have "idx 8 (pd_find_empty_node nodes) = None"
      unfolding pd_find_empty_node_def none(1) by simp
    with none(2) assms(2) len show ?thesis by (auto simp: pipedev_def pd_mknod_def)
  next
    case (some k)
    then have "idx 8 (of_nat k) = Some k" using len by (simp add: idx_eq unat_of_nat)
    with some assms(2) len show ?thesis
      by (auto simp: pipedev_def pd_mknod_def pd_find_empty_node_def in_set_conv_nth intro!: exI [of _ k])
  qed
qed

theorem pipe_mknod_witness:
  "pipedev True (blank_vfsmsg\<lparr>v_cmd := VFS_MKNOD\<rparr>)
     (replicate 8 (Some \<lparr>n_refcnt = 2, n_links = 0, n_msgs = []\<rparr>)) = None"
  using pipe_mknod [of "replicate 8 (Some \<lparr>n_refcnt = 2, n_links = 0, n_msgs = []\<rparr>)" "blank_vfsmsg\<lparr>v_cmd := VFS_MKNOD\<rparr>"]
  by (auto simp: pd_ok_def)

end
