(* ===== verification/Memfile_Dev.thy ===== *)
theory Memfile_Dev
  imports Vfs_Msg
begin

text \<open>
  \<^verbatim>\<open>drivers/ramdisk.c\<close>: files in memory. A node holds 128 bytes, which a directory reads as sixteen
  entries of a name and a node number, and its size, which a directory reads as the number of entries.
\<close>

section \<open>Model\<close>

abbreviation MF_MAX_NODES :: nat where
  "MF_MAX_NODES \<equiv> 8"

abbreviation MF_MAX_ENTRIES :: nat where
  "MF_MAX_ENTRIES \<equiv> 16"

definition MF_DIR :: byte where
  "MF_DIR = 0x01"

record mfnode =
  f_refcnt :: byte
  f_links :: byte
  f_flags :: byte
  f_file :: "byte list"
  f_size :: cint

type_synonym mf_nodes = "mfnode option list"

text \<open>An entry is six bytes of name and a 16-bit node number.\<close>

abbreviation sizeof_direntry :: nat where
  "sizeof_direntry \<equiv> 8"

definition entry_ino :: "byte list \<Rightarrow> nat \<Rightarrow> cint" where
  "entry_ino file i = join (file ! (8 * i + 7)) (file ! (8 * i + 6))"

definition set_entry_ino :: "nat \<Rightarrow> cint \<Rightarrow> byte list \<Rightarrow> byte list" where
  "set_entry_ino i ino file = file[8 * i + 6 := LOW ino, 8 * i + 7 := HIGH ino]"

text \<open>\<^verbatim>\<open>strncpy(entry[i].name, name, 6)\<close>: cut off after six bytes or filled up with zeros.\<close>

definition set_entry_name :: "nat \<Rightarrow> byte list \<Rightarrow> byte list \<Rightarrow> byte list" where
  "set_entry_name i name file = take (8 * i) file @ take 6 (name @ replicate 6 0) @ drop (8 * i + 6) file"

text \<open>
  \<^verbatim>\<open>strcmp\<close> of the bytes from the start of a name with a string: whether they are equal. Nothing stops it
  at the end of the name; running off the end of the node is \<^term>\<open>None\<close>.
\<close>

fun strcmp_eq :: "byte list \<Rightarrow> byte list \<Rightarrow> bool option" where
  "strcmp_eq [] name = None"
| "strcmp_eq (x # xs) [] = Some (x = 0)"
| "strcmp_eq (x # xs) (y # ys) = (if x = y then strcmp_eq xs ys else Some False)"

definition mf_new_file :: "byte \<Rightarrow> byte list" where
  "mf_new_file flags =
     (let file = replicate (MF_MAX_ENTRIES * sizeof_direntry) 0
      in if flags AND MF_DIR \<noteq> 0 then fold (\<lambda>i. set_entry_ino i (- 1)) [0..<MF_MAX_ENTRIES] file else file)"

text \<open>\<open>ok\<close> says whether \<^verbatim>\<open>kmalloc\<close> returned memory, which the code takes for granted.\<close>

definition mf_create_node :: "bool \<Rightarrow> byte \<Rightarrow> mf_nodes \<Rightarrow> (mf_nodes \<times> cint) option" where
  "mf_create_node ok flags nodes =
     (let ino = find_index (\<lambda>n. n = None) nodes
      in if cneg ino then Some (nodes, - 1)
         else if ok
         then Some (nodes[unat ino := Some \<lparr>f_refcnt = 0, f_links = 0, f_flags = flags,
                      f_file = mf_new_file flags, f_size = 0\<rparr>], ino)
         else None)"

definition mf_link :: "byte list \<Rightarrow> cint \<Rightarrow> mfnode \<Rightarrow> mfnode \<times> cint" where
  "mf_link name ino dirnode =
     (case find (\<lambda>i. entry_ino (f_file dirnode) i = - 1) [0..<MF_MAX_ENTRIES] of
        None \<Rightarrow> (dirnode, - 1)
      | Some i \<Rightarrow>
          (dirnode\<lparr>f_file := set_entry_name i name (set_entry_ino i ino (f_file dirnode)),
             f_size := f_size dirnode + 1\<rparr>, of_nat i))"

fun mf_search :: "byte list \<Rightarrow> byte list \<Rightarrow> nat list \<Rightarrow> cint option" where
  "mf_search file name [] = Some (- 1)"
| "mf_search file name (i # is) =
     (if entry_ino file i = - 1 then mf_search file name is
      else case strcmp_eq (drop (8 * i) file) name of
        None \<Rightarrow> None
      | Some eq \<Rightarrow> if eq then Some (entry_ino file i) else mf_search file name is)"

definition mf_get_direntry :: "byte list \<Rightarrow> mfnode \<Rightarrow> cint option" where
  "mf_get_direntry name dirnode = mf_search (f_file dirnode) name [0..<MF_MAX_ENTRIES]"

text \<open>Before the loop: the root directory with the one entry \<open>"."\<close>.\<close>

definition mf_init :: "bool \<Rightarrow> mf_nodes option" where
  "mf_init ok = do {
     (nodes, ino) \<leftarrow> mf_create_node ok MF_DIR (replicate MF_MAX_NODES None);
     i \<leftarrow> idx (length nodes) ino;
     n \<leftarrow> nodes ! i;
     let n' = fst (mf_link [0x2E] ino n);
     Some (nodes[i := Some (n'\<lparr>f_links := f_links n' + 1\<rparr>)])
   }"

definition mf_linkop :: "mf_nodes driver" where
  "mf_linkop msg nodes = do {
     i \<leftarrow> idx (length nodes) (link_ino msg);
     case nodes ! i of
       None \<Rightarrow> Some (nodes, [], msg\<lparr>w1 := - 1\<rparr>)
     | Some n \<Rightarrow> Some (nodes[i := Some (n\<lparr>f_links := f_links n + 1\<rparr>)], [], msg)
   }"

definition mf_unlink :: "mf_nodes driver" where
  "mf_unlink msg nodes = do {
     i \<leftarrow> idx (length nodes) (link_ino msg);
     case nodes ! i of
       None \<Rightarrow> Some (nodes, [], msg\<lparr>w1 := - 1\<rparr>)
     | Some n \<Rightarrow>
         let n' = n\<lparr>f_links := f_links n - 1\<rparr>
         in if f_refcnt n' \<noteq> 0 \<or> f_links n' \<noteq> 0 then Some (nodes[i := Some n'], [], msg)
            else Some (nodes[i := None], [], msg)
   }"

definition mf_grab :: "mf_nodes driver" where
  "mf_grab msg nodes = do {
     i \<leftarrow> idx (length nodes) (iget_ino msg);
     case nodes ! i of
       None \<Rightarrow> Some (nodes, [], msg\<lparr>w0 := - 1\<rparr>)
     | Some n \<Rightarrow> Some (nodes[i := Some (n\<lparr>f_refcnt := f_refcnt n + 1\<rparr>)], [], msg)
   }"

definition mf_release :: "mf_nodes driver" where
  "mf_release msg nodes = do {
     i \<leftarrow> idx (length nodes) (iget_ino msg);
     case nodes ! i of
       None \<Rightarrow> Some (nodes, [], msg\<lparr>w0 := - 1\<rparr>)
     | Some n \<Rightarrow>
         let n' = n\<lparr>f_refcnt := f_refcnt n - 1\<rparr>
         in if f_refcnt n' \<noteq> 0 \<or> f_links n' \<noteq> 0 then Some (nodes[i := Some n'], [], msg)
            else Some (nodes[i := None], [], msg)
   }"

definition mf_writec :: "mf_nodes driver" where
  "mf_writec msg nodes =
     (if sint (rw_pos msg) \<ge> 127 then Some (nodes, [], msg\<lparr>w2 := EOF, w1 := 0\<rparr>)
      else do {
        i \<leftarrow> idx (length nodes) (rw_ino msg);
        n \<leftarrow> nodes ! i;
        k \<leftarrow> idx (length (f_file n)) (rw_pos msg);
        Some (nodes[i := Some (n\<lparr>f_file := (f_file n)[k := ucast (rw_data msg)], f_size := rw_pos msg + 1\<rparr>)],
          [], msg\<lparr>w1 := 1\<rparr>)
      })"

text \<open>The character read is a signed \<^verbatim>\<open>char\<close>, which is extended to an \<^verbatim>\<open>int\<close>.\<close>

definition mf_readc :: "mf_nodes driver" where
  "mf_readc msg nodes =
     (if sint (rw_pos msg) \<ge> 127 then Some (nodes, [], msg\<lparr>w2 := EOF, w1 := 0\<rparr>)
      else do {
        i \<leftarrow> idx (length nodes) (rw_ino msg);
        n \<leftarrow> nodes ! i;
        if sint (rw_pos msg) \<ge> sint (f_size n) then Some (nodes, [], msg\<lparr>w2 := EOF, w1 := 0\<rparr>)
        else do {
          k \<leftarrow> idx (length (f_file n)) (rw_pos msg);
          Some (nodes, [], msg\<lparr>w2 := scast (f_file n ! k), w1 := 1\<rparr>)
        }
      })"

text \<open>\<open>str\<close> reads the strings in memory that messages point to.\<close>

definition mf_direntry :: "(addr \<Rightarrow> byte list) \<Rightarrow> mf_nodes driver" where
  "mf_direntry str msg nodes = do {
     i \<leftarrow> idx (length nodes) (link_ino msg);
     n \<leftarrow> nodes ! i;
     if f_flags n AND MF_DIR \<noteq> 0
     then do { ino \<leftarrow> mf_get_direntry (str (link_name msg)) n; Some (nodes, [], msg\<lparr>w1 := ino\<rparr>) }
     else Some (nodes, [], msg\<lparr>w1 := - 1\<rparr>)
   }"

definition memfile :: "bool \<Rightarrow> (addr \<Rightarrow> byte list) \<Rightarrow> mf_nodes driver" where
  "memfile ok str msg nodes =
     (if v_cmd msg = VFS_MKNOD
      then do { (nodes', ino) \<leftarrow> mf_create_node ok 0 nodes; Some (nodes', [], msg\<lparr>w0 := ino\<rparr>) }
      else if v_cmd msg = VFS_LINK then mf_linkop msg nodes
      else if v_cmd msg = VFS_UNLINK then mf_unlink msg nodes
      else if v_cmd msg = VFS_INODE_GRAB then mf_grab msg nodes
      else if v_cmd msg = VFS_INODE_RELEASE then mf_release msg nodes
      else if v_cmd msg = VFS_WRITEC then mf_writec msg nodes
      else if v_cmd msg = VFS_READC then mf_readc msg nodes
      else if v_cmd msg = VFS_GET_DIRENTRY then mf_direntry str msg nodes
      else Some (nodes, [], msg))"

lemmas [server_defs] = mf_create_node_def mf_linkop_def mf_unlink_def mf_grab_def mf_release_def mf_writec_def
  mf_readc_def mf_direntry_def memfile_def

section \<open>Invariant\<close>

definition mf_ok :: "mf_nodes \<Rightarrow> bool" where
  "mf_ok nodes \<longleftrightarrow> length nodes = MF_MAX_NODES \<and>
     (\<forall>n. Some n \<in> set nodes \<longrightarrow> length (f_file n) = 128)"

lemma mf_ok_code [code]:
  "mf_ok nodes \<longleftrightarrow> length nodes = MF_MAX_NODES \<and>
     (\<forall>x \<in> set nodes. case x of None \<Rightarrow> True | Some n \<Rightarrow> length (f_file n) = 128)"
  by (auto simp: mf_ok_def split: option.splits)

lemma length_set_entry [simp]:
  "length (set_entry_ino i ino file) = length file"
  "8 * i + 6 \<le> length file \<Longrightarrow> length (set_entry_name i name file) = length file"
  by (auto simp: set_entry_ino_def set_entry_name_def)

lemma length_new_file [simp]: "length (mf_new_file flags) = 128"
proof -
  have "length (fold (\<lambda>i. set_entry_ino i (- 1)) is bs) = length bs" for "is" bs
    by (induction "is" arbitrary: bs) auto
  then show ?thesis by (simp add: mf_new_file_def Let_def del: upt.simps)
qed

lemma mf_ok_update:
  assumes "mf_ok nodes" "case x of None \<Rightarrow> True | Some n \<Rightarrow> length (f_file n) = 128"
  shows "mf_ok (nodes[i := x])"
  using assms set_update_subset_insert [of nodes i x] by (auto simp: mf_ok_def split: option.splits)

lemma mf_ok_nth: "mf_ok nodes \<Longrightarrow> i < MF_MAX_NODES \<Longrightarrow> nodes ! i = Some n \<Longrightarrow> length (f_file n) = 128"
  by (metis nth_mem mf_ok_def)

lemma mf_ok_idx:
  assumes "mf_ok nodes" "idx (length nodes) k = Some i" "nodes ! i = Some n"
  shows "length (f_file n) = 128"
  using assms by (intro mf_ok_nth [of nodes i]) (auto simp: mf_ok_def idx_Some_iff)

lemma memfile_ok:
  assumes "mf_ok nodes" "memfile ok str msg nodes = Some (nodes', reps, ans)"
  shows "mf_ok nodes'"
proof -
  have up: "mf_ok (nodes[i := x])" if "case x of None \<Rightarrow> True | Some n \<Rightarrow> length (f_file n) = 128" for i x
    using assms(1) that by (rule mf_ok_update)
  show ?thesis
    using assms(2) assms(1) mf_ok_idx [OF assms(1)]
    by (auto simp: memfile_def mf_create_node_def mf_linkop_def mf_unlink_def mf_grab_def mf_release_def mf_writec_def
        mf_readc_def mf_direntry_def Let_def split: if_splits option.splits Option.bind_splits intro!: up)
qed

section \<open>Reading and writing\<close>

definition wr_msg :: "cint \<Rightarrow> nat \<Rightarrow> cint \<Rightarrow> vfsmsg" where
  "wr_msg ino pos d = \<lparr>v_cmd = VFS_WRITEC, v_client = 0, w0 = ino, w1 = of_nat pos, w2 = d, w3 = 0\<rparr>"

definition rd_msg :: "cint \<Rightarrow> nat \<Rightarrow> vfsmsg" where
  "rd_msg ino pos = \<lparr>v_cmd = VFS_READC, v_client = 0, w0 = ino, w1 = of_nat pos, w2 = 0, w3 = 0\<rparr>"

definition mf_step :: "vfsmsg \<Rightarrow> mf_nodes \<Rightarrow> (mf_nodes \<times> vfsmsg list) option" where
  "mf_step msg nodes = map_option (\<lambda>(nodes', reps, ans). (nodes', reps @ [ans])) (memfile True (\<lambda>_. []) msg nodes)"

definition write_all :: "cint \<Rightarrow> cint list \<Rightarrow> vfsmsg list" where
  "write_all ino bs = map (\<lambda>k. wr_msg ino k (bs ! k)) [0..<length bs]"

lemma small_word: "k < 32768 \<Longrightarrow> unat (of_nat k :: cint) = k \<and> sint (of_nat k :: cint) = int k"
  by (simp add: sint16 unat_of_nat)

text \<open>A character below 128 survives being stored as a signed \<^verbatim>\<open>char\<close>.\<close>

lemma char_back:
  assumes "unat (b :: cint) < 128"
  shows "scast (ucast b :: byte) = b"
proof -
  have "unat (ucast b :: byte) = unat b" using assms by (simp add: unsigned_ucast_eq take_bit_eq_mod)
  then have "sint (ucast b :: byte) = int (unat b)" using assms by (simp only: sint8) simp
  then show ?thesis by (simp add: scast_eq)
qed

lemma mf_write_step:
  assumes "mf_ok nodes" "i < MF_MAX_NODES" "nodes ! i = Some n" "k < 127"
  shows "mf_step (wr_msg (of_nat i) k d) nodes =
    Some (nodes[i := Some (n\<lparr>f_file := (f_file n)[k := ucast d], f_size := of_nat (Suc k)\<rparr>)],
      [(wr_msg (of_nat i) k d)\<lparr>w1 := 1\<rparr>])"
proof -
  have "idx (length nodes) (of_nat i) = Some i" "idx (length (f_file n)) (of_nat k) = Some k"
    using assms(1,2,4) mf_ok_nth [OF assms(1-3)] by (simp_all add: mf_ok_def idx_eq small_word)
  then show ?thesis
    using assms(3,4) by (simp add: mf_step_def memfile_def wr_msg_def mf_writec_def vfs_cmds small_word)
      (simp add: add.commute)
qed

lemma mf_read_step:
  assumes "mf_ok nodes" "i < MF_MAX_NODES" "nodes ! i = Some n" "k < 127" "f_size n = of_nat m" "m < 32768"
  shows "mf_step (rd_msg (of_nat i) k) nodes =
    Some (nodes, [if k < m then (rd_msg (of_nat i) k)\<lparr>w2 := scast (f_file n ! k), w1 := 1\<rparr>
      else (rd_msg (of_nat i) k)\<lparr>w2 := EOF, w1 := 0\<rparr>])"
proof -
  have "idx (length nodes) (of_nat i) = Some i" "idx (length (f_file n)) (of_nat k) = Some k"
    using assms(1,2,4) mf_ok_nth [OF assms(1-3)] by (simp_all add: mf_ok_def idx_eq small_word)
  then show ?thesis
    using assms(3-6) by (simp add: mf_step_def memfile_def rd_msg_def mf_readc_def vfs_cmds small_word)
qed

lemma pserve_snoc:
  "pserve f (is @ [i]) s = do { (s1, as) \<leftarrow> pserve f is s; (s2, bs) \<leftarrow> f i s1; Some (s2, as @ bs) }"
  by (induction "is" arbitrary: s) (auto split: option.splits Option.bind_splits)

lemma mf_written:
  assumes "mf_ok nodes" "i < MF_MAX_NODES" "nodes ! i = Some n" "length bs \<le> 127"
  shows "\<exists>nodes' n' out. pserve mf_step (write_all (of_nat i) bs) nodes = Some (nodes', out) \<and> mf_ok nodes' \<and>
    nodes' ! i = Some n' \<and> take (length bs) (f_file n') = map ucast bs \<and>
    (bs \<noteq> [] \<longrightarrow> f_size n' = of_nat (length bs)) \<and> (\<forall>a \<in> set out. rw_bnum a = 1)"
  using assms(4)
proof (induction bs rule: rev_induct)
  case Nil
  with assms show ?case by (simp add: write_all_def)
next
  case (snoc b bs)
  obtain nodes1 n1 out where IH: "pserve mf_step (write_all (of_nat i) bs) nodes = Some (nodes1, out)" "mf_ok nodes1"
      "nodes1 ! i = Some n1" "take (length bs) (f_file n1) = map ucast bs" "\<forall>a \<in> set out. rw_bnum a = 1"
    using snoc by auto
  let ?k = "length bs"
  let ?n = "n1\<lparr>f_file := (f_file n1)[?k := ucast b], f_size := of_nat (Suc ?k)\<rparr>"
  have len: "length (f_file n1) = 128" using mf_ok_nth [OF IH(2) assms(2) IH(3)] .
  have all: "write_all (of_nat i) (bs @ [b]) = write_all (of_nat i) bs @ [wr_msg (of_nat i) ?k b]"
    by (auto simp: write_all_def nth_append)
  have st: "mf_step (wr_msg (of_nat i) ?k b) nodes1 = Some (nodes1[i := Some ?n], [(wr_msg (of_nat i) ?k b)\<lparr>w1 := 1\<rparr>])"
    using mf_write_step [OF IH(2) assms(2) IH(3)] snoc.prems by simp
  have run: "pserve mf_step (write_all (of_nat i) (bs @ [b])) nodes =
      Some (nodes1[i := Some ?n], out @ [(wr_msg (of_nat i) ?k b)\<lparr>w1 := 1\<rparr>])"
    unfolding all pserve_snoc IH(1) using st by simp
  have nth: "nodes1[i := Some ?n] ! i = Some ?n" using IH(2) assms(2) by (simp add: mf_ok_def)
  have ok: "mf_ok (nodes1[i := Some ?n])" using mf_ok_update [OF IH(2)] len by simp
  have "take (Suc ?k) ((f_file n1)[?k := ucast b]) = map ucast bs @ [ucast b]"
    using len snoc.prems IH(4) by (simp add: take_Suc_conv_app_nth)
  with run nth ok IH(5) show ?case by auto
qed

text \<open>
  Files keep their contents: characters (up to 127 of them, each below 128) written to a node one after
  the other from position 0 are accepted, read back in the same order, and followed by \<^verbatim>\<open>EOF\<close>.
\<close>

theorem memfile_roundtrip:
  assumes "mf_ok nodes" and "i < MF_MAX_NODES" and "nodes ! i = Some n"
    and "bs \<noteq> []" and "length bs \<le> 127" and "\<forall>b \<in> set bs. unat b < 128"
  shows "\<exists>nodes' out. pserve mf_step (write_all (of_nat i) bs) nodes = Some (nodes', out) \<and>
    (\<forall>a \<in> set out. rw_bnum a = 1) \<and>
    (\<forall>k < length bs. \<exists>a. mf_step (rd_msg (of_nat i) k) nodes' = Some (nodes', [a]) \<and>
       rw_data a = bs ! k \<and> rw_bnum a = 1) \<and>
    (length bs < 127 \<longrightarrow> (\<exists>a. mf_step (rd_msg (of_nat i) (length bs)) nodes' = Some (nodes', [a]) \<and>
       rw_data a = EOF \<and> rw_bnum a = 0))"
proof -
  obtain nodes' n' out where w: "pserve mf_step (write_all (of_nat i) bs) nodes = Some (nodes', out)" "mf_ok nodes'"
      "nodes' ! i = Some n'" "take (length bs) (f_file n') = map ucast bs" "f_size n' = of_nat (length bs)"
      "\<forall>a \<in> set out. rw_bnum a = 1"
    using mf_written [OF assms(1-3,5)] assms(4) by auto
  have len: "length bs < 32768" using assms(5) by simp
  note rd = mf_read_step [OF w(2) assms(2) w(3) _ w(5) len]
  have ch: "scast (f_file n' ! k) = bs ! k" if "k < length bs" for k
  proof -
    have "f_file n' ! k = map ucast bs ! k" using w(4) that by (metis nth_take)
    with that assms(6) char_back show ?thesis by simp
  qed
  have "\<forall>k < length bs. \<exists>a. mf_step (rd_msg (of_nat i) k) nodes' = Some (nodes', [a]) \<and>
      rw_data a = bs ! k \<and> rw_bnum a = 1"
    using rd ch assms(5) by auto
  moreover have "length bs < 127 \<longrightarrow> (\<exists>a. mf_step (rd_msg (of_nat i) (length bs)) nodes' = Some (nodes', [a]) \<and>
      rw_data a = EOF \<and> rw_bnum a = 0)"
    using rd [of "length bs"] by simp
  ultimately show ?thesis using w(1,6) by blast
qed

definition example_file :: mf_nodes where
  "example_file = replicate 8 (Some \<lparr>f_refcnt = 1, f_links = 1, f_flags = 0, f_file = mf_new_file 0, f_size = 0\<rparr>)"

lemma example_file_ok: "mf_ok example_file"
  by (auto simp: mf_ok_def example_file_def)

theorem memfile_roundtrip_witness:
  "\<exists>nodes' out a. pserve mf_step (write_all 3 [72, 105]) example_file = Some (nodes', out) \<and>
     mf_step (rd_msg 3 1) nodes' = Some (nodes', [a]) \<and> rw_data a = 105"
  using memfile_roundtrip [OF example_file_ok, of 3 _ "[72, 105]"]
  by (auto simp: example_file_def)

text \<open>
  A character is not always read as it was written: the byte 255 is read back as \<^verbatim>\<open>EOF\<close>, only told from
  the end of the file by the count of characters, which \<^verbatim>\<open>readc\<close> does not pass on.
\<close>

theorem memfile_255_reads_as_EOF:
  assumes "mf_ok nodes" and "i < MF_MAX_NODES" and "nodes ! i = Some n" and "k < 127" and "ucast d = (0xFF :: byte)"
  shows "\<exists>nodes' out a. mf_step (wr_msg (of_nat i) k d) nodes = Some (nodes', out) \<and>
    mf_step (rd_msg (of_nat i) k) nodes' = Some (nodes', [a]) \<and> rw_data a = EOF \<and> rw_bnum a = 1"
proof -
  let ?n = "n\<lparr>f_file := (f_file n)[k := ucast d], f_size := of_nat (Suc k)\<rparr>"
  let ?nodes = "nodes[i := Some ?n]"
  have len: "length (f_file n) = 128" using assms(1-3) by (rule mf_ok_nth)
  have ok: "mf_ok ?nodes" by (rule mf_ok_update [OF assms(1)]) (simp add: len)
  have nth: "?nodes ! i = Some ?n" using assms(1,2) by (simp add: mf_ok_def)
  have "mf_step (rd_msg (of_nat i) k) ?nodes = Some (?nodes, [(rd_msg (of_nat i) k)\<lparr>w2 := EOF, w1 := 1\<rparr>])"
    using mf_read_step [OF ok assms(2) nth assms(4), of "Suc k"] assms(4,5) len
    by (simp add: EOF_def)
  with mf_write_step [OF assms(1-4)] show ?thesis by auto
qed

theorem memfile_255_reads_as_EOF_witness:
  "\<exists>nodes' out a. mf_step (wr_msg 3 5 0xFF) example_file = Some (nodes', out) \<and>
     mf_step (rd_msg 3 5) nodes' = Some (nodes', [a]) \<and> rw_data a = EOF"
  using memfile_255_reads_as_EOF [OF example_file_ok, of 3 _ 5 "0xFF"]
  by (auto simp: example_file_def)

text \<open>
  The limits of a file: a write at position 127 or above is refused and changes nothing; below, it
  changes the one byte and makes the file end behind it, so that writing in the middle cuts off
  what follows. No write leaves the 128 bytes of the node.
\<close>

theorem memfile_write_limits:
  assumes "mf_ok nodes" and "i < MF_MAX_NODES" and "nodes ! i = Some n" and "v_cmd msg = VFS_WRITEC"
    and "rw_ino msg = of_nat i" and "unat (rw_pos msg) < 32768"
  shows "memfile ok str msg nodes =
    (if 127 \<le> unat (rw_pos msg) then Some (nodes, [], msg\<lparr>w2 := EOF, w1 := 0\<rparr>)
     else Some (nodes[i := Some (n\<lparr>f_file := (f_file n)[unat (rw_pos msg) := ucast (rw_data msg)],
            f_size := rw_pos msg + 1\<rparr>)], [], msg\<lparr>w1 := 1\<rparr>)) \<and>
    (unat (rw_pos msg) < 127 \<longrightarrow> unat (rw_pos msg) < length (f_file n))"
proof -
  have len: "length (f_file n) = 128" "length nodes = 8"
    using mf_ok_nth [OF assms(1-3)] assms(1) by (simp_all add: mf_ok_def)
  have pos: "sint (rw_pos msg) = int (unat (rw_pos msg))" using assms(6) by (simp only: sint16) simp
  have "idx 8 (of_nat i) = Some i" using assms(2) by (simp add: idx_eq small_word)
  moreover have "unat (rw_pos msg) < 127 \<Longrightarrow> idx 128 (rw_pos msg) = Some (unat (rw_pos msg))"
    by (simp add: idx_eq)
  moreover have "127 \<le> sint (rw_pos msg) \<longleftrightarrow> 127 \<le> unat (rw_pos msg)" unfolding pos by linarith
  ultimately show ?thesis
    using assms(3-5) len by (auto simp: memfile_def mf_writec_def vfs_cmds)
qed

theorem memfile_write_limits_witness:
  "memfile True (\<lambda>_. []) (wr_msg 3 127 65) example_file =
     Some (example_file, [], (wr_msg 3 127 65)\<lparr>w2 := EOF, w1 := 0\<rparr>)"
  using memfile_write_limits [OF example_file_ok, of 3 _ "wr_msg 3 127 65" True "\<lambda>_. []"]
  by (simp add: example_file_def wr_msg_def)

section \<open>Directories\<close>

text \<open>
  Linking a node counts the link but never makes an entry: whatever the name and the directory of
  the request, every lookup gives the same answer after it as before.
\<close>

theorem memfile_link_makes_no_entry:
  assumes "v_cmd msg = VFS_LINK" and "memfile ok str msg nodes = Some (nodes', reps, ans)"
    and "v_cmd look = VFS_GET_DIRENTRY"
  shows "map_option (snd \<circ> snd) (memfile ok str look nodes') = map_option (snd \<circ> snd) (memfile ok str look nodes)"
proof -
  have upd: "map_option (\<lambda>n. (f_flags n, f_file n)) (nodes[x := Some (n\<lparr>f_links := f_links n + 1\<rparr>)] ! i) =
      map_option (\<lambda>n. (f_flags n, f_file n)) (nodes ! i)" if "nodes ! x = Some n" "i < length nodes" for x i n
    using that by (cases "x = i") auto
  have same: "length nodes' = length nodes \<and> (\<forall>i < length nodes.
      map_option (\<lambda>n. (f_flags n, f_file n)) (nodes' ! i) = map_option (\<lambda>n. (f_flags n, f_file n)) (nodes ! i))"
    using assms(1,2) upd
    by (auto simp: memfile_def mf_linkop_def vfs_cmds split: Option.bind_splits option.splits)
  have dir: "memfile ok str look = mf_direntry str look"
    using assms(3) by (auto simp: memfile_def vfs_cmds fun_eq_iff)
  show ?thesis
  proof (cases "idx (length nodes) (link_ino look)")
    case None
    with same show ?thesis by (simp add: dir mf_direntry_def)
  next
    case (Some i)
    then have "i < length nodes" by (rule idx_less)
    with same have eq: "map_option (\<lambda>n. (f_flags n, f_file n)) (nodes' ! i) = map_option (\<lambda>n. (f_flags n, f_file n)) (nodes ! i)"
      by blast
    show ?thesis
      using Some same eq
      by (cases "nodes ! i"; cases "nodes' ! i")
        (auto simp: dir mf_direntry_def mf_get_direntry_def split: Option.bind_splits)
  qed
qed

definition link_msg :: vfsmsg where
  "link_msg = \<lparr>v_cmd = VFS_LINK, v_client = 0, w0 = 0, w1 = 3, w2 = 0x300, w3 = 0\<rparr>"

definition look_msg :: vfsmsg where
  "look_msg = \<lparr>v_cmd = VFS_GET_DIRENTRY, v_client = 0, w0 = 0, w1 = 0, w2 = 0x300, w3 = 0\<rparr>"

theorem memfile_link_makes_no_entry_witness:
  "\<exists>nodes'. memfile True (\<lambda>_. [0x61]) link_msg example_file = Some (nodes', [], link_msg) \<and>
     map_option (snd \<circ> snd) (memfile True (\<lambda>_. [0x61]) look_msg nodes') =
     map_option (snd \<circ> snd) (memfile True (\<lambda>_. [0x61]) look_msg example_file)"
proof -
  obtain nodes' where r: "memfile True (\<lambda>_. [0x61]) link_msg example_file = Some (nodes', [], link_msg)"
    by (simp add: memfile_def link_msg_def vfs_cmds mf_linkop_def example_file_def idx_eq)
  have "v_cmd link_msg = VFS_LINK" "v_cmd look_msg = VFS_GET_DIRENTRY" by (simp_all add: link_msg_def look_msg_def)
  from memfile_link_makes_no_entry [OF this(1) r this(2)] r show ?thesis by blast
qed

end
