(* ===== verification/Vfs_Props.thy ===== *)
theory Vfs_Props
  imports Vfs Pipe_Dev Memfile_Dev
begin

text \<open>
  Correctness of the virtual file system: the reference counts of open files are right whatever the
  drivers answer, and what the operations on descriptors do.
\<close>

section \<open>Every operation keeps the reference counts\<close>

lemma call_state: "call drv str pid msg st = Some (st', reps, ans) \<Longrightarrow> \<exists>d. st' = st\<lparr>devs := d\<rparr>"
  by (auto simp: call_def split: if_splits Option.bind_splits)

lemma ask_state: "ask drv str dev msg st = Some (st', ans) \<Longrightarrow> \<exists>d. st' = st\<lparr>devs := d\<rparr>"
  by (auto simp: ask_def dest!: call_state split: if_splits Option.bind_splits)

lemma findbypid_less: "vfs_findbypid pid st = Some k \<Longrightarrow> k < length (vtasks st) \<and> v_pid (vtasks st ! k) = pid"
  by (auto simp: vfs_findbypid_def find_Some_iff)

text \<open>The first free descriptor of a task, and the first free entry of the table of open files.\<close>

lemma empty_fd:
  assumes "vfs_inv st" "k < length (vtasks st)" "\<not> cneg (find_empty_fd (vtasks st ! k))"
  shows "unat (find_empty_fd (vtasks st ! k)) < MAX_FD"
    and "v_fd (vtasks st ! k) ! unat (find_empty_fd (vtasks st ! k)) = - 1"
    and "\<forall>j < unat (find_empty_fd (vtasks st ! k)). \<not> cneg (v_fd (vtasks st ! k) ! j)"
proof -
  let ?t = "vtasks st ! k"
  have len: "length (v_fd ?t) = 8" using vfs_inv_parts(5) [OF assms(1,2)] by (simp add: task_ok_def)
  have le: "length (v_fd ?t) \<le> 32768" using len by simp
  obtain i where i: "i < 8" "cneg (v_fd ?t ! i)" "\<forall>j < i. \<not> cneg (v_fd ?t ! j)" "unat (find_empty_fd ?t) = i"
    using find_index_SomeD [OF le, of cneg] assms(3) len unfolding find_empty_fd_def by metis
  moreover have "v_fd ?t ! i = - 1" using slot_cases [OF assms(1,2) i(1)] i(2) by auto
  ultimately show "unat (find_empty_fd ?t) < MAX_FD" "v_fd ?t ! unat (find_empty_fd ?t) = - 1"
      "\<forall>j < unat (find_empty_fd ?t). \<not> cneg (v_fd ?t ! j)" by auto
qed

lemma empty_filp:
  assumes "vfs_inv st" "\<not> cneg (find_empty_filp st)"
  shows "unat (find_empty_filp st) < MAX_FILP"
    and "fp_refcnt (filps st ! unat (find_empty_filp st)) = 0"
  using find_index_SomeD [of "filps st" "\<lambda>f. fp_refcnt f = 0"] assms vfs_inv_parts(2) [OF assms(1)]
  unfolding find_empty_filp_def by simp_all

lemma inv_filp_same:
  assumes "vfs_inv st" "j < MAX_FILP" "fp_refcnt (f (filps st ! j)) = fp_refcnt (filps st ! j)"
  shows "vfs_inv (upd_filp j f st)"
  using assms vfs_inv_parts [OF assms(1)] by (auto simp: vfs_inv_def upd_filp_nth)

lemma do_dup_inv:
  assumes "vfs_inv st" "k < length (vtasks st)" "do_dup (Some k) msg st = Some (st', m, as)"
  shows "vfs_inv st'"
proof -
  let ?fd = "find_empty_fd (vtasks st ! k)"
  have share: "vfs_inv (upd_filp (unat fp) inc_refcnt (set_fd k (unat ?fd) fp st))"
    if "\<not> cneg ?fd" "unat fp < 16" for fp
    using that empty_fd [OF assms(1,2)] by (intro inv_share [OF assms(1,2)]) (auto simp: inc_refcnt_def)
  show ?thesis
    using assms(1,3) share
    by (auto simp: do_dup_def Let_def idx_eq split: if_splits Option.bind_splits)
qed

lemma pipe_end_inv:
  assumes "vfs_inv st" "k < length (vtasks st)" "pipe_end k ino st = Some (st', fd)"
  shows "vfs_inv st'" "length (vtasks st') = length (vtasks st)"
proof -
  let ?fd = "find_empty_fd (vtasks st ! k)" and ?fp = "find_empty_filp st"
  have ne: "\<not> cneg ?fd" "\<not> cneg ?fp" and st': "st' = upd_filp (unat ?fp)
      (\<lambda>f. inc_refcnt (f\<lparr>fp_dev := pipedev_idx st, fp_ino := ino\<rparr>)) (set_fd k (unat ?fd) ?fp st)"
    using assms(3) by (auto simp: pipe_end_def Let_def upd_set_comm split: if_splits)
  show "vfs_inv st'"
    unfolding st' using ne empty_fd [OF assms(1,2)] empty_filp [OF assms(1)]
    by (intro inv_share [OF assms(1,2)]) (auto simp: inc_refcnt_def)
  show "length (vtasks st') = length (vtasks st)" by (simp add: st')
qed

lemma do_pipe_inv:
  assumes "vfs_inv st" "k < length (vtasks st)" "do_pipe drv str (Some k) msg st = Some (st', m, as)"
  shows "vfs_inv st'"
proof -
  have two: "vfs_inv st2" if "pipe_end k ino (st\<lparr>devs := d\<rparr>) = Some (st1, fdi)" "pipe_end k ino' st1 = Some (st2, fdo)"
    for d ino ino' st1 st2 fdi fdo
    using pipe_end_inv [OF _ _ that(1)] pipe_end_inv [OF _ _ that(2)] assms(1,2) by simp
  have one: "vfs_inv st1" if "pipe_end k ino (st\<lparr>devs := d\<rparr>) = Some (st1, fdi)" for d ino st1 fdi
    using pipe_end_inv(1) [OF _ _ that] assms(1,2) by simp
  show ?thesis
    using assms(1,3) one two
    by (auto simp: do_pipe_def Let_def dest!: ask_state split: if_splits Option.bind_splits option.splits)
qed

lemma do_open_inv:
  assumes "vfs_inv st" "k < length (vtasks st)" "do_open drv str (Some k) msg st = Some (st', m, as)"
  shows "vfs_inv st'"
proof -
  let ?fd = "find_empty_fd (vtasks st ! k)" and ?fp = "find_empty_filp st"
  let ?st1 = "upd_filp (unat ?fp) (\<lambda>f. f\<lparr>fp_dev := open_dev msg, fp_ino := open_ino msg, fp_pos := 0\<rparr>) st"
  have inv1: "vfs_inv ?st1" if "\<not> cneg ?fp"
    using that empty_filp [OF assms(1)] by (intro inv_filp_same assms(1)) auto
  have inv2: "vfs_inv (set_fd k (unat ?fd) ?fp (upd_filp (unat ?fp) inc_refcnt (?st1\<lparr>devs := d\<rparr>)))"
    if "\<not> cneg ?fp" "\<not> cneg ?fd" for d
    unfolding upd_set_comm [symmetric]
    using that empty_fd [OF assms(1,2)] empty_filp [OF assms(1)] assms(2) inv1
    by (intro inv_share) (auto simp: inc_refcnt_def)
  show ?thesis
    using assms(1,3) inv1 inv2
    by (auto simp: do_open_def Let_def dest!: ask_state split: if_splits Option.bind_splits)
qed

lemma do_close_inv:
  assumes "vfs_inv st" "k < length (vtasks st)" "do_close drv str (Some k) msg st = Some (st', m, as)"
  shows "vfs_inv st' \<and> length (vtasks st') = length (vtasks st) \<and>
    (\<not> cneg (open_fd msg) \<longrightarrow> unat (open_fd msg) < MAX_FD \<and> vtasks st' = vtasks (set_fd k (unat (open_fd msg)) (- 1) st))"
proof (cases "cneg (open_fd msg)")
  case True
  with assms show ?thesis by (simp add: do_close_def)
next
  case False
  then obtain i where i: "idx 8 (open_fd msg) = Some i" "i = unat (open_fd msg)" "i < 8"
    using assms(3) by (auto simp: do_close_def idx_eq split: if_splits)
  let ?fp = "v_fd (vtasks st ! k) ! i"
  note u = inv_unshare [OF assms(1,2) i(3)]
  have ix: "\<not> cneg ?fp \<Longrightarrow> idx 16 ?fp = Some (unat ?fp)"
    using slot_cases [OF assms(1,2) i(3)] by (auto simp: idx_eq)
  let ?dec = "upd_filp (unat ?fp) (\<lambda>f. f\<lparr>fp_refcnt := fp_refcnt f - 1\<rparr>) (set_fd k i (- 1) st)"
  have "st' = set_fd k i (- 1) st \<and> cneg ?fp \<or> (st' = ?dec \<or> (\<exists>d. st' = ?dec\<lparr>devs := d\<rparr>)) \<and> \<not> cneg ?fp"
    using assms(3) False i(1) u(2) ix
    by (auto simp: do_close_def Let_def dest!: call_state split: if_splits Option.bind_splits)
  then show ?thesis using u i by auto
qed

lemma close_all_inv:
  assumes "vfs_inv st" "k < length (vtasks st)" "\<forall>i \<in> set is. i < MAX_FD"
    and "close_all drv str k is msg st = Some (st', m, as)"
  shows "vfs_inv st' \<and> length (vtasks st') = length (vtasks st) \<and>
    (\<forall>i < MAX_FD. v_fd (vtasks st' ! k) ! i = (if i \<in> set is then - 1 else v_fd (vtasks st ! k) ! i))"
  using assms
proof (induction "is" arbitrary: st msg as)
  case (Cons i "is")
  obtain st1 m1 as1 as2 where r: "do_close drv str (Some k) (msg\<lparr>w0 := of_nat i\<rparr>) st = Some (st1, m1, as1)"
      "close_all drv str k is m1 st1 = Some (st', m, as2)"
    using Cons.prems(4) by (auto split: Option.bind_splits)
  have i: "\<not> cneg (of_nat i :: cint)" "unat (of_nat i :: cint) = i"
    using Cons.prems(3) by (auto simp: cneg_iff unat_of_nat)
  have st1: "vfs_inv st1" "length (vtasks st1) = length (vtasks st)" "vtasks st1 = vtasks (set_fd k i (- 1) st)"
    using do_close_inv [OF Cons.prems(1,2) r(1)] i by auto
  have len: "length (v_fd (vtasks st ! k)) = 8"
    using vfs_inv_parts(5) [OF Cons.prems(1,2)] by (simp add: task_ok_def)
  have "vfs_inv st' \<and> length (vtasks st') = length (vtasks st1) \<and>
      (\<forall>i < 8. v_fd (vtasks st' ! k) ! i = (if i \<in> set is then - 1 else v_fd (vtasks st1 ! k) ! i))"
    using Cons.IH [OF st1(1) _ _ r(2)] Cons.prems(2,3) st1(2) by simp
  then show ?case
    using st1(2,3) Cons.prems(2,3) len by (auto simp: set_fd_nth nth_list_update)
qed simp

lemma refs_remove:
  assumes "k < length xs" "\<forall>i < length (v_fd (xs ! k)). v_fd (xs ! k) ! i \<noteq> y"
  shows "(\<Sum>t \<leftarrow> remove_nth k xs. count (mset (v_fd t)) y) = (\<Sum>t \<leftarrow> xs. count (mset (v_fd t)) y)"
proof -
  have "count (mset (v_fd (xs ! k))) y = 0"
    using assms(2) by (metis count_mset_0_iff in_set_conv_nth)
  moreover have "xs = take k xs @ xs ! k # drop (Suc k) xs" using assms(1) by (rule id_take_nth_drop)
  then have "(\<Sum>t \<leftarrow> xs. count (mset (v_fd t)) y) =
      (\<Sum>t \<leftarrow> take k xs @ xs ! k # drop (Suc k) xs. count (mset (v_fd t)) y)" by simp
  ultimately show ?thesis by (simp add: remove_nth_def)
qed

lemma set_remove_nth: "set (remove_nth k xs) \<subseteq> set xs"
  by (auto simp: remove_nth_def dest: in_set_takeD in_set_dropD)

lemma removetask_inv:
  assumes "vfs_inv st" "vfs_removetask drv str msg st = Some (st', m, as)"
  shows "vfs_inv st'"
proof (cases "vfs_findbypid (w0 msg) st")
  case None
  with assms show ?thesis by (simp add: vfs_removetask_def)
next
  case (Some k)
  then have k: "k < length (vtasks st)" using findbypid_less by auto
  obtain st1 where st1: "close_all drv str k [0..<8] msg st = Some (st1, m, as)"
      "st' = st1\<lparr>vtasks := remove_nth k (vtasks st1)\<rparr>"
    using assms(2) Some by (auto simp: vfs_removetask_def split: Option.bind_splits)
  have c: "vfs_inv st1" "length (vtasks st1) = length (vtasks st)" "\<forall>i < 8. v_fd (vtasks st1 ! k) ! i = - 1"
    using close_all_inv [OF assms(1) k _ st1(1)] by auto
  note p = vfs_inv_parts [OF c(1)]
  have "length (v_fd (vtasks st1 ! k)) = 8" using p(5) k c(2) by (simp add: task_ok_def)
  then have "refs st' (of_nat j) = refs st1 (of_nat j)" if "j < 16" for j
    unfolding refs_def st1(2) using k c(2,3) of_nat_slot(2) [OF that]
    by (simp del: upt_Suc) (rule refs_remove, auto)
  moreover have "length (vtasks st') \<le> 31" "\<forall>t \<in> set (vtasks st'). task_ok t"
    using p(3,4) set_remove_nth [of k "vtasks st1"] by (auto simp: st1(2) remove_nth_def)
  ultimately show ?thesis using p(1,2,6) by (simp add: vfs_inv_def st1(2))
qed

lemma inherit_inv:
  assumes "vfs_inv st" "k < length (vtasks st)" "p < length (vtasks st)"
    and "\<forall>i \<in> set is. i < MAX_FD \<and> v_fd (vtasks st ! k) ! i = - 1" "distinct is"
    and "inherit k p is st = Some st'"
  shows "vfs_inv st'"
  using assms
proof (induction "is" arbitrary: st)
  case (Cons i "is")
  let ?fp = "v_fd (vtasks st ! p) ! i"
  have i: "i < 8" "v_fd (vtasks st ! k) ! i = - 1" using Cons.prems(4) by auto
  show ?case
  proof (cases "cneg ?fp")
    case True
    with Cons show ?thesis by (simp add: Let_def)
  next
    case False
    then have fp: "unat ?fp < 16" using slot_cases [OF Cons.prems(1,3) i(1)] by auto
    let ?st = "upd_filp (unat ?fp) inc_refcnt (set_fd k i ?fp st)"
    have "vfs_inv ?st" using Cons.prems(1,2) i fp by (intro inv_share) (auto simp: inc_refcnt_def)
    moreover have "\<forall>j \<in> set is. j < 8 \<and> v_fd (vtasks ?st ! k) ! j = - 1"
      using Cons.prems(2,4,5) by (auto simp: set_fd_nth) (metis nth_list_update_neq)
    moreover have "inherit k p is ?st = Some st'" using Cons.prems(6) False fp by (simp add: Let_def idx_eq)
    ultimately show ?thesis using Cons.IH [of ?st] Cons.prems(2,3,5) by simp
  qed
qed simp

text \<open>A new task without open files, which then gets a directory.\<close>

lemma inv_append:
  assumes "vfs_inv st" "length (vtasks st) < 31" "v_fd t = replicate MAX_FD (- 1)"
  shows "vfs_inv (st\<lparr>vtasks := vtasks st @ [t]\<rparr>)"
proof -
  note p = vfs_inv_parts [OF assms(1)]
  have "refs (st\<lparr>vtasks := vtasks st @ [t]\<rparr>) (of_nat j) = refs st (of_nat j)" if "j < 16" for j
    using of_nat_slot(2) [OF that] by (auto simp: refs_def assms(3))
  with p(1,2,4,6) assms(2,3) show ?thesis by (auto simp: vfs_inv_def task_ok_def)
qed

lemma addnewtask_inv:
  assumes "vfs_inv st" "length (vtasks st) < 31" "vfs_addnewtask drv str ok msg st = Some (st', m, as)"
  shows "vfs_inv st'"
proof -
  let ?k = "length (vtasks st)"
  have app: "vfs_inv (st\<lparr>vtasks := vtasks st @ [t]\<rparr>)" if "v_fd t = replicate 8 (- 1)" for t
    using inv_append [OF assms(1,2)] that by simp
  have inh: "vfs_inv st2" if "inherit ?k p [0..<8] (st\<lparr>vtasks := vtasks st @ [t]\<rparr>) = Some st2"
      "v_fd t = replicate 8 (- 1)" "p < Suc ?k" for p t st2
    using that app [OF that(2)] by (intro inherit_inv [OF _ _ _ _ _ that(1)]) auto
  show ?thesis
    using assms(1,3) app inh
    by (auto simp: vfs_addnewtask_def Let_def simp del: upt_Suc dest!: findbypid_less removetask_inv [rotated]
        split: if_splits Option.bind_splits option.splits)
qed

text \<open>Looking up a path changes nothing but the devices.\<close>

definition only_devs :: "'d vfs_st \<Rightarrow> 'd vfs_st \<Rightarrow> bool" where
  "only_devs st st' \<longleftrightarrow> (\<exists>d. st' = st\<lparr>devs := d\<rparr>)"

lemma only_devs_refl [simp]: "only_devs st st"
  unfolding only_devs_def by (rule exI [of _ "devs st"]) simp

lemma only_devs_trans: "only_devs st st1 \<Longrightarrow> only_devs st1 st2 \<Longrightarrow> only_devs st st2"
  by (auto simp: only_devs_def)

lemma only_devs_inv: "only_devs st st' \<Longrightarrow> vfs_inv st \<Longrightarrow> vfs_inv st'"
  by (auto simp: only_devs_def)

lemma ask_only_devs: "ask drv str dev msg st = Some (st', ans) \<Longrightarrow> only_devs st st'"
  by (auto simp: only_devs_def dest: ask_state)

lemma get_direntry_only_devs:
  "vfs_get_direntry drv str mem junk dev ino name st = Some (st', r) \<Longrightarrow> only_devs st st'"
  by (auto simp: vfs_get_direntry_def Let_def dest: ask_only_devs split: if_splits Option.bind_splits)

lemma walk_path_only_devs:
  "walk_path drv str mem junk dev ino path st = Some (st', r) \<Longrightarrow> only_devs st st'"
proof (induction drv str mem junk dev ino path st rule: walk_path.induct)
  case (1 drv str mem junk dev ino path st)
  from "1.prems" show ?case
    unfolding walk_path.simps [of drv str mem junk dev ino path st]
    by (auto simp: Let_def split: if_splits option.splits dest!: "1.IH" [rotated -1] dest: get_direntry_only_devs only_devs_trans)
qed

lemma get_dir_only_devs:
  "vfs_get_dir drv str mem junk dev0 client path st = Some (st', r) \<Longrightarrow> only_devs st st'"
  by (auto simp: vfs_get_dir_def Let_def dest: walk_path_only_devs split: if_splits Option.bind_splits)

lemma get_node_only_devs:
  "vfs_get_node drv str mem junk dev0 client path st = Some (st', r) \<Longrightarrow> only_devs st st'"
  by (auto simp: vfs_get_node_def Let_def dest!: get_dir_only_devs get_direntry_only_devs intro: only_devs_trans
      split: if_splits Option.bind_splits prod.splits)

lemma do_mknod_only_devs:
  "do_mknod drv str mem junk dev0 client msg st = Some (st', m, as) \<Longrightarrow> only_devs st st'"
  by (auto simp: do_mknod_def Let_def dest!: get_dir_only_devs ask_only_devs intro: only_devs_trans
      split: if_splits Option.bind_splits prod.splits)

lemma do_stat_only_devs:
  "do_stat drv str mem junk dev0 client msg st = Some (st', m, as) \<Longrightarrow> only_devs st st'"
  by (auto simp: do_stat_def dest!: get_node_only_devs split: Option.bind_splits prod.splits)

lemma do_int_only_devs: "do_int drv str msg st = Some (st', m, as) \<Longrightarrow> only_devs st st'"
  by (auto simp: do_int_def only_devs_def dest!: call_state split: Option.bind_splits)

lemma do_rw_inv:
  assumes "vfs_inv st" "do_rw drv str client msg st = Some (st', m, as)"
  shows "vfs_inv st'"
proof -
  have "vfs_inv (upd_filp j (\<lambda>f. f\<lparr>fp_pos := fp_pos f + x\<rparr>) (st\<lparr>devs := d\<rparr>))" if "j < 16" for j x d
    using that assms(1) by (intro inv_filp_same) auto
  then show ?thesis
    using assms by (auto simp: do_rw_def Let_def idx_eq dest!: call_state split: if_splits Option.bind_splits)
qed

lemma do_mkdev_inv: "vfs_inv st \<Longrightarrow> vfs_inv (fst (do_mkdev pid msg st))"
  by (simp add: do_mkdev_def Let_def vfs_inv_def refs_def)

lemma dispatch_inv:
  assumes "vfs_inv st" "v_cmd (i_msg i) = VFS_ADDTASK \<Longrightarrow> length (vtasks st) < 31"
    and "vfs_dispatch drv i st = Some (st', m, as)"
  shows "vfs_inv st'"
proof -
  have none: "do_dup None msg st = Some (st1, m1, as1) \<Longrightarrow> vfs_inv st1"
      "do_open drv str None msg st = Some (st1, m1, as1) \<Longrightarrow> vfs_inv st1"
      "do_close drv str None msg st = Some (st1, m1, as1) \<Longrightarrow> vfs_inv st1"
      "do_pipe drv str None msg st = Some (st1, m1, as1) \<Longrightarrow> vfs_inv st1" for str msg st1 m1 as1
    using assms(1)
    by (auto simp: do_dup_def do_open_def do_close_def do_pipe_def Let_def dest!: ask_state
        split: if_splits Option.bind_splits)
  note keep = do_dup_inv [OF assms(1)] do_open_inv [OF assms(1)] do_close_inv [OF assms(1)] do_pipe_inv [OF assms(1)]
    addnewtask_inv [OF assms(1)] removetask_inv [OF assms(1)] do_rw_inv [OF assms(1)]
    only_devs_inv [OF _ assms(1)] do_mknod_only_devs do_stat_only_devs do_int_only_devs
  have less: "\<And>k. vfs_findbypid (i_client i) st = Some k \<Longrightarrow> k < length (vtasks st)"
    using findbypid_less by auto
  show ?thesis
    by (cases "vfs_findbypid (i_client i) st"; insert assms less none;
        auto simp: vfs_dispatch_def Let_def vfs_cmds do_mkdev_inv [OF assms(1)] dest: keep split: if_splits)
qed

lemma step_inv:
  assumes "vfs_inv st" "v_cmd (i_msg i) = VFS_ADDTASK \<Longrightarrow> length (vtasks st) < 31"
    and "vfs_step drv i st = Some (st', acts)"
  shows "vfs_inv st'"
proof -
  obtain m as where "vfs_dispatch drv i st = Some (st', m, as)"
    using assms(3) by (auto simp: vfs_step_def Let_def split: Option.bind_splits)
  with assms(1,2) show ?thesis by (rule dispatch_inv)
qed

lemma init_inv: "vfs_inv (vfs_init pid d msg)"
proof -
  have none: "find_index (\<lambda>p. p = NULL) (replicate 6 NULL) = 0" by code_simp
  show ?thesis by (simp add: vfs_init_def do_mkdev_def find_empty_devtab_def none vfs_inv_def refs_def)
qed

text \<open>The states of the file system: after \<^verbatim>\<open>vfs_init\<close>, and after each turn of the loop, with up to 31 tasks.\<close>

inductive vfs_reachable :: "'d drivers \<Rightarrow> 'd vfs_st \<Rightarrow> bool" for drv where
  init: "vfs_reachable drv (vfs_init pid d msg)"
| step: "vfs_reachable drv st \<Longrightarrow> (v_cmd (i_msg i) = VFS_ADDTASK \<Longrightarrow> length (vtasks st) < 31) \<Longrightarrow>
    vfs_step drv i st = Some (st', acts) \<Longrightarrow> vfs_reachable drv st'"

section \<open>The devices of the system\<close>

text \<open>The task 0x100 runs \<^verbatim>\<open>pipedev\<close>, the task 0x200 runs \<^verbatim>\<open>memfile\<close>, and there is memory (\<open>ok\<close>).\<close>

definition system_drivers :: "(pd_nodes \<times> mf_nodes) drivers" where
  "system_drivers str pid msg d =
     (if pid = 0x100 then do { (p, reps, ans) \<leftarrow> pipedev True msg (fst d); Some ((p, snd d), reps, ans) }
      else if pid = 0x200 then do { (f, reps, ans) \<leftarrow> memfile True str msg (snd d); Some ((fst d, f), reps, ans) }
      else None)"

definition turn :: "pid_t \<Rightarrow> vfsmsg \<Rightarrow> vfs_in" where
  "turn client msg = \<lparr>i_client = client, i_msg = msg, i_mem = (\<lambda>_. 0x900), i_task = 0x200, i_str = (\<lambda>_. []),
     i_junk = blank_vfsmsg, i_dev = 0\<rparr>"

definition system_msg :: "cint \<Rightarrow> addr \<Rightarrow> addr \<Rightarrow> vfsmsg" where
  "system_msg cmd x y = blank_vfsmsg\<lparr>v_cmd := cmd, w0 := x, w1 := y\<rparr>"

lemma turn_sels: "i_client (turn c m) = c" "i_msg (turn c m) = m" "i_str (turn c m) = (\<lambda>_. [])"
    "i_mem (turn c m) = (\<lambda>_. 0x900)"
  by (simp_all add: turn_def)

lemma system_msg_sels: "v_cmd (system_msg c x y) = c" "w0 (system_msg c x y) = x" "w1 (system_msg c x y) = y"
  by (simp_all add: system_msg_def)

text \<open>A file system with its two devices and a task 0x300 that has the root directory open as 0.\<close>

definition system_start :: "vfs_in list" where
  "system_start = [turn 0x400 (system_msg VFS_MKDEV 0 0), turn 0x400 (system_msg VFS_ADDTASK 0x300 0),
     turn 0x300 (system_msg VFS_OPEN 1 0)]"

definition system_boot :: "(pd_nodes \<times> mf_nodes) vfs_st" where
  "system_boot = vfs_init 0x100 (pd_init, the (mf_init True)) blank_vfsmsg"

definition turns :: "vfs_in list \<Rightarrow> (pd_nodes \<times> mf_nodes) vfs_st \<Rightarrow> (pd_nodes \<times> mf_nodes) vfs_st" where
  "turns = fold (\<lambda>i s. fst (the (vfs_step system_drivers i s)))"

definition system_state :: "(pd_nodes \<times> mf_nodes) vfs_st" where
  "system_state = turns system_start system_boot"

lemma system_state_inv: "vfs_inv system_state"
  by code_simp

lemma system_state_task: "vfs_findbypid 0x300 system_state = Some 0"
  by code_simp

text \<open>
  C8. The reference counts of the table of open files are right at all times: after \<^verbatim>\<open>vfs_init\<close> and after
  every request the file system finishes, whatever the drivers answer, each of the 16 entries counts
  exactly the descriptors of all tasks that refer to it, every descriptor is \<open>-1\<close> or an index of the
  table, and the counts (a \<^verbatim>\<open>char\<close>) do not overflow, while there are at most 31 tasks.
\<close>

theorem vfs_counts_references:
  assumes "vfs_reachable drv st"
  shows "length (filps st) = MAX_FILP \<and> (\<forall>j < MAX_FILP. unat (fp_refcnt (filps st ! j)) = refs st (of_nat j)) \<and>
    (\<forall>t \<in> set (vtasks st). length (v_fd t) = MAX_FD \<and> (\<forall>fp \<in> set (v_fd t). fp = - 1 \<or> unat fp < MAX_FILP))"
proof -
  have "vfs_inv st" using assms
  proof induction
    case init
    show ?case by (rule init_inv)
  next
    case (step st i st' acts)
    from step.IH step.hyps(2,3) show ?case by (rule step_inv)
  qed
  then show ?thesis by (simp add: vfs_inv_def task_ok_def)
qed

lemma reachable_turn:
  assumes "vfs_reachable drv st" "length (vtasks st) < 31" "vfs_step drv i st \<noteq> None"
  shows "vfs_reachable drv (fst (the (vfs_step drv i st)))"
  using assms by (auto intro: vfs_reachable.step)

lemma system_reachable: "vfs_reachable system_drivers system_state"
proof -
  have "vfs_step system_drivers (system_start ! 0) system_boot \<noteq> None \<and> length (vtasks system_boot) < 31"
      "vfs_step system_drivers (system_start ! 1) (turns (take 1 system_start) system_boot) \<noteq> None \<and>
         length (vtasks (turns (take 1 system_start) system_boot)) < 31"
      "vfs_step system_drivers (system_start ! 2) (turns (take 2 system_start) system_boot) \<noteq> None \<and>
         length (vtasks (turns (take 2 system_start) system_boot)) < 31"
    by code_simp+
  moreover have "vfs_reachable system_drivers system_boot"
    unfolding system_boot_def by (rule vfs_reachable.init)
  ultimately show ?thesis
    unfolding system_state_def by (auto simp: turns_def system_start_def intro!: reachable_turn)
qed

theorem vfs_counts_references_witness:
  "vfs_reachable system_drivers system_state \<and> fp_refcnt (filps system_state ! 0) = 1 \<and>
     unat (fp_refcnt (filps system_state ! 0)) = refs system_state 0"
proof -
  have "fp_refcnt (filps system_state ! 0) = 1" by code_simp
  then show ?thesis using vfs_counts_references [OF system_reachable] system_reachable by (auto dest!: spec [of _ 0])
qed

section \<open>Descriptors\<close>

text \<open>A request of a task that the file system knows, and the answer it gets.\<close>

lemma step_known:
  assumes "vfs_dispatch drv i st = Some (st', m, as)" "v_cmd m \<noteq> VFS_HOLD" "i_client i \<noteq> NULL"
    and "v_cmd (i_msg i) \<noteq> VFS_RD_INTERRUPT" "v_cmd (i_msg i) \<noteq> VFS_WR_INTERRUPT"
  shows "vfs_step drv i st = Some (st', as @ [Send (i_client i) (m\<lparr>v_cmd := VFS_FINAL\<rparr>)])"
  using assms by (simp add: vfs_step_def)

lemma no_free_fd:
  assumes "vfs_inv st" "k < length (vtasks st)"
  shows "cneg (find_empty_fd (vtasks st ! k)) \<longleftrightarrow> - 1 \<notin> set (v_fd (vtasks st ! k))"
proof -
  have t: "task_ok (vtasks st ! k)" using vfs_inv_parts(5) [OF assms] .
  then have "cneg x \<longleftrightarrow> x = - 1" if "x \<in> set (v_fd (vtasks st ! k))" for x
    using that slot_cases [OF assms] by (auto simp: task_ok_def in_set_conv_nth)
  then show ?thesis
    using find_index_cneg [of "v_fd (vtasks st ! k)" cneg] t unfolding find_empty_fd_def task_ok_def by auto
qed

lemma no_free_filp:
  assumes "vfs_inv st"
  shows "cneg (find_empty_filp st) \<longleftrightarrow> (\<forall>j < MAX_FILP. 0 < refs st (of_nat j))"
proof -
  have "fp_refcnt (filps st ! j) \<noteq> 0 \<longleftrightarrow> 0 < refs st (of_nat j)" if "j < 16" for j
    using vfs_inv_parts(6) [OF assms that] by (metis gr0I unat_0 unat_eq_zero less_irrefl)
  then show ?thesis
    using find_index_cneg [of "filps st" "\<lambda>f. fp_refcnt f = 0"] vfs_inv_parts(2) [OF assms]
    unfolding find_empty_filp_def by (auto simp: all_set_conv_all_nth)
qed

lemma do_open_eq:
  fixes k :: nat
  assumes "dev_pid (open_dev msg) st = Some pid" "pid \<noteq> NULL"
    and "drv str pid (msg\<lparr>v_cmd := VFS_INODE_GRAB, w0 := open_ino msg\<rparr>) (devs st) = Some (d, [], ans)"
  defines "fd \<equiv> find_empty_fd (vtasks st ! k)" and "fp \<equiv> find_empty_filp st"
  defines "st1 \<equiv> (upd_filp (unat fp) (\<lambda>f. f\<lparr>fp_dev := open_dev msg, fp_ino := open_ino msg, fp_pos := 0\<rparr>) st)\<lparr>devs := d\<rparr>"
  shows "do_open drv str (Some k) msg st =
    (if cneg fd \<or> cneg fp then Some (st, msg\<lparr>w0 := - 1\<rparr>, [])
     else if cneg (iget_ino ans) then Some (st1, ans\<lparr>w0 := - 1\<rparr>, [])
     else Some (set_fd k (unat fd) fp (upd_filp (unat fp) inc_refcnt st1), ans\<lparr>w0 := fd\<rparr>, []))"
  using assms(1-3) by (auto simp: do_open_def ask_def call_def dev_pid_def Let_def fd_def fp_def st1_def)

lemma opened_entry:
  assumes "length (filps st) = MAX_FILP" "j < MAX_FILP" "fp_refcnt (filps st ! j) = 0"
  shows "filps (upd_filp j inc_refcnt ((upd_filp j (\<lambda>f. f\<lparr>fp_dev := x, fp_ino := y, fp_pos := 0\<rparr>) st)\<lparr>devs := d\<rparr>)) =
    (filps st)[j := \<lparr>fp_dev = x, fp_ino = y, fp_refcnt = 1, fp_pos = 0\<rparr>]"
  using assms by (cases "filps st ! j") (simp add: upd_filp_def inc_refcnt_def)

lemma prepared_entry:
  assumes "length (filps st) = MAX_FILP" "j < MAX_FILP" "fp_refcnt (filps st ! j) = 0"
  shows "filps ((upd_filp j (\<lambda>f. f\<lparr>fp_dev := x, fp_ino := y, fp_pos := 0\<rparr>) st)\<lparr>devs := d\<rparr>) =
    (filps st)[j := \<lparr>fp_dev = x, fp_ino = y, fp_refcnt = 0, fp_pos = 0\<rparr>]"
  using assms by (cases "filps st ! j") (simp add: upd_filp_def)

text \<open>
  C13. \<^verbatim>\<open>open\<close>: when the driver lets the node be grabbed, the task gets its lowest free descriptor, which
  refers to an entry of the table that nothing referred to, with the device, the node, one reference
  and position 0. When the task has no free descriptor, or all 16 entries are in use, it gets \<open>-1\<close>
  and nothing changes. When the driver has no such node, it gets \<open>-1\<close> and no descriptor changes; the device,
  the node and the position are already written to the entry that was chosen, but it still has no reference, so
  that it stays free.
\<close>

theorem open_gives_lowest_descriptor:
  fixes st :: "'d vfs_st"
  assumes inv: "vfs_inv st" and client: "vfs_findbypid (i_client i) st = Some k" "i_client i \<noteq> NULL"
    and msg: "i_msg i = msg" "v_cmd msg = VFS_OPEN"
    and dev: "dev_pid (open_dev msg) st = Some pid" "pid \<noteq> NULL"
    and driver: "drv (i_str i) pid (msg\<lparr>v_cmd := VFS_INODE_GRAB, w0 := open_ino msg\<rparr>) (devs st) = Some (d, [], ans)"
    and answer: "v_cmd ans \<noteq> VFS_HOLD"
  shows "\<exists>st' m. vfs_step drv i st = Some (st', [Send (i_client i) m]) \<and>
    (if - 1 \<notin> set (v_fd (vtasks st ! k)) \<or> (\<forall>j < MAX_FILP. 0 < refs st (of_nat j)) then w0 m = - 1 \<and> st' = st
     else if cneg (iget_ino ans) then w0 m = - 1 \<and> devs st' = d \<and> vtasks st' = vtasks st \<and>
       (\<exists>fp < MAX_FILP. refs st (of_nat fp) = 0 \<and>
          filps st' = (filps st)[fp := \<lparr>fp_dev = open_dev msg, fp_ino = open_ino msg, fp_refcnt = 0, fp_pos = 0\<rparr>])
     else \<exists>fd fp. fd < MAX_FD \<and> w0 m = of_nat fd \<and> v_fd (vtasks st ! k) ! fd = - 1 \<and>
       (\<forall>j < fd. v_fd (vtasks st ! k) ! j \<noteq> - 1) \<and> fp < MAX_FILP \<and> refs st (of_nat fp) = 0 \<and>
       vtasks st' = (vtasks st)[k := (vtasks st ! k)\<lparr>v_fd := (v_fd (vtasks st ! k))[fd := of_nat fp]\<rparr>] \<and>
       filps st' = (filps st)[fp := \<lparr>fp_dev = open_dev msg, fp_ino = open_ino msg, fp_refcnt = 1, fp_pos = 0\<rparr>] \<and>
       devs st' = d)" (is "\<exists>st' m. _ \<and> (if _ then _ else if _ then _ else ?P st' m)")
proof -
  let ?fd = "find_empty_fd (vtasks st ! k)" and ?fp = "find_empty_filp st"
  have k: "k < length (vtasks st)" using findbypid_less [OF client(1)] by simp
  have disp: "vfs_dispatch drv i st = do_open drv (i_str i) (Some k) msg st"
    using msg client by (simp add: vfs_dispatch_def vfs_cmds Let_def)
  note disp = disp [unfolded do_open_eq [where drv = drv, OF dev driver]]
  have cmd: "VFS_OPEN \<noteq> VFS_HOLD" "v_cmd (i_msg i) \<noteq> VFS_RD_INTERRUPT" "v_cmd (i_msg i) \<noteq> VFS_WR_INTERRUPT"
    using msg by (simp_all add: vfs_cmds)
  note answered = step_known [OF _ _ client(2) cmd(2,3)]
  have full: "- 1 \<notin> set (v_fd (vtasks st ! k)) \<or> (\<forall>j < MAX_FILP. 0 < refs st (of_nat j)) \<longleftrightarrow> cneg ?fd \<or> cneg ?fp"
    unfolding no_free_fd [OF inv k] no_free_filp [OF inv] ..
  have free: "unat ?fp < MAX_FILP" "fp_refcnt (filps st ! unat ?fp) = 0" "refs st (of_nat (unat ?fp)) = 0" if "\<not> cneg ?fp"
    using empty_filp [OF inv that] vfs_inv_parts(6) [OF inv, of "unat ?fp"] by simp_all
  consider "cneg ?fd \<or> cneg ?fp" | "\<not> (cneg ?fd \<or> cneg ?fp)" "cneg (iget_ino ans)"
    | "\<not> (cneg ?fd \<or> cneg ?fp)" "\<not> cneg (iget_ino ans)" by blast
  then show ?thesis
  proof cases
    case 1
    with disp have "vfs_dispatch drv i st = Some (st, msg\<lparr>w0 := - 1\<rparr>, [])" by simp
    from answered [OF this] show ?thesis unfolding full using 1 msg cmd by auto
  next
    case 2
    note d = disp [unfolded if_not_P [OF 2(1)] if_P [OF 2(2)]]
    have "\<not> cneg ?fp" using 2(1) by simp
    note fp = free [OF this]
    have "\<exists>fp < MAX_FILP. refs st (of_nat fp) = 0 \<and>
        filps ((upd_filp (unat ?fp) (\<lambda>f. f\<lparr>fp_dev := open_dev msg, fp_ino := open_ino msg, fp_pos := 0\<rparr>) st)\<lparr>devs := d\<rparr>) =
        (filps st)[fp := \<lparr>fp_dev = open_dev msg, fp_ino = open_ino msg, fp_refcnt = 0, fp_pos = 0\<rparr>]"
      using fp prepared_entry [OF vfs_inv_parts(2) [OF inv] fp(1,2)] by blast
    with answered [OF d] 2 answer show ?thesis unfolding full by auto
  next
    case 3
    then have ne: "\<not> cneg ?fd" "\<not> cneg ?fp" by auto
    note fd = empty_fd [OF inv k ne(1)] and fp = free(1,2) [OF ne(2)] and zero = free(3) [OF ne(2)]
    have low: "\<forall>j < unat ?fd. v_fd (vtasks st ! k) ! j \<noteq> - 1" using fd(3) cneg_minus_one by metis
    note d = disp [unfolded if_not_P [OF 3(1)] if_not_P [OF 3(2)]]
    let ?st = "set_fd k (unat ?fd) ?fp (upd_filp (unat ?fp) inc_refcnt ((upd_filp (unat ?fp)
      (\<lambda>f. f\<lparr>fp_dev := open_dev msg, fp_ino := open_ino msg, fp_pos := 0\<rparr>) st)\<lparr>devs := d\<rparr>))"
    have "?P ?st (ans\<lparr>w0 := ?fd, v_cmd := VFS_FINAL\<rparr>)"
      using zero low fd(1,2) fp(1) opened_entry [OF vfs_inv_parts(2) [OF inv] fp]
      by (intro exI [of _ "unat ?fd"] exI [of _ "unat ?fp"]) (simp add: set_fd_def)
    with answered [OF d] 3 answer show ?thesis unfolding full by simp
  qed
qed

theorem open_gives_lowest_descriptor_witness:
  "\<exists>st' m. vfs_step system_drivers (turn 0x300 (system_msg VFS_OPEN 1 0)) system_state = Some (st', [Send 0x300 m]) \<and>
     w0 m = 1"
proof -
  let ?m = "system_msg VFS_OPEN 1 0" and ?t = "vtasks system_state ! 0"
  let ?grab = "system_drivers (\<lambda>_. []) 0x200 (?m\<lparr>v_cmd := VFS_INODE_GRAB, w0 := open_ino ?m\<rparr>) (devs system_state)"
  have "?grab \<noteq> None \<and> fst (snd (the ?grab)) = [] \<and> v_cmd (snd (snd (the ?grab))) \<noteq> VFS_HOLD \<and>
      \<not> cneg (iget_ino (snd (snd (the ?grab))))" by code_simp
  then obtain d ans where g: "?grab = Some (d, [], ans)" "v_cmd ans \<noteq> VFS_HOLD" "\<not> cneg (iget_ino ans)" by auto
  have fds: "v_fd ?t ! 0 \<noteq> - 1 \<and> v_fd ?t ! 1 = - 1 \<and> - 1 \<in> set (v_fd ?t)" by code_simp
  have free: "\<not> (\<forall>j < 16. 0 < refs system_state (of_nat j))" by code_simp
  have dev: "dev_pid (open_dev ?m) system_state = Some 0x200" by code_simp
  have one: "fd = 1" if "v_fd ?t ! fd = - 1" "\<forall>j < fd. v_fd ?t ! j \<noteq> - 1" for fd
    using that fds by (metis One_nat_def linorder_neqE_nat less_one)
  obtain st' m fd where r: "vfs_step system_drivers (turn 0x300 ?m) system_state = Some (st', [Send 0x300 m])"
      "w0 m = of_nat fd" "v_fd ?t ! fd = - 1" "\<forall>j < fd. v_fd ?t ! j \<noteq> - 1"
    using open_gives_lowest_descriptor [where i = "turn 0x300 ?m" and drv = system_drivers and k = 0,
        unfolded turn_sels, OF system_state_inv system_state_task _ refl system_msg_sels(1) dev _ g(1,2)] g(3) fds free
    by (auto simp del: not_all)
  show ?thesis using r(1,2) one [OF r(3,4)] by simp
qed

lemma close_exact:
  fixes st :: "'d vfs_st"
  assumes inv: "vfs_inv st" and client: "vfs_findbypid (i_client i) st = Some k" "i_client i \<noteq> NULL"
    and msg: "i_msg i = msg" "v_cmd msg = VFS_CLOSE" "open_fd msg = of_nat fd" "fd < MAX_FD"
    and opened: "v_fd (vtasks st ! k) ! fd = fp" "fp \<noteq> - 1" "filps st ! unat fp = f"
    and driver: "dev_pid (fp_dev f) st = Some pid" "pid \<noteq> NULL" "v_cmd ans \<noteq> VFS_HOLD"
      "drv (i_str i) pid (msg\<lparr>v_cmd := VFS_INODE_RELEASE, w0 := fp_ino f\<rparr>) (devs st) = Some (d, reps, ans)"
      "\<forall>r \<in> set reps. v_client r \<noteq> NULL"
  defines "st' \<equiv> upd_filp (unat fp) (\<lambda>f. f\<lparr>fp_refcnt := fp_refcnt f - 1\<rparr>) (set_fd k fd (- 1) st)"
  shows "refs st' fp = refs st fp - 1" "vfs_inv st'"
    "vfs_step drv i st =
       (if 1 < refs st fp then Some (st', [Send (i_client i) (msg\<lparr>v_cmd := VFS_FINAL\<rparr>)])
        else Some (st'\<lparr>devs := d\<rparr>, map (\<lambda>r. Send (v_client r) (r\<lparr>v_cmd := VFS_FINAL\<rparr>)) reps @
          [Send (i_client i) (ans\<lparr>v_cmd := VFS_FINAL\<rparr>)]))"
proof -
  have k: "k < length (vtasks st)" using findbypid_less [OF client(1)] by simp
  have fp: "\<not> cneg fp" "unat fp < 16" using slot_cases [OF inv k msg(4)] opened by auto
  have inv': "fp_refcnt f \<noteq> 0" "vfs_inv st'" using inv_unshare(2) [OF inv k msg(4)] fp opened unfolding st'_def by auto
  then show "vfs_inv st'" by simp
  have cnt: "unat (fp_refcnt f) = refs st fp" "unat (fp_refcnt f - 1) = refs st' fp"
    using vfs_inv_parts(6) [OF inv fp(2)] vfs_inv_parts(6) [OF inv'(2) fp(2)] fp opened vfs_inv_parts(2) [OF inv]
    by (simp_all add: upd_filp_nth st'_def)
  show less: "refs st' fp = refs st fp - 1" using cnt inv'(1) unat_minus_one by metis
  have last: "fp_refcnt f - 1 = 0 \<longleftrightarrow> \<not> 1 < refs st fp"
    using cnt less inv'(1) by (metis One_nat_def diff_is_0_eq linorder_not_less unat_eq_zero)
  have ix: "idx 8 (of_nat fd) = Some fd" "idx 16 fp = Some (unat fp)" "\<not> cneg (of_nat fd :: cint)"
    using msg(4) fp by (simp_all add: idx_eq unat_of_nat cneg_iff)
  have "vfs_dispatch drv i st = do_close drv (i_str i) (Some k) msg st"
    using msg client by (simp add: vfs_dispatch_def vfs_cmds Let_def)
  also have "\<dots> = (if 1 < refs st fp then Some (st', msg, []) else Some (st'\<lparr>devs := d\<rparr>, ans, pass_on reps))"
    using msg opened fp ix inv'(1) last driver vfs_inv_parts(2) [OF inv]
    by (auto simp: do_close_def Let_def upd_filp_nth call_def dev_pid_def st'_def)
  finally have disp: "vfs_dispatch drv i st = \<dots>" .
  have cmd: "VFS_CLOSE \<noteq> VFS_HOLD" "v_cmd (i_msg i) \<noteq> VFS_RD_INTERRUPT" "v_cmd (i_msg i) \<noteq> VFS_WR_INTERRUPT"
    using msg by (simp_all add: vfs_cmds)
  have reps: "pass_on reps = map (\<lambda>r. Send (v_client r) (r\<lparr>v_cmd := VFS_FINAL\<rparr>)) reps"
    using driver(5) by (simp add: pass_on_def)
  show "vfs_step drv i st =
     (if 1 < refs st fp then Some (st', [Send (i_client i) (msg\<lparr>v_cmd := VFS_FINAL\<rparr>)])
      else Some (st'\<lparr>devs := d\<rparr>, map (\<lambda>r. Send (v_client r) (r\<lparr>v_cmd := VFS_FINAL\<rparr>)) reps @
        [Send (i_client i) (ans\<lparr>v_cmd := VFS_FINAL\<rparr>)]))"
    using disp driver(3) reps cmd msg client(2) by (simp add: vfs_step_def)
qed

text \<open>
  \<^verbatim>\<open>close\<close> of an open descriptor frees it and drops one reference. While other descriptors refer to
  the open file, no driver hears of it; the last one makes the file system release the node, with
  one message to the driver, pass on what the driver has for waiting tasks and then answer.
\<close>

theorem close_releases_last_reference:
  fixes st :: "'d vfs_st"
  assumes inv: "vfs_inv st" and client: "vfs_findbypid (i_client i) st = Some k" "i_client i \<noteq> NULL"
    and msg: "i_msg i = msg" "v_cmd msg = VFS_CLOSE" "open_fd msg = of_nat fd" "fd < MAX_FD"
    and opened: "v_fd (vtasks st ! k) ! fd = fp" "fp \<noteq> - 1" "filps st ! unat fp = f"
    and driver: "dev_pid (fp_dev f) st = Some pid" "pid \<noteq> NULL" "v_cmd ans \<noteq> VFS_HOLD"
      "drv (i_str i) pid (msg\<lparr>v_cmd := VFS_INODE_RELEASE, w0 := fp_ino f\<rparr>) (devs st) = Some (d, reps, ans)"
      "\<forall>r \<in> set reps. v_client r \<noteq> NULL"
  shows "\<exists>st'. vtasks st' = (vtasks st)[k := (vtasks st ! k)\<lparr>v_fd := (v_fd (vtasks st ! k))[fd := - 1]\<rparr>] \<and>
    refs st' fp = refs st fp - 1 \<and>
    (if 1 < refs st fp
     then devs st' = devs st \<and> vfs_step drv i st = Some (st', [Send (i_client i) (msg\<lparr>v_cmd := VFS_FINAL\<rparr>)])
     else devs st' = d \<and> vfs_step drv i st =
       Some (st', map (\<lambda>r. Send (v_client r) (r\<lparr>v_cmd := VFS_FINAL\<rparr>)) reps @
         [Send (i_client i) (ans\<lparr>v_cmd := VFS_FINAL\<rparr>)]))"
proof -
  let ?st = "upd_filp (unat fp) (\<lambda>f. f\<lparr>fp_refcnt := fp_refcnt f - 1\<rparr>) (set_fd k fd (- 1) st)"
  note c = close_exact [where drv = drv, OF inv client msg opened driver]
  show ?thesis
    by (intro exI [of _ "if 1 < refs st fp then ?st else ?st\<lparr>devs := d\<rparr>"])
      (use c(1,3) in \<open>auto simp: set_fd_def refs_def\<close>)
qed

theorem close_releases_last_reference_witness:
  "\<exists>st' a. vfs_step system_drivers (turn 0x300 (system_msg VFS_CLOSE 0 0)) system_state = Some (st', [Send 0x300 a]) \<and>
     refs st' 0 = 0"
proof -
  let ?m = "system_msg VFS_CLOSE 0 0"
  let ?rel = "system_drivers (\<lambda>_. []) 0x200 (?m\<lparr>v_cmd := VFS_INODE_RELEASE, w0 := 0\<rparr>) (devs system_state)"
  have "?rel \<noteq> None \<and> fst (snd (the ?rel)) = [] \<and> v_cmd (snd (snd (the ?rel))) \<noteq> VFS_HOLD" by code_simp
  then obtain d ans where g: "?rel = Some (d, [], ans)" "v_cmd ans \<noteq> VFS_HOLD" by auto
  have st: "v_fd (vtasks system_state ! 0) ! 0 = 0" "fp_ino (filps system_state ! unat (0 :: cint)) = 0"
      "refs system_state 0 = 1" "dev_pid (fp_dev (filps system_state ! unat (0 :: cint))) system_state = Some 0x200"
    by code_simp+
  show ?thesis
    using close_releases_last_reference [where i = "turn 0x300 ?m" and drv = system_drivers and k = 0 and fd = 0,
        unfolded turn_sels, OF system_state_inv system_state_task _ refl system_msg_sels(1) _ _ st(1) _ refl st(4) _ g(2)]
      g(1) st(2,3)
    by (auto simp: system_msg_sels)
qed

text \<open>
  C17. \<^verbatim>\<open>dup\<close> of an open descriptor gives the lowest free one, which shares the open file and so its
  position; the open file counts one reference more. With no free descriptor the answer is \<open>-1\<close>
  and nothing changes.
\<close>

theorem dup_shares_open_file:
  assumes inv: "vfs_inv st" and client: "vfs_findbypid (i_client i) st = Some k" "i_client i \<noteq> NULL"
    and msg: "i_msg i = msg" "v_cmd msg = VFS_DUP" "w0 msg = of_nat fd" "fd < MAX_FD"
    and opened: "v_fd (vtasks st ! k) ! fd = fp" "fp \<noteq> - 1"
  shows "if - 1 \<notin> set (v_fd (vtasks st ! k))
    then vfs_step drv i st = Some (st, [Send (i_client i) (msg\<lparr>w0 := - 1, v_cmd := VFS_FINAL\<rparr>)])
    else \<exists>st' new. vfs_step drv i st = Some (st', [Send (i_client i) (msg\<lparr>w0 := of_nat new, v_cmd := VFS_FINAL\<rparr>)]) \<and>
      new < MAX_FD \<and> v_fd (vtasks st ! k) ! new = - 1 \<and> (\<forall>j < new. v_fd (vtasks st ! k) ! j \<noteq> - 1) \<and>
      vtasks st' = (vtasks st)[k := (vtasks st ! k)\<lparr>v_fd := (v_fd (vtasks st ! k))[new := fp]\<rparr>] \<and>
      filps st' = (filps st)[unat fp := (filps st ! unat fp)\<lparr>fp_refcnt := fp_refcnt (filps st ! unat fp) + 1\<rparr>] \<and>
      devs st' = devs st"
proof -
  let ?new = "find_empty_fd (vtasks st ! k)"
  have k: "k < length (vtasks st)" using findbypid_less [OF client(1)] by simp
  have fp: "\<not> cneg fp" "unat fp < 16" using slot_cases [OF inv k msg(4)] opened by auto
  have ix: "idx 8 (of_nat fd) = Some fd" "idx 16 fp = Some (unat fp)" "\<not> cneg (of_nat fd :: cint)"
    using msg(4) fp by (simp_all add: idx_eq unat_of_nat cneg_iff)
  have "vfs_dispatch drv i st = do_dup (Some k) msg st"
    using msg client by (simp add: vfs_dispatch_def vfs_cmds Let_def)
  also have "\<dots> = (if cneg ?new then Some (st, msg\<lparr>w0 := - 1\<rparr>, [])
      else Some (upd_filp (unat fp) inc_refcnt (set_fd k (unat ?new) fp st), msg\<lparr>w0 := ?new\<rparr>, []))"
    using msg opened fp ix by (simp add: do_dup_def Let_def)
  finally have disp: "vfs_dispatch drv i st = \<dots>" .
  have cmd: "VFS_DUP \<noteq> VFS_HOLD" "v_cmd (i_msg i) \<noteq> VFS_RD_INTERRUPT" "v_cmd (i_msg i) \<noteq> VFS_WR_INTERRUPT"
    using msg by (simp_all add: vfs_cmds)
  note answered = step_known [OF _ _ client(2) cmd(2,3)]
  show ?thesis
  proof (cases "cneg ?new")
    case True
    with disp answered [of drv st st "msg\<lparr>w0 := - 1\<rparr>" "[]"] no_free_fd [OF inv k] cmd(1) msg(2) show ?thesis by simp
  next
    case False
    note fd = empty_fd [OF inv k False]
    have "\<forall>j < unat ?new. v_fd (vtasks st ! k) ! j \<noteq> - 1" using fd(3) cneg_minus_one by metis
    with False fd(1,2) disp answered [of drv st "upd_filp (unat fp) inc_refcnt (set_fd k (unat ?new) fp st)" "msg\<lparr>w0 := ?new\<rparr>" "[]"]
      no_free_fd [OF inv k] cmd(1) msg(2) show ?thesis
      by (simp add: set_fd_def upd_filp_def inc_refcnt_def exI [of _ "unat ?new"])
  qed
qed

theorem dup_shares_open_file_witness:
  "\<exists>st' new. vfs_step system_drivers (turn 0x300 (system_msg VFS_DUP 0 0)) system_state =
       Some (st', [Send 0x300 ((system_msg VFS_DUP 0 0)\<lparr>w0 := of_nat new, v_cmd := VFS_FINAL\<rparr>)]) \<and>
     v_fd (vtasks system_state ! 0) ! new = - 1"
proof -
  have st: "v_fd (vtasks system_state ! 0) ! 0 = 0" "- 1 \<in> set (v_fd (vtasks system_state ! 0))" by code_simp+
  show ?thesis
    using dup_shares_open_file [where i = "turn 0x300 (system_msg VFS_DUP 0 0)" and drv = system_drivers and k = 0 and fd = 0,
        unfolded turn_sels, OF system_state_inv system_state_task _ refl system_msg_sels(1) _ _ st(1)] st(2)
    by (auto simp: system_msg_sels)
qed

lemma rw_step:
  fixes st :: "'d vfs_st"
  assumes inv: "vfs_inv st" and client: "vfs_findbypid (i_client i) st = Some k" "i_client i = c" "c \<noteq> NULL"
    and msg: "i_msg i = msg" "v_cmd msg \<in> {VFS_READC, VFS_WRITEC}" "rw_fd msg = of_nat fd" "fd < MAX_FD"
    and opened: "v_fd (vtasks st ! k) ! fd = fp" "filps st ! unat fp = f"
    and driver: "fp \<noteq> - 1 \<Longrightarrow> dev_pid (fp_dev f) st = Some pid \<and> pid \<noteq> NULL \<and>
      drv (i_str i) pid (msg\<lparr>v_client := c, w0 := fp_ino f, w1 := fp_pos f\<rparr>) (devs st) = Some (d, reps, ans)"
  shows "vfs_step drv i st =
    (if fp = - 1 then Some (st, [Send c (msg\<lparr>v_client := c, w2 := EOF, v_cmd := VFS_FINAL\<rparr>)])
     else Some (st\<lparr>filps := (filps st)[unat fp := f\<lparr>fp_pos := fp_pos f + rw_bnum ans\<rparr>], devs := d\<rparr>,
       pass_on reps @ (if v_cmd ans = VFS_HOLD then [] else [Send c (ans\<lparr>v_cmd := VFS_FINAL\<rparr>)])))"
proof -
  have k: "k < length (vtasks st)" using findbypid_less [OF client(1)] by simp
  have fp: "fp \<noteq> - 1 \<longleftrightarrow> \<not> cneg fp" "fp \<noteq> - 1 \<Longrightarrow> idx 16 fp = Some (unat fp)"
    using slot_cases [OF inv k msg(4)] opened by (auto simp: idx_eq)
  have ix: "idx 8 (of_nat fd) = Some fd" "\<not> cneg (of_nat fd :: cint)"
    using msg(4) by (simp_all add: idx_eq unat_of_nat cneg_iff)
  have "vfs_dispatch drv i st = do_rw drv (i_str i) (Some k) (msg\<lparr>v_client := c\<rparr>) st"
    using msg client by (auto simp: vfs_dispatch_def vfs_cmds Let_def)
  also have "\<dots> = (if fp = - 1 then Some (st, msg\<lparr>v_client := c, w2 := EOF\<rparr>, [])
      else Some (upd_filp (unat fp) (\<lambda>f. f\<lparr>fp_pos := fp_pos f + rw_bnum ans\<rparr>) (st\<lparr>devs := d\<rparr>), ans, pass_on reps))"
    using msg opened fp ix driver by (auto simp: do_rw_def Let_def call_def)
  finally have disp: "vfs_dispatch drv i st = \<dots>" .
  have cmd: "v_cmd msg \<noteq> VFS_HOLD" "v_cmd (i_msg i) \<noteq> VFS_RD_INTERRUPT" "v_cmd (i_msg i) \<noteq> VFS_WR_INTERRUPT"
    using msg by (auto simp: vfs_cmds)
  then show ?thesis using disp client(2,3) opened by (auto simp: vfs_step_def upd_filp_def)
qed

text \<open>
  Reading and writing: the request of a task for an open descriptor goes to the device of the open
  file with the node and the position of that file. What the driver has for waiting tasks is passed
  on, the position moves by the count of the answer, and the task gets the answer unless the driver
  holds it. For a descriptor that is not open the answer is \<^verbatim>\<open>EOF\<close> and no driver is asked.
\<close>

theorem rw_goes_to_open_file:
  fixes st :: "'d vfs_st"
  assumes inv: "vfs_inv st" and client: "vfs_findbypid (i_client i) st = Some k" "i_client i = c" "c \<noteq> NULL"
    and msg: "i_msg i = msg" "v_cmd msg \<in> {VFS_READC, VFS_WRITEC}" "rw_fd msg = of_nat fd" "fd < MAX_FD"
    and opened: "v_fd (vtasks st ! k) ! fd = fp" "filps st ! unat fp = f"
    and driver: "fp \<noteq> - 1 \<Longrightarrow> dev_pid (fp_dev f) st = Some pid \<and> pid \<noteq> NULL \<and>
      drv (i_str i) pid (msg\<lparr>v_client := c, w0 := fp_ino f, w1 := fp_pos f\<rparr>) (devs st) = Some (d, reps, ans)"
  shows "vfs_step drv i st =
    (if fp = - 1 then Some (st, [Send c (msg\<lparr>v_client := c, w2 := EOF, v_cmd := VFS_FINAL\<rparr>)])
     else Some (st\<lparr>filps := (filps st)[unat fp := f\<lparr>fp_pos := fp_pos f + rw_bnum ans\<rparr>], devs := d\<rparr>,
       pass_on reps @ (if v_cmd ans = VFS_HOLD then [] else [Send c (ans\<lparr>v_cmd := VFS_FINAL\<rparr>)])))"
  using assms by (rule rw_step)

theorem rw_goes_to_open_file_witness:
  "vfs_step system_drivers (turn 0x300 (system_msg VFS_READC 3 0)) system_state =
     Some (system_state, [Send 0x300 ((system_msg VFS_READC 3 0)\<lparr>v_client := 0x300, w2 := EOF, v_cmd := VFS_FINAL\<rparr>)]) \<and>
   (\<exists>st' a. vfs_step system_drivers (turn 0x300 (system_msg VFS_READC 0 0)) system_state = Some (st', [Send 0x300 a]) \<and>
     fp_pos (filps st' ! 0) = rw_bnum a)"
proof
  let ?m = "system_msg VFS_READC 3 0" and ?n = "system_msg VFS_READC 0 0"
  have st: "v_fd (vtasks system_state ! 0) ! 3 = - 1" "v_fd (vtasks system_state ! 0) ! 0 = 0" "length (filps system_state) = 16"
      "dev_pid (fp_dev (filps system_state ! unat (0 :: cint))) system_state = Some 0x200"
      "fp_pos (filps system_state ! 0) = 0" by code_simp+
  show "vfs_step system_drivers (turn 0x300 ?m) system_state =
      Some (system_state, [Send 0x300 (?m\<lparr>v_client := 0x300, w2 := EOF, v_cmd := VFS_FINAL\<rparr>)])"
    using rw_goes_to_open_file [where i = "turn 0x300 ?m" and drv = system_drivers and k = 0 and fd = 3,
        unfolded turn_sels, OF system_state_inv system_state_task refl _ refl _ _ _ st(1) refl]
    by (simp add: system_msg_sels)
  let ?f = "filps system_state ! unat (0 :: cint)"
  let ?r = "system_drivers (\<lambda>_. []) 0x200 (?n\<lparr>v_client := 0x300, w0 := fp_ino ?f, w1 := fp_pos ?f\<rparr>) (devs system_state)"
  have "?r \<noteq> None \<and> fst (snd (the ?r)) = [] \<and> v_cmd (snd (snd (the ?r))) \<noteq> VFS_HOLD" by code_simp
  then obtain d ans where g: "?r = Some (d, [], ans)" "v_cmd ans \<noteq> VFS_HOLD" by auto
  show "\<exists>st' a. vfs_step system_drivers (turn 0x300 ?n) system_state = Some (st', [Send 0x300 a]) \<and>
      fp_pos (filps st' ! 0) = rw_bnum a"
    using rw_goes_to_open_file [where i = "turn 0x300 ?n" and drv = system_drivers and k = 0 and fd = 0,
        unfolded turn_sels, OF system_state_inv system_state_task refl _ refl _ _ _ st(2) refl] g st
    by (simp add: system_msg_sels pass_on_def)
qed

section \<open>New tasks\<close>

lemma inherit_copies:
  assumes "vfs_inv st" "k < length (vtasks st)" "p < length (vtasks st)" "p \<noteq> k"
    and "\<forall>i \<in> set is. i < MAX_FD \<and> v_fd (vtasks st ! k) ! i = - 1" "distinct is"
  shows "\<exists>st'. inherit k p is st = Some st' \<and> devs st' = devs st \<and> length (vtasks st') = length (vtasks st) \<and>
    (\<forall>j. j \<noteq> k \<longrightarrow> vtasks st' ! j = vtasks st ! j) \<and>
    (\<exists>fds. vtasks st' ! k = (vtasks st ! k)\<lparr>v_fd := fds\<rparr> \<and> length fds = MAX_FD \<and>
      (\<forall>i < MAX_FD. fds ! i = v_fd (vtasks st ! (if i \<in> set is then p else k)) ! i))"
  using assms
proof (induction "is" arbitrary: st)
  case Nil
  have "length (v_fd (vtasks st ! k)) = 8" using vfs_inv_parts(5) [OF Nil.prems(1,2)] by (simp add: task_ok_def)
  then show ?case by (auto intro!: exI [of _ "v_fd (vtasks st ! k)"])
next
  case (Cons i "is")
  let ?fp = "v_fd (vtasks st ! p) ! i"
  have i: "i < 8" "v_fd (vtasks st ! k) ! i = - 1" using Cons.prems(5) by auto
  show ?case
  proof (cases "cneg ?fp")
    case True
    then have m1: "?fp = - 1" using slot_cases [OF Cons.prems(1,3) i(1)] by auto
    obtain st' fds where st': "inherit k p is st = Some st'" "devs st' = devs st" "length (vtasks st') = length (vtasks st)"
        "\<forall>j. j \<noteq> k \<longrightarrow> vtasks st' ! j = vtasks st ! j" "vtasks st' ! k = (vtasks st ! k)\<lparr>v_fd := fds\<rparr>" "length fds = 8"
        "\<forall>j < 8. fds ! j = v_fd (vtasks st ! (if j \<in> set is then p else k)) ! j"
      using Cons.IH [OF Cons.prems(1-4)] Cons.prems(5,6) by auto
    have "inherit k p (i # is) st = Some st'" using True st'(1) by (simp add: Let_def)
    moreover have "\<forall>j < 8. fds ! j = v_fd (vtasks st ! (if j \<in> set (i # is) then p else k)) ! j"
      using st'(7) m1 i by auto
    ultimately show ?thesis using st'(2-6) by blast
  next
    case False
    then have fp: "unat ?fp < 16" using slot_cases [OF Cons.prems(1,3) i(1)] by auto
    let ?st = "upd_filp (unat ?fp) inc_refcnt (set_fd k i ?fp st)"
    have inv: "vfs_inv ?st" using Cons.prems(1,2) i fp by (intro inv_share) (auto simp: inc_refcnt_def)
    have len: "length (v_fd (vtasks st ! k)) = 8" using vfs_inv_parts(5) [OF Cons.prems(1,2)] by (simp add: task_ok_def)
    have "\<forall>j \<in> set is. j < 8 \<and> v_fd (vtasks ?st ! k) ! j = - 1"
      using Cons.prems(2,5,6) by (auto simp: set_fd_nth) (metis nth_list_update_neq)
    then obtain st' fds where st': "inherit k p is ?st = Some st'" "devs st' = devs st" "length (vtasks st') = length (vtasks st)"
        "\<forall>j. j \<noteq> k \<longrightarrow> vtasks st' ! j = vtasks st ! j" "vtasks st' ! k = (vtasks st ! k)\<lparr>v_fd := fds\<rparr>" "length fds = 8"
        "\<forall>j < 8. fds ! j = v_fd (vtasks ?st ! (if j \<in> set is then p else k)) ! j"
      using Cons.IH [OF inv] Cons.prems(2-4,6) by (auto simp: set_fd_nth)
    have "inherit k p (i # is) st = Some st'" using st'(1) False fp by (simp add: Let_def idx_eq)
    moreover have "\<forall>j < 8. fds ! j = v_fd (vtasks st ! (if j \<in> set (i # is) then p else k)) ! j"
      using st'(7) len Cons.prems(2,4,6) by (auto simp: set_fd_nth nth_list_update)
    ultimately show ?thesis using st'(2-6) by blast
  qed
qed

text \<open>
  A new task inherits the files of its parent: it has the same descriptors, which refer to the same
  open files, and the same root and working directory; no other task changes and no driver is asked.
\<close>

theorem child_inherits_descriptors:
  assumes inv: "vfs_inv st" "length (vtasks st) < 31" and client: "i_client i \<noteq> NULL"
    and msg: "i_msg i = msg" "v_cmd msg = VFS_ADDTASK" and mem: "i_mem i sizeof_vfs_task \<noteq> NULL"
    and parent: "w1 msg \<noteq> NULL" "vfs_findbypid (w1 msg) st = Some p"
  shows "\<exists>st'. vfs_step drv i st = Some (st', [Send (i_client i) (msg\<lparr>v_cmd := VFS_FINAL\<rparr>)]) \<and>
    vtasks st' = vtasks st @ [(vtasks st ! p)\<lparr>v_pid := w0 msg\<rparr>] \<and> devs st' = devs st \<and> vfs_inv st'"
proof -
  let ?k = "length (vtasks st)" and ?t = "vtasks st ! p"
  let ?new = "\<lparr>v_pid = w0 msg, v_fd = replicate 8 (- 1), v_wdev = v_wdev ?t, v_wino = v_wino ?t,
    v_rdev = v_rdev ?t, v_rino = v_rino ?t\<rparr>"
  let ?st = "st\<lparr>vtasks := vtasks st @ [?new]\<rparr>"
  have p: "p < ?k" using findbypid_less [OF parent(2)] by simp
  have find: "vfs_findbypid (w1 msg) (st\<lparr>vtasks := vtasks st @ [t]\<rparr>) = Some p" for t
    using parent(2) unfolding vfs_findbypid_def find_Some_iff by (auto simp: nth_append)
  have "vfs_inv ?st" by (rule inv_append [OF inv]) simp
  from inherit_copies [OF this, of ?k p "[0..<8]"] p
  obtain st' fds where st': "inherit ?k p [0..<8] ?st = Some st'" "devs st' = devs st" "length (vtasks st') = Suc ?k"
      "\<forall>j. j \<noteq> ?k \<longrightarrow> vtasks st' ! j = vtasks ?st ! j" "vtasks st' ! ?k = ?new\<lparr>v_fd := fds\<rparr>" "length fds = 8"
      "\<forall>j < 8. fds ! j = v_fd (vtasks ?st ! p) ! j"
    by (auto simp del: upt_Suc)
  have "length (v_fd ?t) = 8" using vfs_inv_parts(5) [OF inv(1) p] by (simp add: task_ok_def)
  then have "fds = v_fd ?t" using st'(6,7) p by (intro nth_equalityI) (auto simp: nth_append)
  then have "vtasks st' ! ?k = ?t\<lparr>v_pid := w0 msg\<rparr>" using st'(5) by simp
  with st'(3,4) have tasks: "vtasks st' = vtasks st @ [?t\<lparr>v_pid := w0 msg\<rparr>]"
    by (intro nth_equalityI) (auto simp: nth_append less_Suc_eq)
  have "vfs_dispatch drv i st = vfs_addnewtask drv (i_str i) True msg st"
    using msg mem by (simp add: vfs_dispatch_def vfs_cmds Let_def)
  also have "\<dots> = Some (st', msg, [])"
    using parent(1) find st'(1) p by (simp add: vfs_addnewtask_def Let_def nth_append del: upt_Suc)
  finally have disp: "vfs_dispatch drv i st = Some (st', msg, [])" .
  have "vfs_step drv i st = Some (st', [Send (i_client i) (msg\<lparr>v_cmd := VFS_FINAL\<rparr>)])"
    using step_known [OF disp _ client] msg by (simp add: vfs_cmds)
  with tasks st'(2) dispatch_inv [OF inv(1) inv(2) disp] show ?thesis by blast
qed

theorem child_inherits_descriptors_witness:
  "\<exists>st'. vfs_step system_drivers (turn 0x400 (system_msg VFS_ADDTASK 0x500 0x300)) system_state =
       Some (st', [Send 0x400 ((system_msg VFS_ADDTASK 0x500 0x300)\<lparr>v_cmd := VFS_FINAL\<rparr>)]) \<and>
     vtasks st' = vtasks system_state @ [(vtasks system_state ! 0)\<lparr>v_pid := 0x500\<rparr>]"
proof -
  have "length (vtasks system_state) < 31" by code_simp
  from child_inherits_descriptors [OF system_state_inv this, where drv = system_drivers and p = 0 and
      i = "turn 0x400 (system_msg VFS_ADDTASK 0x500 0x300)", unfolded turn_sels, OF _ refl system_msg_sels(1)]
  show ?thesis using system_state_task by (auto simp: system_msg_sels)
qed

end
