(* ===== verification/Vfs_Path.thy ===== *)
theory Vfs_Path
  imports Vfs_Props
begin

text \<open>
  Path names of the file system: the loops over the characters of a path agree with a specification
  on the list of its components.
\<close>

text \<open>The components of a path: what stands between the slashes.\<close>

fun components :: "byte list \<Rightarrow> byte list list" where
  "components [] = [[]]"
| "components (c # cs) =
     (if c = slash then [] # components cs else (c # hd (components cs)) # tl (components cs))"

text \<open>A list of names, looked up one after the other from the node \<open>ino\<close>, while the node exists.\<close>

primrec look_up ::
  "'d drivers \<Rightarrow> strings \<Rightarrow> (nat \<Rightarrow> addr) \<Rightarrow> vfsmsg \<Rightarrow> cint \<Rightarrow> byte list list \<Rightarrow> cint \<Rightarrow> 'd vfs_st \<Rightarrow> ('d vfs_st \<times> cint) option"
where
  "look_up drv str mem junk dev [] ino st = Some (st, ino)"
| "look_up drv str mem junk dev (n # ns) ino st =
     (if cneg ino then Some (st, ino)
      else case vfs_get_direntry drv str mem junk dev ino n st of
        None \<Rightarrow> None
      | Some (st', ino') \<Rightarrow> look_up drv str mem junk dev ns ino' st')"

lemma components_ne [simp]: "components p \<noteq> []"
  by (cases p) auto

lemma components_split:
  "components p = takeWhile (\<lambda>c. c \<noteq> slash) p #
     (case dropWhile (\<lambda>c. c \<noteq> slash) p of [] \<Rightarrow> [] | c # cs \<Rightarrow> components cs)"
  by (induction p) (auto split: list.splits)

lemma components_one: "slash \<notin> set p \<Longrightarrow> components p = [p]"
  by (induction p) auto

lemma components_tl: "slash \<in> set p \<Longrightarrow> tl (components p) \<noteq> []"
  by (induction p) auto

lemma components_last: "slash \<in> set p \<Longrightarrow> last (components (c # p)) = last (components p)"
  using components_tl [of p] by (cases "components p") auto

lemma look_up_cneg: "cneg ino \<Longrightarrow> look_up drv str mem junk dev ns ino st = Some (st, ino)"
  by (cases ns) auto

lemma walk_path_look_up:
  "walk_path drv str mem junk dev ino p st = look_up drv str mem junk dev (butlast (components p)) ino st"
proof (induction drv str mem junk dev ino p st rule: walk_path.induct)
  case (1 drv str mem junk dev ino path st)
  show ?case
  proof (cases "cneg ino")
    case True
    then show ?thesis by (simp add: walk_path.simps look_up_cneg)
  next
    case False
    show ?thesis
    proof (cases "dropWhile (\<lambda>c. c \<noteq> slash) path")
      case Nil
      then have "slash \<notin> set path" by auto
      with Nil show ?thesis using False by (simp add: walk_path.simps components_one)
    next
      case (Cons c cs)
      have "walk_path drv str mem junk dev ino' cs st' = look_up drv str mem junk dev (butlast (components cs)) ino' st'"
        if "vfs_get_direntry drv str mem junk dev ino (takeWhile (\<lambda>c. c \<noteq> slash) path) st = Some (st', ino')" for st' ino'
        using "1.IH" [OF False refl refl _ that refl] Cons by simp
      then show ?thesis
        using False Cons
        by (subst components_split) (auto simp: walk_path.simps [of drv str mem junk dev ino path st] split: option.splits)
    qed
  qed
qed

lemma basename_loop_components:
  assumes "0 \<le> len"
  shows "basename_loop p bn len =
    (if slash \<in> set p then (last (components p), int (length (last (components p)))) else (bn, len + int (length p)))"
  using assms
proof (induction p arbitrary: bn len)
  case (Cons c cs)
  show ?case using Cons components_one [of cs] components_last [of cs c] by auto
qed simp

lemma basename_components: "basename p = (last (components p), int (length (last (components p))))"
  by (auto simp: basename_def basename_loop_components components_one)

text \<open>
  C30. Path names are resolved component by component: \<^verbatim>\<open>vfs_get_node\<close>, which scans the characters, finds
  the node that the components of the path lead to, from the root directory of the task for a path
  that starts with a slash and from its working directory otherwise. All components but the last are
  looked up while the node exists; a last component that is empty names the directory itself.
\<close>

theorem path_is_resolved:
  fixes st :: "'d vfs_st" and k :: nat
  assumes "path \<noteq> NULL" and "str path \<noteq> []"
  defines "t \<equiv> vtasks st ! k"
  defines "names \<equiv> components (if hd (str path) = slash then tl (str path) else str path)"
  defines "dev \<equiv> if hd (str path) = slash then v_rdev t else v_wdev t"
  defines "start \<equiv> if hd (str path) = slash then v_rino t else v_wino t"
  shows "vfs_get_node drv str mem junk dev0 (Some k) path st = do {
    (st1, ino) \<leftarrow> look_up drv str mem junk dev (butlast names) start st;
    if cneg ino then Some (st1, dev, - 1)
    else if last names = [] then Some (st1, dev, ino)
    else do { (st2, ino') \<leftarrow> vfs_get_direntry drv str mem junk dev ino (last names) st1; Some (st2, dev, ino') }
  }"
proof -
  have last: "last (components (str path)) = last names"
    using assms(2) by (cases "str path") (auto simp: names_def)
  have "vfs_get_dir drv str mem junk dev0 (Some k) path st =
      do { (st1, ino) \<leftarrow> look_up drv str mem junk dev (butlast names) start st; Some (st1, dev, ino) }"
    using assms(1,2) by (simp add: vfs_get_dir_def walk_path_look_up names_def dev_def start_def t_def Let_def)
  then show ?thesis
    by (cases "look_up drv str mem junk dev (butlast names) start st")
      (auto simp: vfs_get_node_def basename_components last)
qed

theorem path_is_resolved_witness:
  "map_option snd (vfs_get_node system_drivers (\<lambda>_. [slash, 0x2E]) (\<lambda>_. 0x900) blank_vfsmsg 0 (Some 0) 0x700 system_state) =
     Some (1, 0)"
proof -
  have "map_option snd (do {
      (st1, ino) \<leftarrow> look_up system_drivers (\<lambda>_. [slash, 0x2E]) (\<lambda>_. 0x900) blank_vfsmsg 1 [] 0 system_state;
      (st2, ino') \<leftarrow> vfs_get_direntry system_drivers (\<lambda>_. [slash, 0x2E]) (\<lambda>_. 0x900) blank_vfsmsg 1 ino [0x2E] st1;
      Some (st2, 1 :: cint, ino') }) = Some (1, 0)"
    "v_rdev (vtasks system_state ! 0) = 1" "v_rino (vtasks system_state ! 0) = 0" "\<not> cneg 0" by code_simp+
  then show ?thesis
    using path_is_resolved [of "0x700" "\<lambda>_. [slash, 0x2E]" system_drivers "\<lambda>_. 0x900" blank_vfsmsg 0 0 system_state] by simp
qed

end
