(* ===== verification/Vfs_Client.thy ===== *)
theory Vfs_Client
  imports Vfs_Path
begin

text \<open>
  The functions of \<^verbatim>\<open>servers/vfs.c\<close> that user tasks and drivers call: each fills in a message (the rest
  of which is uninitialised), waits for the answer of the file system and reads its result from it.
  The last section follows characters from one task's \<^verbatim>\<open>writec\<close> to its \<^verbatim>\<open>readc\<close>, through the file system
  and the driver of files in memory.
\<close>

section \<open>Requests\<close>

definition vfs_rd_interrupt :: "pid_t \<Rightarrow> vfsmsg \<Rightarrow> vfsmsg" where
  "vfs_rd_interrupt driver msg = msg\<lparr>v_client := driver, v_cmd := VFS_RD_INTERRUPT\<rparr>"

definition vfs_wr_interrupt :: "pid_t \<Rightarrow> vfsmsg \<Rightarrow> vfsmsg" where
  "vfs_wr_interrupt driver msg = msg\<lparr>v_client := driver, v_cmd := VFS_WR_INTERRUPT\<rparr>"

definition writec_req :: "cint \<Rightarrow> cint \<Rightarrow> vfsmsg \<Rightarrow> vfsmsg" where
  "writec_req fd c msg = msg\<lparr>w0 := fd, w2 := c, v_cmd := VFS_WRITEC\<rparr>"

definition readc_req :: "cint \<Rightarrow> vfsmsg \<Rightarrow> vfsmsg" where
  "readc_req fd msg = msg\<lparr>w0 := fd, v_cmd := VFS_READC\<rparr>"

definition vfs_createtask_req :: "pid_t \<Rightarrow> pid_t \<Rightarrow> vfsmsg \<Rightarrow> vfsmsg" where
  "vfs_createtask_req pid parent msg = msg\<lparr>v_cmd := VFS_ADDTASK, w0 := pid, w1 := parent\<rparr>"

definition vfs_deletetask_req :: "pid_t \<Rightarrow> vfsmsg \<Rightarrow> vfsmsg" where
  "vfs_deletetask_req pid msg = msg\<lparr>v_cmd := VFS_DELTASK, w0 := pid\<rparr>"

definition mkdev_req :: "addr \<Rightarrow> addr \<Rightarrow> vfsmsg \<Rightarrow> vfsmsg" where
  "mkdev_req driver args msg = msg\<lparr>v_cmd := VFS_MKDEV, w0 := driver, w1 := args\<rparr>"

definition mknod_req :: "cint \<Rightarrow> addr \<Rightarrow> vfsmsg \<Rightarrow> vfsmsg" where
  "mknod_req dev name msg = msg\<lparr>v_cmd := VFS_MKNOD, w0 := dev, w1 := name\<rparr>"

definition pipe_req :: "vfsmsg \<Rightarrow> vfsmsg" where
  "pipe_req msg = msg\<lparr>v_cmd := VFS_PIPE\<rparr>"

definition fstat_req :: "addr \<Rightarrow> vfsmsg \<Rightarrow> vfsmsg" where
  "fstat_req name msg = msg\<lparr>v_cmd := VFS_STAT, w0 := name\<rparr>"

definition close_req :: "cint \<Rightarrow> vfsmsg \<Rightarrow> vfsmsg" where
  "close_req fd msg = msg\<lparr>v_cmd := VFS_CLOSE, w0 := fd\<rparr>"

definition dup_req :: "cint \<Rightarrow> vfsmsg \<Rightarrow> vfsmsg" where
  "dup_req fd msg = msg\<lparr>v_cmd := VFS_DUP, w0 := fd\<rparr>"

definition vfs_debugn_req :: "cint \<Rightarrow> vfsmsg \<Rightarrow> vfsmsg" where
  "vfs_debugn_req reset msg = msg\<lparr>v_cmd := VFS_DEBUG, w0 := reset\<rparr>"

text \<open>
  \<^verbatim>\<open>open\<close> takes a name of the form \<open>device/node\<close>, two decimal numbers, and cuts it at the slash. \<^verbatim>\<open>atoi\<close>
  of the C library skips white space, takes a sign and reads digits; it has no defined result for a
  number that is no \<^verbatim>\<open>int\<close>, which is \<^term>\<open>None\<close>.
\<close>

definition is_digit :: "byte \<Rightarrow> bool" where
  "is_digit c \<longleftrightarrow> 0x30 \<le> c \<and> c \<le> 0x39"

definition is_space :: "byte \<Rightarrow> bool" where
  "is_space c \<longleftrightarrow> c = 0x20 \<or> 0x09 \<le> c \<and> c \<le> 0x0D"

definition digits :: "byte list \<Rightarrow> int" where
  "digits s = foldl (\<lambda>n c. n * 10 + (uint c - 0x30)) 0 (takeWhile is_digit s)"

definition signed_digits :: "byte list \<Rightarrow> int" where
  "signed_digits s =
     (case dropWhile is_space s of
        [] \<Rightarrow> 0
      | c # cs \<Rightarrow> if c = 0x2D then - digits cs else if c = 0x2B then digits cs else digits (c # cs))"

definition atoi :: "byte list \<Rightarrow> cint option" where
  "atoi s =
     (let n = signed_digits s
      in if - 0x8000 \<le> n \<and> n < 0x8000 then Some (word_of_int n) else None)"

definition open_cut :: "byte list \<Rightarrow> byte list \<times> byte list" where
  "open_cut name = (takeWhile (\<lambda>c. c \<noteq> slash) name, tl (dropWhile (\<lambda>c. c \<noteq> slash) name))"

definition open_nums :: "byte list \<Rightarrow> (cint \<times> cint) option" where
  "open_nums name = do {
     dev \<leftarrow> atoi (fst (open_cut name));
     ino \<leftarrow> atoi (snd (open_cut name));
     Some (dev, ino)
   }"

definition open_req :: "cint \<times> cint \<Rightarrow> vfsmsg \<Rightarrow> vfsmsg" where
  "open_req nums msg = msg\<lparr>v_cmd := VFS_OPEN, w0 := fst nums, w1 := snd nums\<rparr>"

section \<open>Calls\<close>

text \<open>
  \<^verbatim>\<open>sendrec\<close> to the file system, for the task \<open>i_client i\<close>, whose message starts as \<open>i_msg i\<close>: the answer, or
  \<^term>\<open>None\<close> while the task stays blocked.
\<close>

definition vfs_call ::
  "'d drivers \<Rightarrow> vfs_in \<Rightarrow> (vfsmsg \<Rightarrow> vfsmsg) \<Rightarrow> 'd vfs_st \<Rightarrow> ('d vfs_st \<times> vfsmsg option) option"
where
  "vfs_call drv i req st = do {
     (st', acts) \<leftarrow> vfs_step drv (i\<lparr>i_msg := req (i_msg i)\<rparr>) st;
     Some (st', case sent_to (i_client i) acts of [] \<Rightarrow> None | m # _ \<Rightarrow> Some m)
   }"

definition writec :: "'d drivers \<Rightarrow> vfs_in \<Rightarrow> cint \<Rightarrow> cint \<Rightarrow> 'd vfs_st \<Rightarrow> ('d vfs_st \<times> cint option) option" where
  "writec drv i fd c st = do { (st', m) \<leftarrow> vfs_call drv i (writec_req fd c) st; Some (st', map_option rw_data m) }"

definition readc :: "'d drivers \<Rightarrow> vfs_in \<Rightarrow> cint \<Rightarrow> 'd vfs_st \<Rightarrow> ('d vfs_st \<times> cint option) option" where
  "readc drv i fd st = do { (st', m) \<leftarrow> vfs_call drv i (readc_req fd) st; Some (st', map_option rw_data m) }"

definition open_vfs :: "'d drivers \<Rightarrow> vfs_in \<Rightarrow> byte list \<Rightarrow> 'd vfs_st \<Rightarrow> ('d vfs_st \<times> cint option) option" where
  "open_vfs drv i name st = do {
     nums \<leftarrow> open_nums name;
     (st', m) \<leftarrow> vfs_call drv i (open_req nums) st;
     Some (st', map_option open_fd m)
   }"

section \<open>From one end of a file to the other\<close>

text \<open>A string, character by character, and the results of the calls.\<close>

primrec write_str :: "'d drivers \<Rightarrow> vfs_in \<Rightarrow> cint \<Rightarrow> cint list \<Rightarrow> 'd vfs_st \<Rightarrow> ('d vfs_st \<times> cint option list) option" where
  "write_str drv i fd [] st = Some (st, [])"
| "write_str drv i fd (c # cs) st = do {
     (st1, r) \<leftarrow> writec drv i fd c st;
     (st2, rs) \<leftarrow> write_str drv i fd cs st1;
     Some (st2, r # rs)
   }"

primrec read_str :: "'d drivers \<Rightarrow> vfs_in \<Rightarrow> cint \<Rightarrow> nat \<Rightarrow> 'd vfs_st \<Rightarrow> ('d vfs_st \<times> cint option list) option" where
  "read_str drv i fd 0 st = Some (st, [])"
| "read_str drv i fd (Suc n) st = do {
     (st1, r) \<leftarrow> readc drv i fd st;
     (st2, rs) \<leftarrow> read_str drv i fd n st1;
     Some (st2, r # rs)
   }"

text \<open>The descriptor \<open>fd\<close> of the caller is open on the node \<open>n\<close> of the file driver, at position \<open>pos\<close>.\<close>

definition slot :: "vfs_in \<Rightarrow> nat \<Rightarrow> 'd vfs_st \<Rightarrow> cint" where
  "slot i fd st = v_fd (vtasks st ! the (vfs_findbypid (i_client i) st)) ! fd"

definition file_at :: "vfs_in \<Rightarrow> nat \<Rightarrow> nat \<Rightarrow> nat \<Rightarrow> (pd_nodes \<times> mf_nodes) vfs_st \<Rightarrow> bool" where
  "file_at i fd n pos st \<longleftrightarrow> vfs_inv st \<and> mf_ok (snd (devs st)) \<and> vfs_findbypid (i_client i) st \<noteq> None \<and> i_client i \<noteq> NULL \<and>
     fd < MAX_FD \<and> n < MF_MAX_NODES \<and> slot i fd st \<noteq> - 1 \<and>
     (let f = filps st ! unat (slot i fd st)
      in dev_pid (fp_dev f) st = Some 0x200 \<and> fp_ino f = of_nat n \<and> fp_pos f = of_nat pos)"

lemma rw_file:
  assumes at: "file_at i fd n pos st"
    and msg: "i_msg i = msg" "v_cmd msg \<in> {VFS_READC, VFS_WRITEC}" "rw_fd msg = of_nat fd"
    and driver: "memfile True (i_str i) (msg\<lparr>v_client := i_client i, w0 := of_nat n, w1 := of_nat pos\<rparr>) (snd (devs st)) =
      Some (nodes, [], ans)" "v_cmd ans \<noteq> VFS_HOLD"
  defines "fp \<equiv> unat (slot i fd st)"
  defines "st' \<equiv> st\<lparr>filps := (filps st)[fp := (filps st ! fp)\<lparr>fp_pos := of_nat pos + rw_bnum ans\<rparr>], devs := (fst (devs st), nodes)\<rparr>"
  shows "vfs_step system_drivers i st = Some (st', [Send (i_client i) (ans\<lparr>v_cmd := VFS_FINAL\<rparr>)])"
proof -
  obtain k where k: "vfs_findbypid (i_client i) st = Some k" using at by (auto simp: file_at_def)
  have f: "fp_ino (filps st ! fp) = of_nat n" "fp_pos (filps st ! fp) = of_nat pos" "v_fd (vtasks st ! k) ! fd \<noteq> - 1"
      "fp = unat (v_fd (vtasks st ! k) ! fd)"
    using at k by (auto simp: file_at_def slot_def Let_def fp_def)
  have "system_drivers (i_str i) 0x200 (msg\<lparr>v_client := i_client i, w0 := of_nat n, w1 := of_nat pos\<rparr>) (devs st) =
      Some ((fst (devs st), nodes), [], ans)"
    using driver(1) by (simp add: system_drivers_def)
  then show ?thesis
    using rw_step [where drv = system_drivers and i = i and st = st and pid = "0x200" and d = "(fst (devs st), nodes)"
        and reps = "[]" and ans = ans, OF _ k refl _ msg _ refl refl] at f driver(2)
    by (auto simp: file_at_def Let_def slot_def k fp_def st'_def pass_on_def)
qed

lemma file_at_slot:
  assumes "file_at i fd n pos st"
  shows "unat (slot i fd st) < MAX_FILP" "length (filps st) = MAX_FILP"
proof -
  obtain k where k: "vfs_findbypid (i_client i) st = Some k" using assms by (auto simp: file_at_def)
  show "unat (slot i fd st) < MAX_FILP"
    using slot_cases [of st k fd] findbypid_less [OF k] assms k by (auto simp: file_at_def slot_def)
  show "length (filps st) = MAX_FILP" using assms vfs_inv_parts(2) by (auto simp: file_at_def)
qed

definition moved :: "vfs_in \<Rightarrow> nat \<Rightarrow> nat \<Rightarrow> mf_nodes \<Rightarrow> (pd_nodes \<times> mf_nodes) vfs_st \<Rightarrow> (pd_nodes \<times> mf_nodes) vfs_st" where
  "moved i fd pos nodes st =
     upd_filp (unat (slot i fd st)) (\<lambda>f. f\<lparr>fp_pos := of_nat pos\<rparr>) (st\<lparr>devs := (fst (devs st), nodes)\<rparr>)"

lemma slot_moved [simp]: "slot i fd' (moved i fd pos nodes st) = slot i fd' st" "devs (moved i fd pos nodes st) = (fst (devs st), nodes)"
    "vfs_findbypid pid (moved i fd pos nodes st) = vfs_findbypid pid st" "dev_pid d (moved i fd pos nodes st) = dev_pid d st"
  by (simp_all add: slot_def moved_def vfs_findbypid_def dev_pid_def)

lemma file_at_moved:
  assumes at: "file_at i fd n pos st" and ok: "mf_ok nodes"
  shows "file_at i fd n q (moved i fd q nodes st)"
    and "file_at i fd' n' pos' st \<Longrightarrow> slot i fd' st \<noteq> slot i fd st \<Longrightarrow> file_at i fd' n' pos' (moved i fd q nodes st)"
proof -
  let ?st = "moved i fd q nodes st"
  have inv: "vfs_inv ?st"
    unfolding moved_def using at file_at_slot [OF at] by (intro inv_filp_same) (auto simp: file_at_def)
  have f: "filps ?st ! j = (if j = unat (slot i fd st) then (filps st ! j)\<lparr>fp_pos := of_nat q\<rparr> else filps st ! j)" for j
    using file_at_slot [OF at] by (simp add: moved_def upd_filp_nth)
  show "file_at i fd n q ?st" using at ok inv by (auto simp: file_at_def f Let_def)
  assume at': "file_at i fd' n' pos' st" "slot i fd' st \<noteq> slot i fd st"
  have "unat (slot i fd' st) \<noteq> unat (slot i fd st)" using at'(2) unsigned_word_eqI by blast
  then show "file_at i fd' n' pos' ?st" using at' ok inv by (auto simp: file_at_def f Let_def)
qed

text \<open>One character.\<close>

lemma memfile_at:
  assumes "mf_ok nodes" "n < MF_MAX_NODES" "nodes ! n = Some nd" "pos < 127" "w0 msg = of_nat n" "w1 msg = of_nat pos"
  shows "v_cmd msg = VFS_WRITEC \<Longrightarrow> memfile ok str msg nodes =
      Some (nodes[n := Some (nd\<lparr>f_file := (f_file nd)[pos := ucast (rw_data msg)], f_size := of_nat (Suc pos)\<rparr>)], [], msg\<lparr>w1 := 1\<rparr>)"
    and "v_cmd msg = VFS_READC \<Longrightarrow> f_size nd = of_nat m \<Longrightarrow> pos < m \<Longrightarrow> m < 32768 \<Longrightarrow>
      memfile ok str msg nodes = Some (nodes, [], msg\<lparr>w2 := scast (f_file nd ! pos), w1 := 1\<rparr>)"
proof -
  have "idx (length nodes) (of_nat n) = Some n" "idx (length (f_file nd)) (of_nat pos) = Some pos"
    using assms(1,2,4) mf_ok_nth [OF assms(1-3)] by (simp_all add: mf_ok_def idx_eq small_word)
  then show "v_cmd msg = VFS_WRITEC \<Longrightarrow> memfile ok str msg nodes =
      Some (nodes[n := Some (nd\<lparr>f_file := (f_file nd)[pos := ucast (rw_data msg)], f_size := of_nat (Suc pos)\<rparr>)], [], msg\<lparr>w1 := 1\<rparr>)"
      "v_cmd msg = VFS_READC \<Longrightarrow> f_size nd = of_nat m \<Longrightarrow> pos < m \<Longrightarrow> m < 32768 \<Longrightarrow>
      memfile ok str msg nodes = Some (nodes, [], msg\<lparr>w2 := scast (f_file nd ! pos), w1 := 1\<rparr>)"
    using assms(3-6) by (simp_all add: memfile_def mf_writec_def mf_readc_def vfs_cmds small_word)
      (simp_all add: add.commute)
qed

lemma file_at_msg [simp]: "slot (i\<lparr>i_msg := m\<rparr>) fd st = slot i fd st" "file_at (i\<lparr>i_msg := m\<rparr>) fd n pos st = file_at i fd n pos st"
  by (simp_all add: slot_def file_at_def)

text \<open>A request that the driver answers with one character.\<close>

lemma vfs_call_file:
  assumes at: "file_at i fd n pos st" and req: "v_cmd (req (i_msg i)) \<in> {VFS_READC, VFS_WRITEC}" "rw_fd (req (i_msg i)) = of_nat fd"
    and driver: "memfile True (i_str i) ((req (i_msg i))\<lparr>v_client := i_client i, w0 := of_nat n, w1 := of_nat pos\<rparr>) (snd (devs st)) =
      Some (nodes, [], ans)" "v_cmd ans \<noteq> VFS_HOLD" "rw_bnum ans = 1"
  shows "vfs_call system_drivers i req st = Some (moved i fd (Suc pos) nodes st, Some (ans\<lparr>v_cmd := VFS_FINAL\<rparr>))"
proof -
  have "vfs_step system_drivers (i\<lparr>i_msg := req (i_msg i)\<rparr>) st =
      Some (moved i fd (Suc pos) nodes st, [Send (i_client i) (ans\<lparr>v_cmd := VFS_FINAL\<rparr>)])"
    using rw_file [of "i\<lparr>i_msg := req (i_msg i)\<rparr>" fd n pos st "req (i_msg i)" nodes ans] at req driver
    by (simp add: moved_def upd_filp_def) (simp add: add.commute)
  then show ?thesis by (simp add: vfs_call_def)
qed

lemma writec_file:
  assumes at: "file_at i fd n pos st" and nd: "snd (devs st) ! n = Some nd" and pos: "pos < 127"
    and nodes: "nodes = (snd (devs st))[n := Some (nd\<lparr>f_file := (f_file nd)[pos := ucast c], f_size := of_nat (Suc pos)\<rparr>)]"
  shows "writec system_drivers i (of_nat fd) c st = Some (moved i fd (Suc pos) nodes st, Some c)" and "mf_ok nodes"
proof -
  have ok: "mf_ok (snd (devs st))" "n < 8" using at by (auto simp: file_at_def)
  show "mf_ok nodes" unfolding nodes using mf_ok_nth [OF ok nd] by (intro mf_ok_update [OF ok(1)]) simp
  let ?m = "(writec_req (of_nat fd) c (i_msg i))\<lparr>v_client := i_client i, w0 := of_nat n, w1 := of_nat pos\<rparr>"
  have "memfile True (i_str i) ?m (snd (devs st)) = Some (nodes, [], ?m\<lparr>w1 := 1\<rparr>)"
    unfolding nodes by (subst memfile_at(1) [OF ok nd pos]) (simp_all add: writec_req_def)
  then show "writec system_drivers i (of_nat fd) c st = Some (moved i fd (Suc pos) nodes st, Some c)"
    using vfs_call_file [OF at, of "writec_req (of_nat fd) c" nodes "?m\<lparr>w1 := 1\<rparr>"]
    by (simp add: writec_def writec_req_def vfs_cmds)
qed

lemma readc_file:
  assumes at: "file_at i fd n pos st" and nd: "snd (devs st) ! n = Some nd" and pos: "pos < 127"
    and size: "f_size nd = of_nat m" "pos < m" "m < 32768"
  shows "readc system_drivers i (of_nat fd) st = Some (moved i fd (Suc pos) (snd (devs st)) st, Some (scast (f_file nd ! pos)))"
proof -
  have ok: "mf_ok (snd (devs st))" "n < 8" using at by (auto simp: file_at_def)
  let ?m = "(readc_req (of_nat fd) (i_msg i))\<lparr>v_client := i_client i, w0 := of_nat n, w1 := of_nat pos\<rparr>"
  let ?ans = "?m\<lparr>w2 := scast (f_file nd ! pos), w1 := 1\<rparr>"
  have "memfile True (i_str i) ?m (snd (devs st)) = Some (snd (devs st), [], ?ans)"
    by (subst memfile_at(2) [OF ok nd pos _ _ _ size]) (simp_all add: readc_req_def)
  then show ?thesis
    using vfs_call_file [OF at, of "readc_req (of_nat fd)" "snd (devs st)" ?ans]
    by (simp add: readc_def readc_req_def vfs_cmds)
qed

lemma write_str_file:
  assumes "file_at i fd n pos st" "snd (devs st) ! n = Some nd" "pos + length cs \<le> 127" "cs \<noteq> []"
    and "file_at i fd' n 0 st" "slot i fd' st \<noteq> slot i fd st"
  shows "\<exists>st' nd'. write_str system_drivers i (of_nat fd) cs st = Some (st', map Some cs) \<and> file_at i fd' n 0 st' \<and>
    snd (devs st') ! n = Some nd' \<and> f_size nd' = of_nat (pos + length cs) \<and>
    take (pos + length cs) (f_file nd') = take pos (f_file nd) @ map ucast cs"
  using assms
proof (induction cs arbitrary: pos st nd)
  case (Cons c cs)
  have ok: "mf_ok (snd (devs st))" "n < 8" using Cons.prems(1) by (auto simp: file_at_def)
  let ?nd = "nd\<lparr>f_file := (f_file nd)[pos := ucast c], f_size := of_nat (Suc pos)\<rparr>"
  let ?nodes = "(snd (devs st))[n := Some ?nd]" and ?st = "moved i fd (Suc pos) ((snd (devs st))[n := Some ?nd]) st"
  have pos: "pos < 127" using Cons.prems(3) by simp
  note w = writec_file [OF Cons.prems(1,2) pos refl, of c]
  have st: "file_at i fd n (Suc pos) ?st" "file_at i fd' n 0 ?st"
    using file_at_moved [OF Cons.prems(1) w(2)] Cons.prems(5,6) by auto
  have nd: "snd (devs ?st) ! n = Some ?nd" using ok by (simp add: mf_ok_def)
  have len: "pos < length (f_file nd)" using mf_ok_nth [OF ok Cons.prems(2)] pos by simp
  then have tk: "take (Suc pos) (f_file ?nd) = take pos (f_file nd) @ [ucast c]" by (simp add: take_Suc_conv_app_nth)
  show ?case
  proof (cases "cs = []")
    case True
    with w st nd tk show ?thesis by simp
  next
    case False
    with Cons.IH [OF st(1) nd _ _ st(2)] Cons.prems(3,6) w(1) tk show ?thesis by auto
  qed
qed simp

lemma read_str_file:
  assumes "file_at i fd n pos st" "snd (devs st) ! n = Some nd" "f_size nd = of_nat m" "pos + k \<le> m" "m \<le> 127"
  shows "\<exists>st'. read_str system_drivers i (of_nat fd) k st = Some (st', map (\<lambda>j. Some (scast (f_file nd ! j))) [pos..<pos + k])"
  using assms
proof (induction k arbitrary: pos st)
  case (Suc k)
  let ?st = "moved i fd (Suc pos) (snd (devs st)) st"
  have r: "readc system_drivers i (of_nat fd) st = Some (?st, Some (scast (f_file nd ! pos)))"
    using Suc.prems by (intro readc_file) auto
  have "mf_ok (snd (devs st))" using Suc.prems(1) by (auto simp: file_at_def)
  note at = file_at_moved(1) [OF Suc.prems(1) this, of "Suc pos"]
  from Suc.IH [OF at] Suc.prems r show ?case by (auto simp: upt_conv_Cons simp del: upt_Suc)
qed simp

text \<open>
  C11. What a task writes into a file is what is read from it: a string of up to 127 characters (each
  below 128) written with \<^verbatim>\<open>writec\<close> through one descriptor is read back with \<^verbatim>\<open>readc\<close> through another one
  that was opened on the same file. Every call is answered, by the file system together with the
  driver of files in memory.
\<close>

theorem file_roundtrip:
  assumes "file_at i fd n 0 st" and "file_at i fd' n 0 st" and "slot i fd' st \<noteq> slot i fd st"
    and "snd (devs st) ! n = Some nd" and "cs \<noteq> []" and "length cs \<le> 127" and "\<forall>c \<in> set cs. unat c < 128"
  shows "\<exists>st1 st2. write_str system_drivers i (of_nat fd) cs st = Some (st1, map Some cs) \<and>
    read_str system_drivers i (of_nat fd') (length cs) st1 = Some (st2, map Some cs)"
proof -
  obtain st1 nd1 where w: "write_str system_drivers i (of_nat fd) cs st = Some (st1, map Some cs)" "file_at i fd' n 0 st1"
      "snd (devs st1) ! n = Some nd1" "f_size nd1 = of_nat (length cs)" "take (length cs) (f_file nd1) = map ucast cs"
    using write_str_file [OF assms(1,4) _ assms(5,2,3)] assms(6) by auto
  have "scast (f_file nd1 ! j) = cs ! j" if "j < length cs" for j
  proof -
    have "f_file nd1 ! j = map ucast cs ! j" using w(5) that by (metis nth_take)
    with that assms(7) char_back show ?thesis by simp
  qed
  then have "map (\<lambda>j. Some (scast (f_file nd1 ! j))) [0..<length cs] = map Some cs"
    by (intro nth_equalityI) auto
  with read_str_file [OF w(2,3,4), of "length cs"] w(1) assms(6) show ?thesis by auto
qed

text \<open>A file made with \<^verbatim>\<open>mknod\<close> and opened twice.\<close>

definition system_files :: "(pd_nodes \<times> mf_nodes) vfs_st" where
  "system_files = turns [(turn 0x300 (mknod_req 1 0x700 blank_vfsmsg))\<lparr>i_str := \<lambda>_. [0x78]\<rparr>,
     turn 0x300 (open_req (1, 1) blank_vfsmsg), turn 0x300 (open_req (1, 1) blank_vfsmsg)] system_state"

theorem file_roundtrip_witness:
  "\<exists>st1 st2. write_str system_drivers (turn 0x300 blank_vfsmsg) 1 [72, 105] system_files = Some (st1, [Some 72, Some 105]) \<and>
     read_str system_drivers (turn 0x300 blank_vfsmsg) 2 2 st1 = Some (st2, [Some 72, Some 105])"
proof -
  have at: "file_at (turn 0x300 blank_vfsmsg) 1 1 0 system_files" "file_at (turn 0x300 blank_vfsmsg) 2 1 0 system_files"
      "slot (turn 0x300 blank_vfsmsg) 2 system_files \<noteq> slot (turn 0x300 blank_vfsmsg) 1 system_files"
      "snd (devs system_files) ! 1 \<noteq> None"
    by code_simp+
  then obtain nd where "snd (devs system_files) ! 1 = Some nd" by auto
  from file_roundtrip [OF at(1-3) this, of "[72, 105]"] show ?thesis
    unfolding numeral_2_eq_2 by (simp del: write_str.simps read_str.simps)
qed

end
