(* ===== verification/Mstdlib.thy ===== *)
theory Mstdlib
  imports Vfs_Client
begin

text \<open>
  \<^verbatim>\<open>usr/lib/mstdlib.c\<close>: output of the user programs. A program runs in a world \<open>'w\<close>; a system call takes a
  world to a result and a new world. The system calls are parameters of the programs.
\<close>

section \<open>Model\<close>

text \<open>
  How a program stops: it exits, becomes another program with \<^verbatim>\<open>execv\<close>, waits for ever in a system
  call, does something undefined, or is still in a loop when the turns that it was given are used up.
\<close>

datatype stop = Exited cint | Became "byte list" "byte list list" | Blocked | Undefined | Unfinished

type_synonym ('w, 'a) syscall = "'w \<Rightarrow> ('a \<times> 'w) option"
type_synonym 'w writer = "cint \<Rightarrow> cint \<Rightarrow> ('w, cint) syscall"
type_synonym ('w, 'a) prog = "'w \<Rightarrow> (stop \<times> 'w) + ('a \<times> 'w)"

definition ret :: "'a \<Rightarrow> ('w, 'a) prog" where
  "ret x w = Inr (x, w)"

definition andthen :: "('w, 'a) prog \<Rightarrow> ('a \<Rightarrow> ('w, 'b) prog) \<Rightarrow> ('w, 'b) prog" where
  "andthen p f w = (case p w of Inl e \<Rightarrow> Inl e | Inr (x, w') \<Rightarrow> f x w')"

definition undef :: "('w, 'a) prog" where
  "undef w = Inl (Undefined, w)"

text \<open>A system call that is never answered blocks the program.\<close>

definition sys :: "('w, 'a) syscall \<Rightarrow> ('w, 'a) prog" where
  "sys f w = (case f w of None \<Rightarrow> Inl (Blocked, w) | Some r \<Rightarrow> Inr r)"

definition mexit :: "cint \<Rightarrow> ('w, 'a) prog" where
  "mexit code w = Inl (Exited code, w)"

definition mfputc :: "'w writer \<Rightarrow> cint \<Rightarrow> cint \<Rightarrow> ('w, unit) prog" where
  "mfputc wr fd d = andthen (sys (wr fd d)) (\<lambda>r. if r = EOF then mexit 0 else ret ())"

lemma unat_divs:
  "unat (num div 10 :: cint) = unat num div 10" "unat (num mod 10 :: cint) = unat num mod 10"
  "unat (num div 16 :: cint) = unat num div 16" "unat (num mod 16 :: cint) = unat num mod 16"
  by (simp_all add: unat_div unat_mod)

lemma div_zero: "num div 10 = (0 :: cint) \<longleftrightarrow> unat num < 10" "num div 16 = (0 :: cint) \<longleftrightarrow> unat num < 16"
proof -
  have "num div k = 0 \<longleftrightarrow> unat (num div k) = 0" for k :: cint by (metis unsigned_0 unsigned_word_eqI)
  then show "num div 10 = (0 :: cint) \<longleftrightarrow> unat num < 10" "num div 16 = (0 :: cint) \<longleftrightarrow> unat num < 16"
    unfolding unat_divs by (simp_all only: unat_divs div_eq_0_iff) simp_all
qed

lemma div_less: "num div 10 \<noteq> (0 :: cint) \<Longrightarrow> unat (num div 10) < unat num" "num div 16 \<noteq> (0 :: cint) \<Longrightarrow> unat (num div 16) < unat num"
  by (simp_all add: unat_divs div_zero)

function mfputu :: "'w writer \<Rightarrow> cint \<Rightarrow> cint \<Rightarrow> ('w, unit) prog" where
  "mfputu wr fd num =
     andthen (if num div 10 \<noteq> 0 then mfputu wr fd (num div 10) else ret ()) (\<lambda>_. mfputc wr fd (num mod 10 + 0x30))"
  by pat_completeness auto
termination by (relation "measure (\<lambda>(_, _, num). unat num)") (simp_all add: div_less)

function mfputx_internal :: "'w writer \<Rightarrow> cint \<Rightarrow> cint \<Rightarrow> ('w, unit) prog" where
  "mfputx_internal wr fd num =
     andthen (if num div 0x10 \<noteq> 0 then mfputx_internal wr fd (num div 0x10) else ret ())
       (\<lambda>_. mfputc wr fd (num mod 0x10 + (if num mod 0x10 > 9 then 0x61 - 10 else 0x30)))"
  by pat_completeness auto
termination by (relation "measure (\<lambda>(_, _, num). unat num)") (simp_all add: div_less)

declare mfputu.simps [simp del] mfputx_internal.simps [simp del]

definition mfputx :: "'w writer \<Rightarrow> cint \<Rightarrow> cint \<Rightarrow> ('w, unit) prog" where
  "mfputx wr fd num = andthen (mfputc wr fd 0x30) (\<lambda>_. andthen (mfputc wr fd 0x78) (\<lambda>_. mfputx_internal wr fd num))"

text \<open>The variable arguments: numbers and pointers to strings.\<close>

datatype va = VInt cint | VStr "byte list"

primrec puts :: "'w writer \<Rightarrow> cint \<Rightarrow> byte list \<Rightarrow> ('w, unit) prog" where
  "puts wr fd [] = ret ()"
| "puts wr fd (c # s) = andthen (mfputc wr fd (scast c)) (\<lambda>_. puts wr fd s)"

definition conversion :: "'w writer \<Rightarrow> cint \<Rightarrow> byte \<Rightarrow> va list \<Rightarrow> ('w, va list) prog" where
  "conversion wr fd f ap =
     (if f = 0x63 then
        case ap of VInt n # ap' \<Rightarrow> andthen (mfputc wr fd (scast (ucast n :: byte))) (\<lambda>_. ret ap') | _ \<Rightarrow> undef
      else if f = 0x73 then case ap of VStr s # ap' \<Rightarrow> andthen (puts wr fd s) (\<lambda>_. ret ap') | _ \<Rightarrow> undef
      else if f = 0x78 \<or> f = 0x58 then case ap of VInt n # ap' \<Rightarrow> andthen (mfputx wr fd n) (\<lambda>_. ret ap') | _ \<Rightarrow> undef
      else if f = 0x64 \<or> f = 0x69 then case ap of VInt n # ap' \<Rightarrow> andthen (mfputu wr fd n) (\<lambda>_. ret ap') | _ \<Rightarrow> undef
      else ret ap)"

text \<open>A \<^verbatim>\<open>%\<close> at the end of the format lets the loop run past its end.\<close>

fun mfprintf :: "'w writer \<Rightarrow> cint \<Rightarrow> byte list \<Rightarrow> va list \<Rightarrow> ('w, unit) prog" where
  "mfprintf wr fd [] ap = ret ()"
| "mfprintf wr fd (c # fmt) ap =
     (if c \<noteq> 0x25 then andthen (mfputc wr fd (scast c)) (\<lambda>_. mfprintf wr fd fmt ap)
      else case fmt of
        [] \<Rightarrow> undef
      | f # fmt' \<Rightarrow> andthen (conversion wr fd f ap) (\<lambda>ap'. mfprintf wr fd fmt' ap'))"

section \<open>What is written\<close>

text \<open>Characters are written one after the other until \<^verbatim>\<open>writec\<close> fails, which ends the program.\<close>

primrec emit :: "'w writer \<Rightarrow> cint \<Rightarrow> cint list \<Rightarrow> ('w, unit) prog" where
  "emit wr fd [] = ret ()"
| "emit wr fd (c # cs) = andthen (mfputc wr fd c) (\<lambda>_. emit wr fd cs)"

lemma prog_simps [simp]:
  "andthen (ret x) f = f x" "andthen p ret = p" "andthen (andthen p f) g = andthen p (\<lambda>x. andthen (f x) g)"
  "andthen undef f = undef"
  by (auto simp: andthen_def ret_def undef_def fun_eq_iff split: sum.split)

lemma andthen_unit [simp]: "andthen p (\<lambda>_. ret ()) = (p :: ('w, unit) prog)"
  by (auto simp: andthen_def ret_def fun_eq_iff split: sum.split)

lemma emit_append: "emit wr fd (cs @ ds) = andthen (emit wr fd cs) (\<lambda>_. emit wr fd ds)"
  by (induction cs) simp_all

lemma emit_one: "emit wr fd [c] = mfputc wr fd c"
  by simp

text \<open>Digits of a number to a base.\<close>

function dec :: "nat \<Rightarrow> nat list" where
  "dec n = (if n < 10 then [n] else dec (n div 10) @ [n mod 10])"
  by pat_completeness auto
termination by (relation "measure id") simp_all

function hex :: "nat \<Rightarrow> nat list" where
  "hex n = (if n < 16 then [n] else hex (n div 16) @ [n mod 16])"
  by pat_completeness auto
termination by (relation "measure id") simp_all

declare dec.simps [simp del] hex.simps [simp del]

definition dec_chars :: "cint \<Rightarrow> cint list" where
  "dec_chars n = map (\<lambda>d. of_nat d + 0x30) (dec (unat n))"

definition hex_char :: "nat \<Rightarrow> cint" where
  "hex_char d = of_nat d + (if d > 9 then 0x61 - 10 else 0x30)"

definition hex_chars :: "cint \<Rightarrow> cint list" where
  "hex_chars n = [0x30, 0x78] @ map hex_char (hex (unat n))"

lemma mfputu_emit: "mfputu wr fd num = emit wr fd (dec_chars num)"
proof (induction wr fd num rule: mfputu.induct)
  case (1 wr fd num)
  have "num mod 10 = of_nat (unat (num mod 10))" by simp
  then have "num mod 10 = of_nat (unat num mod 10)" unfolding unat_divs .
  then show ?case using 1
    by (cases "unat num < 10") (auto simp: mfputu.simps [of _ _ num] dec_chars_def dec.simps [of "unat num"] div_zero unat_divs emit_append)
qed

lemma mfputx_emit: "mfputx wr fd num = emit wr fd (hex_chars num)"
proof -
  have "mfputx_internal wr fd num = emit wr fd (map hex_char (hex (unat num)))"
  proof (induction wr fd num rule: mfputx_internal.induct)
    case (1 wr fd num)
    have "num mod 16 = of_nat (unat (num mod 16))" by simp
    then have "num mod 16 = of_nat (unat num mod 16)" unfolding unat_divs .
    moreover have "num mod 16 > 9 \<longleftrightarrow> unat num mod 16 > 9" using unat_divs(4) [of num] by (simp add: word_less_nat_alt)
    ultimately have "num mod 16 + (if num mod 16 > 9 then 0x61 - 10 else 0x30) = hex_char (unat num mod 16)" by (simp add: hex_char_def)
    then show ?case using 1
      by (cases "unat num < 16") (auto simp: mfputx_internal.simps [of _ _ num] hex.simps [of "unat num"] div_zero unat_divs emit_append)
  qed
  then show ?thesis by (simp add: mfputx_def hex_chars_def)
qed

section \<open>Numbers are read back\<close>

lemma dec_digits: "d \<in> set (dec n) \<Longrightarrow> d < 10"
proof (induction n rule: dec.induct)
  case (1 n)
  then show ?case by (cases "n < 10") (auto simp: dec.simps [of n])
qed

lemma dec_value: "foldl (\<lambda>a d. a * 10 + d) 0 (dec n) = n"
proof (induction n rule: dec.induct)
  case (1 n)
  then show ?case by (cases "n < 10") (simp_all add: dec.simps [of n])
qed

lemma dec_nonempty: "dec n \<noteq> []"
  by (subst dec.simps) simp

lemma dec_head: "n \<noteq> 0 \<Longrightarrow> hd (dec n) \<noteq> 0"
proof (induction n rule: dec.induct)
  case (1 n)
  then show ?case using dec_nonempty [of "n div 10"] by (cases "n < 10") (simp_all add: dec.simps [of n])
qed

lemma dec_length: "0 < k \<Longrightarrow> n < 10 ^ k \<Longrightarrow> length (dec n) \<le> k"
proof (induction k arbitrary: n)
  case (Suc k)
  show ?case
  proof (cases "n < 10")
    case False
    then have "k \<noteq> 0" using Suc.prems(2) by (cases k) auto
    moreover have "n div 10 < 10 ^ k" using Suc.prems(2) by (simp add: less_mult_imp_div_less)
    ultimately show ?thesis using Suc.IH [of "n div 10"] False by (simp add: dec.simps [of n])
  qed (simp add: dec.simps [of n])
qed simp

lemma digit_char:
  assumes "d < 10"
  shows "is_digit (ucast (of_nat d + 0x30 :: cint))" "uint (ucast (of_nat d + 0x30 :: cint) :: byte) = int d + 0x30"
    "\<not> is_space (ucast (of_nat d + 0x30 :: cint))" "ucast (of_nat d + 0x30 :: cint) \<noteq> (0x2D :: byte)" "ucast (of_nat d + 0x30 :: cint) \<noteq> (0x2B :: byte)"
proof -
  have "d \<in> {0, 1, 2, 3, 4, 5, 6, 7, 8, 9}" using assms by auto
  then show "is_digit (ucast (of_nat d + 0x30 :: cint))" "uint (ucast (of_nat d + 0x30 :: cint) :: byte) = int d + 0x30"
    "\<not> is_space (ucast (of_nat d + 0x30 :: cint))" "ucast (of_nat d + 0x30 :: cint) \<noteq> (0x2D :: byte)" "ucast (of_nat d + 0x30 :: cint) \<noteq> (0x2B :: byte)"
    by (elim insertE; simp add: is_digit_def is_space_def)+
qed

lemma digits_dec:
  assumes "\<forall>d \<in> set ds. d < 10"
  shows "digits (map (\<lambda>d. ucast (of_nat d + 0x30 :: cint)) ds) = int (foldl (\<lambda>a d. a * 10 + d) 0 ds)"
proof -
  have "takeWhile is_digit (map (\<lambda>d. ucast (of_nat d + 0x30 :: cint)) ds) = map (\<lambda>d. ucast (of_nat d + 0x30 :: cint)) ds"
    using assms digit_char(1) by (intro takeWhile_eq_all_conv [THEN iffD2]) auto
  moreover have "foldl (\<lambda>n c. n * 10 + (uint (c :: byte) - 0x30)) (int a) (map (\<lambda>d. ucast (of_nat d + 0x30 :: cint)) ds) =
      int (foldl (\<lambda>a d. a * 10 + d) a ds)" for a
    using assms
  proof (induction ds arbitrary: a)
    case (Cons d ds)
    have "int a * 10 + (uint (ucast (of_nat d + 0x30 :: cint) :: byte) - 0x30) = int (a * 10 + d)"
      using digit_char(2) [of d] Cons.prems by simp
    then show ?case using Cons.IH [of "a * 10 + d"] Cons.prems by simp
  qed simp
  from this [of 0] show ?thesis unfolding digits_def calculation by simp
qed

lemma atoi_dec:
  assumes "n < 0x8000"
  shows "atoi (map ucast (dec_chars n)) = Some n"
proof -
  obtain d ds where d: "dec (unat n) = d # ds" using dec_nonempty [of "unat n"] by (cases "dec (unat n)") auto
  have lt: "\<forall>d \<in> set (dec (unat n)). d < 10" using dec_digits by blast
  then have "d < 10" using d by simp
  from digit_char(3-5) [OF this] have "signed_digits (map ucast (dec_chars n)) = digits (map ucast (dec_chars n))"
    by (simp add: signed_digits_def dec_chars_def d)
  also have "\<dots> = int (foldl (\<lambda>a d. a * 10 + d) 0 (dec (unat n)))" using digits_dec [OF lt] by (simp add: dec_chars_def comp_def)
  finally have "signed_digits (map ucast (dec_chars n)) = uint n" by (simp add: dec_value)
  moreover have "uint n < 0x8000" "- 0x8000 \<le> uint n" using assms unsigned_greater_eq [of n, where 'a = int] by (simp add: word_less_alt, linarith)
  ultimately show ?thesis by (simp add: atoi_def Let_def)
qed

text \<open>
  C29. A number that is printed with \<^verbatim>\<open>%d\<close> appears as its decimal digits, as an unsigned number of 16 bits: each
  character is a digit, the digits have the value of the number, and there is no leading zero. They are written
  one after the other; when \<^verbatim>\<open>writec\<close> fails the program ends. A number that is positive as an \<^verbatim>\<open>int\<close> is read back by \<^verbatim>\<open>atoi\<close>.
\<close>

theorem printed_number_reads_back:
  "\<exists>ds. mfprintf wr fd [0x25, 0x64] [VInt n] = emit wr fd (map (\<lambda>d. of_nat d + 0x30) ds) \<and>
     (\<forall>d \<in> set ds. d < 10) \<and> foldl (\<lambda>v d. v * 10 + d) 0 ds = unat n \<and> ds \<noteq> [] \<and> (hd ds = 0 \<longrightarrow> ds = [0]) \<and> length ds \<le> 5 \<and>
     (n < 0x8000 \<longrightarrow> atoi (map (\<lambda>d. ucast (of_nat d + 0x30 :: cint)) ds) = Some n)"
proof (intro exI conjI)
  show "mfprintf wr fd [0x25, 0x64] [VInt n] = emit wr fd (map (\<lambda>d. of_nat d + 0x30) (dec (unat n)))"
    by (simp add: conversion_def mfputu_emit dec_chars_def)
  show "\<forall>d \<in> set (dec (unat n)). d < 10" using dec_digits by blast
  show "foldl (\<lambda>v d. v * 10 + d) 0 (dec (unat n)) = unat n" by (rule dec_value)
  show "dec (unat n) \<noteq> []" by (rule dec_nonempty)
  show "hd (dec (unat n)) = 0 \<longrightarrow> dec (unat n) = [0]"
    using dec_head [of "unat n"] by (cases "unat n = 0") (auto simp: dec.simps [of 0])
  show "length (dec (unat n)) \<le> 5" using dec_length [of 5 "unat n"] unsigned_less [of n, where 'a = nat] by simp
  show "n < 0x8000 \<longrightarrow> atoi (map (\<lambda>d. ucast (of_nat d + 0x30 :: cint)) (dec (unat n))) = Some n"
    using atoi_dec [of n] by (simp add: dec_chars_def comp_def)
qed

text \<open>A world that collects what is written.\<close>

definition collect :: "cint list writer" where
  "collect fd d w = Some (d, w @ [d])"

theorem printed_number_reads_back_witness:
  "\<exists>ds. mfprintf collect 1 [0x25, 0x64] [VInt 1024] [] = emit collect 1 (map (\<lambda>d. of_nat d + 0x30) ds) [] \<and>
     foldl (\<lambda>v d. v * 10 + d) 0 ds = 1024 \<and> hd ds \<noteq> 0 \<and> atoi (map (\<lambda>d. ucast (of_nat d + 0x30 :: cint)) ds) = Some 1024"
  using printed_number_reads_back [of collect 1 1024] by auto

end
