(* ===== verification/Getopt.thy ===== *)
theory Getopt
  imports Mstdlib
begin

text \<open>
  The options of a command line and the messages of \<^verbatim>\<open>usr/lib/mstdlib.c\<close>: repeated calls of \<^verbatim>\<open>getopt\<close> agree with
  a parser of the whole argument list.
\<close>

section \<open>Model\<close>

definition STDIN :: cint where "STDIN = 0"
definition STDOUT :: cint where "STDOUT = 1"
definition STDERR :: cint where "STDERR = 2"
definition STDMAX :: cint where "STDMAX = 3"

abbreviation ascii :: "string \<Rightarrow> byte list" where
  "ascii s \<equiv> map of_char s"

definition lift :: "'a option \<Rightarrow> ('w, 'a) prog" where
  "lift x = (case x of None \<Rightarrow> undef | Some y \<Rightarrow> ret y)"

lemma lift_simps [simp]: "lift (Some x) = ret x" "lift None = undef"
  by (simp_all add: lift_def)

definition unknown :: "'w writer \<Rightarrow> byte list list \<Rightarrow> byte list \<Rightarrow> ('w, unit) prog" where
  "unknown wr argv s = andthen (lift (at argv 0)) (\<lambda>name. mfprintf wr STDERR (ascii ''%s: %s?'' @ [10]) [VStr name, VStr s])"

definition noargs :: "'w writer \<Rightarrow> byte list list \<Rightarrow> ('w, unit) prog" where
  "noargs wr argv = andthen (lift (at argv 0)) (\<lambda>name. mfprintf wr STDERR (ascii ''%s: args?'' @ [10]) [VStr name])"

definition massert :: "'w writer \<Rightarrow> cint \<Rightarrow> byte list \<Rightarrow> cint \<Rightarrow> ('w, unit) prog" where
  "massert wr val fname line =
     (if val = 0
      then andthen (mfprintf wr STDERR (ascii ''[%s:%d] assert fail'' @ [10]) [VStr fname, VInt line]) (\<lambda>_. mexit (- 1))
      else ret ())"

record getopt_t =
  optarg :: "byte list option"
  optind :: cint
  sp :: cint

definition initgetopt :: getopt_t where
  "initgetopt = \<lparr>optarg = None, optind = 1, sp = 1\<rparr>"

text \<open>\<^verbatim>\<open>argv[i][j]\<close>, where the string ends with a null character.\<close>

definition arg_char :: "byte list list \<Rightarrow> cint \<Rightarrow> cint \<Rightarrow> byte option" where
  "arg_char argv i j = do { s \<leftarrow> at argv i; at (s @ [0]) j }"

definition nargs :: "byte list list \<Rightarrow> cint" where
  "nargs argv = of_nat (length argv)"

text \<open>What follows the first occurrence of a character, as \<^verbatim>\<open>strchr\<close> finds it.\<close>

definition strchr :: "byte list \<Rightarrow> byte \<Rightarrow> byte list option" where
  "strchr s c = (case dropWhile (\<lambda>x. x \<noteq> c) s of [] \<Rightarrow> None | _ # rest \<Rightarrow> Some rest)"

definition bad_option :: "'w writer \<Rightarrow> byte list list \<Rightarrow> byte \<Rightarrow> getopt_t \<Rightarrow> ('w, cint \<times> getopt_t) prog" where
  "bad_option wr argv c g =
     andthen (lift (at argv 0)) (\<lambda>name.
     andthen (mfprintf wr STDERR (ascii ''%s: -%c?'' @ [10]) [VStr name, VInt (scast c)]) (\<lambda>_.
     andthen (lift (arg_char argv (optind g) (sp g + 1))) (\<lambda>d.
       ret (0x3F, if d = 0 then g\<lparr>optind := optind g + 1, sp := 1\<rparr> else g\<lparr>sp := sp g + 1\<rparr>))))"

definition option_arg :: "'w writer \<Rightarrow> byte list list \<Rightarrow> byte \<Rightarrow> getopt_t \<Rightarrow> ('w, cint \<times> getopt_t) prog" where
  "option_arg wr argv c g =
     andthen (lift (arg_char argv (optind g) (sp g + 1))) (\<lambda>d.
       if d \<noteq> 0
       then andthen (lift (at argv (optind g))) (\<lambda>s.
              ret (scast c, g\<lparr>optarg := Some (drop (unat (sp g + 1)) s), optind := optind g + 1, sp := 1\<rparr>))
       else if sint (optind g + 1) \<ge> sint (nargs argv)
       then andthen (lift (at argv 0)) (\<lambda>name.
            andthen (mfprintf wr STDERR (ascii ''%s: -%c needs arg'' @ [10]) [VStr name, VInt (scast c)]) (\<lambda>_.
              ret (0x3F, g\<lparr>optind := optind g + 1, sp := 1\<rparr>)))
       else andthen (lift (at argv (optind g + 1))) (\<lambda>s.
              ret (scast c, g\<lparr>optarg := Some s, optind := optind g + 2, sp := 1\<rparr>)))"

definition next_char :: "'w writer \<Rightarrow> byte list list \<Rightarrow> byte list \<Rightarrow> getopt_t \<Rightarrow> ('w, cint \<times> getopt_t) prog" where
  "next_char wr argv opts g =
     andthen (lift (arg_char argv (optind g) (sp g))) (\<lambda>c.
       if c = 0 then undef
       else if c = 0x3A \<or> strchr opts c = None then bad_option wr argv c g
       else if (case the (strchr opts c) of [] \<Rightarrow> False | x # _ \<Rightarrow> x = 0x3A) then option_arg wr argv c g
       else andthen (lift (arg_char argv (optind g) (sp g + 1))) (\<lambda>d.
              ret (scast c, if d = 0 then g\<lparr>optind := optind g + 1, sp := 1, optarg := None\<rparr>
                            else g\<lparr>sp := sp g + 1, optarg := None\<rparr>)))"

definition getopt :: "'w writer \<Rightarrow> byte list list \<Rightarrow> byte list \<Rightarrow> getopt_t \<Rightarrow> ('w, cint \<times> getopt_t) prog" where
  "getopt wr argv opts g =
     (if sp g = 1
      then if sint (optind g) \<ge> sint (nargs argv) then ret (EOF, g)
           else andthen (lift (arg_char argv (optind g) 0)) (\<lambda>c0.
             if c0 \<noteq> 0x2D then ret (EOF, g)
             else andthen (lift (arg_char argv (optind g) 1)) (\<lambda>c1.
               if c1 = 0 then ret (EOF, g)
               else andthen (lift (at argv (optind g))) (\<lambda>s.
                 if s = [0x2D, 0x2D] then ret (EOF, g\<lparr>optind := optind g + 1\<rparr>)
                 else next_char wr argv opts g)))
      else next_char wr argv opts g)"

section \<open>The whole argument list\<close>

text \<open>
  The options with their arguments, a question mark for a wrong one, and the arguments that are left;
  \<open>cs\<close> are the letters that are left of the current argument.
\<close>

definition opt_result :: "byte \<Rightarrow> byte list option \<Rightarrow> cint \<times> byte list option" where
  "opt_result c a = (scast c, if c = 0x3F then None else a)"

definition takes_arg :: "byte list \<Rightarrow> byte \<Rightarrow> bool" where
  "takes_arg opts c \<longleftrightarrow> (case the (strchr opts c) of [] \<Rightarrow> False | x # _ \<Rightarrow> x = 0x3A)"

function parse :: "byte list \<Rightarrow> byte list \<Rightarrow> byte list list \<Rightarrow> (cint \<times> byte list option) list \<times> byte list list" where
  "parse opts [] [] = ([], [])"
| "parse opts [] (a # as) =
     (if length a < 2 \<or> hd a \<noteq> 0x2D then ([], a # as)
      else if a = [0x2D, 0x2D] then ([], as)
      else parse opts (tl a) as)"
| "parse opts (c # cs) as =
     (if c = 0x3A \<or> c \<notin> set opts then apfst (Cons (0x3F, None)) (parse opts cs as)
      else if \<not> takes_arg opts c then apfst (Cons (opt_result c None)) (parse opts cs as)
      else if cs \<noteq> [] then apfst (Cons (opt_result c (Some cs))) (parse opts [] as)
      else case as of
        [] \<Rightarrow> ([(0x3F, None)], [])
      | b # bs \<Rightarrow> apfst (Cons (opt_result c (Some b))) (parse opts [] bs))"
  by pat_completeness auto
termination
  by (relation "measure (\<lambda>(_, cs, as). length cs + (\<Sum>a \<leftarrow> as. length a + 1))") auto

text \<open>The loop of a program that calls \<^verbatim>\<open>getopt\<close> until it returns \<^verbatim>\<open>EOF\<close>, for at most \<open>n\<close> calls.\<close>

primrec getopts :: "nat \<Rightarrow> 'w writer \<Rightarrow> byte list list \<Rightarrow> byte list \<Rightarrow> getopt_t \<Rightarrow> ('w, (cint \<times> byte list option) list \<times> getopt_t) prog" where
  "getopts 0 wr argv opts g = undef"
| "getopts (Suc n) wr argv opts g =
     andthen (getopt wr argv opts g) (\<lambda>(c, g').
       if c = EOF then ret ([], g')
       else andthen (getopts n wr argv opts g') (\<lambda>(rs, h). ret ((c, if c = 0x3F then None else optarg g') # rs, h)))"

section \<open>Messages are written completely\<close>

text \<open>The arguments fit the format.\<close>

fun fmt_ok :: "byte list \<Rightarrow> va list \<Rightarrow> bool" where
  "fmt_ok [] ap \<longleftrightarrow> True"
| "fmt_ok (c # fmt) ap \<longleftrightarrow>
     (if c \<noteq> 0x25 then fmt_ok fmt ap
      else case fmt of
        [] \<Rightarrow> False
      | f # fmt' \<Rightarrow>
          if f = 0x73 then (case ap of VStr s # ap' \<Rightarrow> fmt_ok fmt' ap' | _ \<Rightarrow> False)
          else if f \<in> {0x63, 0x78, 0x58, 0x64, 0x69} then (case ap of VInt n # ap' \<Rightarrow> fmt_ok fmt' ap' | _ \<Rightarrow> False)
          else fmt_ok fmt' ap)"

definition never_fails :: "'w writer \<Rightarrow> cint \<Rightarrow> bool" where
  "never_fails wr fd \<longleftrightarrow> (\<forall>d w. \<exists>r w'. wr fd d w = Some (r, w') \<and> r \<noteq> EOF)"

definition completes :: "('w, 'a) prog \<Rightarrow> 'a \<Rightarrow> bool" where
  "completes p x \<longleftrightarrow> (\<forall>w. \<exists>w'. p w = Inr (x, w'))"

lemma completes_simps [simp]: "completes (ret x) x"
  by (simp add: completes_def ret_def)

lemma completes_andthen: "completes p x \<Longrightarrow> completes (f x) y \<Longrightarrow> completes (andthen p f) y"
  unfolding completes_def andthen_def by (metis old.prod.case old.sum.simps(6))

lemma completes_mfputc: "never_fails wr fd \<Longrightarrow> completes (mfputc wr fd d) ()"
proof -
  assume "never_fails wr fd"
  then have "\<exists>w'. mfputc wr fd d w = Inr ((), w')" for w
    unfolding never_fails_def mfputc_def andthen_def sys_def ret_def by (metis (mono_tags, lifting) old.prod.case option.simps(5) sum.simps(6))
  then show ?thesis by (simp add: completes_def)
qed

lemma completes_emit: "never_fails wr fd \<Longrightarrow> completes (emit wr fd cs) ()"
  by (induction cs) (auto intro: completes_andthen completes_mfputc)

lemma puts_emit: "puts wr fd s = emit wr fd (map scast s)"
  by (induction s) simp_all

lemma completes_mfprintf:
  "never_fails wr fd \<Longrightarrow> fmt_ok fmt ap \<Longrightarrow> completes (mfprintf wr fd fmt ap) ()"
proof (induction wr fd fmt ap rule: mfprintf.induct)
  case (2 wr fd c fmt ap)
  then show ?case
    by (auto simp: conversion_def mfputu_emit mfputx_emit puts_emit split: if_splits list.splits va.splits
        intro!: completes_andthen completes_mfputc completes_emit)
qed simp

section \<open>Repeated calls parse the argument list\<close>

text \<open>The letters left of the current argument and the arguments left, for the state of \<^verbatim>\<open>getopt\<close>.\<close>

definition args_fit :: "byte list list \<Rightarrow> bool" where
  "args_fit argv \<longleftrightarrow> argv \<noteq> [] \<and> length argv < 32767 \<and> (\<forall>a \<in> set argv. length a < 32767 \<and> 0 \<notin> set a)"

definition opt_state :: "byte list list \<Rightarrow> getopt_t \<Rightarrow> byte list \<Rightarrow> byte list list \<Rightarrow> nat \<Rightarrow> bool" where
  "opt_state argv g cs as k \<longleftrightarrow> optind g = of_nat k \<and>
     (if cs = [] then sp g = 1 \<and> k \<le> length argv \<and> as = drop k argv
      else \<exists>j. sp g = of_nat j \<and> 1 \<le> j \<and> k < length argv \<and> j < length (argv ! k) \<and> cs = drop j (argv ! k) \<and>
        as = drop (Suc k) argv \<and> (j = 1 \<longrightarrow> hd (argv ! k) = 0x2D \<and> argv ! k \<noteq> [0x2D, 0x2D]))"

lemma at_of_nat: "k < length xs \<Longrightarrow> length xs \<le> 32768 \<Longrightarrow> at xs (of_nat k) = Some (xs ! k)"
  by (simp add: at_nth unat_of_nat)

lemma arg_char_at:
  assumes "args_fit argv" "k < length argv" "j \<le> length (argv ! k)"
  shows "arg_char argv (of_nat k) (of_nat j) = Some ((argv ! k @ [0]) ! j)"
proof -
  have "length (argv ! k) < 32767" using assms(1,2) by (simp add: args_fit_def)
  moreover have "length argv \<le> 32768" using assms(1) by (simp add: args_fit_def)
  ultimately show ?thesis using at_of_nat [of k argv] at_of_nat [of j "argv ! k @ [0]"] assms(2,3) by (simp add: arg_char_def)
qed

lemma sint_small: "n < 32768 \<Longrightarrow> sint (of_nat n :: cint) = int n"
  by (simp add: sint16 unat_of_nat)

lemma arg_nonzero: "args_fit argv \<Longrightarrow> k < length argv \<Longrightarrow> j < length (argv ! k) \<Longrightarrow> argv ! k ! j \<noteq> 0"
  by (metis args_fit_def nth_mem)

lemma strchr_None: "strchr opts c = None \<longleftrightarrow> c \<notin> set opts"
proof -
  have "(case xs of [] \<Rightarrow> None | _ # r \<Rightarrow> Some r) = None \<longleftrightarrow> xs = []" for xs :: "byte list" by (cases xs) simp_all
  then have "strchr opts c = None \<longleftrightarrow> dropWhile (\<lambda>x. x \<noteq> c) opts = []" by (simp only: strchr_def)
  also have "\<dots> \<longleftrightarrow> c \<notin> set opts" by (auto simp: dropWhile_eq_Nil_conv)
  finally show ?thesis .
qed

text \<open>In the middle of an argument, \<^verbatim>\<open>getopt\<close> looks at the next letter.\<close>

lemma getopt_letter:
  assumes fit: "args_fit argv" and st: "opt_state argv g (c # cs) as k"
  shows "getopt wr argv opts g = next_char wr argv opts g"
proof -
  obtain j where j: "sp g = of_nat j" "1 \<le> j" "k < length argv" "j < length (argv ! k)" "j = 1 \<longrightarrow> hd (argv ! k) = 0x2D \<and> argv ! k \<noteq> [0x2D, 0x2D]"
    using st by (auto simp: opt_state_def)
  have len: "length argv < 32767" "length (argv ! k) < 32767" using fit j(3) by (auto simp: args_fit_def)
  have "unat (of_nat j :: cint) = j" using j(4) len(2) by (simp add: unat_of_nat)
  then have "sp g = 1 \<longleftrightarrow> j = 1" unfolding j(1) by (metis of_nat_1 unsigned_1)
  moreover have "arg_char argv (of_nat k) 0 = Some (argv ! k ! 0)" "arg_char argv (of_nat k) 1 = Some (argv ! k ! 1)"
    if "j = 1" using arg_char_at [OF fit j(3), of 0] arg_char_at [OF fit j(3), of 1] j(4) that by (auto simp: nth_append)
  moreover have "hd (argv ! k) = argv ! k ! 0" "argv ! k ! 1 \<noteq> 0" if "j = 1"
    using j(4) that arg_nonzero [OF fit j(3), of 1] by (cases "argv ! k"; auto)+
  moreover have "at argv (of_nat k) = Some (argv ! k)" using j(3) len(1) by (simp add: at_of_nat)
  ultimately show ?thesis using st j len
    by (auto simp: getopt_def opt_state_def nargs_def sint_small)
qed

text \<open>What the letter and its successor are, and the state after one letter.\<close>

lemma opt_letter:
  assumes fit: "args_fit argv" and st: "opt_state argv g (c # cs) as k"
  shows "arg_char argv (optind g) (sp g) = Some c" "c \<noteq> 0" "at argv 0 = Some (argv ! 0)" "k < length argv"
    "arg_char argv (optind g) (sp g + 1) = Some (case cs of [] \<Rightarrow> 0 | d # _ \<Rightarrow> d)" "0 \<notin> set cs"
    "at argv (optind g) = Some (argv ! k)" "drop (unat (sp g + 1)) (argv ! k) = cs" "as = drop (Suc k) argv"
    "opt_state argv (if cs = [] then g\<lparr>optind := optind g + 1, sp := 1\<rparr> else g\<lparr>sp := sp g + 1\<rparr>) cs as (if cs = [] then Suc k else k)"
proof -
  obtain j where j: "sp g = of_nat j" "1 \<le> j" "k < length argv" "j < length (argv ! k)" "c # cs = drop j (argv ! k)" "as = drop (Suc k) argv"
    using st by (auto simp: opt_state_def)
  have k: "optind g = of_nat k" using st by (simp add: opt_state_def)
  have len: "length argv < 32767" "length (argv ! k) < 32767" "argv \<noteq> []" using fit j(3) by (auto simp: args_fit_def)
  have c: "c = argv ! k ! j" "cs = drop (Suc j) (argv ! k)" using j(4,5) by (metis Cons_nth_drop_Suc list.inject)+
  have succ: "sp g + 1 = of_nat (Suc j)" "optind g + 1 = of_nat (Suc k)" by (simp_all add: j(1) k add.commute)
  show "arg_char argv (optind g) (sp g) = Some c" using arg_char_at [OF fit j(3), of j] j(4) by (simp add: k j(1) c(1) nth_append)
  show "c \<noteq> 0" using arg_nonzero [OF fit j(3,4)] c(1) by simp
  show "at argv 0 = Some (argv ! 0)" using at_of_nat [of 0 argv] len by simp
  show "at argv (optind g) = Some (argv ! k)" using at_of_nat [OF j(3)] len by (simp add: k)
  show "drop (unat (sp g + 1)) (argv ! k) = cs" using j(4) len unfolding succ(1) by (simp add: unat_of_nat c(2) del: of_nat_Suc)
  show "0 \<notin> set cs" using fit j(3) c(2) by (metis args_fit_def in_set_dropD nth_mem)
  have "(argv ! k @ [0]) ! Suc j = (case cs of [] \<Rightarrow> 0 | d # _ \<Rightarrow> d)"
  proof (cases "Suc j < length (argv ! k)")
    case True
    then show ?thesis using c(2) by (simp add: nth_append Cons_nth_drop_Suc [symmetric])
  next
    case False
    then show ?thesis using c(2) j(4) by (simp add: nth_append less_Suc_eq_le)
  qed
  then show "arg_char argv (optind g) (sp g + 1) = Some (case cs of [] \<Rightarrow> 0 | d # _ \<Rightarrow> d)"
    using arg_char_at [OF fit j(3), of "Suc j"] j(4) unfolding k succ(1) by simp
  show "opt_state argv (if cs = [] then g\<lparr>optind := optind g + 1, sp := 1\<rparr> else g\<lparr>sp := sp g + 1\<rparr>) cs as (if cs = [] then Suc k else k)"
  proof (cases "cs = []")
    case True
    then show ?thesis using j succ by (simp add: opt_state_def)
  next
    case False
    then have "Suc j < length (argv ! k)" using c(2) by auto
    then show ?thesis using False j k c(2) succ by (auto simp: opt_state_def intro!: exI [of _ "Suc j"])
  qed
qed (use st in \<open>auto simp: opt_state_def\<close>)

lemma opt_state_optarg [simp]: "opt_state argv (g\<lparr>optarg := a\<rparr>) = opt_state argv g"
  by (simp add: opt_state_def fun_eq_iff)

lemma lift_next: "lift x = ret y" if "x = Some y"
  using that by simp

lemma message_ok:
  assumes "never_fails wr STDERR"
  shows "completes (mfprintf wr STDERR (ascii ''%s: -%c?'' @ [10]) [VStr name, VInt c]) ()"
    "completes (mfprintf wr STDERR (ascii ''%s: -%c needs arg'' @ [10]) [VStr name, VInt c]) ()"
  by (rule completes_mfprintf [OF assms], simp)+

lemma scast_back: "(ucast (scast (c :: byte) :: cint) :: byte) = c"
  by (rule bit_word_eqI) (auto simp: bit_simps)

lemma scast_EOF: "scast (c :: byte) = EOF \<longleftrightarrow> c = 0xFF"
proof
  assume "scast c = EOF"
  then have "(ucast (scast c :: cint) :: byte) = ucast EOF" by simp
  moreover have "(ucast EOF :: byte) = 0xFF" by code_simp
  ultimately show "c = 0xFF" unfolding scast_back by simp
qed (simp add: EOF_def)

lemma scast_question: "scast (c :: byte) = (0x3F :: cint) \<longleftrightarrow> c = 0x3F"
proof
  assume "scast c = (0x3F :: cint)"
  then have "(ucast (scast c :: cint) :: byte) = ucast (0x3F :: cint)" by simp
  then show "c = 0x3F" unfolding scast_back by simp
qed simp

definition todo :: "byte list \<Rightarrow> byte list list \<Rightarrow> nat" where
  "todo cs as = length cs + (\<Sum>a \<leftarrow> as. length a + 1)"

lemma arg_step:
  assumes fit: "args_fit argv" and wr: "never_fails wr STDERR" and st: "opt_state argv g (c # cs) as k"
    and c: "c \<noteq> 0x3A" "c \<in> set opts" "takes_arg opts c" "scast c \<noteq> EOF"
  shows "\<exists>c' g' cs' as' k'. completes (option_arg wr argv c g) (c', g') \<and> c' \<noteq> EOF \<and> opt_state argv g' cs' as' k' \<and>
    parse opts (c # cs) as = apfst (Cons (c', if c' = 0x3F then None else optarg g')) (parse opts cs' as') \<and> todo cs' as' < todo (c # cs) as"
proof -
  note o = opt_letter [OF fit st]
  let ?d = "case cs of [] \<Rightarrow> 0 | d # _ \<Rightarrow> d"
  have d: "?d = 0 \<longleftrightarrow> cs = []" using o(6) by (cases cs) auto
  have k: "optind g = of_nat k" "length argv < 32767" using st fit by (simp_all add: opt_state_def args_fit_def)
  have k1: "optind g + 1 = of_nat (Suc k)" "optind g + 2 = of_nat (Suc (Suc k))" by (simp_all add: k)
  show ?thesis
  proof (cases "cs = []")
    case False
    let ?g = "g\<lparr>optarg := Some cs, optind := optind g + 1, sp := 1\<rparr>"
    have "completes (option_arg wr argv c g) (scast c, ?g)" using o d False by (simp add: option_arg_def)
    moreover have "opt_state argv ?g [] as (Suc k)" using o(4,9) k1 by (simp add: opt_state_def)
    ultimately show ?thesis using c False
      by (intro exI conjI) (assumption | simp add: todo_def opt_result_def scast_question)+
  next
    case True
    show ?thesis
    proof (cases as)
      case Nil
      then have "\<not> Suc k < length argv" using o(9) by auto
      let ?g = "g\<lparr>optind := optind g + 1, sp := 1\<rparr>"
      have "sint (optind g + 1) \<ge> sint (nargs argv)" using \<open>\<not> Suc k < length argv\<close> o(4) k unfolding k1 nargs_def
        by (simp add: sint_small del: of_nat_Suc)
      then have e: "option_arg wr argv c g = andthen (mfprintf wr STDERR (ascii ''%s: -%c needs arg'' @ [10]) [VStr (argv ! 0), VInt (scast c)]) (\<lambda>_. ret (0x3F, ?g))"
        using o True by (simp add: option_arg_def)
      have "completes (option_arg wr argv c g) (0x3F, ?g)" unfolding e by (rule completes_andthen [OF message_ok(2) [OF wr]]) simp
      moreover have "opt_state argv ?g [] [] (Suc k)" using Nil o(4,9) k1 by (simp add: opt_state_def)
      ultimately show ?thesis using c True Nil
        by (intro exI conjI) (assumption | simp add: todo_def EOF_def)+
    next
      case (Cons b bs)
      then have k2: "Suc k < length argv" "argv ! Suc k = b" "bs = drop (Suc (Suc k)) argv"
        using o(9) by (metis drop_eq_Nil list.distinct(1) not_le, metis nth_via_drop, metis drop_Suc list.sel(3) tl_drop)
      let ?g = "g\<lparr>optarg := Some b, optind := optind g + 2, sp := 1\<rparr>"
      have "\<not> sint (optind g + 1) \<ge> sint (nargs argv)" "at argv (optind g + 1) = Some b"
        using k2 k unfolding k1 nargs_def by (simp_all add: sint_small at_of_nat del: of_nat_Suc)
      then have "completes (option_arg wr argv c g) (scast c, ?g)" using o True by (simp add: option_arg_def)
      moreover have "opt_state argv ?g [] bs (Suc (Suc k))" using k2 k1 by (simp add: opt_state_def)
      ultimately show ?thesis using c True Cons
        by (intro exI conjI) (assumption | simp add: todo_def opt_result_def scast_question)+
    qed
  qed
qed

lemma letter_step:
  assumes fit: "args_fit argv" and wr: "never_fails wr STDERR" and ff: "0xFF \<notin> set opts" and st: "opt_state argv g (c # cs) as k"
  shows "\<exists>c' g' cs' as' k'. completes (getopt wr argv opts g) (c', g') \<and> c' \<noteq> EOF \<and> opt_state argv g' cs' as' k' \<and>
    parse opts (c # cs) as = apfst (Cons (c', if c' = 0x3F then None else optarg g')) (parse opts cs' as') \<and> todo cs' as' < todo (c # cs) as"
proof -
  note o = opt_letter [OF fit st] and call = getopt_letter [OF fit st, of wr opts]
  let ?d = "case cs of [] \<Rightarrow> 0 | d # _ \<Rightarrow> d"
  have d: "?d = 0 \<longleftrightarrow> cs = []" using o(6) by (cases cs) auto
  have eof: "scast c \<noteq> EOF" if "c \<in> set opts" using scast_EOF ff that by metis
  define g1 where "g1 = (if cs = [] then g\<lparr>optind := optind g + 1, sp := 1\<rparr> else g\<lparr>sp := sp g + 1\<rparr>)"
  consider (bad) "c = 0x3A \<or> c \<notin> set opts" | (plain) "c \<noteq> 0x3A" "c \<in> set opts" "\<not> takes_arg opts c"
    | (arg) "c \<noteq> 0x3A" "c \<in> set opts" "takes_arg opts c" by blast
  then show ?thesis
  proof cases
    case bad
    have e: "getopt wr argv opts g = andthen (mfprintf wr STDERR (ascii ''%s: -%c?'' @ [10]) [VStr (argv ! 0), VInt (scast c)]) (\<lambda>_. ret (0x3F, g1))"
      using bad o d unfolding call next_char_def bad_option_def g1_def by (simp add: strchr_None)
    have "completes (getopt wr argv opts g) (0x3F, g1)" unfolding e by (rule completes_andthen [OF message_ok(1) [OF wr]]) simp
    then show ?thesis using o(10) bad unfolding g1_def by (intro exI conjI) (assumption | simp add: EOF_def todo_def)+
  next
    case plain
    have "getopt wr argv opts g = ret (scast c, g1\<lparr>optarg := None\<rparr>)"
      using plain o d unfolding call next_char_def g1_def by (simp add: strchr_None takes_arg_def)
    then have "completes (getopt wr argv opts g) (scast c, g1\<lparr>optarg := None\<rparr>)" by simp
    then show ?thesis using o(10) plain eof unfolding g1_def
      by (intro exI conjI) (assumption | simp add: todo_def opt_result_def scast_question)+
  next
    case arg
    have "getopt wr argv opts g = option_arg wr argv c g"
      using arg o unfolding call next_char_def by (simp add: strchr_None takes_arg_def)
    with arg_step [OF fit wr st] arg eof show ?thesis by simp
  qed
qed

text \<open>Between two arguments.\<close>

lemma getopt_start:
  assumes fit: "args_fit argv" and st: "opt_state argv g [] as k"
  shows "(\<exists>g'. getopt wr argv opts g = ret (EOF, g') \<and> parse opts [] as = ([], drop (unat (optind g')) argv)) \<or>
    (\<exists>a as'. as = a # as' \<and> tl a \<noteq> [] \<and> parse opts [] as = parse opts (tl a) as' \<and> opt_state argv g (tl a) as' k)"
proof -
  have s: "sp g = 1" "optind g = of_nat k" "k \<le> length argv" "as = drop k argv" using st by (auto simp: opt_state_def)
  have len: "length argv < 32767" using fit by (simp add: args_fit_def)
  have u: "unat (of_nat k :: cint) = k" using s(3) len by (simp add: unat_of_nat)
  show ?thesis
  proof (cases "k < length argv")
    case False
    then have "getopt wr argv opts g = ret (EOF, g)" using s len by (simp add: getopt_def nargs_def sint_small)
    then show ?thesis using s False u by auto
  next
    case True
    let ?a = "argv ! k"
    have as: "as = ?a # drop (Suc k) argv" using s(4) True by (simp add: Cons_nth_drop_Suc)
    have lt: "\<not> sint (optind g) \<ge> sint (nargs argv)" using s True len by (simp add: nargs_def sint_small)
    have c0: "arg_char argv (optind g) 0 = Some (case ?a of [] \<Rightarrow> 0 | x # _ \<Rightarrow> x)"
      using arg_char_at [OF fit True, of 0] s(2) by (cases ?a) auto
    have c1: "arg_char argv (optind g) 1 = Some (?a ! 1)" "?a ! 1 \<noteq> 0" if "\<not> length ?a < 2"
      using arg_char_at [OF fit True, of 1] arg_nonzero [OF fit True, of 1] that s(2) by (auto simp: nth_append)
    have c1': "arg_char argv (optind g) 1 = Some 0" if "length ?a = 1"
      using arg_char_at [OF fit True, of 1] that s(2) by (auto simp: nth_append)
    consider (none) "length ?a < 2 \<or> hd ?a \<noteq> 0x2D" | (dashes) "?a = [0x2D, 0x2D]"
      | (letters) "\<not> length ?a < 2" "hd ?a = 0x2D" "?a \<noteq> [0x2D, 0x2D]" by blast
    then show ?thesis
    proof cases
      case none
      have "getopt wr argv opts g = ret (EOF, g)"
      proof (cases "?a = [] \<or> hd ?a \<noteq> 0x2D")
        case True
        then show ?thesis using s(1) lt c0 by (cases ?a) (simp_all add: getopt_def)
      next
        case False
        then have "length ?a = 1" using none by (cases ?a) auto
        with c1' False s(1) lt c0 show ?thesis by (cases ?a) (simp_all add: getopt_def)
      qed
      then show ?thesis using none as s u by auto
    next
      case dashes
      then have "getopt wr argv opts g = ret (EOF, g\<lparr>optind := optind g + 1\<rparr>)"
        using s lt c0 c1 at_of_nat [OF True] len by (simp add: getopt_def)
      moreover have "optind g + 1 = of_nat (Suc k)" using s(2) by simp
      then have "unat (optind g + 1) = Suc k" using True len by (simp add: unat_of_nat del: of_nat_Suc)
      ultimately show ?thesis using dashes as by auto
    next
      case letters
      then have "tl ?a = drop 1 ?a" "tl ?a \<noteq> []" by (cases ?a; auto simp: drop_Suc)+
      then have "opt_state argv g (tl ?a) (drop (Suc k) argv) k"
        using s letters True by (auto simp: opt_state_def intro!: exI [of _ "1 :: nat"])
      then show ?thesis using letters as \<open>tl ?a \<noteq> []\<close> by auto
    qed
  qed
qed

lemma getopts_parse:
  assumes fit: "args_fit argv" and wr: "never_fails wr STDERR" and ff: "0xFF \<notin> set opts" and st: "opt_state argv g cs as k"
  shows "\<exists>n g'. completes (getopts n wr argv opts g) (fst (parse opts cs as), g') \<and> snd (parse opts cs as) = drop (unat (optind g')) argv"
  using st
proof (induction "todo cs as" arbitrary: g cs as k rule: less_induct)
  case less
  show ?case
  proof (cases cs)
    case (Cons c cs1)
    obtain c' g' cs' as' k' where l: "completes (getopt wr argv opts g) (c', g')" "c' \<noteq> EOF" "opt_state argv g' cs' as' k'"
        "parse opts (c # cs1) as = apfst (Cons (c', if c' = 0x3F then None else optarg g')) (parse opts cs' as')" "todo cs' as' < todo (c # cs1) as"
      using letter_step [OF fit wr ff less.prems [unfolded Cons]] by blast
    obtain n h where r: "completes (getopts n wr argv opts g') (fst (parse opts cs' as'), h)" "snd (parse opts cs' as') = drop (unat (optind h)) argv"
      using less.hyps [OF _ l(3)] l(5) Cons by blast
    have "completes (getopts (Suc n) wr argv opts g) (fst (parse opts cs as), h)"
      unfolding Cons l(4) by (auto simp: l(2) intro!: completes_andthen [OF l(1)] completes_andthen [OF r(1)])
    moreover have "snd (parse opts cs as) = drop (unat (optind h)) argv" using r(2) unfolding Cons l(4) by simp
    ultimately show ?thesis by blast
  next
    case Nil
    from getopt_start [OF fit less.prems [unfolded Nil], of wr opts] show ?thesis
    proof (elim disjE exE conjE)
      fix g' assume "getopt wr argv opts g = ret (EOF, g')" "parse opts [] as = ([], drop (unat (optind g')) argv)"
      then show ?thesis unfolding Nil by (intro exI [of _ "Suc 0"] exI [of _ g']) simp
    next
      fix a as' assume a: "as = a # as'" "tl a \<noteq> []" "parse opts [] as = parse opts (tl a) as'" "opt_state argv g (tl a) as' k"
      then have "todo (tl a) as' < todo cs as" unfolding Nil by (cases a) (auto simp: todo_def)
      from less.hyps [OF this a(4)] show ?thesis unfolding Nil a(3) .
    qed
  qed
qed

text \<open>
  C28. Calling \<^verbatim>\<open>getopt\<close> until it returns \<^verbatim>\<open>EOF\<close> ends, and gives the options with their arguments, and the
  position of the first other argument, that the parser of the whole argument list finds: letters
  may be grouped, the argument of an option follows in the same or as the next argument, \<^verbatim>\<open>--\<close> ends
  the options, and a wrong letter or a missing argument is reported as a question mark and does not
  stop it. (The arguments are shorter than 32767, and writing the messages to the errors does not fail.)
\<close>

theorem getopt_parses_arguments:
  assumes "args_fit argv" "never_fails wr STDERR" "0xFF \<notin> set opts"
  shows "\<exists>n g. \<forall>w. \<exists>w'. getopts n wr argv opts initgetopt w = Inr ((fst (parse opts [] (tl argv)), g), w') \<and>
    snd (parse opts [] (tl argv)) = drop (unat (optind g)) argv"
proof -
  have "opt_state argv initgetopt [] (tl argv) 1"
    using assms(1) by (cases argv) (auto simp: opt_state_def initgetopt_def args_fit_def)
  from getopts_parse [OF assms this] show ?thesis unfolding completes_def by blast
qed

definition sink :: "cint list writer" where
  "sink fd d w = Some (0, w @ [d])"

theorem getopt_parses_arguments_witness:
  "\<exists>n g. \<forall>w. \<exists>w'. getopts n sink [ascii ''ls'', ascii ''-ab5'', ascii ''-b'', ascii ''6'', ascii ''dir''] (ascii ''ab:'') initgetopt w =
     Inr (([(0x61, None), (0x62, Some (ascii ''5'')), (0x62, Some (ascii ''6''))], g), w')"
proof -
  let ?argv = "[ascii ''ls'', ascii ''-ab5'', ascii ''-b'', ascii ''6'', ascii ''dir'']" and ?opts = "ascii ''ab:''"
  have "never_fails sink STDERR" by (simp add: never_fails_def sink_def EOF_def)
  moreover have "args_fit ?argv" "0xFF \<notin> set ?opts" by (simp_all add: args_fit_def)
  moreover have "parse ?opts [] (tl ?argv) =
      ([(0x61, None), (0x62, Some (ascii ''5'')), (0x62, Some (ascii ''6''))], [ascii ''dir''])"
    by code_simp
  ultimately show ?thesis using getopt_parses_arguments [of ?argv sink ?opts] by (metis fst_conv)
qed

end
