(* ===== verification/Shell_Parse.thy ===== *)
theory Shell_Parse
  imports Getopt
begin

text \<open>
  \<^verbatim>\<open>usr/sh.c\<close>: reading a command line and cutting it into arguments. Both work in place on a buffer; a
  pointer into the buffer is an offset, and an access outside of an array is \<^term>\<open>None\<close>.
\<close>

abbreviation MAX_CMDLINE :: nat where "MAX_CMDLINE \<equiv> 128"
abbreviation MAX_JOBLEN :: nat where "MAX_JOBLEN \<equiv> 32"
abbreviation MAX_ARGS :: nat where "MAX_ARGS \<equiv> 8"

text \<open>An assignment to an element of an array.\<close>

definition put :: "nat \<Rightarrow> 'a \<Rightarrow> 'a list \<Rightarrow> 'a list option" where
  "put i x xs = (if i < length xs then Some (xs[i := x]) else None)"

lemma put_simps [simp]: "i < length xs \<Longrightarrow> put i x xs = Some (xs[i := x])"
  by (simp add: put_def)

section \<open>Reading a line\<close>

text \<open>
  \<^verbatim>\<open>getcmd\<close> for the results that \<^verbatim>\<open>readc\<close> will give: its result, the buffer and what is left to read, or
  \<^term>\<open>None\<close> also when there is nothing to read yet. The index is an \<^verbatim>\<open>int\<close>; a negative one is outside.
\<close>

fun getcmd :: "cint list \<Rightarrow> byte list \<Rightarrow> int \<Rightarrow> int \<Rightarrow> (cint \<times> byte list \<times> cint list) option" where
  "getcmd [] cmd len i = None"
| "getcmd (c # cs) cmd len i =
     (if c = EOF then Some (EOF, cmd, cs)
      else let i1 = (if i \<ge> len - 1 then i - 1 else i)
           in if i1 < 0 then None
              else if c = 13 \<or> c = 10 then do { cmd' \<leftarrow> put (nat i1) 0 cmd; Some (0, cmd', cs) }
              else do {
                cmd' \<leftarrow> put (nat i1) (ucast c) cmd;
                let i2 = i1 + 1;
                getcmd cs cmd' len (if i2 = len - 1 then i2 - 1 else i2)
              })"

text \<open>A line: characters up to the first return or newline.\<close>

definition ends_line :: "cint \<Rightarrow> bool" where
  "ends_line c \<longleftrightarrow> c = 13 \<or> c = 10"

lemma getcmd_loop:
  assumes "length cmd = n" "2 \<le> n" "i \<le> n - 2" "\<forall>c \<in> set cs. \<not> ends_line c \<and> c \<noteq> EOF" "ends_line e" "e \<noteq> EOF"
  shows "\<exists>cmd'. getcmd (cs @ e # rest) cmd (int n) (int i) = Some (0, cmd', rest) \<and> length cmd' = n \<and>
    (let k = min (i + length cs) (n - 2) in take k cmd' = take k (take i cmd @ map ucast cs) \<and> cmd' ! k = 0)"
  using assms
proof (induction cs arbitrary: i cmd)
  case Nil
  then have "i < length cmd" by simp
  then show ?case using Nil by (auto simp: ends_line_def Let_def min_def)
next
  case (Cons c cs)
  have i: "i < length cmd" "\<not> int i \<ge> int n - 1" using Cons.prems(1-3) by auto
  define i2 where "i2 = (if Suc i = n - 1 then i else Suc i)"
  have i2: "i2 \<le> n - 2" "int i2 = (if int i + 1 = int n - 1 then int i + 1 - 1 else int i + 1)"
    using Cons.prems(2,3) by (auto simp: i2_def)
  from Cons.IH [of "cmd[i := ucast c]" i2] obtain cmd' where r: "getcmd (cs @ e # rest) (cmd[i := ucast c]) (int n) (int i2) = Some (0, cmd', rest)"
      "length cmd' = n" "take (min (i2 + length cs) (n - 2)) cmd' = take (min (i2 + length cs) (n - 2)) (take i2 (cmd[i := ucast c]) @ map ucast cs)"
      "cmd' ! min (i2 + length cs) (n - 2) = 0"
    using Cons.prems i2(1) by (simp add: Let_def) blast
  have g: "getcmd ((c # cs) @ e # rest) cmd (int n) (int i) = Some (0, cmd', rest)"
  proof -
    have "c \<noteq> EOF" "\<not> (c = 13 \<or> c = 10)" using Cons.prems(4) by (simp_all add: ends_line_def)
    then show ?thesis using r(1) i unfolding i2(2) by (simp add: Let_def)
  qed
  have m: "min (i2 + length cs) (n - 2) = min (i + length (c # cs)) (n - 2)"
    using Cons.prems(3) by (auto simp: i2_def min_def)
  have t: "take (min (i + length (c # cs)) (n - 2)) (take i2 (cmd[i := ucast c]) @ map ucast cs) =
      take (min (i + length (c # cs)) (n - 2)) (take i cmd @ map ucast (c # cs))"
  proof (cases "Suc i = n - 1")
    case True
    then have "min (i + length (c # cs)) (n - 2) = i" "i2 = i" by (auto simp: i2_def)
    then show ?thesis using i(1) by simp
  next
    case False
    then show ?thesis using i(1) by (simp add: i2_def take_Suc_conv_app_nth)
  qed
  show ?case unfolding Let_def using g r(2) r(3,4) [unfolded m] t by (intro exI [of _ cmd'] conjI) (simp_all only:)
qed

text \<open>
  C27. Reading a command line never writes outside of the buffer: for a buffer of \<open>n\<close> bytes, \<^verbatim>\<open>getcmd\<close> reads
  up to the end of the line and leaves its first \<open>n - 2\<close> characters in the buffer, with a null
  character behind them; the rest of a longer line is dropped.
\<close>

theorem getcmd_within_buffer:
  assumes "length cmd = n" "2 \<le> n" "\<forall>c \<in> set cs. \<not> ends_line c \<and> c \<noteq> EOF" "e = 13 \<or> e = 10"
  shows "\<exists>cmd'. getcmd (cs @ e # rest) cmd (int n) 0 = Some (0, cmd', rest) \<and> length cmd' = n \<and>
    (let k = min (length cs) (n - 2) in take k cmd' = map ucast (take k cs) \<and> cmd' ! k = 0)"
proof -
  have "ends_line e" "e \<noteq> EOF" using assms(4) by (auto simp: ends_line_def EOF_def)
  from getcmd_loop [OF assms(1,2) _ assms(3) this, of 0 rest] show ?thesis by (simp add: take_map Let_def)
qed

theorem getcmd_within_buffer_witness:
  "\<exists>cmd'. getcmd [0x61, 0x62, 0x63, 0x64, 13] [1, 1, 1, 1] 4 0 = Some (0, cmd', []) \<and> length cmd' = 4 \<and> take 2 cmd' = [0x61, 0x62] \<and> cmd' ! 2 = 0"
  using getcmd_within_buffer [of "[1, 1, 1, 1]" 4 "[0x61, 0x62, 0x63, 0x64]" 13 "[]"]
  by (simp add: ends_line_def EOF_def Let_def)

section \<open>Cutting a command into arguments\<close>

datatype parse_state_t = PARSE_NONE | PARSE_LETTER | PARSE_SIN | PARSE_SOUT

record parsed =
  p_buf :: "byte list"
  p_args :: "nat option list"
  p_i :: nat
  p_state :: parse_state_t
  p_stin :: "nat option"
  p_stout :: "nat option"

text \<open>One turn of the loop at offset \<open>t\<close>; \<open>red\<close> says whether \<^verbatim>\<open>stin\<close> and \<^verbatim>\<open>stout\<close> are given.\<close>

definition end_arg :: "parsed \<Rightarrow> parsed option" where
  "end_arg st =
     (if p_i st < length (p_args st)
      then Some (if p_args st ! p_i st \<noteq> None \<and> p_state st = PARSE_LETTER
                 then st\<lparr>p_i := p_i st + 1, p_state := PARSE_NONE\<rparr> else st)
      else None)"

definition letter :: "bool \<Rightarrow> nat \<Rightarrow> parsed \<Rightarrow> parsed option" where
  "letter red t st = map_option (\<lambda>st. st\<lparr>p_state := PARSE_LETTER\<rparr>)
     (case p_state st of
        PARSE_NONE \<Rightarrow> map_option (\<lambda>as. st\<lparr>p_args := as\<rparr>) (put (p_i st) (Some t) (p_args st))
      | PARSE_SIN \<Rightarrow> Some (if red then st\<lparr>p_stin := Some t\<rparr> else st)
      | PARSE_SOUT \<Rightarrow> Some (if red then st\<lparr>p_stout := Some t\<rparr> else st)
      | PARSE_LETTER \<Rightarrow> Some st)"

definition cut :: "nat \<Rightarrow> parsed \<Rightarrow> parsed option" where
  "cut t st = map_option (\<lambda>b. st\<lparr>p_buf := b\<rparr>) (put t 0 (p_buf st))"

definition parse_char :: "bool \<Rightarrow> nat \<Rightarrow> parsed \<Rightarrow> parsed option" where
  "parse_char red t st =
     (let c = p_buf st ! t
      in if c = 0x3C then cut t (st\<lparr>p_state := PARSE_SIN\<rparr>)
         else if c = 0x3E then cut t (st\<lparr>p_state := PARSE_SOUT\<rparr>)
         else if c = 0x20 \<or> c = 0x09 then do { st' \<leftarrow> end_arg st; cut t st' }
         else if c = 10 \<or> c = 13 then cut t st
         else letter red t st)"

text \<open>The offsets are visited in order until a null character is found.\<close>

primrec parse_loop :: "bool \<Rightarrow> nat list \<Rightarrow> parsed \<Rightarrow> parsed option" where
  "parse_loop red [] st = None"
| "parse_loop red (t # ts) st =
     (if p_buf st ! t = 0 then Some st else do { st' \<leftarrow> parse_char red t st; parse_loop red ts st' })"

definition parse_args :: "bool \<Rightarrow> byte list \<Rightarrow> parsed option" where
  "parse_args red buf = parse_loop red [0..<length buf]
     \<lparr>p_buf = buf, p_args = replicate (MAX_ARGS + 1) None, p_i = 0, p_state = PARSE_NONE, p_stin = None, p_stout = None\<rparr>"

text \<open>The string at an offset.\<close>

definition cstr :: "byte list \<Rightarrow> nat \<Rightarrow> byte list" where
  "cstr buf i = takeWhile (\<lambda>c. c \<noteq> 0) (drop i buf)"

section \<open>The words of a line\<close>

definition blank :: "byte \<Rightarrow> bool" where
  "blank c \<longleftrightarrow> c = 0x20 \<or> c = 0x09"

function words :: "byte list \<Rightarrow> byte list list" where
  "words [] = []"
| "words (c # cs) =
     (if blank c then words cs
      else (c # takeWhile (\<lambda>c. \<not> blank c) cs) # words (dropWhile (\<lambda>c. \<not> blank c) cs))"
  by pat_completeness auto
termination by (relation "measure length") (auto simp: le_imp_less_Suc length_dropWhile_le)

function starts :: "nat \<Rightarrow> byte list \<Rightarrow> nat list" where
  "starts k [] = []"
| "starts k (c # cs) =
     (if blank c then starts (Suc k) cs
      else k # starts (Suc k + length (takeWhile (\<lambda>c. \<not> blank c) cs)) (dropWhile (\<lambda>c. \<not> blank c) cs))"
  by pat_completeness auto
termination by (relation "measure (\<lambda>(_, cs). length cs)") (auto simp: le_imp_less_Suc length_dropWhile_le)

definition nulled :: "byte list \<Rightarrow> byte list" where
  "nulled line = map (\<lambda>c. if blank c then 0 else c) line"

lemma nulled_word: "\<forall>c \<in> set w. \<not> blank c \<Longrightarrow> nulled w = w"
  by (auto simp: nulled_def intro: map_idI)

lemma nulled_split:
  "nulled cs = takeWhile (\<lambda>c. \<not> blank c) cs @ nulled (dropWhile (\<lambda>c. \<not> blank c) cs)"
proof -
  have "nulled (w @ r) = w @ nulled r" if "\<forall>c \<in> set w. \<not> blank c" for w r using nulled_word [OF that] by (simp add: nulled_def)
  from this [of "takeWhile (\<lambda>c. \<not> blank c) cs" "dropWhile (\<lambda>c. \<not> blank c) cs"] show ?thesis by (auto dest: set_takeWhileD)
qed

lemma length_starts: "length (starts k line) = length (words line)"
  by (induction k line rule: starts.induct) simp_all

lemma words_at_starts:
  assumes "0 \<notin> set line"
  shows "map (cstr (pre @ nulled line @ 0 # junk)) (starts (length pre) line) = words line"
  using assms
proof (induction line arbitrary: pre rule: words.induct)
  case (2 c cs)
  show ?case
  proof (cases "blank c")
    case True
    then show ?thesis using 2(1) [OF True, of "pre @ [0]"] 2(3) by (simp add: nulled_def)
  next
    case False
    let ?w = "takeWhile (\<lambda>c. \<not> blank c) cs" and ?r = "dropWhile (\<lambda>c. \<not> blank c) cs"
    have w: "\<forall>x \<in> set ?w. x \<noteq> 0" "c \<noteq> 0" "0 \<notin> set ?r" using 2(3) by (auto dest: set_takeWhileD set_dropWhileD)
    have n: "nulled (c # cs) = c # ?w @ nulled ?r" using False nulled_split [of cs] by (simp add: nulled_def)
    have "takeWhile (\<lambda>c. c \<noteq> 0) (nulled r @ 0 # junk) = []" if "r \<noteq> [] \<Longrightarrow> blank (hd r)" for r
      using that by (cases r) (auto simp: nulled_def)
    then have z: "takeWhile (\<lambda>c. c \<noteq> 0) (nulled ?r @ 0 # junk) = []" using hd_dropWhile [of "\<lambda>c. \<not> blank c" cs] by blast
    have "cstr (pre @ nulled (c # cs) @ 0 # junk) (length pre) = c # ?w"
      using w z by (simp add: cstr_def n takeWhile_append2)
    moreover have "map (cstr (pre @ nulled (c # cs) @ 0 # junk)) (starts (Suc (length pre) + length ?w) ?r) = words ?r"
      using 2(2) [OF False w(3), of "pre @ c # ?w"] by (simp add: n)
    ultimately show ?thesis using False by simp
  qed
qed simp

text \<open>
  The loop over a line of words. Between two words the state is \<^term>\<open>PARSE_NONE\<close> with the index of the next
  argument, or, directly behind a word, \<^term>\<open>PARSE_LETTER\<close> with the index of its last one.
\<close>

definition plain :: "byte \<Rightarrow> bool" where
  "plain c \<longleftrightarrow> c \<notin> {0, 0x3C, 0x3E, 10, 13}"

definition args_of :: "nat list \<Rightarrow> nat option list" where
  "args_of ws = map Some ws @ replicate (MAX_ARGS + 1 - length ws) None"

lemma args_of_nth: "length ws \<le> MAX_ARGS \<Longrightarrow> length (args_of ws) = MAX_ARGS + 1 \<and> args_of ws ! length ws = None"
  "i < length ws \<Longrightarrow> args_of ws ! i = Some (ws ! i)"
  by (simp_all add: args_of_def nth_append)

lemma args_of_snoc: "length ws \<le> MAX_ARGS \<Longrightarrow> (args_of ws)[length ws := Some k] = args_of (ws @ [k])"
proof -
  assume "length ws \<le> MAX_ARGS"
  then have "MAX_ARGS + 1 - length ws = Suc (MAX_ARGS - length ws)" by simp
  then show ?thesis by (simp add: args_of_def list_update_append)
qed

definition at_word_end :: "nat list \<Rightarrow> byte list \<Rightarrow> parsed \<Rightarrow> bool" where
  "at_word_end ws rest st \<longleftrightarrow> p_args st = args_of ws \<and>
     (p_state st = PARSE_NONE \<and> p_i st = length ws \<or>
      p_state st = PARSE_LETTER \<and> Suc (p_i st) = length ws \<and> (rest = [] \<or> blank (hd rest)))"

lemma same_state: "p_state st = s \<Longrightarrow> st\<lparr>p_state := s\<rparr> = st"
  by (cases st) simp

lemma in_word:
  assumes "p_buf st = pre @ w @ suf" "p_state st = PARSE_LETTER" "\<forall>c \<in> set w. plain c \<and> \<not> blank c"
  shows "parse_loop red ([length pre..<length pre + length w] @ ts) st = parse_loop red ts st"
  using assms
proof (induction w arbitrary: pre)
  case (Cons c w)
  have "p_buf st ! length pre = c" using Cons.prems(1) by simp
  moreover have "[length pre..<length pre + length (c # w)] = length pre # [Suc (length pre)..<Suc (length pre) + length w]"
    by (subst upt_conv_Cons) simp_all
  ultimately have "parse_loop red ([length pre..<length pre + length (c # w)] @ ts) st =
      parse_loop red ([Suc (length pre)..<Suc (length pre) + length w] @ ts) st"
    using Cons.prems(2,3) by (simp add: parse_char_def letter_def plain_def blank_def same_state)
  then show ?case using Cons.IH [of "pre @ [c]"] Cons.prems by simp
qed simp

lemma upt_first: "k < n \<Longrightarrow> [k..<n] = k # [Suc k..<n]"
  by (rule upt_conv_Cons)

lemma upt_split: "i \<le> j \<Longrightarrow> j \<le> n \<Longrightarrow> [i..<n] = [i..<j] @ [j..<n]"
  using upt_add_eq_append [of i j "n - j"] by simp

lemma parse_words:
  assumes "p_buf st = pre @ line @ 0 # junk" "\<forall>c \<in> set line. plain c" "at_word_end ws line st"
    "length ws + length (words line) \<le> MAX_ARGS" "n = length pre + length line + Suc (length junk)"
  shows "\<exists>st'. parse_loop red [length pre..<n] st = Some st' \<and> p_buf st' = pre @ nulled line @ 0 # junk \<and>
    p_args st' = args_of (ws @ starts (length pre) line) \<and> p_stin st' = p_stin st \<and> p_stout st' = p_stout st"
  using assms
proof (induction line arbitrary: pre ws st rule: words.induct)
  case 1
  have "[length pre..<n] = length pre # [Suc (length pre)..<n]" using 1(5) by (intro upt_first) simp
  then show ?case using 1(1,3) by (simp add: nulled_def at_word_end_def del: upt_Suc)
next
  case (2 c cs)
  have b: "p_buf st ! length pre = c" "plain c" "length pre < n" "length (p_buf st) = n" "length pre < length (p_buf st)" using 2(3,4,7) by auto
  show ?case
  proof (cases "blank c")
    case True
    let ?st = "st\<lparr>p_buf := pre @ 0 # cs @ 0 # junk, p_state := PARSE_NONE, p_i := length ws\<rparr>"
    have i: "p_i st < length (p_args st)" "p_state st = PARSE_NONE \<Longrightarrow> p_args st ! p_i st = None"
        "p_state st = PARSE_LETTER \<Longrightarrow> p_args st ! p_i st \<noteq> None \<and> p_i st + 1 = length ws"
      using 2(5,6) args_of_nth(1) [of ws] args_of_nth(2) [of "p_i st" ws] by (auto simp: at_word_end_def)
    have "parse_char red (length pre) st = Some ?st"
      using True b i 2(3,5) by (auto simp: parse_char_def Let_def blank_def end_arg_def cut_def at_word_end_def)
    then have "parse_loop red [length pre..<n] st = parse_loop red [Suc (length pre)..<n] ?st"
      using b by (simp add: upt_first plain_def)
    moreover have "\<exists>st'. parse_loop red [length (pre @ [0])..<n] ?st = Some st' \<and> p_buf st' = (pre @ [0]) @ nulled cs @ 0 # junk \<and>
        p_args st' = args_of (ws @ starts (length (pre @ [0])) cs) \<and> p_stin st' = p_stin ?st \<and> p_stout st' = p_stout ?st"
      using 2(1) [OF True, of ?st "pre @ [0]" ws] 2(3-7) True by (simp add: at_word_end_def)
    ultimately show ?thesis using True by (simp add: nulled_def)
  next
    case False
    let ?w = "takeWhile (\<lambda>c. \<not> blank c) cs" and ?r = "dropWhile (\<lambda>c. \<not> blank c) cs"
    have ws: "p_state st = PARSE_NONE" "p_i st = length ws" "p_args st = args_of ws" "length ws \<le> MAX_ARGS"
      using 2(5,6) False by (auto simp: at_word_end_def)
    let ?st = "st\<lparr>p_args := args_of (ws @ [length pre]), p_state := PARSE_LETTER\<rparr>"
    have buf: "p_buf ?st = (pre @ [c]) @ ?w @ ?r @ 0 # junk" using 2(3) by simp
    have pc: "parse_char red (length pre) st = Some ?st"
      using False b ws args_of_nth(1) [of ws] args_of_snoc [of ws "length pre"]
      by (simp add: parse_char_def Let_def blank_def plain_def letter_def)
    have sp: "[length pre..<n] = length pre # [length (pre @ [c])..<length (pre @ [c]) + length ?w] @ [length ((pre @ [c]) @ ?w)..<n]"
    proof -
      have "length ?w \<le> length cs" by (rule length_takeWhile_le)
      then show ?thesis using upt_first [OF b(3)] upt_split [of "Suc (length pre)" "Suc (length pre) + length ?w" n] 2(7) by simp
    qed
    have w: "\<forall>c \<in> set ?w. plain c \<and> \<not> blank c" using 2(4) by (auto dest: set_takeWhileD)
    have "parse_loop red [length pre..<n] st =
        parse_loop red ([length (pre @ [c])..<length (pre @ [c]) + length ?w] @ [length ((pre @ [c]) @ ?w)..<n]) ?st"
      unfolding sp parse_loop.simps(2) b(1) pc using b(2) by (simp add: plain_def del: upt_Suc)
    also have "\<dots> = parse_loop red [length ((pre @ [c]) @ ?w)..<n] ?st" by (rule in_word [OF buf _ w]) simp
    finally have step: "parse_loop red [length pre..<n] st = parse_loop red [length ((pre @ [c]) @ ?w)..<n] ?st" .
    have "\<exists>st'. parse_loop red [length ((pre @ [c]) @ ?w)..<n] ?st = Some st' \<and> p_buf st' = ((pre @ [c]) @ ?w) @ nulled ?r @ 0 # junk \<and>
        p_args st' = args_of ((ws @ [length pre]) @ starts (length ((pre @ [c]) @ ?w)) ?r) \<and> p_stin st' = p_stin ?st \<and> p_stout st' = p_stout ?st"
    proof (rule 2(2) [OF False])
      show "p_buf ?st = ((pre @ [c]) @ ?w) @ ?r @ 0 # junk" using buf by simp
      show "at_word_end (ws @ [length pre]) ?r ?st" using hd_dropWhile [of "\<lambda>c. \<not> blank c" cs] ws(2) by (auto simp: at_word_end_def)
      show "length (ws @ [length pre]) + length (words ?r) \<le> MAX_ARGS" using 2(6) False by simp
      have "length cs = length ?w + length ?r" by (metis length_append takeWhile_dropWhile_id)
      then show "n = length ((pre @ [c]) @ ?w) + length ?r + Suc (length junk)" using 2(7) by simp
    qed (use 2(4) in \<open>auto dest: set_dropWhileD\<close>)
    moreover have "nulled (c # cs) = c # ?w @ nulled ?r" using False nulled_split [of cs] by (simp add: nulled_def)
    ultimately show ?thesis unfolding step using False by simp
  qed
qed

text \<open>
  A command without redirection is cut into its words: for up to eight words, the pointers that
  \<^verbatim>\<open>parse_args\<close> leaves in the array, up to the first null pointer, point to the words that are
  separated by blanks in the line, in order, each ending with a null character.
\<close>

theorem parse_args_cuts_words:
  assumes "\<forall>c \<in> set line. c \<notin> {0, 0x3C, 0x3E, 10, 13}" "length (words line) \<le> MAX_ARGS"
  shows "\<exists>st ps. parse_args red (line @ 0 # junk) = Some st \<and> p_args st = map Some ps @ replicate (MAX_ARGS + 1 - length ps) None \<and>
    length ps \<le> MAX_ARGS \<and> map (cstr (p_buf st)) ps = words line \<and> p_stin st = None \<and> p_stout st = None"
proof -
  let ?st = "\<lparr>p_buf = line @ 0 # junk, p_args = replicate (MAX_ARGS + 1) None, p_i = 0, p_state = PARSE_NONE, p_stin = None, p_stout = None\<rparr>"
  have "at_word_end [] line ?st" by (simp add: at_word_end_def args_of_def)
  moreover have "\<forall>c \<in> set line. plain c" using assms(1) by (simp add: plain_def)
  ultimately obtain st where r: "parse_loop red [0..<length (line @ 0 # junk)] ?st = Some st" "p_buf st = nulled line @ 0 # junk"
      "p_args st = args_of (starts 0 line)" "p_stin st = None" "p_stout st = None"
    using parse_words [of ?st "[]" line junk "[]" "length (line @ 0 # junk)" red] assms(2) by auto
  have "map (cstr (p_buf st)) (starts 0 line) = words line"
    using words_at_starts [of line "[]" junk] assms(1) r(2) by auto
  then show ?thesis using r assms(2) unfolding parse_args_def args_of_def
    by (intro exI [of _ st] exI [of _ "starts 0 line"]) (simp add: length_starts)
qed

theorem parse_args_cuts_words_witness:
  "\<exists>st ps. parse_args True (ascii ''  ls -l  a'' @ [0, 7]) = Some st \<and> map (cstr (p_buf st)) ps = [ascii ''ls'', ascii ''-l'', ascii ''a'']"
proof -
  let ?l = "ascii ''  ls -l  a''"
  have e: "words ?l = [ascii ''ls'', ascii ''-l'', ascii ''a'']" by code_simp
  have "\<forall>c \<in> set ?l. c \<notin> {0, 0x3C, 0x3E, 10, 13}" "length (words ?l) \<le> MAX_ARGS" unfolding e by simp_all
  from parse_args_cuts_words [OF this, of True "[7]"] show ?thesis unfolding e by metis
qed

end
