(* ===== verification/Userland.thy ===== *)
theory Userland
  imports Shell_Parse Time_Server
begin

text \<open>
  The world of a user program: the system calls that the programs of \<^verbatim>\<open>usr/\<close> make, as one record of
  functions, and the idioms that the programs share. The calls themselves are functions of
  \<^verbatim>\<open>servers/vfs.c\<close>, \<^verbatim>\<open>servers/pm.c\<close>, \<^verbatim>\<open>servers/ts.c\<close> and \<^verbatim>\<open>kernel/kernel.c\<close>; the programs are defined for every world
  and every such record. The contract that the proofs about programs rely on is the locale below; it
  is interpreted on the models of the file system and of the file driver.
\<close>

section \<open>System calls\<close>

text \<open>The functions that the programs start as tasks with \<^verbatim>\<open>spawntask\<close>.\<close>

datatype task_fn = Do_repeat | Exec_job | Launch_job | Launchsession

record stat =
  st_dev :: cint
  st_ino :: cint
  st_size :: cint

text \<open>
  \<^verbatim>\<open>pipe\<close> gives its result and the two descriptors, \<^verbatim>\<open>wait\<close> the pid and the exit code, \<^verbatim>\<open>pmmalloc\<close> an address and
  the content of the new memory, \<^verbatim>\<open>receive\<close> the message, and \<^verbatim>\<open>execv\<close> whether the program was replaced.
\<close>

record 'w os =
  os_writec :: "'w writer"
  os_readc :: "cint \<Rightarrow> ('w, cint) syscall"
  os_open :: "byte list \<Rightarrow> ('w, cint) syscall"
  os_close :: "cint \<Rightarrow> ('w, unit) syscall"
  os_dup :: "cint \<Rightarrow> ('w, cint) syscall"
  os_pipe :: "('w, cint \<times> cint \<times> cint) syscall"
  os_mknod :: "cint \<Rightarrow> byte list option \<Rightarrow> ('w, cint) syscall"
  os_fstat :: "byte list \<Rightarrow> ('w, cint \<times> stat) syscall"
  os_debugn :: "cint \<Rightarrow> ('w, cint) syscall"
  os_execv :: "byte list \<Rightarrow> byte list list \<Rightarrow> ('w, bool) syscall"
  os_spawntask :: "task_fn \<Rightarrow> cint \<Rightarrow> byte list list \<Rightarrow> ('w, pid_t) syscall"
  os_wait :: "('w, pid_t \<times> cint) syscall"
  os_pmmalloc :: "cint \<Rightarrow> ('w, addr \<times> byte list) syscall"
  os_pmfree :: "addr \<Rightarrow> ('w, unit) syscall"
  os_send :: "pid_t \<Rightarrow> byte list \<Rightarrow> ('w, unit) syscall"
  os_receive :: "cint \<Rightarrow> ('w, byte list) syscall"
  os_delay :: "cint \<Rightarrow> ('w, unit) syscall"
  os_getuptime :: "('w, time_t) syscall"

text \<open>The world in which every call blocks.\<close>

definition no_os :: "'w os" where
  "no_os = \<lparr>os_writec = \<lambda>_ _ _. None, os_readc = \<lambda>_ _. None, os_open = \<lambda>_ _. None, os_close = \<lambda>_ _. None, os_dup = \<lambda>_ _. None,
     os_pipe = \<lambda>_. None, os_mknod = \<lambda>_ _ _. None, os_fstat = \<lambda>_ _. None, os_debugn = \<lambda>_ _. None, os_execv = \<lambda>_ _ _. None,
     os_spawntask = \<lambda>_ _ _ _. None, os_wait = \<lambda>_. None, os_pmmalloc = \<lambda>_ _. None, os_pmfree = \<lambda>_ _. None,
     os_send = \<lambda>_ _ _. None, os_receive = \<lambda>_ _. None, os_delay = \<lambda>_ _. None, os_getuptime = \<lambda>_. None\<rparr>"

section \<open>Idioms\<close>

definition mgetc :: "'w os \<Rightarrow> ('w, cint) prog" where
  "mgetc os = sys (os_readc os STDIN)"

text \<open>A successful \<^verbatim>\<open>execv\<close> does not return.\<close>

definition execv :: "'w os \<Rightarrow> byte list \<Rightarrow> byte list list \<Rightarrow> ('w, unit) prog" where
  "execv os name args =
     andthen (sys (os_execv os name args)) (\<lambda>replaced w. if replaced then Inl (Became name args, w) else ret () w)"

definition unfinished :: "('w, 'a) prog" where
  "unfinished w = Inl (Unfinished, w)"

text \<open>\<^verbatim>\<open>argv[i]\<close>: a string or, at the end, the null pointer; and the arguments from \<^verbatim>\<open>argv[i]\<close> to the null pointer.\<close>

definition argp :: "byte list list \<Rightarrow> nat \<Rightarrow> ('w, byte list option) prog" where
  "argp argv i = (if i < length argv then ret (Some (argv ! i)) else if i = length argv then ret None else undef)"

definition args_from :: "byte list list \<Rightarrow> cint \<Rightarrow> ('w, byte list list) prog" where
  "args_from argv i = (if unat i \<le> length argv then ret (drop (unat i) argv) else undef)"

text \<open>\<^verbatim>\<open>open\<close> writes a null character over the first slash of the name.\<close>

definition opened :: "byte list \<Rightarrow> byte list" where
  "opened name = fst (open_cut name)"

text \<open>\<^verbatim>\<open>initgetopt\<close> with its memory, and the loop that every program has around \<^verbatim>\<open>getopt\<close>.\<close>

definition new_getopt :: "'w os \<Rightarrow> ('w, addr \<times> getopt_t) prog" where
  "new_getopt os =
     andthen (sys (os_pmmalloc os 6)) (\<lambda>(p, _).
     andthen (massert (os_writec os) p (ascii ''mstdlib.c'') 95) (\<lambda>_. ret (p, initgetopt)))"

primrec opt_loop ::
  "nat \<Rightarrow> 'w os \<Rightarrow> byte list list \<Rightarrow> byte list \<Rightarrow> (cint \<Rightarrow> 's \<Rightarrow> ('w, 's) prog) \<Rightarrow> getopt_t \<Rightarrow> 's \<Rightarrow> ('w, 's \<times> getopt_t) prog"
where
  "opt_loop 0 os argv opts body g s = unfinished"
| "opt_loop (Suc n) os argv opts body g s =
     andthen (getopt (os_writec os) argv opts g) (\<lambda>(c, g').
       if c = EOF then ret (s, g')
       else andthen (body c s) (\<lambda>s'. opt_loop n os argv opts body g' s'))"

text \<open>The cases of the switch: one letter sets a bit, a question mark ends the program.\<close>

definition opt_flag :: "'w os \<Rightarrow> addr \<Rightarrow> cint \<Rightarrow> cint \<Rightarrow> cint \<Rightarrow> cint \<Rightarrow> ('w, cint) prog" where
  "opt_flag os p l b c opt =
     (if c = l then ret (opt OR b)
      else if c = 0x3F then andthen (sys (os_pmfree os p)) (\<lambda>_. mexit 1)
      else ret opt)"

section \<open>Programs that end\<close>

text \<open>A program that runs to its end with a result, and one that stops before.\<close>

definition runs :: "('w, 'a) prog \<Rightarrow> 'w \<Rightarrow> 'a \<Rightarrow> 'w \<Rightarrow> bool" where
  "runs p w x w' \<longleftrightarrow> p w = Inr (x, w')"

definition stops :: "('w, 'a) prog \<Rightarrow> 'w \<Rightarrow> stop \<Rightarrow> 'w \<Rightarrow> bool" where
  "stops p w e w' \<longleftrightarrow> p w = Inl (e, w')"

lemma runs_ret [simp]: "runs (ret x) w y w' \<longleftrightarrow> y = x \<and> w' = w"
  by (auto simp: runs_def ret_def)

lemma runs_sys [simp]: "runs (sys f) w x w' \<longleftrightarrow> f w = Some (x, w')"
  by (auto simp: runs_def sys_def split: option.split)

lemma runs_andthen [intro]: "runs p w x u \<Longrightarrow> runs (f x) u y v \<Longrightarrow> runs (andthen p f) w y v"
  by (simp add: runs_def andthen_def)

lemma runs_andthen_iff: "runs (andthen p f) w y v \<longleftrightarrow> (\<exists>x u. runs p w x u \<and> runs (f x) u y v)"
  by (auto simp: runs_def andthen_def split: sum.splits)

lemma stops_andthen: "runs p w x u \<Longrightarrow> stops (f x) u e v \<Longrightarrow> stops (andthen p f) w e v"
  by (simp add: runs_def stops_def andthen_def)

lemma stops_first: "stops p w e w' \<Longrightarrow> stops (andthen p f) w e w'"
  by (simp add: stops_def andthen_def)

lemma stops_execv: "os_execv os name args w = Some (True, w') \<Longrightarrow> stops (execv os name args) w (Became name args) w'"
  by (simp add: stops_def execv_def andthen_def sys_def)

section \<open>The contract of the standard input and output\<close>

text \<open>
  What a program relies on: reading gives the characters of the input one after the other and then
  \<^verbatim>\<open>EOF\<close>, writing appends to the output, and both keep the rest of the world. \<open>ready n w\<close> is the
  invariant of the world, with room for \<open>n\<close> more characters of output. The character 255 is read as
  \<^verbatim>\<open>EOF\<close>, so there is none in the input.
\<close>

locale stdio =
  fixes os :: "'w os" and inp out :: "'w \<Rightarrow> byte list" and others :: "'w \<Rightarrow> 'r" and ready :: "nat \<Rightarrow> 'w \<Rightarrow> bool"
  assumes read_char: "ready n w \<Longrightarrow> inp w = c # cs \<Longrightarrow>
      \<exists>w'. os_readc os STDIN w = Some (scast c, w') \<and> inp w' = cs \<and> out w' = out w \<and> others w' = others w \<and> ready n w'"
    and read_end: "ready n w \<Longrightarrow> inp w = [] \<Longrightarrow>
      \<exists>w'. os_readc os STDIN w = Some (EOF, w') \<and> inp w' = [] \<and> out w' = out w \<and> others w' = others w \<and> ready n w'"
    and no_eof: "ready n w \<Longrightarrow> 0xFF \<notin> set (inp w)"
    and write_char: "ready (Suc n) w \<Longrightarrow>
      \<exists>w'. os_writec os STDOUT d w = Some (d, w') \<and> inp w' = inp w \<and> out w' = out w @ [ucast d] \<and> others w' = others w \<and> ready n w'"
begin

lemma getc_char:
  assumes "ready n w" "inp w = c # cs"
  obtains w' where "runs (mgetc os) w (scast c) w'" "inp w' = cs" "out w' = out w" "others w' = others w" "ready n w'" "scast c \<noteq> EOF"
proof -
  have "scast c \<noteq> EOF" using no_eof [OF assms(1)] assms(2) by (auto simp: scast_EOF)
  with read_char [OF assms] that show thesis by (auto simp: mgetc_def)
qed

lemma getc_end:
  assumes "ready n w" "inp w = []"
  obtains w' where "runs (mgetc os) w EOF w'" "inp w' = []" "out w' = out w" "others w' = others w" "ready n w'"
  using read_end [OF assms] that by (auto simp: mgetc_def)

lemma putc:
  assumes "ready (Suc n) w" "d \<noteq> EOF"
  obtains w' where "runs (mfputc (os_writec os) 1 d) w () w'" "inp w' = inp w" "out w' = out w @ [ucast d]" "others w' = others w" "ready n w'"
proof -
  obtain w' where w': "os_writec os STDOUT d w = Some (d, w')" "inp w' = inp w" "out w' = out w @ [ucast d]" "others w' = others w" "ready n w'"
    using write_char [OF assms(1)] by blast
  then have "runs (mfputc (os_writec os) 1 d) w () w'" using assms(2)
    by (simp add: mfputc_def runs_andthen_iff STDOUT_def)
  with w' that show thesis by blast
qed

lemma emits:
  assumes "ready (n + length ds) w" "EOF \<notin> set ds"
  obtains w' where "runs (emit (os_writec os) 1 ds) w () w'" "inp w' = inp w" "out w' = out w @ map ucast ds" "others w' = others w" "ready n w'"
  using assms
proof (induction ds arbitrary: w thesis)
  case (Cons d ds)
  obtain u where u: "runs (mfputc (os_writec os) 1 d) w () u" "inp u = inp w" "out u = out w @ [ucast d]" "others u = others w" "ready (n + length ds) u"
    using Cons.prems by (auto intro: putc [of "n + length ds" w d])
  obtain v where "runs (emit (os_writec os) 1 ds) u () v" "inp v = inp u" "out v = out u @ map ucast ds" "others v = others u" "ready n v"
    using Cons.IH [OF _ u(5)] Cons.prems(3) by auto
  with u Cons.prems(1) show ?case by (auto simp: runs_andthen_iff)
qed simp

end

end
