(* ===== verification/Apps.thy ===== *)
theory Apps
  imports Userland
begin

unbundle bit_operations_syntax

text \<open>
  \<^verbatim>\<open>usr/apps.c\<close> and \<^verbatim>\<open>usr/init.c\<close>: the programs that the shell can start, for any world of system calls. A program takes
  its argument vector and gives its exit code. The loops that read until the end of the input are given a
  number of turns; a program that has used them up is \<^term>\<open>Unfinished\<close>.
\<close>

section \<open>getty and login\<close>

text \<open>The same string is opened three times; \<^verbatim>\<open>open\<close> cuts it at the slash.\<close>

primrec getty_open :: "'w os \<Rightarrow> cint list \<Rightarrow> byte list \<Rightarrow> ('w, bool) prog" where
  "getty_open os [] name = ret True"
| "getty_open os (i # is) name =
     andthen (sys (os_close os i)) (\<lambda>_.
     andthen (sys (os_open os name)) (\<lambda>fd.
       if cneg fd then ret False else getty_open os is (opened name)))"

definition getty :: "'w os \<Rightarrow> byte list list \<Rightarrow> ('w, cint) prog" where
  "getty os argv =
     (if sint (nargs argv) < 2 then ret (- 1)
      else andthen (lift (at argv 1)) (\<lambda>name.
        andthen (getty_open os [0, 1, 2] name) (\<lambda>ok.
          if \<not> ok then ret (- 1)
          else andthen (execv os (ascii ''login'') [ascii ''login'']) (\<lambda>_.
               andthen (unknown (os_writec os) argv (ascii ''login'')) (\<lambda>_. ret (- 1))))))"

primrec wait_enter :: "nat \<Rightarrow> 'w os \<Rightarrow> ('w, bool) prog" where
  "wait_enter 0 os = unfinished"
| "wait_enter (Suc n) os =
     andthen (mgetc os) (\<lambda>c.
       if c = EOF then ret False
       else if c \<noteq> 13 \<and> c \<noteq> 10 then wait_enter n os
       else ret True)"

definition login :: "nat \<Rightarrow> 'w os \<Rightarrow> byte list list \<Rightarrow> ('w, cint) prog" where
  "login n os argv =
     andthen (lift (at argv 0)) (\<lambda>name.
     andthen (mfprintf (os_writec os) 1 (ascii ''%s: Hit ENTER!'' @ [10]) [VStr name]) (\<lambda>_.
     andthen (wait_enter n os) (\<lambda>ok.
       if \<not> ok then ret (- 1)
       else andthen (execv os (ascii ''sh'') [ascii ''sh'']) (\<lambda>_.
            andthen (unknown (os_writec os) argv (ascii ''sh'')) (\<lambda>_. ret (- 1))))))"

section \<open>echo, cat and cap\<close>

definition ECHO_N :: cint where "ECHO_N = 0x01"

text \<open>The argument is the format.\<close>

primrec echo_args :: "'w os \<Rightarrow> byte list list \<Rightarrow> ('w, unit) prog" where
  "echo_args os [] = ret ()"
| "echo_args os (a # as) =
     andthen (mfprintf (os_writec os) 1 a []) (\<lambda>_.
     andthen (mfputc (os_writec os) 1 0x20) (\<lambda>_. echo_args os as))"

definition echo :: "nat \<Rightarrow> 'w os \<Rightarrow> byte list list \<Rightarrow> ('w, cint) prog" where
  "echo n os argv =
     andthen (new_getopt os) (\<lambda>(p, g).
     andthen (opt_loop n os argv (ascii ''n'') (opt_flag os p 0x6E ECHO_N) g 0) (\<lambda>(opt, g').
     andthen (sys (os_pmfree os p)) (\<lambda>_.
     andthen (args_from argv (optind g')) (\<lambda>args.
     andthen (echo_args os args) (\<lambda>_.
     andthen (if opt AND ECHO_N = 0 then mfputc (os_writec os) 1 10 else ret ()) (\<lambda>_. ret 0))))))"

primrec docat :: "nat \<Rightarrow> 'w os \<Rightarrow> ('w, unit) prog" where
  "docat 0 os = unfinished"
| "docat (Suc n) os =
     andthen (mgetc os) (\<lambda>c. if c \<noteq> EOF then andthen (mfputc (os_writec os) 1 c) (\<lambda>_. docat n os) else ret ())"

definition capital :: "cint \<Rightarrow> cint" where
  "capital c = (if sint c \<ge> 0x61 \<and> sint c \<le> 0x7A then c - (0x61 - 0x41) else c)"

primrec docap :: "nat \<Rightarrow> 'w os \<Rightarrow> ('w, unit) prog" where
  "docap 0 os = unfinished"
| "docap (Suc n) os =
     andthen (mgetc os) (\<lambda>c.
       if c \<noteq> EOF then andthen (mfputc (os_writec os) 1 (capital c)) (\<lambda>_. docap n os) else ret ())"

text \<open>The loop over the file names, which \<^verbatim>\<open>cat\<close> and \<^verbatim>\<open>cap\<close> have with the one or the other body.\<close>

primrec each_file :: "'w os \<Rightarrow> ('w, unit) prog \<Rightarrow> byte list list \<Rightarrow> byte list list \<Rightarrow> ('w, cint) prog" where
  "each_file os body argv [] = ret 0"
| "each_file os body argv (name # names) =
     andthen (sys (os_close os 0)) (\<lambda>_.
     andthen (sys (os_open os name)) (\<lambda>fd.
       if cneg fd then andthen (unknown (os_writec os) argv (opened name)) (\<lambda>_. ret (- 1))
       else andthen body (\<lambda>_. each_file os body argv names)))"

definition cat :: "nat \<Rightarrow> 'w os \<Rightarrow> byte list list \<Rightarrow> ('w, cint) prog" where
  "cat n os argv =
     andthen (argp argv 1) (\<lambda>a.
       if a = None then andthen (docat n os) (\<lambda>_. ret 0) else each_file os (docat n os) argv (drop 1 argv))"

definition cap :: "nat \<Rightarrow> 'w os \<Rightarrow> byte list list \<Rightarrow> ('w, cint) prog" where
  "cap n os argv =
     andthen (argp argv 1) (\<lambda>a.
       if a = None then andthen (docap n os) (\<lambda>_. ret 0) else each_file os (docap n os) argv (drop 1 argv))"

section \<open>sleep and repeat\<close>

definition sleep :: "'w os \<Rightarrow> byte list list \<Rightarrow> ('w, cint) prog" where
  "sleep os argv =
     (if sint (nargs argv) < 2 then andthen (noargs (os_writec os) argv) (\<lambda>_. ret (- 1))
      else andthen (lift (at argv 1)) (\<lambda>a. andthen (lift (atoi a)) (\<lambda>secs. andthen (sys (os_delay os (secs * 30))) (\<lambda>_. ret 0))))"

definition do_repeat :: "'w os \<Rightarrow> byte list list \<Rightarrow> ('w, cint) prog" where
  "do_repeat os argv =
     andthen (lift (at argv 2)) (\<lambda>name.
     andthen (execv os name (drop 2 argv)) (\<lambda>_.
     andthen (unknown (os_writec os) argv name) (\<lambda>_. ret (- 1))))"

primrec repeat_loop :: "nat \<Rightarrow> 'w os \<Rightarrow> byte list list \<Rightarrow> cint \<Rightarrow> cint \<Rightarrow> ('w, unit) prog" where
  "repeat_loop 0 os argv n i = unfinished"
| "repeat_loop (Suc k) os argv n i =
     (if i \<noteq> n
      then andthen (sys (os_spawntask os Do_repeat 160 argv)) (\<lambda>_.
           andthen (sys (os_wait os)) (\<lambda>(_, rc). if rc \<noteq> 0 then ret () else repeat_loop k os argv n (i + 1)))
      else ret ())"

definition repeat :: "nat \<Rightarrow> 'w os \<Rightarrow> byte list list \<Rightarrow> ('w, cint) prog" where
  "repeat k os argv =
     (if sint (nargs argv) < 3 then andthen (noargs (os_writec os) argv) (\<lambda>_. ret (- 1))
      else andthen (lift (at argv 1)) (\<lambda>a.
           andthen (lift (atoi a)) (\<lambda>n. andthen (repeat_loop k os argv n 0) (\<lambda>_. ret 0))))"

section \<open>xargs\<close>

text \<open>A pointer of the new argument vector points to an argument of \<^verbatim>\<open>xargs\<close> or into the buffer.\<close>

datatype xptr = ArgvP "byte list" | BufP nat

record xargs_st =
  x_args :: "xptr option list"
  x_ac :: nat
  x_buf :: "byte list"
  x_i :: nat
  x_lastwrd :: "nat option"

primrec xargs_copy :: "byte list list \<Rightarrow> xargs_st \<Rightarrow> xargs_st option" where
  "xargs_copy [] st = Some st"
| "xargs_copy (a # as) st = do {
     args \<leftarrow> put (x_ac st) (Some (ArgvP a)) (x_args st);
     xargs_copy as (st\<lparr>x_args := args, x_ac := x_ac st + 1\<rparr>)
   }"

definition xargs_char :: "cint \<Rightarrow> xargs_st \<Rightarrow> xargs_st option" where
  "xargs_char c st =
     (if c = 0x20 \<or> c = 9 \<or> c = 10 \<or> c = 13 \<or> c = EOF
      then case x_lastwrd st of
             None \<Rightarrow> Some st
           | Some p \<Rightarrow> do {
               args \<leftarrow> put (x_ac st) (Some (BufP p)) (x_args st);
               buf \<leftarrow> put (x_i st) 0 (x_buf st);
               Some (st\<lparr>x_args := args, x_ac := x_ac st + 1, x_lastwrd := None, x_buf := buf, x_i := x_i st + 1\<rparr>)
             }
      else do {
        buf \<leftarrow> put (x_i st) (ucast c) (x_buf st);
        Some (st\<lparr>x_lastwrd := (if x_lastwrd st = None then Some (x_i st) else x_lastwrd st),
          x_buf := buf, x_i := x_i st + 1\<rparr>)
      })"

primrec xargs_loop :: "nat \<Rightarrow> 'w os \<Rightarrow> xargs_st \<Rightarrow> ('w, xargs_st) prog" where
  "xargs_loop 0 os st = unfinished"
| "xargs_loop (Suc n) os st =
     andthen (mgetc os) (\<lambda>c.
     andthen (lift (xargs_char c st)) (\<lambda>st'. if c \<noteq> EOF then xargs_loop n os st' else ret st'))"

text \<open>The strings that a null-terminated vector of pointers stands for.\<close>

primrec xptr_str :: "byte list \<Rightarrow> xptr \<Rightarrow> byte list option" where
  "xptr_str buf (ArgvP s) = Some s"
| "xptr_str buf (BufP p) = (if 0 \<in> set (drop p buf) then Some (cstr buf p) else None)"

fun xargs_argv :: "byte list \<Rightarrow> xptr option list \<Rightarrow> byte list list option" where
  "xargs_argv buf [] = None"
| "xargs_argv buf (None # ps) = Some []"
| "xargs_argv buf (Some p # ps) = do { s \<leftarrow> xptr_str buf p; as \<leftarrow> xargs_argv buf ps; Some (s # as) }"

definition xargs :: "nat \<Rightarrow> 'w os \<Rightarrow> byte list list \<Rightarrow> ('w, cint) prog" where
  "xargs n os argv =
     (if sint (nargs argv) < 2 then andthen (noargs (os_writec os) argv) (\<lambda>_. ret (- 1))
      else andthen (sys (os_pmmalloc os 256)) (\<lambda>(p, buf).
           andthen (lift (xargs_copy (drop 1 argv) \<lparr>x_args = replicate 16 None, x_ac = 0,
             x_buf = (if p = NULL then [] else buf), x_i = 0, x_lastwrd = None\<rparr>)) (\<lambda>st.
           andthen (xargs_loop n os st) (\<lambda>st'.
           andthen (lift (xargs_argv (x_buf st') (x_args st'))) (\<lambda>args.
           andthen (lift (at args 0)) (\<lambda>name.
           andthen (execv os name args) (\<lambda>_.
           andthen (lift (at argv 1)) (\<lambda>a.
           andthen (unknown (os_writec os) argv a) (\<lambda>_.
           andthen (sys (os_pmfree os p)) (\<lambda>_. ret (- 1)))))))))))"

section \<open>uptime and stat\<close>

definition pr_uptime :: "nat \<Rightarrow> 'w os \<Rightarrow> byte list list \<Rightarrow> ('w, cint) prog" where
  "pr_uptime n os argv =
     andthen (new_getopt os) (\<lambda>(p, g).
     andthen (opt_loop n os argv (ascii ''s'') (opt_flag os p 0x73 1) g 0) (\<lambda>(opt, _).
     andthen (sys (os_pmfree os p)) (\<lambda>_.
     andthen (sys (os_getuptime os)) (\<lambda>ut.
     andthen (if opt \<noteq> 0
              then mfputu (os_writec os) 1 (scast (t_sec ut) + scast (t_min ut) * 60 + scast (t_hour ut) * 3600)
              else mfprintf (os_writec os) 1 (ascii ''%d:%d:%d'') [VInt (scast (t_hour ut)), VInt (scast (t_min ut)), VInt (scast (t_sec ut))]) (\<lambda>_.
     andthen (mfputc (os_writec os) 1 10) (\<lambda>_. ret 0))))))"

primrec stat_files :: "'w os \<Rightarrow> byte list list \<Rightarrow> byte list list \<Rightarrow> ('w, cint) prog" where
  "stat_files os argv [] = ret 0"
| "stat_files os argv (a # as) =
     andthen (sys (os_fstat os a)) (\<lambda>(code, st).
       if cneg code then andthen (unknown (os_writec os) argv a) (\<lambda>_. ret (- 1))
       else andthen (mfprintf (os_writec os) 1
              (ascii ''%s:'' @ [10] @ ascii '' ino:%x'' @ [10] @ ascii '' dev:%x'' @ [10] @ ascii '' size:%d'' @ [10])
              [VStr a, VInt (st_ino st), VInt (st_dev st), VInt (st_size st)]) (\<lambda>_.
            stat_files os argv as))"

definition f_stat :: "'w os \<Rightarrow> byte list list \<Rightarrow> ('w, cint) prog" where
  "f_stat os argv =
     (if sint (nargs argv) < 2 then andthen (noargs (os_writec os) argv) (\<lambda>_. ret (- 1))
      else stat_files os argv (drop 1 argv))"

section \<open>grep\<close>

definition GREP_INV :: cint where "GREP_INV = 0x01"

fun strstr :: "byte list \<Rightarrow> byte list \<Rightarrow> bool" where
  "strstr [] re = (re = [])"
| "strstr (x # xs) re = (take (length re) (x # xs) = re \<or> strstr xs re)"

text \<open>The string at the start of a buffer; without a null character it goes on behind the buffer.\<close>

definition buf_str :: "byte list \<Rightarrow> byte list option" where
  "buf_str buf = (if 0 \<in> set buf then Some (cstr buf 0) else None)"

primrec grep_line :: "nat \<Rightarrow> 'w os \<Rightarrow> nat \<Rightarrow> byte list \<Rightarrow> ('w, cint \<times> nat \<times> byte list) prog" where
  "grep_line 0 os pos line = unfinished"
| "grep_line (Suc n) os pos line =
     andthen (mgetc os) (\<lambda>c.
       if c = EOF then ret (c, pos, line)
       else andthen (lift (put pos (ucast c) line)) (\<lambda>line'.
         if c = 10 \<or> c = 13 then andthen (lift (put pos 0 line')) (\<lambda>line''. ret (c, pos, line''))
         else grep_line n os (pos + 1) line'))"

text \<open>What is done with a line, and the new exit code.\<close>

definition grep_check :: "'w os \<Rightarrow> byte list \<Rightarrow> cint \<Rightarrow> cint \<Rightarrow> nat \<Rightarrow> byte list \<Rightarrow> ('w, cint) prog" where
  "grep_check os regexp opt rc pos line =
     (if pos \<noteq> 0
      then andthen (lift (buf_str line)) (\<lambda>s.
           andthen (if (if opt AND GREP_INV \<noteq> 0 then \<not> strstr s regexp else strstr s regexp)
                    then mfprintf (os_writec os) 1 (ascii ''%s'' @ [10]) [VStr s] else ret ())
             (\<lambda>_. ret (if strstr s regexp then 0 else rc)))
      else ret rc)"

primrec dogrep :: "nat \<Rightarrow> 'w os \<Rightarrow> byte list \<Rightarrow> cint \<Rightarrow> cint \<Rightarrow> cint \<Rightarrow> ('w, cint) prog" where
  "dogrep 0 os regexp opt c rc = unfinished"
| "dogrep (Suc n) os regexp opt c rc =
     (if c \<noteq> EOF
      then andthen (sys (os_pmmalloc os 128)) (\<lambda>(p, buf).
           andthen (grep_line n os 0 (if p = NULL then [] else buf)) (\<lambda>(c', pos, line).
           andthen (grep_check os regexp opt rc pos line) (\<lambda>rc'.
           andthen (sys (os_pmfree os p)) (\<lambda>_. dogrep n os regexp opt c' rc'))))
      else ret rc)"

primrec grep_files :: "nat \<Rightarrow> 'w os \<Rightarrow> byte list list \<Rightarrow> byte list \<Rightarrow> cint \<Rightarrow> cint \<Rightarrow> byte list list \<Rightarrow> ('w, cint) prog" where
  "grep_files n os argv regexp opt c [] = ret c"
| "grep_files n os argv regexp opt c (name # names) =
     andthen (sys (os_close os 0)) (\<lambda>_.
     andthen (sys (os_open os name)) (\<lambda>fd.
       if cneg fd then andthen (unknown (os_writec os) argv (opened name)) (\<lambda>_. ret (- 1))
       else andthen (dogrep n os regexp opt 0 1) (\<lambda>rc. grep_files n os argv regexp opt (if rc = 0 then 0 else c) names)))"

definition grep :: "nat \<Rightarrow> 'w os \<Rightarrow> byte list list \<Rightarrow> ('w, cint) prog" where
  "grep n os argv =
     andthen (new_getopt os) (\<lambda>(p, g).
     andthen (opt_loop n os argv (ascii ''v'') (opt_flag os p 0x76 GREP_INV) g 0) (\<lambda>(opt, g').
     andthen (sys (os_pmfree os p)) (\<lambda>_.
     andthen (args_from argv (optind g')) (\<lambda>args.
       case args of
         [] \<Rightarrow> andthen (noargs (os_writec os) argv) (\<lambda>_. ret (- 1))
       | regexp # names \<Rightarrow>
           if names = [] then dogrep n os regexp opt 0 1
           else grep_files n os argv regexp opt 1 names))))"

section \<open>mknod and fsdebug\<close>

definition f_mknod :: "'w os \<Rightarrow> byte list list \<Rightarrow> ('w, cint) prog" where
  "f_mknod os argv =
     (if sint (nargs argv) < 2 then andthen (noargs (os_writec os) argv) (\<lambda>_. ret (- 1))
      else andthen (lift (at argv 1)) (\<lambda>a.
           andthen (lift (atoi a)) (\<lambda>dev.
           andthen (sys (os_mknod os dev None)) (\<lambda>inum.
           andthen (mfprintf (os_writec os) 1 (ascii '' %d/%d'' @ [10]) [VInt dev, VInt inum]) (\<lambda>_. ret 0)))))"

definition fs_debug :: "nat \<Rightarrow> 'w os \<Rightarrow> byte list list \<Rightarrow> ('w, cint) prog" where
  "fs_debug n os argv =
     andthen (new_getopt os) (\<lambda>(p, g).
     andthen (opt_loop n os argv (ascii ''r'') (opt_flag os p 0x72 1) g 0) (\<lambda>(opt, _).
     andthen (sys (os_pmfree os p)) (\<lambda>_.
     andthen (sys (os_debugn os 0)) (\<lambda>c.
     andthen (mfprintf (os_writec os) 1 (ascii '' vfs debugn:%d'') [VInt c]) (\<lambda>_.
     andthen (if opt \<noteq> 0
              then andthen (sys (os_debugn os 1)) (\<lambda>_.
                   andthen (sys (os_debugn os 0)) (\<lambda>c'.
                   mfprintf (os_writec os) 1 (ascii '' -> %d'') [VInt c']))
              else ret ()) (\<lambda>_.
     andthen (mfprintf (os_writec os) 1 [10] []) (\<lambda>_. ret 0)))))))"

section \<open>init\<close>

record session =
  s_name :: "byte list"
  s_arg :: "byte list"
  s_pid :: pid_t

definition launchsession :: "'w os \<Rightarrow> byte list list \<Rightarrow> ('w, cint) prog" where
  "launchsession os argv = andthen (lift (at argv 0)) (\<lambda>name. andthen (execv os name argv) (\<lambda>_. ret 1))"

text \<open>The first loop starts the sessions that have no process, the second one finds the process that ended.\<close>

primrec init_spawn :: "'w os \<Rightarrow> session list \<Rightarrow> ('w, session list) prog" where
  "init_spawn os [] = ret []"
| "init_spawn os (s # ss) =
     andthen (if s_pid s = NULL
              then andthen (sys (os_spawntask os Launchsession 160 [s_name s, s_arg s])) (\<lambda>pid. ret (s\<lparr>s_pid := pid\<rparr>))
              else ret s) (\<lambda>s'.
     andthen (init_spawn os ss) (\<lambda>ss'. ret (s' # ss')))"

primrec init_reap :: "pid_t \<Rightarrow> session list \<Rightarrow> session list" where
  "init_reap pid [] = []"
| "init_reap pid (s # ss) = (if s_pid s = pid then s\<lparr>s_pid := NULL\<rparr> # ss else s # init_reap pid ss)"

definition init_turn :: "'w os \<Rightarrow> session list \<Rightarrow> ('w, session list) prog" where
  "init_turn os ss =
     andthen (init_spawn os ss) (\<lambda>ss'. andthen (sys (os_wait os)) (\<lambda>(pid, _). ret (init_reap pid ss')))"

primrec init_loop :: "nat \<Rightarrow> 'w os \<Rightarrow> session list \<Rightarrow> ('w, session list) prog" where
  "init_loop 0 os ss = unfinished"
| "init_loop (Suc n) os ss = andthen (init_turn os ss) (\<lambda>ss'. init_loop n os ss')"

definition init_sessions :: "session list" where
  "init_sessions = [\<lparr>s_name = ascii ''getty'', s_arg = ascii ''2/0'', s_pid = NULL\<rparr>]"

definition init :: "nat \<Rightarrow> 'w os \<Rightarrow> ('w, session list) prog" where
  "init n os = init_loop n os init_sessions"

end
