(* ===== verification/Apps_Props.thy ===== *)
theory Apps_Props
  imports Apps
begin

unbundle bit_operations_syntax

text \<open>
  What the programs do, for every world that keeps the contract of the standard input and output:
  copying, searching, and building command lines.
\<close>

section \<open>Copying\<close>

definition upper :: "byte \<Rightarrow> byte" where
  "upper c = (if 0x61 \<le> c \<and> c \<le> 0x7A then c - 0x20 else c)"

lemma capital_scast: "capital (scast c) = scast (upper c)"
proof -
  have s: "sint (scast c :: cint) = sint c" by (simp add: sint_up_scast is_up)
  define k where "k = unat c"
  have k: "k < 256" "sint c = (if k < 128 then int k else int k - 256)" "0x61 \<le> c \<longleftrightarrow> 0x61 \<le> k" "c \<le> 0x7A \<longleftrightarrow> k \<le> 0x7A"
    using unsigned_less [of c, where 'a = nat] by (simp_all only: sint8 k_def) (simp_all add: word_le_nat_alt)
  have u: "0x61 \<le> sint c \<and> sint c \<le> 0x7A \<longleftrightarrow> 0x61 \<le> c \<and> c \<le> 0x7A" using k by auto
  have "scast c - 0x20 = (scast (c - 0x20) :: cint)" if "0x61 \<le> c" "c \<le> 0x7A"
  proof -
    have "unat (c - 0x20) = k - 32" using that by (simp add: word_le_nat_alt unat_sub k_def)
    then have "sint (c - 0x20) = (if k - 32 < 128 then int (k - 32) else int (k - 32) - 256)" by (simp only: sint8)
    then have "sint (c - 0x20) = sint c - 32" using that k by (auto simp del: word_le_def)
    then have "word_of_int (sint (c - 0x20)) = (word_of_int (sint c) - 0x20 :: cint)" by simp
    then show ?thesis by (simp only: scast_eq)
  qed
  then show ?thesis using s u by (auto simp: capital_def upper_def)
qed

lemma scast_eq_iff: "(scast (c :: byte) :: cint) = scast d \<longleftrightarrow> c = d"
  by (metis scast_back)

lemma upper_eof: "upper c = 0xFF \<longleftrightarrow> c = 0xFF"
proof -
  have "c - 0x20 \<noteq> 0xFF" if "0x61 \<le> c"
  proof
    assume "c - 0x20 = 0xFF"
    then have "c = 0xFF + 0x20" by (metis diff_add_cancel)
    with that show False by simp
  qed
  then show ?thesis by (auto simp: upper_def)
qed

text \<open>The loop of \<^verbatim>\<open>docat\<close> and \<^verbatim>\<open>docap\<close>.\<close>

primrec copy_loop :: "(cint \<Rightarrow> cint) \<Rightarrow> nat \<Rightarrow> 'w os \<Rightarrow> ('w, unit) prog" where
  "copy_loop f 0 os = unfinished"
| "copy_loop f (Suc n) os =
     andthen (mgetc os) (\<lambda>c. if c \<noteq> EOF then andthen (mfputc (os_writec os) 1 (f c)) (\<lambda>_. copy_loop f n os) else ret ())"

lemma docat_copy: "docat n os = copy_loop id n os"
  by (induction n) (simp_all cong: if_cong)

lemma docap_copy: "docap n os = copy_loop capital n os"
  by (induction n) (simp_all cong: if_cong)

context stdio
begin

lemma copies:
  assumes "ready (k + length (inp w)) w" "length (inp w) < n"
    and f: "\<And>c. f (scast c) = scast (g c)" "\<And>c. g c = 0xFF \<longleftrightarrow> c = 0xFF"
  obtains w' where "runs (copy_loop f n os) w () w'" "inp w' = []" "out w' = out w @ map g (inp w)" "others w' = others w" "ready k w'"
  using assms(1,2)
proof (induction n arbitrary: w thesis)
  case (Suc n)
  show ?case
  proof (cases "inp w")
    case Nil
    obtain w' where "runs (mgetc os) w EOF w'" "inp w' = []" "out w' = out w" "others w' = others w" "ready k w'"
      using Suc.prems(2) Nil by (auto elim: getc_end)
    then show ?thesis using Nil by (intro Suc.prems(1) [of w']) (auto simp: runs_andthen_iff)
  next
    case (Cons c cs)
    obtain u where u: "runs (mgetc os) w (scast c) u" "inp u = cs" "out u = out w" "others u = others w"
        "ready (Suc (k + length cs)) u" "scast c \<noteq> EOF"
      using Suc.prems(2) Cons by (auto elim: getc_char)
    have ne: "f (scast c) \<noteq> EOF" using u(6) f by (simp add: scast_EOF)
    obtain v where v: "runs (mfputc (os_writec os) 1 (f (scast c))) u () v" "inp v = cs" "out v = out w @ [g c]" "others v = others w"
        "ready (k + length cs) v"
      using putc [OF u(5) ne] u(2-4) f(1) by (auto simp: scast_back)
    obtain w' where w': "runs (copy_loop f n os) v () w'" "inp w' = []" "out w' = out v @ map g cs" "others w' = others v" "ready k w'"
      using Suc.IH [of v] Suc.prems(3) v(2,5) Cons by auto
    have "runs (copy_loop f (Suc n) os) w () w'" using u(1,6) v(1) w'(1) by (auto simp: runs_andthen_iff)
    then show ?thesis using w' v(3,4) Cons by (intro Suc.prems(1) [of w']) auto
  qed
qed simp

lemma wait_enter_line:
  assumes "ready k w" "inp w = line @ c # rest" "c = 10 \<or> c = 13" "10 \<notin> set line" "13 \<notin> set line" "length line < n"
  obtains w' where "runs (wait_enter n os) w True w'" "inp w' = rest" "out w' = out w" "others w' = others w" "ready k w'"
  using assms(1,2,4-6)
proof (induction n arbitrary: w line thesis)
  case (Suc n)
  show ?case
  proof (cases line)
    case Nil
    have "inp w = c # rest" using Suc.prems(3) Nil by simp
    then obtain w' where w': "runs (mgetc os) w (scast c) w'" "inp w' = rest" "out w' = out w" "others w' = others w" "ready k w'" "scast c \<noteq> EOF"
      by (rule getc_char [OF Suc.prems(2)])
    moreover have "(scast c :: cint) = 10 \<or> (scast c :: cint) = 13" using assms(3) by auto
    ultimately have "runs (wait_enter (Suc n) os) w True w'" unfolding wait_enter.simps by (intro runs_andthen [OF w'(1)]) auto
    then show ?thesis using w' by (intro Suc.prems(1) [of w'])
  next
    case (Cons d ds)
    have "inp w = d # ds @ c # rest" using Suc.prems(3) Cons by simp
    then obtain u where u: "runs (mgetc os) w (scast d) u" "inp u = ds @ c # rest" "out u = out w" "others u = others w" "ready k u" "scast d \<noteq> EOF"
      by (rule getc_char [OF Suc.prems(2)])
    obtain w' where w': "runs (wait_enter n os) u True w'" "inp w' = rest" "out w' = out u" "others w' = others u" "ready k w'"
      using Suc.IH [OF _ u(5,2)] Suc.prems(4-6) Cons by auto
    have "(scast d :: cint) \<noteq> 10 \<and> (scast d :: cint) \<noteq> 13"
      using Suc.prems(4,5) Cons scast_eq_iff [of d 10] scast_eq_iff [of d 13] by auto
    then have "runs (wait_enter (Suc n) os) w True w'" using u w'(1) by (auto simp: runs_andthen_iff)
    then show ?thesis using w' u by (intro Suc.prems(1) [of w']) auto
  qed
qed simp

end

text \<open>
  The programs with a list of files need to open them: closing and opening the standard input gives
  the content of the file, and the other files stay as they are.
\<close>

locale stdio_files = stdio os inp out content ready
  for os :: "'w os" and inp out :: "'w \<Rightarrow> byte list" and content :: "'w \<Rightarrow> byte list \<Rightarrow> byte list option"
    and ready :: "nat \<Rightarrow> 'w \<Rightarrow> bool" +
  assumes reopen: "ready n w \<Longrightarrow> content w name = Some bs \<Longrightarrow>
      \<exists>u w'. os_close os 0 w = Some ((), u) \<and> os_open os name u = Some (0, w') \<and> inp w' = bs \<and> out w' = out w \<and>
        content w' = content w \<and> ready n w'"
begin

lemma each_file_copies:
  assumes "list_all2 (\<lambda>name bs. content w name = Some bs \<and> length bs < n) names bss" "ready (k + length (concat bss)) w"
    and f: "\<And>c. f (scast c) = scast (g c)" "\<And>c. g c = 0xFF \<longleftrightarrow> c = 0xFF"
  obtains w' where "runs (each_file os (copy_loop f n os) argv names) w 0 w'" "out w' = out w @ map g (concat bss)" "ready k w'"
  using assms(1,2)
proof (induction names arbitrary: w bss thesis)
  case (Cons name names)
  obtain bs bss' where bss: "bss = bs # bss'" "content w name = Some bs" "length bs < n"
      "list_all2 (\<lambda>name bs. content w name = Some bs \<and> length bs < n) names bss'"
    using Cons.prems(2) by (auto simp: list_all2_Cons1)
  obtain u v where r: "os_close os 0 w = Some ((), u)" "os_open os name u = Some (0, v)" "inp v = bs" "out v = out w"
      "content v = content w" "ready (k + length (concat bss') + length bs) v"
    using reopen [OF Cons.prems(3) bss(2)] bss(1) by (auto simp: ac_simps)
  obtain x where x: "runs (copy_loop f n os) v () x" "out x = out w @ map g bs" "content x = content w" "ready (k + length (concat bss')) x"
    by (rule copies [of "k + length (concat bss')" v n f g]) (use r f bss(3) in auto)
  obtain w' where w': "runs (each_file os (copy_loop f n os) argv names) x 0 w'" "out w' = out x @ map g (concat bss')" "ready k w'"
    using Cons.IH [OF _ _ x(4)] bss(4) x(3) by auto
  have "runs (each_file os (copy_loop f n os) argv (name # names)) w 0 w'"
    using r(1,2) x(1) w'(1) by (auto simp: runs_andthen_iff)
  then show ?case using w' x(2) bss(1) by (intro Cons.prems(1) [of w']) auto
qed simp

end

section \<open>Searching\<close>

lemma strstr_sublist: "strstr s re \<longleftrightarrow> (\<exists>a b. s = a @ re @ b)"
proof (induction s re rule: strstr.induct)
  case (2 x xs re)
  have "take (length re) (x # xs) = re \<longleftrightarrow> (\<exists>b. x # xs = re @ b)" by (metis append_eq_conv_conj append_take_drop_id)
  moreover have "(\<exists>a b. x # xs = a @ re @ b) \<longleftrightarrow> (\<exists>b. x # xs = re @ b) \<or> (\<exists>a b. xs = a @ re @ b)"
    by (metis append_Cons append_Nil list.inject neq_Nil_conv)
  ultimately show ?case using 2 by simp
qed simp

text \<open>The programs that use memory of their own need it to be there: blocks of the three sizes that they ask for.\<close>

locale stdio_mem = stdio os inp out others ready
  for os :: "'w os" and inp out :: "'w \<Rightarrow> byte list" and others :: "'w \<Rightarrow> 'r" and ready :: "nat \<Rightarrow> 'w \<Rightarrow> bool" +
  assumes malloc: "ready n w \<Longrightarrow> k \<in> {6, 128, 256} \<Longrightarrow> \<exists>p buf w'. os_pmmalloc os k w = Some ((p, buf), w') \<and> p \<noteq> NULL \<and> length buf = unat k \<and>
      inp w' = inp w \<and> out w' = out w \<and> others w' = others w \<and> ready n w'"
    and free: "ready n w \<Longrightarrow> \<exists>w'. os_pmfree os p w = Some ((), w') \<and>
      inp w' = inp w \<and> out w' = out w \<and> others w' = others w \<and> ready n w'"

context stdio
begin

lemma grep_line_reads:
  assumes "ready k w" "inp w = line @ c # rest" "c = 10 \<or> c = 13" "10 \<notin> set line" "13 \<notin> set line"
    "length line < n" "pos + length line < length buf"
  obtains w' buf' where "runs (grep_line n os pos buf) w (scast c, pos + length line, buf') w'" "length buf' = length buf"
    "take (pos + length line + 1) buf' = take pos buf @ line @ [0]"
    "inp w' = rest" "out w' = out w" "others w' = others w" "ready k w'"
  using assms(1,2,4-7)
proof (induction n arbitrary: w line pos buf thesis)
  case (Suc n)
  show ?case
  proof (cases line)
    case Nil
    have "inp w = c # rest" using Suc.prems(3) Nil by simp
    then obtain w' where w': "runs (mgetc os) w (scast c) w'" "inp w' = rest" "out w' = out w" "others w' = others w" "ready k w'" "scast c \<noteq> EOF"
      by (rule getc_char [OF Suc.prems(2)])
    have e: "(scast c :: cint) = 10 \<or> (scast c :: cint) = 13" using assms(3) by auto
    have p: "pos < length buf" using Suc.prems(7) by simp
    have "runs (grep_line (Suc n) os pos buf) w (scast c, pos + length line, buf[pos := 0]) w'"
      unfolding grep_line.simps using w'(6) e p Nil by (intro runs_andthen [OF w'(1)]) simp
    then show ?thesis using w' p Nil by (intro Suc.prems(1) [of "buf[pos := 0]" w']) (simp_all add: take_Suc_conv_app_nth)
  next
    case (Cons d ds)
    have "inp w = d # ds @ c # rest" using Suc.prems(3) Cons by simp
    then obtain u where u: "runs (mgetc os) w (scast d) u" "inp u = ds @ c # rest" "out u = out w" "others u = others w" "ready k u" "scast d \<noteq> EOF"
      by (rule getc_char [OF Suc.prems(2)])
    have p: "pos < length buf" using Suc.prems(7) by simp
    obtain w' buf' where w': "runs (grep_line n os (pos + 1) (buf[pos := d])) u (scast c, pos + 1 + length ds, buf') w'" "length buf' = length buf"
        "take (pos + 1 + length ds + 1) buf' = take (pos + 1) (buf[pos := d]) @ ds @ [0]"
        "inp w' = rest" "out w' = out u" "others w' = others u" "ready k w'"
      by (rule Suc.IH [OF _ u(5,2), of "pos + 1" "buf[pos := d]"]) (use Suc.prems(4-7) Cons in auto)
    have "(scast d :: cint) \<noteq> 10 \<and> (scast d :: cint) \<noteq> 13"
      using Suc.prems(4,5) Cons scast_eq_iff [of d 10] scast_eq_iff [of d 13] by auto
    then have "runs (grep_line (Suc n) os pos buf) w (scast c, pos + length line, buf') w'"
      unfolding grep_line.simps using u(6) p w'(1) Cons by (intro runs_andthen [OF u(1)]) (simp add: scast_back)
    then show ?thesis using w' u p Cons by (intro Suc.prems(1) [of buf' w']) (simp_all add: take_Suc_conv_app_nth)
  qed
qed simp

end

text \<open>What \<^verbatim>\<open>grep\<close> prints and returns for the lines of its input.\<close>

definition selected :: "byte list \<Rightarrow> cint \<Rightarrow> byte list \<Rightarrow> bool" where
  "selected re opt line \<longleftrightarrow> line \<noteq> [] \<and> (if opt AND GREP_INV \<noteq> 0 then \<not> strstr line re else strstr line re)"

definition unlines :: "byte list list \<Rightarrow> byte list" where
  "unlines ls = concat (map (\<lambda>l. l @ [10]) ls)"

definition text_line :: "byte list \<Rightarrow> bool" where
  "text_line l \<longleftrightarrow> length l < 128 \<and> 0 \<notin> set l \<and> 10 \<notin> set l \<and> 13 \<notin> set l"

lemma unlines_simps [simp]: "unlines [] = []" "unlines (l # ls) = l @ 10 # unlines ls"
  by (simp_all add: unlines_def)

lemma mfprintf_line: "mfprintf wr fd (ascii ''%s'' @ [10]) [VStr s] = emit wr fd (map scast s @ [10])"
  by (simp add: conversion_def puts_emit emit_append)

lemma buf_str_line:
  assumes "take (length l + 1) buf = l @ [0]" "0 \<notin> set l"
  shows "buf_str buf = Some l"
proof -
  obtain rest where b: "buf = l @ 0 # rest" by (metis append_Cons append_Nil append_assoc append_take_drop_id assms(1))
  have "\<forall>c \<in> set l. c \<noteq> 0" using assms(2) by metis
  then have "takeWhile (\<lambda>c. c \<noteq> 0) buf = l" unfolding b by (simp add: takeWhile_append2)
  moreover have "0 \<in> set buf" unfolding b by simp
  ultimately show ?thesis by (simp add: buf_str_def cstr_def)
qed

context stdio_mem
begin

lemma malloc_runs:
  fixes k :: cint
  assumes "ready n w" "k \<in> {6, 128, 256}"
  obtains p buf w' where "runs (sys (os_pmmalloc os k)) w (p, buf) w'" "p \<noteq> NULL" "length buf = unat k"
    "inp w' = inp w" "out w' = out w" "others w' = others w" "ready n w'"
  using malloc [OF assms] by auto

lemma free_runs:
  assumes "ready n w"
  obtains w' where "runs (sys (os_pmfree os p)) w () w'" "inp w' = inp w" "out w' = out w" "others w' = others w" "ready n w'"
  using free [OF assms, of p] by auto

text \<open>One turn of \<^verbatim>\<open>dogrep\<close> for a line.\<close>

lemma print_selected:
  assumes "ready (k + (if selected re opt l then length l + 1 else 0)) w" "l \<noteq> []" "0xFF \<notin> set l"
  obtains w' where "runs (if (if opt AND GREP_INV \<noteq> 0 then \<not> strstr l re else strstr l re)
      then mfprintf (os_writec os) 1 (ascii ''%s'' @ [10]) [VStr l] else ret ()) w () w'"
    "inp w' = inp w" "out w' = out w @ (if selected re opt l then l @ [10] else [])" "others w' = others w" "ready k w'"
proof (cases "selected re opt l")
  case True
  define ds :: "cint list" where "ds = map scast l @ [10]"
  have "EOF \<notin> set (map scast l)" using assms(3) scast_EOF by (metis imageE set_map)
  then have e: "EOF \<notin> set ds" by (auto simp: EOF_def ds_def)
  have "ready (k + length ds) w" using assms(1) True by (simp add: ds_def)
  from emits [OF this e] obtain w' where w': "runs (emit (os_writec os) 1 ds) w () w'" "inp w' = inp w"
      "out w' = out w @ map ucast ds" "others w' = others w" "ready k w'" .
  have "map ucast ds = l @ [10]" by (simp add: ds_def comp_def scast_back)
  then have out: "out w' = out w @ (if selected re opt l then l @ [10] else [])" using w'(3) True by simp
  have sel: "if opt AND GREP_INV \<noteq> 0 then \<not> strstr l re else strstr l re" using True by (simp add: selected_def)
  have "runs (if (if opt AND GREP_INV \<noteq> 0 then \<not> strstr l re else strstr l re)
      then mfprintf (os_writec os) 1 (ascii ''%s'' @ [10]) [VStr l] else ret ()) w () w'"
    unfolding if_P [OF sel] mfprintf_line using w'(1) by (simp only: ds_def)
  then show ?thesis by (rule that [OF _ w'(2) out w'(4,5)])
next
  case False
  then show ?thesis using assms that [of w] by (simp add: selected_def)
qed

lemma dogrep_turn:
  assumes "c \<noteq> EOF" "runs (sys (os_pmmalloc os 128)) w (p, buf) u" "p \<noteq> NULL" "runs (grep_line n os 0 buf) u (c', pos, line) v"
    "runs (grep_check os re opt rc pos line) v rc' x" "runs (sys (os_pmfree os p)) x () y" "runs (dogrep n os re opt c' rc') y r w'"
  shows "runs (dogrep (Suc n) os re opt c rc) w r w'"
  unfolding dogrep.simps if_P [OF assms(1)]
  by (rule runs_andthen [OF assms(2)]) (simp only: prod.case if_not_P [OF assms(3)], rule runs_andthen [OF assms(4)],
    simp only: prod.case, rule runs_andthen [OF assms(5)], rule runs_andthen [OF assms(6,7)])

lemma dogrep_end:
  assumes "ready k w" "inp w = []" "1 < n" "c \<noteq> EOF"
  obtains w' where "runs (dogrep n os re opt c rc) w rc w'" "inp w' = []" "out w' = out w" "others w' = others w" "ready k w'"
proof -
  obtain m where n: "n = Suc (Suc m)" using assms(3) by (auto dest!: less_imp_Suc_add)
  obtain p buf u where u: "runs (sys (os_pmmalloc os 128)) w (p, buf) u" "p \<noteq> NULL" "length buf = unat (128 :: cint)"
      "inp u = inp w" "out u = out w" "others u = others w" "ready k u"
    by (rule malloc_runs [OF assms(1), where k = 128]) simp
  obtain v where v: "runs (mgetc os) u EOF v" "inp v = []" "out v = out u" "others v = others u" "ready k v"
    by (rule getc_end [OF u(7,4) [unfolded assms(2)]])
  obtain w' where w': "runs (sys (os_pmfree os p)) v () w'" "inp w' = inp v" "out w' = out v" "others w' = others v" "ready k w'"
    by (rule free_runs [OF v(5)])
  have "runs (grep_line (Suc m) os 0 buf) u (EOF, 0, buf) v" unfolding grep_line.simps by (rule runs_andthen [OF v(1)]) simp
  then have "runs (dogrep n os re opt c rc) w rc w'" unfolding n
    by (rule dogrep_turn [OF assms(4) u(1,2) _ _ w'(1)]) (simp_all add: grep_check_def)
  then show thesis using w' u v by (intro that [of w']) auto
qed

lemma dogrep_lines:
  assumes "ready (k + length (unlines (filter (selected re opt) ls))) w" "inp w = unlines ls" "\<forall>l \<in> set ls. text_line l"
    "length (inp w) + 1 < n" "c \<noteq> EOF"
  obtains w' where "runs (dogrep n os re opt c rc) w (if \<exists>l \<in> set ls. l \<noteq> [] \<and> strstr l re then 0 else rc) w'"
    "inp w' = []" "out w' = out w @ unlines (filter (selected re opt) ls)" "others w' = others w" "ready k w'"
  using assms
proof (induction ls arbitrary: n w c rc thesis)
  case Nil
  have "ready k w" "inp w = []" "1 < n" using Nil.prems by simp_all
  from dogrep_end [OF this Nil.prems(6), of re opt rc] obtain w' where "runs (dogrep n os re opt c rc) w rc w'" "inp w' = []"
      "out w' = out w" "others w' = others w" "ready k w'" .
  then show ?case by (intro Nil.prems(1) [of w']) simp_all
next
  case (Cons l ls)
  obtain m where n: "n = Suc m" using Cons.prems(5) by (cases n) auto
  let ?k = "k + length (unlines (filter (selected re opt) ls))" and ?kl = "if selected re opt l then length l + 1 else 0"
  have l: "text_line l" and ls: "\<forall>l \<in> set ls. text_line l" using Cons.prems(4) by auto
  have k: "ready (?k + ?kl) w" using Cons.prems(2) by (simp add: ac_simps split: if_splits)
  obtain p buf u where u: "runs (sys (os_pmmalloc os 128)) w (p, buf) u" "p \<noteq> NULL" "length buf = unat (128 :: cint)"
      "inp u = inp w" "out u = out w" "others u = others w" "ready (?k + ?kl) u"
    by (rule malloc_runs [OF k, where k = 128]) simp
  have iu: "inp u = l @ 10 # unlines ls" using u(4) Cons.prems(3) by simp
  have ff: "0xFF \<notin> set l" using no_eof [OF u(7)] iu by simp
  obtain v buf' where v: "runs (grep_line m os 0 buf) u (scast (10 :: byte), 0 + length l, buf') v" "length buf' = length buf"
      "take (0 + length l + 1) buf' = take 0 buf @ l @ [0]" "inp v = unlines ls" "out v = out u" "others v = others u" "ready (?k + ?kl) v"
    by (rule grep_line_reads [OF u(7) iu, of m 0 buf]) (use l u(3) Cons.prems(3,5) n in \<open>auto simp: text_line_def\<close>)
  have bs: "buf_str buf' = Some l" using buf_str_line [of l buf'] v(3) l by (simp add: text_line_def)
  let ?rc = "if l \<noteq> [] \<and> strstr l re then 0 else rc"
  obtain x where x: "runs (grep_check os re opt rc (length l) buf') v ?rc x" "inp x = unlines ls"
      "out x = out w @ (if selected re opt l then l @ [10] else [])" "others x = others w" "ready ?k x"
  proof (cases "l = []")
    case True
    then show ?thesis using v u that [of v] by (simp add: grep_check_def selected_def)
  next
    case False
    from print_selected [OF v(7) False ff] obtain x where x: "runs (if (if opt AND GREP_INV \<noteq> 0 then \<not> strstr l re else strstr l re)
        then mfprintf (os_writec os) 1 (ascii ''%s'' @ [10]) [VStr l] else ret ()) v () x"
        "inp x = inp v" "out x = out v @ (if selected re opt l then l @ [10] else [])" "others x = others v" "ready ?k x" .
    have "runs (grep_check os re opt rc (length l) buf') v ?rc x"
      unfolding grep_check_def bs lift_simps prog_simps(1) using False by (simp only: length_0_conv if_True not_False_eq_True) (rule runs_andthen [OF x(1)], simp)
    then show ?thesis using x v u by (intro that [of x]) auto
  qed
  obtain y where y: "runs (sys (os_pmfree os p)) x () y" "inp y = inp x" "out y = out x" "others y = others x" "ready ?k y"
    by (rule free_runs [OF x(5)])
  have "inp y = unlines ls" "length (inp y) + 1 < m" "(scast (10 :: byte) :: cint) \<noteq> EOF"
    using y(2) x(2) Cons.prems(3,5) n by (auto simp: EOF_def)
  from Cons.IH [OF _ y(5) this(1) ls this(2,3)] obtain w' where w':
      "runs (dogrep m os re opt (scast (10 :: byte)) ?rc) y (if \<exists>l \<in> set ls. l \<noteq> [] \<and> strstr l re then 0 else ?rc) w'"
      "inp w' = []" "out w' = out y @ unlines (filter (selected re opt) ls)" "others w' = others y" "ready k w'" .
  have "runs (dogrep n os re opt c rc) w (if \<exists>l \<in> set ls. l \<noteq> [] \<and> strstr l re then 0 else ?rc) w'" unfolding n
    using dogrep_turn [OF Cons.prems(6) u(1,2) v(1) _ y(1) w'(1)] x(1) by simp
  then show ?case using w' y x by (intro Cons.prems(1) [of w']) (auto split: if_splits)
qed

end

section \<open>init\<close>

text \<open>
  \<^verbatim>\<open>init\<close> keeps its sessions running: a turn starts all sessions that have no process, and when it is over exactly
  the session whose process has ended, if there is one, has none.
\<close>

lemma init_spawn_runs:
  assumes "runs (init_spawn os ss) w ss' w'" "\<And>f k a u p v. os_spawntask os f k a u = Some (p, v) \<Longrightarrow> p \<noteq> NULL"
  shows "list_all2 (\<lambda>s s'. s_name s' = s_name s \<and> s_arg s' = s_arg s \<and> s_pid s' \<noteq> NULL \<and> (s_pid s \<noteq> NULL \<longrightarrow> s_pid s' = s_pid s)) ss ss'"
  using assms(1)
proof (induction ss arbitrary: w ss')
  case (Cons s ss)
  from Cons.prems obtain s1 ss1 u where r: "runs (init_spawn os ss) u ss1 w'" "ss' = s1 # ss1"
    "s_name s1 = s_name s \<and> s_arg s1 = s_arg s \<and> s_pid s1 \<noteq> NULL \<and> (s_pid s \<noteq> NULL \<longrightarrow> s_pid s1 = s_pid s)"
    by (auto simp: runs_andthen_iff split: if_splits dest: assms(2))
  then show ?case using Cons.IH by simp
qed simp

lemma init_reap_pids:
  "\<forall>s \<in> set ss. s_pid s \<noteq> NULL \<Longrightarrow> distinct (map s_pid ss) \<Longrightarrow>
   map s_pid (init_reap pid ss) = map (\<lambda>s. if s_pid s = pid then NULL else s_pid s) ss"
  by (induction ss) (auto, metis imageI)

lemma init_turn_restarts:
  assumes "runs (init_turn os ss) w ss' w'" "\<And>f k a u p v. os_spawntask os f k a u = Some (p, v) \<Longrightarrow> p \<noteq> NULL"
  obtains run pid u rc where "runs (init_spawn os ss) w run u" "os_wait os u = Some ((pid, rc), w')" "\<forall>s \<in> set run. s_pid s \<noteq> NULL"
    "distinct (map s_pid run) \<Longrightarrow> map s_pid ss' = map (\<lambda>s. if s_pid s = pid then NULL else s_pid s) run"
proof -
  from assms(1) obtain run pid u rc where r: "runs (init_spawn os ss) w run u" "os_wait os u = Some ((pid, rc), w')" "ss' = init_reap pid run"
    by (auto simp: init_turn_def runs_andthen_iff)
  have "\<forall>s \<in> set run. s_pid s \<noteq> NULL"
    using init_spawn_runs [OF r(1) assms(2)] by (auto simp: list_all2_conv_all_nth in_set_conv_nth)
  with r init_reap_pids show thesis by (intro that [of run u pid rc]) auto
qed

section \<open>login\<close>

context stdio
begin

text \<open>\<^verbatim>\<open>login\<close> asks for the enter key, waits for the end of a line and becomes the shell.\<close>

lemma login_becomes_shell:
  assumes "ready (k + length (name @ ascii '': Hit ENTER!'' @ [10])) w" "inp w = line @ c # rest" "c = 10 \<or> c = 13"
    "10 \<notin> set line" "13 \<notin> set line" "length line < n" "0xFF \<notin> set name"
    and exec: "\<And>u. ready k u \<Longrightarrow> \<exists>v. os_execv os (ascii ''sh'') [ascii ''sh''] u = Some (True, v)"
  shows "\<exists>v. stops (login n os [name]) w (Became (ascii ''sh'') [ascii ''sh'']) v"
proof -
  define ds :: "cint list" where "ds = map scast (name @ ascii '': Hit ENTER!'' @ [10])"
  have "EOF \<notin> set (map scast name)" using assms(7) scast_EOF by (metis imageE set_map)
  then have e: "EOF \<notin> set ds" by (auto simp: ds_def EOF_def)
  have r: "ready (k + length ds) w" using assms(1) by (simp add: ds_def)
  from emits [OF r e] obtain u where u: "runs (emit (os_writec os) 1 ds) w () u" "inp u = inp w" "ready k u" .
  have p: "mfprintf (os_writec os) 1 (ascii ''%s: Hit ENTER!'' @ [10]) [VStr name] = emit (os_writec os) 1 ds"
    by (simp add: conversion_def puts_emit emit_append ds_def)
  have a: "at [name] 0 = Some name" by (simp add: at_def idx_def)
  have "inp u = line @ c # rest" using u(2) assms(2) by simp
  from wait_enter_line [OF u(3) this assms(3-6)] obtain v where v: "runs (wait_enter n os) u True v" "ready k v" .
  obtain x where "os_execv os (ascii ''sh'') [ascii ''sh''] v = Some (True, x)" using exec [OF v(2)] by blast
  from stops_first [OF stops_execv [OF this]]
  have "stops (login n os [name]) w (Became (ascii ''sh'') [ascii ''sh'']) x"
    unfolding login_def a lift_simps prog_simps p
    by (intro stops_andthen [OF u(1)] stops_andthen [OF v(1)]) (simp only: not_True_eq_False if_False)
  then show ?thesis by blast
qed

end

end
