(* ===== verification/Vfs_World.thy ===== *)
theory Vfs_World
  imports Apps_Props
begin

text \<open>
  The system calls of a task of the file system, with the driver of files in memory behind it, keep
  the contract of the standard input and output. So what was shown of the programs holds of the
  programs on the files of the system.
\<close>

section \<open>The system calls\<close>

type_synonym world = "(pd_nodes \<times> mf_nodes) vfs_st"

text \<open>
  A call whose answer is read by \<open>res\<close>; while the task stays blocked there is no result. \<open>i\<close> gives the pid
  of the task and what its messages hold before they are filled in; \<open>base\<close> are the calls that do not
  go to the file system.
\<close>

definition vfs_sys :: "vfs_in \<Rightarrow> (vfsmsg \<Rightarrow> vfsmsg) \<Rightarrow> (vfsmsg \<Rightarrow> 'a) \<Rightarrow> (world, 'a) syscall" where
  "vfs_sys i req res st = do {
     (st', m) \<leftarrow> vfs_call system_drivers i req st;
     ans \<leftarrow> m;
     Some (res ans, st')
   }"

text \<open>The numbers in the name of a file that is opened have to be in the range of \<^verbatim>\<open>atoi\<close>.\<close>

definition vfs_open :: "vfs_in \<Rightarrow> byte list \<Rightarrow> (world, cint) syscall" where
  "vfs_open i name st = do { nums \<leftarrow> open_nums name; vfs_sys i (open_req nums) open_fd st }"

definition vfs_os :: "vfs_in \<Rightarrow> world os \<Rightarrow> world os" where
  "vfs_os i base = base\<lparr>
     os_writec := \<lambda>fd c. vfs_sys i (writec_req fd c) rw_data,
     os_readc := \<lambda>fd. vfs_sys i (readc_req fd) rw_data,
     os_open := vfs_open i,
     os_close := \<lambda>fd. vfs_sys i (close_req fd) (\<lambda>_. ()),
     os_dup := \<lambda>fd. vfs_sys i (dup_req fd) w0,
     os_pipe := vfs_sys i pipe_req (\<lambda>m. (w2 m, w0 m, w1 m)),
     os_debugn := \<lambda>reset. vfs_sys i (vfs_debugn_req reset) w0\<rparr>"

lemma vfs_os_sels [simp]:
  "os_writec (vfs_os i base) fd c = vfs_sys i (writec_req fd c) rw_data"
  "os_readc (vfs_os i base) fd = vfs_sys i (readc_req fd) rw_data"
  "os_open (vfs_os i base) name = vfs_open i name"
  "os_close (vfs_os i base) fd = vfs_sys i (close_req fd) (\<lambda>_. ())"
  "os_pmmalloc (vfs_os i base) = os_pmmalloc base" "os_pmfree (vfs_os i base) = os_pmfree base"
  "os_execv (vfs_os i base) = os_execv base"
  by (simp_all add: vfs_os_def)

lemma vfs_sys_rw:
  "vfs_sys i (writec_req fd c) rw_data st = do { (st', r) \<leftarrow> writec system_drivers i fd c st; d \<leftarrow> r; Some (d, st') }"
  "vfs_sys i (readc_req fd) rw_data st = do { (st', r) \<leftarrow> readc system_drivers i fd st; d \<leftarrow> r; Some (d, st') }"
  by (auto simp: vfs_sys_def writec_def readc_def split: Option.bind_splits option.splits)

section \<open>Input and output as files\<close>

definition fd_ino :: "vfs_in \<Rightarrow> nat \<Rightarrow> world \<Rightarrow> nat" where
  "fd_ino i fd st = unat (fp_ino (filps st ! unat (slot i fd st)))"

definition fd_pos :: "vfs_in \<Rightarrow> nat \<Rightarrow> world \<Rightarrow> nat" where
  "fd_pos i fd st = unat (fp_pos (filps st ! unat (slot i fd st)))"

definition bytes :: "mfnode \<Rightarrow> byte list" where
  "bytes nd = take (unat (f_size nd)) (f_file nd)"

definition readable :: "mfnode \<Rightarrow> bool" where
  "readable nd \<longleftrightarrow> unat (f_size nd) \<le> 127 \<and> 0xFF \<notin> set (bytes nd)"

definition w_inp :: "vfs_in \<Rightarrow> world \<Rightarrow> byte list" where
  "w_inp i st = (case snd (devs st) ! fd_ino i 0 st of None \<Rightarrow> [] | Some nd \<Rightarrow> drop (fd_pos i 0 st) (bytes nd))"

definition w_out :: "vfs_in \<Rightarrow> world \<Rightarrow> byte list" where
  "w_out i st = (case snd (devs st) ! fd_ino i 1 st of None \<Rightarrow> [] | Some nd \<Rightarrow> take (fd_pos i 1 st) (f_file nd))"

text \<open>
  The content of a file by its name: it is a linked file of the file driver, other than the one that is written to.
\<close>

definition known :: "mfnode option \<Rightarrow> byte list option" where
  "known x = (case x of None \<Rightarrow> None | Some nd \<Rightarrow> if f_links nd \<noteq> 0 \<and> readable nd then Some (bytes nd) else None)"

definition w_content :: "vfs_in \<Rightarrow> world \<Rightarrow> byte list \<Rightarrow> byte list option" where
  "w_content i st name =
     (case open_nums name of
        None \<Rightarrow> None
      | Some (dev, ino) \<Rightarrow>
          if dev_pid dev st = Some 0x200 \<and> unat ino < MF_MAX_NODES \<and> unat ino \<noteq> fd_ino i 1 st
          then known (snd (devs st) ! unat ino) else None)"

text \<open>Descriptor 0 reads the node \<open>n\<close> at \<open>p\<close>, descriptor 1 writes the node \<open>m\<close> at \<open>q\<close>.\<close>

definition std_at :: "vfs_in \<Rightarrow> nat \<Rightarrow> mfnode \<Rightarrow> nat \<Rightarrow> nat \<Rightarrow> mfnode \<Rightarrow> nat \<Rightarrow> world \<Rightarrow> bool" where
  "std_at i n nd p m md q st \<longleftrightarrow> file_at i 0 n p st \<and> file_at i 1 m q st \<and> n \<noteq> m \<and>
     snd (devs st) ! n = Some nd \<and> snd (devs st) ! m = Some md \<and> readable nd \<and> p \<le> 127 \<and> q \<le> 127"

text \<open>After a \<^verbatim>\<open>close\<close> of descriptor 0 there is an entry of the table of open files for the next \<^verbatim>\<open>open\<close>.\<close>

definition spare :: "vfs_in \<Rightarrow> world \<Rightarrow> bool" where
  "spare i st \<longleftrightarrow> refs st (slot i 0 st) = 1 \<or> (\<exists>j < MAX_FILP. refs st (of_nat j) = 0)"

definition w_ready :: "vfs_in \<Rightarrow> nat \<Rightarrow> world \<Rightarrow> bool" where
  "w_ready i k st \<longleftrightarrow> (\<exists>n nd p m md q. std_at i n nd p m md q st \<and> q + k \<le> 127) \<and> spare i st"

lemma w_readyI: "std_at i n nd p m md q st \<Longrightarrow> q + k \<le> 127 \<Longrightarrow> spare i st \<Longrightarrow> w_ready i k st"
  unfolding w_ready_def by blast

lemma w_readyE:
  assumes "w_ready i k st"
  obtains n nd p m md q where "std_at i n nd p m md q st" "q + k \<le> 127" "spare i st"
  using assms by (auto simp: w_ready_def)

lemma file_at_fd:
  assumes "file_at i fd n p st" "p \<le> 127"
  shows "fd_ino i fd st = n" "fd_pos i fd st = p"
  using assms by (auto simp: file_at_def fd_ino_def fd_pos_def Let_def unat_of_nat)

lemma std_at_views:
  assumes "std_at i n nd p m md q st"
  shows "w_inp i st = drop p (bytes nd)" "w_out i st = take q (f_file md)" "fd_ino i 1 st = m" "fd_ino i 0 st = n"
  using assms file_at_fd [of i 0 n p st] file_at_fd [of i 1 m q st] by (auto simp: std_at_def w_inp_def w_out_def)

lemma std_at_slots:
  assumes "std_at i n nd p m md q st"
  shows "slot i 0 st \<noteq> slot i 1 st"
proof
  assume "slot i 0 st = slot i 1 st"
  then have "fd_ino i 0 st = fd_ino i 1 st" by (simp add: fd_ino_def)
  then show False using std_at_views [OF assms] assms by (simp add: std_at_def)
qed

lemma refs_moved [simp]: "refs (moved i fd q nodes st) x = refs st x"
  by (simp add: refs_def moved_def)

lemma spare_moved [simp]: "spare i (moved i fd q nodes st) = spare i st"
  by (simp add: spare_def)

text \<open>Reading moves descriptor 0, writing moves descriptor 1 and changes the node \<open>m\<close>.\<close>

lemma std_at_read:
  assumes "std_at i n nd p m md q st" "p' \<le> 127"
  shows "std_at i n nd p' m md q (moved i 0 p' (snd (devs st)) st)"
proof -
  have "mf_ok (snd (devs st))" using assms(1) by (auto simp: std_at_def file_at_def)
  then show ?thesis using assms std_at_slots [OF assms(1)] file_at_moved [of i 0 n p st "snd (devs st)"]
    by (auto simp: std_at_def)
qed

lemma std_at_write:
  assumes "std_at i n nd p m md q st" "q < 127" "nodes = (snd (devs st))[m := Some md']" "mf_ok nodes"
  shows "std_at i n nd p m md' (Suc q) (moved i 1 (Suc q) nodes st)"
proof -
  have "m < length (snd (devs st))" using assms(1) by (auto simp: std_at_def file_at_def mf_ok_def)
  then show ?thesis using assms std_at_slots [OF assms(1)] file_at_moved [of i 1 m q st nodes]
    by (auto simp: std_at_def)
qed

section \<open>Reading and writing\<close>

lemma readc_end:
  assumes at: "file_at i fd n p st" and nd: "snd (devs st) ! n = Some nd" and p: "p \<le> 127" "unat (f_size nd) \<le> p"
  shows "readc system_drivers i (of_nat fd) st = Some (moved i fd p (snd (devs st)) st, Some EOF)"
proof -
  have ok: "mf_ok (snd (devs st))" "n < 8" using at by (auto simp: file_at_def)
  let ?m = "(readc_req (of_nat fd) (i_msg i))\<lparr>v_client := i_client i, w0 := of_nat n, w1 := of_nat p\<rparr>"
  let ?ans = "?m\<lparr>w2 := EOF, w1 := 0\<rparr>"
  have ix: "idx (length (snd (devs st))) (of_nat n) = Some n" using ok by (simp add: mf_ok_def idx_eq small_word)
  have sz: "sint (f_size nd) \<le> int p" using p by (auto simp: sint16 simp del: of_nat_unat)
  have "memfile True (i_str i) ?m (snd (devs st)) = Some (snd (devs st), [], ?ans)"
    using ix nd p sz by (auto simp: memfile_def mf_readc_def vfs_cmds small_word readc_req_def)
  then have "vfs_step system_drivers (i\<lparr>i_msg := readc_req (of_nat fd) (i_msg i)\<rparr>) st =
      Some (moved i fd p (snd (devs st)) st, [Send (i_client i) (?ans\<lparr>v_cmd := VFS_FINAL\<rparr>)])"
    using rw_file [of "i\<lparr>i_msg := readc_req (of_nat fd) (i_msg i)\<rparr>" fd n p st "readc_req (of_nat fd) (i_msg i)" "snd (devs st)" ?ans] at
    by (simp add: moved_def upd_filp_def readc_req_def vfs_cmds)
  then show ?thesis by (simp add: readc_def vfs_call_def)
qed

lemma world_read_char:
  assumes "std_at i n nd p m md q st" "drop p (bytes nd) = c # cs"
  shows "vfs_sys i (readc_req STDIN) rw_data st = Some (scast c, moved i 0 (Suc p) (snd (devs st)) st)"
    "std_at i n nd (Suc p) m md q (moved i 0 (Suc p) (snd (devs st)) st)" "drop (Suc p) (bytes nd) = cs"
proof -
  have l: "length (f_file nd) = 128" using assms(1) mf_ok_nth [of "snd (devs st)" n nd] by (auto simp: std_at_def file_at_def)
  have p: "p < length (bytes nd)" using assms(2) by (metis drop_eq_Nil list.distinct(1) not_le)
  then have sz: "p < unat (f_size nd)" "unat (f_size nd) \<le> 127" using l assms(1) by (auto simp: bytes_def std_at_def readable_def)
  have c: "f_file nd ! p = c" "drop (Suc p) (bytes nd) = cs" using assms(2) p by (auto simp: bytes_def dest: nth_via_drop) (metis drop_Suc list.sel(3) tl_drop)
  then show "drop (Suc p) (bytes nd) = cs" by simp
  have "readc system_drivers i (of_nat 0) st = Some (moved i 0 (Suc p) (snd (devs st)) st, Some (scast (f_file nd ! p)))"
    using assms(1) sz by (intro readc_file [where m = "unat (f_size nd)"]) (auto simp: std_at_def)
  then show "vfs_sys i (readc_req STDIN) rw_data st = Some (scast c, moved i 0 (Suc p) (snd (devs st)) st)"
    using c(1) by (simp add: vfs_sys_rw STDIN_def)
  show "std_at i n nd (Suc p) m md q (moved i 0 (Suc p) (snd (devs st)) st)" using std_at_read [OF assms(1)] sz by simp
qed

lemma world_write_char:
  fixes d :: cint
  assumes "std_at i n nd p m md q st" "q < 127"
  defines "md' \<equiv> md\<lparr>f_file := (f_file md)[q := ucast d], f_size := of_nat (Suc q)\<rparr>"
  defines "st' \<equiv> moved i 1 (Suc q) ((snd (devs st))[m := Some md']) st"
  shows "vfs_sys i (writec_req STDOUT d) rw_data st = Some (d, st')" "std_at i n nd p m md' (Suc q) st'"
    "take (Suc q) (f_file md') = take q (f_file md) @ [ucast d]"
proof -
  have l: "length (f_file md) = 128" using assms(1) mf_ok_nth [of "snd (devs st)" m md] by (auto simp: std_at_def file_at_def)
  then show "take (Suc q) (f_file md') = take q (f_file md) @ [ucast d]" using assms(2) by (simp add: md'_def take_Suc_conv_app_nth)
  have at: "file_at i 1 m q st" "snd (devs st) ! m = Some md" using assms(1) by (auto simp: std_at_def)
  note w = writec_file [OF at assms(2) refl, of d, folded md'_def, folded st'_def]
  show "vfs_sys i (writec_req STDOUT d) rw_data st = Some (d, st')" using w(1) by (simp add: vfs_sys_rw STDOUT_def)
  show "std_at i n nd p m md' (Suc q) st'" unfolding st'_def by (rule std_at_write [OF assms(1,2) refl w(2)])
qed

text \<open>The known files do not change.\<close>

lemma fd_ino_moved [simp]: "fd_ino i fd' (moved i fd p nodes st) = fd_ino i fd' st"
proof -
  have "fp_ino (xs[j := (xs ! j)\<lparr>fp_pos := y\<rparr>] ! k) = fp_ino (xs ! k)" for xs :: "filp list" and j y k
    by (cases "j < length xs"; cases "j = k") (auto simp: list_update_beyond)
  then show ?thesis unfolding fd_ino_def slot_moved(1) by (simp add: moved_def upd_filp_def)
qed

lemma content_moved:
  assumes "\<And>n. n \<noteq> fd_ino i 1 st \<Longrightarrow> nodes ! n = snd (devs st) ! n"
  shows "w_content i (moved i fd p nodes st) = w_content i st"
  unfolding w_content_def fd_ino_moved slot_moved by (rule ext) (auto simp: assms split: option.split)

interpretation files: stdio "vfs_os i base" "w_inp i" "w_out i" "w_content i" "w_ready i" for i base
proof (unfold_locales, unfold vfs_os_sels)
  fix k st c cs assume r: "w_ready i k st" "w_inp i st = c # cs"
  from r(1) obtain n nd p m md q where s: "std_at i n nd p m md q st" "q + k \<le> 127" "spare i st" by (rule w_readyE)
  let ?st = "moved i 0 (Suc p) (snd (devs st)) st"
  note v = std_at_views [OF s(1)]
  note c = world_read_char [OF s(1) r(2) [unfolded v]]
  have "w_ready i k ?st" using c(2) s(2,3) by (auto intro: w_readyI)
  then show "\<exists>w'. vfs_sys i (readc_req STDIN) rw_data st = Some (scast c, w') \<and> w_inp i w' = cs \<and> w_out i w' = w_out i st \<and>
      w_content i w' = w_content i st \<and> w_ready i k w'"
    using c(1,3) std_at_views(1,2) [OF c(2)] v(2) by (intro exI [of _ ?st]) (simp add: content_moved)
next
  fix k st assume r: "w_ready i k st" "w_inp i st = []"
  from r(1) obtain n nd p m md q where s: "std_at i n nd p m md q st" "q + k \<le> 127" "spare i st" by (rule w_readyE)
  let ?st = "moved i 0 p (snd (devs st)) st"
  note v = std_at_views [OF s(1)]
  have "length (f_file nd) = 128" using s(1) mf_ok_nth [of "snd (devs st)" n nd] by (auto simp: std_at_def file_at_def)
  then have "unat (f_size nd) \<le> p" using r(2) v(1) s(1) by (auto simp: bytes_def std_at_def readable_def)
  then have e: "vfs_sys i (readc_req STDIN) rw_data st = Some (EOF, ?st)"
    using readc_end [of i 0 n p st nd] s(1) by (auto simp: std_at_def vfs_sys_rw STDIN_def)
  have s': "std_at i n nd p m md q ?st" using std_at_read [OF s(1)] s(1) by (simp add: std_at_def)
  then have "w_ready i k ?st" using s(2,3) by (auto intro: w_readyI)
  then show "\<exists>w'. vfs_sys i (readc_req STDIN) rw_data st = Some (EOF, w') \<and> w_inp i w' = [] \<and> w_out i w' = w_out i st \<and>
      w_content i w' = w_content i st \<and> w_ready i k w'"
    using e r(2) std_at_views(1,2) [OF s'] v(1,2) by (intro exI [of _ ?st]) (simp add: content_moved)
next
  fix k st assume "w_ready i k st"
  then obtain n nd p m md q where s: "std_at i n nd p m md q st" by (rule w_readyE)
  then have "0xFF \<notin> set (bytes nd)" by (simp add: std_at_def readable_def)
  then show "0xFF \<notin> set (w_inp i st)" unfolding std_at_views(1) [OF s] using in_set_dropD by metis
next
  fix k st and d :: cint assume "w_ready i (Suc k) st"
  then obtain n nd p m md q where s: "std_at i n nd p m md q st" "q + Suc k \<le> 127" "spare i st" by (rule w_readyE)
  then have q: "q < 127" by simp
  note w = world_write_char [OF s(1) q, of d]
  let ?st = "moved i 1 (Suc q) ((snd (devs st))[m := Some (md\<lparr>f_file := (f_file md)[q := ucast d], f_size := of_nat (Suc q)\<rparr>)]) st"
  have "w_ready i k ?st" by (rule w_readyI [OF w(2)]) (use s(2,3) in auto)
  moreover have "w_content i ?st = w_content i st" by (rule content_moved) (use std_at_views(3) [OF s(1)] in auto)
  ultimately show "\<exists>w'. vfs_sys i (writec_req STDOUT d) rw_data st = Some (d, w') \<and> w_inp i w' = w_inp i st \<and> w_out i w' = w_out i st @ [ucast d] \<and>
      w_content i w' = w_content i st \<and> w_ready i k w'"
    using w(1,3) std_at_views(1,2) [OF w(2)] std_at_views [OF s(1)] by (intro exI [of _ ?st]) simp
qed

section \<open>Opening another file as input\<close>

lemma knownE:
  assumes "known x = Some bs"
  obtains nd where "x = Some nd" "f_links nd \<noteq> 0" "readable nd" "bytes nd = bs"
  using assms by (auto simp: known_def split: option.splits if_splits)

lemma known_refcnt: "known (Some (nd\<lparr>f_refcnt := r\<rparr>)) = known (Some nd)"
  by (simp add: known_def readable_def bytes_def)

lemma memfile_grab:
  assumes "mf_ok nodes" "n < MF_MAX_NODES" "nodes ! n = Some nd" "v_cmd msg = VFS_INODE_GRAB" "w0 msg = of_nat n"
  shows "memfile ok str msg nodes = Some (nodes[n := Some (nd\<lparr>f_refcnt := f_refcnt nd + 1\<rparr>)], [], msg)"
  using assms by (simp add: memfile_def mf_grab_def vfs_cmds mf_ok_def idx_eq small_word)

lemma memfile_release:
  assumes "mf_ok nodes" "n < MF_MAX_NODES" "nodes ! n = Some nd" "v_cmd msg = VFS_INODE_RELEASE" "w0 msg = of_nat n"
  obtains x where "memfile ok str msg nodes = Some (nodes[n := x], [], msg)" "known x = known (Some nd)" "mf_ok (nodes[n := x])"
proof -
  let ?nd = "nd\<lparr>f_refcnt := f_refcnt nd - 1\<rparr>"
  let ?x = "if f_refcnt ?nd \<noteq> 0 \<or> f_links ?nd \<noteq> 0 then Some ?nd else None"
  have "memfile ok str msg nodes = Some (nodes[n := ?x], [], msg)"
    using assms by (simp add: memfile_def mf_release_def vfs_cmds mf_ok_def idx_eq small_word Let_def)
  moreover have "known ?x = known (Some nd)" by (auto simp: known_refcnt) (simp add: known_def)
  moreover have "mf_ok (nodes[n := ?x])" using mf_ok_nth [OF assms(1-3)] by (intro mf_ok_update [OF assms(1)]) simp
  ultimately show thesis by (rule that)
qed

lemma content_same:
  assumes "devtab st' = devtab st" "fd_ino i 1 st' = fd_ino i 1 st"
    and "\<And>n. n \<noteq> fd_ino i 1 st \<Longrightarrow> known (snd (devs st') ! n) = known (snd (devs st) ! n)"
  shows "w_content i st' = w_content i st"
  unfolding w_content_def assms(2) dev_pid_def assms(1) by (rule ext) (simp add: assms(3) split: option.split)

text \<open>Closing the standard input.\<close>

lemma close_stdin:
  assumes s: "std_at i n nd p m md q st" and k: "vfs_findbypid (i_client i) st = Some k"
  defines "st' \<equiv> upd_filp (unat (slot i 0 st)) (\<lambda>f. f\<lparr>fp_refcnt := fp_refcnt f - 1\<rparr>) (set_fd k 0 (- 1) st)"
  obtains nodes where "vfs_sys i (close_req 0) (\<lambda>_. ()) st = Some ((), st'\<lparr>devs := (fst (devs st), nodes)\<rparr>)"
    "vfs_inv st'" "mf_ok nodes" "nodes ! m = Some md" "\<forall>j. known (nodes ! j) = known (snd (devs st) ! j)"
    "refs st' (slot i 0 st) = refs st (slot i 0 st) - 1"
proof -
  let ?fp = "slot i 0 st" and ?msg = "close_req 0 (i_msg i)"
  let ?f = "filps st ! unat ?fp"
  have at: "vfs_inv st" "i_client i \<noteq> NULL" "mf_ok (snd (devs st))" "?fp \<noteq> - 1" "dev_pid (fp_dev ?f) st = Some 0x200" "fp_ino ?f = of_nat n" "n < 8"
      "snd (devs st) ! n = Some nd" "snd (devs st) ! m = Some md" "n \<noteq> m"
    using s by (auto simp: std_at_def file_at_def Let_def)
  let ?rel = "?msg\<lparr>v_cmd := VFS_INODE_RELEASE, w0 := fp_ino ?f\<rparr>"
  obtain x where x: "memfile True (i_str i) ?rel (snd (devs st)) = Some ((snd (devs st))[n := x], [], ?rel)"
      "known x = known (Some nd)" "mf_ok ((snd (devs st))[n := x])"
    by (rule memfile_release [OF at(3,7,8), of ?rel True "i_str i"]) (simp_all add: at(6))
  have d: "system_drivers (i_str i) 0x200 ?rel (devs st) = Some ((fst (devs st), (snd (devs st))[n := x]), [], ?rel)"
    using x(1) by (simp add: system_drivers_def)
  have fd: "v_fd (vtasks st ! k) ! 0 = ?fp" using k by (simp add: slot_def)
  note c = close_exact [where drv = system_drivers and i = "i\<lparr>i_msg := ?msg\<rparr>" and k = k and fd = 0 and fp = ?fp and pid = "0x200"
      and msg = ?msg and ans = ?rel and d = "(fst (devs st), (snd (devs st))[n := x])" and reps = "[]",
      OF at(1) _ _ _ _ _ _ fd at(4) refl at(5), folded st'_def]
  have c: "refs st' ?fp = refs st ?fp - 1" "vfs_inv st'"
    "vfs_step system_drivers (i\<lparr>i_msg := ?msg\<rparr>) st =
       (if 1 < refs st ?fp then Some (st', [Send (i_client i) (?msg\<lparr>v_cmd := VFS_FINAL\<rparr>)])
        else Some (st'\<lparr>devs := (fst (devs st), (snd (devs st))[n := x])\<rparr>, [Send (i_client i) (?rel\<lparr>v_cmd := VFS_FINAL\<rparr>)]))"
    using c k at(2) d by (simp_all add: close_req_def vfs_cmds)
  have "snd (devs st') = snd (devs st)" "devs st' = devs st" by (simp_all add: st'_def)
  then have same: "st' = st'\<lparr>devs := (fst (devs st), snd (devs st))\<rparr>" by simp
  have kn: "known ((snd (devs st))[n := x] ! j) = known (snd (devs st) ! j)" for j
    using x(2) at(8) by (cases "n < length (snd (devs st))"; cases "j = n") (auto simp: list_update_beyond)
  show thesis
  proof (cases "1 < refs st ?fp")
    case True
    then show ?thesis using c at same by (intro that [of "snd (devs st)"]) (auto simp: vfs_sys_def vfs_call_def)
  next
    case False
    then show ?thesis using c at x(3) kn by (intro that [of "(snd (devs st))[n := x]"]) (auto simp: vfs_sys_def vfs_call_def)
  qed
qed

text \<open>Opening a file when descriptor 0 is the lowest free one.\<close>

lemma open_lowest:
  assumes inv: "vfs_inv st" and k: "vfs_findbypid (i_client i) st = Some k" "i_client i \<noteq> NULL" and fd: "v_fd (vtasks st ! k) ! 0 = - 1"
    and free: "j < MAX_FILP" "refs st (of_nat j) = 0" and ok: "mf_ok (snd (devs st))"
    and name: "open_nums name = Some (dev, of_nat n)" "dev_pid dev st = Some 0x200" "n < MF_MAX_NODES"
    and nd: "snd (devs st) ! n = Some nd"
  defines "nodes \<equiv> (snd (devs st))[n := Some (nd\<lparr>f_refcnt := f_refcnt nd + 1\<rparr>)]"
  obtains fp where "unat fp < MAX_FILP" "fp_refcnt (filps st ! unat fp) = 0"
    "vfs_open i name st = Some (0, set_fd k 0 fp (st\<lparr>devs := (fst (devs st), nodes),
       filps := (filps st)[unat fp := \<lparr>fp_dev = dev, fp_ino = of_nat n, fp_refcnt = 1, fp_pos = 0\<rparr>]\<rparr>))"
    "vfs_inv (set_fd k 0 fp (st\<lparr>devs := (fst (devs st), nodes),
       filps := (filps st)[unat fp := \<lparr>fp_dev = dev, fp_ino = of_nat n, fp_refcnt = 1, fp_pos = 0\<rparr>]\<rparr>))"
proof -
  let ?msg = "open_req (dev, of_nat n) (i_msg i)" and ?fp = "find_empty_filp st" and ?fd = "find_empty_fd (vtasks st ! k)"
  let ?st = "set_fd k 0 ?fp (st\<lparr>devs := (fst (devs st), nodes),
       filps := (filps st)[unat ?fp := \<lparr>fp_dev = dev, fp_ino = of_nat n, fp_refcnt = 1, fp_pos = 0\<rparr>]\<rparr>)"
  have kl: "k < length (vtasks st)" using findbypid_less [OF k(1)] by simp
  have nfp: "\<not> cneg ?fp" using no_free_filp [OF inv] free by auto
  note fp = empty_filp [OF inv nfp]
  have task: "length (v_fd (vtasks st ! k)) = 8" using vfs_inv_parts(5) [OF inv kl] by (simp add: task_ok_def)
  then have "- 1 \<in> set (v_fd (vtasks st ! k))" using fd by (metis nth_mem zero_less_numeral)
  then have nfd: "\<not> cneg ?fd" using no_free_fd [OF inv kl] by simp
  have "unat ?fd = 0" using empty_fd(3) [OF inv kl nfd] fd by (metis cneg_minus_one gr0I)
  then have fd0: "?fd = 0" by (simp add: unat_eq_zero)
  let ?grab = "?msg\<lparr>v_cmd := VFS_INODE_GRAB, w0 := open_ino ?msg\<rparr>"
  have m: "open_dev ?msg = dev" "open_ino ?msg = of_nat n" by (simp_all add: open_req_def)
  have g: "system_drivers (i_str i) 0x200 ?grab (devs st) = Some ((fst (devs st), nodes), [], ?grab)"
    using memfile_grab [OF ok name(3) nd, of ?grab True "i_str i"] m by (simp add: system_drivers_def nodes_def)
  have gi: "\<not> cneg (iget_ino ?grab)" using m name(3) by (simp add: cneg_iff unat_of_nat)
  have pid: "dev_pid (open_dev ?msg) st = Some 0x200" "(0x200 :: pid_t) \<noteq> NULL" using name(2) m(1) by simp_all
  have e: "upd_filp j inc_refcnt ((upd_filp j (\<lambda>f. f\<lparr>fp_dev := dev, fp_ino := of_nat n, fp_pos := 0\<rparr>) st)\<lparr>devs := d\<rparr>) =
      st\<lparr>devs := d, filps := (filps st)[j := \<lparr>fp_dev = dev, fp_ino = of_nat n, fp_refcnt = 1, fp_pos = 0\<rparr>]\<rparr>"
    if "j < 16" "fp_refcnt (filps st ! j) = 0" for j d
    using opened_entry [OF vfs_inv_parts(2) [OF inv] that, where x = dev and y = "of_nat n" and d = d] by (simp add: upd_filp_def)
  have o: "do_open system_drivers (i_str i) (Some k) ?msg st = Some (?st, ?grab\<lparr>w0 := 0\<rparr>, [])"
    using nfp nfd gi fd0 m e [OF fp]
      do_open_eq [where drv = system_drivers and msg = ?msg and k = k and str = "i_str i", OF pid g] by (simp add: set_fd_def)
  have cmd: "v_cmd ?msg = VFS_OPEN" by (simp add: open_req_def)
  have "vfs_dispatch system_drivers (i\<lparr>i_msg := ?msg\<rparr>) st = Some (?st, ?grab\<lparr>w0 := 0\<rparr>, [])"
    unfolding o [symmetric] using k cmd by (simp add: vfs_dispatch_def vfs_cmds Let_def)
  then have "vfs_step system_drivers (i\<lparr>i_msg := ?msg\<rparr>) st = Some (?st, [Send (i_client i) (?grab\<lparr>w0 := 0, v_cmd := VFS_FINAL\<rparr>)])"
    using k cmd by (simp add: vfs_step_def vfs_cmds)
  then have "vfs_open i name st = Some (0, ?st)" by (simp add: vfs_open_def name(1) vfs_sys_def vfs_call_def)
  then show thesis using fp do_open_inv [OF inv kl o] by (intro that [of ?fp])
qed

lemma findbypid_set_fd [simp]: "vfs_findbypid pid (set_fd k j x st) = vfs_findbypid pid st"
proof -
  have "v_pid ((vtasks st)[k := (vtasks st ! k)\<lparr>v_fd := y\<rparr>] ! n) = v_pid (vtasks st ! n)" for n y
    by (cases "k < length (vtasks st)"; cases "n = k") (auto simp: list_update_beyond)
  then show ?thesis by (simp add: vfs_findbypid_def set_fd_def)
qed

lemma findbypid_frame [simp]: "vfs_findbypid pid (upd_filp j f st) = vfs_findbypid pid st" "vfs_findbypid pid (st\<lparr>devs := d\<rparr>) = vfs_findbypid pid st"
    "vfs_findbypid pid (st\<lparr>filps := fs\<rparr>) = vfs_findbypid pid st"
  by (simp_all add: vfs_findbypid_def upd_filp_def)

lemma inv_devs: "vfs_inv (st\<lparr>devs := d\<rparr>) = vfs_inv st"
  by (simp add: vfs_inv_def refs_def)

lemma close_makes_room:
  assumes inv: "vfs_inv st" and sp: "spare i st" and lt: "unat (slot i 0 st) < MAX_FILP"
    and st': "st' = upd_filp (unat (slot i 0 st)) (\<lambda>f. f\<lparr>fp_refcnt := fp_refcnt f - 1\<rparr>) (set_fd k 0 (- 1) st)"
    and inv': "vfs_inv st'" and refs: "refs st' (slot i 0 st) = refs st (slot i 0 st) - 1"
  shows "\<exists>j < MAX_FILP. refs st' (of_nat j) = 0"
proof (cases "refs st (slot i 0 st) \<le> 1")
  case True
  then show ?thesis using refs lt by (intro exI [of _ "unat (slot i 0 st)"]) simp
next
  case False
  then obtain j where j: "j < 16" "refs st (of_nat j) = 0" using sp by (auto simp: spare_def)
  have "j \<noteq> unat (slot i 0 st)" using j False by auto
  then have "fp_refcnt (filps st' ! j) = fp_refcnt (filps st ! j)" unfolding st' by (simp add: upd_filp_def)
  then show ?thesis using vfs_inv_parts(6) [OF inv j(1)] vfs_inv_parts(6) [OF inv' j(1)] j by (intro exI [of _ j]) simp
qed

lemma file_atI:
  assumes "vfs_inv st" "mf_ok (snd (devs st))" "vfs_findbypid (i_client i) st = Some k" "i_client i \<noteq> NULL" "fd < MAX_FD" "n < MF_MAX_NODES"
    and "v_fd (vtasks st ! k) ! fd = fp" "fp \<noteq> - 1" "filps st ! unat fp = f"
    and "dev_pid (fp_dev f) st = Some 0x200" "fp_ino f = of_nat n" "fp_pos f = of_nat p"
  shows "file_at i fd n p st"
  using assms by (simp add: file_at_def slot_def)

text \<open>
  The state after both calls: the task \<open>k\<close> has the entry \<open>fp\<close> for descriptor 0, and the entry of descriptor 1 is untouched.
\<close>

lemma reopen_exact:
  assumes s: "std_at i n nd p m md q st" and sp: "spare i st" and k: "vfs_findbypid (i_client i) st = Some k"
    and n2: "n2 < 8" "open_nums name = Some (dev, of_nat n2)" "dev_pid dev st = Some 0x200"
    and links: "\<And>nodes. \<forall>j. known (nodes ! j) = known (snd (devs st) ! j) \<Longrightarrow> \<exists>nd2. nodes ! n2 = Some nd2 \<and> f_links nd2 \<noteq> 0"
  obtains u w nodes nd2 fp where "vfs_sys i (close_req 0) (\<lambda>_. ()) st = Some ((), u)" "vfs_open i name u = Some (0, w)"
    "nodes ! m = Some md" "\<forall>j. known (nodes ! j) = known (snd (devs st) ! j)" "nodes ! n2 = Some nd2" "n2 < length nodes"
    "snd (devs w) = nodes[n2 := Some (nd2\<lparr>f_refcnt := f_refcnt nd2 + 1\<rparr>)]" "mf_ok (snd (devs w))" "vfs_inv w" "devtab w = devtab st"
    "vfs_findbypid (i_client i) w = Some k" "v_fd (vtasks w ! k) = (v_fd (vtasks st ! k))[0 := fp]" "unat fp < 16"
    "filps w ! unat fp = \<lparr>fp_dev = dev, fp_ino = of_nat n2, fp_refcnt = 1, fp_pos = 0\<rparr>"
    "filps w ! unat (slot i 1 st) = filps st ! unat (slot i 1 st)"
proof -
  have at: "vfs_inv st" "i_client i \<noteq> NULL" "slot i 0 st \<noteq> - 1" "slot i 1 st \<noteq> - 1" using s by (auto simp: std_at_def file_at_def)
  have kl: "k < length (vtasks st)" using findbypid_less [OF k] by simp
  have fds: "v_fd (vtasks st ! k) ! 0 = slot i 0 st" "v_fd (vtasks st ! k) ! 1 = slot i 1 st" "length (v_fd (vtasks st ! k)) = 8"
    using k vfs_inv_parts(5) [OF at(1) kl] by (simp_all add: slot_def task_ok_def)
  have lt: "unat (slot i 0 st) < 16" "\<not> cneg (slot i 1 st)"
    using slot_cases [OF at(1) kl, of 0] slot_cases [OF at(1) kl, of 1] fds at by auto
  let ?st = "upd_filp (unat (slot i 0 st)) (\<lambda>f. f\<lparr>fp_refcnt := fp_refcnt f - 1\<rparr>) (set_fd k 0 (- 1) st)"
  obtain nodes where c: "vfs_sys i (close_req 0) (\<lambda>_. ()) st = Some ((), ?st\<lparr>devs := (fst (devs st), nodes)\<rparr>)"
      "vfs_inv ?st" "mf_ok nodes" "nodes ! m = Some md" "\<forall>j. known (nodes ! j) = known (snd (devs st) ! j)"
      "refs ?st (slot i 0 st) = refs st (slot i 0 st) - 1"
    by (rule close_stdin [OF s k])
  obtain nd2 where nd2: "nodes ! n2 = Some nd2" "f_links nd2 \<noteq> 0" using links [OF c(5)] by blast
  let ?u = "?st\<lparr>devs := (fst (devs st), nodes)\<rparr>" and ?nd = "nd2\<lparr>f_refcnt := f_refcnt nd2 + 1\<rparr>"
  let ?E = "\<lparr>fp_dev = dev, fp_ino = of_nat n2, fp_refcnt = 1, fp_pos = 0\<rparr>"
  obtain j where j: "j < 16" "refs ?u (of_nat j) = 0"
    using close_makes_room [OF at(1) sp lt(1) refl c(2,6)] by (auto simp: refs_def)
  have uk: "vfs_findbypid (i_client i) ?u = Some k" using k by simp
  have u: "vfs_inv ?u" "v_fd (vtasks ?u ! k) ! 0 = - 1" "mf_ok (snd (devs ?u))" "dev_pid dev ?u = Some 0x200" "snd (devs ?u) ! n2 = Some nd2"
    using c(2,3) k kl fds(3) n2 nd2 by (simp_all add: inv_devs set_fd_def upd_filp_def dev_pid_def)
  let ?w = "\<lambda>fp. set_fd k 0 fp (?u\<lparr>devs := (fst (devs ?u), (snd (devs ?u))[n2 := Some ?nd]), filps := (filps ?u)[unat fp := ?E]\<rparr>)"
  obtain fp where fp: "unat fp < 16" "fp_refcnt (filps ?u ! unat fp) = 0" "vfs_open i name ?u = Some (0, ?w fp)" "vfs_inv (?w fp)"
    by (rule open_lowest [OF u(1) uk at(2) u(2) j u(3) n2(2) u(4) n2(1) u(5)])
  have len: "length (filps st) = 16" "n2 < length nodes" using vfs_inv_parts(2) [OF at(1)] c(3) n2(1) by (auto simp: mf_ok_def)
  have w: "mf_ok (snd (devs (?w fp)))" "v_fd (vtasks (?w fp) ! k) = (v_fd (vtasks st ! k))[0 := fp]" "filps (?w fp) ! unat fp = ?E"
    using fp(1) k kl len mf_ok_nth [OF c(3) n2(1) nd2(1)] by (auto simp: set_fd_def upd_filp_def mf_ok_update [OF c(3)])
  have one: "fp_refcnt (filps st ! unat (slot i 1 st)) \<noteq> 0" using inv_unshare(2) [OF at(1) kl, of 1] lt(2) fds(2) by simp
  have "unat (slot i 0 st) \<noteq> unat (slot i 1 st)" using std_at_slots [OF s] unsigned_word_eqI by blast
  then have f0: "filps ?u ! unat (slot i 1 st) = filps st ! unat (slot i 1 st)" by (simp add: upd_filp_def)
  then have "unat fp \<noteq> unat (slot i 1 st)" using one fp(2) by metis
  then have "filps (?w fp) ! unat (slot i 1 st) = filps st ! unat (slot i 1 st)" using f0 by simp
  then show thesis by (intro that [OF c(1) fp(3) c(4,5) nd2(1) len(2) _ w(1) fp(4) _ _ w(2) fp(1) w(3)]) (use k in simp_all)
qed

lemma reopen_stdin:
  assumes s: "std_at i n nd p m md q st" and sp: "spare i st" and name: "w_content i st name = Some bs"
  obtains u w nd2 n2 where "vfs_sys i (close_req 0) (\<lambda>_. ()) st = Some ((), u)" "vfs_open i name u = Some (0, w)"
    "std_at i n2 nd2 0 m md q w" "bytes nd2 = bs" "spare i w" "w_content i w = w_content i st"
proof -
  obtain k where k: "vfs_findbypid (i_client i) st = Some k" using s by (auto simp: std_at_def file_at_def)
  have at: "i_client i \<noteq> NULL" "slot i 1 st \<noteq> - 1" "file_at i 1 m q st" "vfs_inv st" using s by (auto simp: std_at_def file_at_def)
  have fds: "v_fd (vtasks st ! k) ! 1 = slot i 1 st" "length (v_fd (vtasks st ! k)) = 8"
    using k vfs_inv_parts(5) [OF at(4) findbypid_less [OF k, THEN conjunct1]] by (simp_all add: slot_def task_ok_def)
  obtain dev n2 where n2: "n2 < 8" "open_nums name = Some (dev, of_nat n2)" "n2 \<noteq> m" "known (snd (devs st) ! n2) = Some bs"
      "dev_pid dev st = Some 0x200"
    using name std_at_views(3) [OF s] that by (auto simp: w_content_def split: if_splits option.splits)
  obtain u w nodes nd2 fp where r: "vfs_sys i (close_req 0) (\<lambda>_. ()) st = Some ((), u)" "vfs_open i name u = Some (0, w)"
    and nodes: "nodes ! m = Some md" "\<forall>j. known (nodes ! j) = known (snd (devs st) ! j)" "nodes ! n2 = Some nd2" "n2 < length nodes"
    and w: "snd (devs w) = nodes[n2 := Some (nd2\<lparr>f_refcnt := f_refcnt nd2 + 1\<rparr>)]" "mf_ok (snd (devs w))" "vfs_inv w" "devtab w = devtab st"
      "vfs_findbypid (i_client i) w = Some k" "v_fd (vtasks w ! k) = (v_fd (vtasks st ! k))[0 := fp]"
    and fp: "unat fp < 16" "filps w ! unat fp = \<lparr>fp_dev = dev, fp_ino = of_nat n2, fp_refcnt = 1, fp_pos = 0\<rparr>"
      "filps w ! unat (slot i 1 st) = filps st ! unat (slot i 1 st)"
    by (rule reopen_exact [OF s sp k n2(1,2,5)]) (use n2(4) in \<open>metis knownE\<close>)
  let ?nd = "nd2\<lparr>f_refcnt := f_refcnt nd2 + 1\<rparr>"
  have nd2: "readable nd2" "bytes nd2 = bs" using nodes(2,3) n2(4) by (metis knownE option.inject)+
  have "fp \<noteq> - 1" using fp(1) cneg_iff [of "- 1"] by (auto simp del: unat_minus_one)
  then have at0: "file_at i 0 n2 0 w"
    by (intro file_atI [OF w(3,2,5) at(1) _ n2(1) refl _ refl]) (use w fds(2) fp(2) n2(5) in \<open>auto simp: dev_pid_def\<close>)
  have at1: "file_at i 1 m q w"
    by (rule file_atI [OF w(3,2,5) at(1) _ _ refl _ refl]) (use at(2,3) w fds fp(3) in \<open>auto simp: file_at_def dev_pid_def Let_def\<close>)
  have "fd_ino i 1 w = fd_ino i 1 st" "fd_ino i 1 st = m" using file_at_fd [OF at1] std_at_views(3) [OF s] s by (auto simp: std_at_def)
  moreover have "known (nodes[n2 := Some ?nd] ! j) = known (snd (devs st) ! j)" for j
    using nodes known_refcnt [where nd = nd2] by (cases "j = n2") (simp_all, metis)
  ultimately have same: "w_content i w = w_content i st" using w(1,4) by (intro content_same) simp_all
  have "refs w (slot i 0 w) = 1" using vfs_inv_parts(6) [OF w(3) fp(1)] w(5,6) fp(2) fds(2) by (simp add: slot_def)
  then have "spare i w" by (simp add: spare_def)
  moreover have "std_at i n2 ?nd 0 m md q w"
    using at0 at1 n2(3) w(1) nodes nd2(1) s by (auto simp: std_at_def readable_def bytes_def)
  ultimately show thesis using that [OF r] same nd2(2) by (simp add: bytes_def)
qed

interpretation files: stdio_files "vfs_os i base" "w_inp i" "w_out i" "w_content i" "w_ready i" for i base
proof (unfold_locales, unfold vfs_os_sels)
  fix k st name bs assume r: "w_ready i k st" "w_content i st name = Some bs"
  from r(1) obtain n nd p m md q where s: "std_at i n nd p m md q st" "q + k \<le> 127" "spare i st" by (rule w_readyE)
  obtain u w nd2 n2 where o: "vfs_sys i (close_req 0) (\<lambda>_. ()) st = Some ((), u)" "vfs_open i name u = Some (0, w)"
      "std_at i n2 nd2 0 m md q w" "bytes nd2 = bs" "spare i w" "w_content i w = w_content i st"
    by (rule reopen_stdin [OF s(1,3) r(2)])
  then show "\<exists>u w'. vfs_sys i (close_req 0) (\<lambda>_. ()) st = Some ((), u) \<and> vfs_open i name u = Some (0, w') \<and>
      w_inp i w' = bs \<and> w_out i w' = w_out i st \<and> w_content i w' = w_content i st \<and> w_ready i k w'"
    using std_at_views(1,2) [OF o(3)] std_at_views(2) [OF s(1)] w_readyI [OF o(3) s(2) o(5)] by auto
qed

lemma content_length: "w_content i st name = Some bs \<Longrightarrow> length bs \<le> 127"
  by (auto simp: w_content_def known_def Let_def bytes_def readable_def split: if_splits option.splits)

lemma contents_short:
  "list_all2 (\<lambda>name bs. w_content i st name = Some bs) names bss \<Longrightarrow> 127 < n \<Longrightarrow>
   list_all2 (\<lambda>name bs. w_content i st name = Some bs \<and> length bs < n) names bss"
  by (erule list_all2_mono) (auto dest: content_length)

section \<open>cat and cap on files\<close>

lemma cat_cap_files:
  assumes "names \<noteq> []"
  shows "cat n os (prg # names) = each_file os (copy_loop id n os) (prg # names) names"
    "cap n os (prg # names) = each_file os (copy_loop capital n os) (prg # names) names"
  using assms by (cases names; simp add: cat_def cap_def argp_def docat_copy docap_copy)+

text \<open>
  C12. \<^verbatim>\<open>cat\<close> with a list of files writes their contents one after the other: the program, its output
  routine, the system calls, the file system and the driver of files in memory together. The names
  are of files of the driver, each is opened in turn as the standard input, the standard output is a
  file with enough room, and 128 turns of the loop are enough for a file, which has at most 127
  characters.
\<close>

theorem cat_concatenates_files:
  assumes "w_ready i (length (concat bss)) st" and "list_all2 (\<lambda>name bs. w_content i st name = Some bs) names bss"
    and "names \<noteq> []" and "127 < n"
  shows "\<exists>st'. cat n (vfs_os i base) (prg # names) st = Inr (0, st') \<and> w_out i st' = w_out i st @ concat bss"
proof -
  obtain st' where "runs (each_file (vfs_os i base) (copy_loop id n (vfs_os i base)) (prg # names) names) st 0 st'"
      "w_out i st' = w_out i st @ map id (concat bss)"
    by (rule files.each_file_copies [OF contents_short [OF assms(2,4)], of 0 id id]) (use assms(1) in auto)
  then show ?thesis by (simp add: cat_cap_files [OF assms(3)] runs_def)
qed

text \<open>\<^verbatim>\<open>cap\<close> does the same with capital letters.\<close>

lemma cap_capitalises_files:
  assumes "w_ready i (length (concat bss)) st" and "list_all2 (\<lambda>name bs. w_content i st name = Some bs) names bss"
    and "names \<noteq> []" and "127 < n"
  shows "\<exists>st'. cap n (vfs_os i base) (prg # names) st = Inr (0, st') \<and> w_out i st' = w_out i st @ map upper (concat bss)"
proof -
  have "w_ready i (0 + length (concat bss)) st" using assms(1) by simp
  then obtain st' where "runs (each_file (vfs_os i base) (copy_loop capital n (vfs_os i base)) (prg # names) names) st 0 st'"
      "w_out i st' = w_out i st @ map upper (concat bss)"
    by (rule files.each_file_copies [OF contents_short [OF assms(2,4)] _ capital_scast upper_eof])
  then show ?thesis by (simp add: cat_cap_files [OF assms(3)] runs_def)
qed

text \<open>A task with the file 1 as its output, and the file 2 with two characters.\<close>

definition cat_files :: world where
  "cat_files = turns [(turn 0x300 (mknod_req 1 0x700 blank_vfsmsg))\<lparr>i_str := \<lambda>_. [0x78]\<rparr>,
     (turn 0x300 (mknod_req 1 0x700 blank_vfsmsg))\<lparr>i_str := \<lambda>_. [0x79]\<rparr>,
     turn 0x300 (open_req (1, 1) blank_vfsmsg), turn 0x300 (open_req (1, 2) blank_vfsmsg),
     turn 0x300 (writec_req 2 0x68 blank_vfsmsg), turn 0x300 (writec_req 2 0x69 blank_vfsmsg)] system_state"

theorem cat_concatenates_files_witness:
  "\<exists>st'. cat 128 (vfs_os (turn 0x300 blank_vfsmsg) no_os) [ascii ''cat'', ascii ''1/2'', ascii ''1/2''] cat_files = Inr (0, st') \<and>
     w_out (turn 0x300 blank_vfsmsg) st' = ascii ''hihi''"
proof -
  let ?i = "turn 0x300 blank_vfsmsg" and ?nd = "the (snd (devs cat_files) ! 0)" and ?md = "the (snd (devs cat_files) ! 1)"
  have "std_at ?i 0 ?nd 0 1 ?md 0 cat_files" "spare ?i cat_files" by code_simp+
  then have "w_ready ?i (length (concat [ascii ''hi'', ascii ''hi''])) cat_files" by (auto intro: w_readyI)
  moreover have "w_content ?i cat_files (ascii ''1/2'') = Some (ascii ''hi'')" "w_out ?i cat_files = []" by code_simp+
  ultimately show ?thesis
    using cat_concatenates_files [of ?i "[ascii ''hi'', ascii ''hi'']" cat_files "[ascii ''1/2'', ascii ''1/2'']" 128 no_os "ascii ''cat''"] by simp
qed

end
