(* ===== verification/Xargs_Props.thy ===== *)
theory Xargs_Props
  imports Apps_Props
begin

text \<open>\<^verbatim>\<open>xargs\<close> of \<^verbatim>\<open>usr/apps.c\<close>: the words of the input become arguments of the command.\<close>

section \<open>The words of the input\<close>

definition xblank :: "byte \<Rightarrow> bool" where
  "xblank c \<longleftrightarrow> c = 0x20 \<or> c = 9 \<or> c = 10 \<or> c = 13"

text \<open>\<open>acc\<close> is the word that has begun.\<close>

fun xwords :: "byte list \<Rightarrow> byte list \<Rightarrow> byte list list" where
  "xwords acc [] = (if acc = [] then [] else [acc])"
| "xwords acc (c # cs) =
     (if xblank c then if acc = [] then xwords [] cs else acc # xwords [] cs
      else xwords (acc @ [c]) cs)"

definition stored :: "byte list list \<Rightarrow> byte list" where
  "stored ws = concat (map (\<lambda>w. w @ [0]) ws)"

primrec offs :: "nat \<Rightarrow> byte list list \<Rightarrow> nat list" where
  "offs k [] = []"
| "offs k (w # ws) = k # offs (k + length w + 1) ws"

lemma stored_simps [simp]: "stored [] = []" "stored (w # ws) = w @ 0 # stored ws" "stored (ws @ vs) = stored ws @ stored vs"
  by (simp_all add: stored_def)

lemma offs_snoc: "offs k (ws @ [w]) = offs k ws @ [k + length (stored ws)]"
  by (induction ws arbitrary: k) (simp_all add: add.assoc)

lemma xwords_acc: "acc \<noteq> [] \<Longrightarrow> \<exists>v rest. xwords acc cs = (acc @ v) # rest"
proof (induction acc cs rule: xwords.induct)
  case (2 acc c cs)
  then show ?case by (cases "xblank c") auto
qed simp

section \<open>The state of the loop\<close>

text \<open>\<open>as\<close> are the arguments of \<^verbatim>\<open>xargs\<close>, \<open>ws\<close> the words that are complete, \<open>acc\<close> is the word that has begun.\<close>

definition xstate :: "byte list list \<Rightarrow> byte list list \<Rightarrow> byte list \<Rightarrow> xargs_st \<Rightarrow> bool" where
  "xstate as ws acc st \<longleftrightarrow> length (x_buf st) = 256 \<and> x_i st = length (stored ws) + length acc \<and>
     take (x_i st) (x_buf st) = stored ws @ acc \<and>
     x_lastwrd st = (if acc = [] then None else Some (length (stored ws))) \<and>
     x_ac st = length as + length ws \<and> x_ac st \<le> 16 \<and>
     x_args st = map (Some \<circ> ArgvP) as @ map (Some \<circ> BufP) (offs 0 ws) @ replicate (16 - x_ac st) None"

lemma length_offs [simp]: "length (offs k ws) = length ws"
  by (induction ws arbitrary: k) simp_all

lemma xargs_letter:
  assumes "xstate as ws acc st" "\<not> xblank c" "c \<noteq> 0xFF" "x_i st < 256"
  obtains st' where "xargs_char (scast c) st = Some st'" "xstate as ws (acc @ [c]) st'"
proof -
  have "(scast c :: cint) \<notin> {0x20, 9, 10, 13, EOF}"
    using assms(2,3) scast_eq_iff [of c 32] scast_eq_iff [of c 9] scast_eq_iff [of c 10] scast_eq_iff [of c 13]
    by (auto simp: xblank_def scast_EOF)
  then have "xargs_char (scast c) st = Some (st\<lparr>x_lastwrd := (if x_lastwrd st = None then Some (x_i st) else x_lastwrd st),
      x_buf := (x_buf st)[x_i st := c], x_i := x_i st + 1\<rparr>)"
    using assms(1,4) by (simp add: xargs_char_def xstate_def scast_back)
  moreover have "take (Suc (x_i st)) ((x_buf st)[x_i st := c]) = take (x_i st) (x_buf st) @ [c]"
    using assms(1,4) by (simp add: xstate_def take_Suc_conv_app_nth)
  ultimately show thesis using assms(1) by (intro that) (auto simp: xstate_def)
qed

lemma xargs_blank:
  assumes "xstate as ws acc st" "d = EOF \<or> (\<exists>c. d = scast c \<and> xblank c)"
    and "acc \<noteq> [] \<Longrightarrow> x_i st < 256 \<and> length as + length ws < 16"
  obtains st' where "xargs_char d st = Some st'" "xstate as (if acc = [] then ws else ws @ [acc]) [] st'"
proof -
  have d: "d = 0x20 \<or> d = 9 \<or> d = 10 \<or> d = 13 \<or> d = EOF" using assms(2) by (auto simp: xblank_def)
  show thesis
  proof (cases "acc = []")
    case True
    then show ?thesis using d assms(1) by (intro that [of st]) (simp_all only: xargs_char_def, auto simp: xstate_def)
  next
    case False
    let ?args = "(x_args st)[x_ac st := Some (BufP (length (stored ws)))]"
    let ?st = "st\<lparr>x_args := ?args, x_ac := x_ac st + 1, x_lastwrd := None, x_buf := (x_buf st)[x_i st := 0], x_i := x_i st + 1\<rparr>"
    have lt: "x_i st < 256" "x_ac st < 16" using False assms(1,3) by (auto simp: xstate_def)
    have "16 - x_ac st = Suc (16 - (x_ac st + 1))" using lt(2) by simp
    then have r: "replicate (16 - x_ac st) None = None # replicate (16 - (x_ac st + 1)) (None :: xptr option)" by (metis replicate_Suc)
    have a: "?args = map (Some \<circ> ArgvP) as @ map (Some \<circ> BufP) (offs 0 (ws @ [acc])) @ replicate (16 - (x_ac st + 1)) None"
      using assms(1) r by (auto simp: xstate_def offs_snoc list_update_append)
    have "take (Suc (x_i st)) ((x_buf st)[x_i st := 0]) = take (x_i st) (x_buf st) @ [0]"
      using assms(1) lt by (simp add: xstate_def take_Suc_conv_app_nth)
    then have "xstate as (ws @ [acc]) [] ?st" using assms(1) lt a by (auto simp: xstate_def)
    moreover have "xargs_char d st = Some ?st" using d lt assms(1) False by (simp add: xargs_char_def xstate_def)
    ultimately show ?thesis using False by (intro that [of ?st]) auto
  qed
qed

section \<open>The new argument vector\<close>

lemma xptr_word:
  assumes "drop k buf = w @ 0 # rest" "0 \<notin> set w"
  shows "xptr_str buf (BufP k) = Some w"
proof -
  have "\<forall>c \<in> set w. c \<noteq> 0" using assms(2) by metis
  then have "cstr buf k = w" unfolding cstr_def assms(1) by (simp add: takeWhile_append2)
  then show ?thesis by (simp add: assms(1))
qed

lemma xargs_argv_words:
  assumes "drop k buf = stored ws @ rest" "\<forall>w \<in> set ws. 0 \<notin> set w"
  shows "xargs_argv buf (map (Some \<circ> BufP) (offs k ws) @ None # ps) = Some ws"
  using assms
proof (induction ws arbitrary: k)
  case (Cons w ws)
  have w: "xptr_str buf (BufP k) = Some w" using Cons.prems by (intro xptr_word) auto
  have "drop (k + length w + 1) buf = drop (length w + 1) (drop k buf)" by (simp add: ac_simps)
  also have "\<dots> = stored ws @ rest" unfolding Cons.prems(1) by simp
  finally show ?case using Cons w by simp
qed simp

lemma xargs_argv_prefix: "xargs_argv buf (map (Some \<circ> ArgvP) as @ ps) = map_option ((@) as) (xargs_argv buf ps)"
  by (induction as) (auto simp: option.map_comp comp_def option.map_ident split: Option.bind_splits)

lemma xargs_argv_state:
  assumes "xstate as ws [] st" "length as + length ws < 16" "\<forall>w \<in> set ws. 0 \<notin> set w"
  shows "xargs_argv (x_buf st) (x_args st) = Some (as @ ws)"
proof -
  have "16 - x_ac st = Suc (15 - x_ac st)" using assms(1,2) by (auto simp: xstate_def)
  then have r: "replicate (16 - x_ac st) None = None # replicate (15 - x_ac st) (None :: xptr option)" by (metis replicate_Suc)
  have "drop 0 (x_buf st) = stored ws @ drop (x_i st) (x_buf st)"
    using assms(1) by (metis (no_types, lifting) append_Nil2 append_take_drop_id drop0 xstate_def)
  from xargs_argv_words [OF this assms(3)] have "xargs_argv (x_buf st) (map (Some \<circ> BufP) (offs 0 ws) @ replicate (16 - x_ac st) None) = Some ws"
    unfolding r .
  then show ?thesis using assms(1) by (simp only: xstate_def xargs_argv_prefix) simp
qed

lemma xargs_copy_args:
  assumes "length (x_args st) = 16" "x_ac st + length as \<le> 16"
  shows "xargs_copy as st = Some (st\<lparr>x_args := take (x_ac st) (x_args st) @ map (Some \<circ> ArgvP) as @ drop (x_ac st + length as) (x_args st),
    x_ac := x_ac st + length as\<rparr>)"
  using assms
proof (induction as arbitrary: st)
  case (Cons a as)
  let ?st = "st\<lparr>x_args := (x_args st)[x_ac st := Some (ArgvP a)], x_ac := x_ac st + 1\<rparr>"
  have "xargs_copy (a # as) st = xargs_copy as ?st" using Cons.prems by simp
  also have "\<dots> = Some (?st\<lparr>x_args := take (x_ac ?st) (x_args ?st) @ map (Some \<circ> ArgvP) as @ drop (x_ac ?st + length as) (x_args ?st),
      x_ac := x_ac ?st + length as\<rparr>)" using Cons.prems by (intro Cons.IH) simp_all
  also have "\<dots> = Some (st\<lparr>x_args := take (x_ac st) (x_args st) @ map (Some \<circ> ArgvP) (a # as) @ drop (x_ac st + length (a # as)) (x_args st),
      x_ac := x_ac st + length (a # as)\<rparr>)" using Cons.prems by (simp add: take_Suc_conv_app_nth)
  finally show ?case .
qed simp

lemma xargs_start:
  assumes "length as \<le> 16" "length buf = 256"
  obtains st where "xargs_copy as \<lparr>x_args = replicate 16 None, x_ac = 0, x_buf = buf, x_i = 0, x_lastwrd = None\<rparr> = Some st" "xstate as [] [] st"
  using assms by (simp add: xargs_copy_args xstate_def)

section \<open>The program\<close>

context stdio
begin

lemma xargs_loop_words:
  assumes "ready k w" "xstate as ws acc st" "length as + length (ws @ xwords acc (inp w)) \<le> 16" "length (stored (ws @ xwords acc (inp w))) \<le> 256"
    "length (inp w) < n"
  obtains st' w' where "runs (xargs_loop n os st) w st' w'" "xstate as (ws @ xwords acc (inp w)) [] st'"
    "inp w' = []" "out w' = out w" "others w' = others w" "ready k w'"
  using assms
proof (induction n arbitrary: w ws acc st thesis)
  case (Suc n)
  have i: "x_i st = length (stored ws) + length acc" using Suc.prems(3) by (simp add: xstate_def)
  show ?case
  proof (cases "inp w")
    case Nil
    from getc_end [OF Suc.prems(2) Nil] obtain w' where w': "runs (mgetc os) w EOF w'" "inp w' = []" "out w' = out w" "others w' = others w" "ready k w'" .
    have "acc \<noteq> [] \<Longrightarrow> x_i st < 256 \<and> length as + length ws < 16" using Suc.prems(4,5) Nil i by simp
    from xargs_blank [OF Suc.prems(3) _ this, of EOF] obtain st' where st': "xargs_char EOF st = Some st'"
        "xstate as (if acc = [] then ws else ws @ [acc]) [] st'" by auto
    have "runs (xargs_loop (Suc n) os st) w st' w'" unfolding xargs_loop.simps by (rule runs_andthen [OF w'(1)]) (simp add: st'(1))
    then show ?thesis using st'(2) w' Nil by (intro Suc.prems(1) [of st' w']) auto
  next
    case (Cons c cs)
    from getc_char [OF Suc.prems(2) Cons] obtain u where u: "runs (mgetc os) w (scast c) u" "inp u = cs" "out u = out w" "others u = others w" "ready k u" "scast c \<noteq> EOF" .
    define ws1 where "ws1 = (if xblank c \<and> acc \<noteq> [] then ws @ [acc] else ws)"
    define acc1 where "acc1 = (if xblank c then [] else acc @ [c])"
    have e: "ws1 @ xwords acc1 cs = ws @ xwords acc (inp w)" using Cons by (auto simp: ws1_def acc1_def)
    have ff: "c \<noteq> 0xFF" using u(6) by (simp add: scast_EOF)
    obtain st1 where st1: "xargs_char (scast c) st = Some st1" "xstate as ws1 acc1 st1"
    proof (cases "xblank c")
      case True
      then have "acc \<noteq> [] \<Longrightarrow> x_i st < 256 \<and> length as + length ws < 16" using Suc.prems(4,5) Cons i by simp
      moreover have "(scast c :: cint) = EOF \<or> (\<exists>c'. (scast c :: cint) = scast c' \<and> xblank c')" using True by blast
      ultimately obtain st1 where "xargs_char (scast c) st = Some st1" "xstate as (if acc = [] then ws else ws @ [acc]) [] st1"
        using xargs_blank [OF Suc.prems(3)] by blast
      then show ?thesis using True by (intro that [of st1]) (auto simp: ws1_def acc1_def)
    next
      case False
      then obtain v rest where "xwords acc (inp w) = (acc @ [c] @ v) # rest" using xwords_acc [of "acc @ [c]" cs] Cons by auto
      then have "x_i st < 256" using Suc.prems(5) i by simp
      from xargs_letter [OF Suc.prems(3) False ff this] obtain st1 where "xargs_char (scast c) st = Some st1" "xstate as ws (acc @ [c]) st1" .
      then show ?thesis using False by (intro that [of st1]) (auto simp: ws1_def acc1_def)
    qed
    obtain st' w' where w': "runs (xargs_loop n os st1) u st' w'" "xstate as (ws1 @ xwords acc1 cs) [] st'"
        "inp w' = []" "out w' = out u" "others w' = others u" "ready k w'"
      using Suc.IH [OF _ u(5) st1(2)] Suc.prems(4-6) Cons u(2) e by auto
    have "runs (xargs_loop (Suc n) os st) w st' w'" unfolding xargs_loop.simps
      by (rule runs_andthen [OF u(1)]) (use st1(1) u(6) w'(1) in simp)
    then show ?thesis using w' u e by (intro Suc.prems(1) [of st' w']) auto
  qed
qed simp

end

lemma words_nonzero: "0 \<notin> set acc \<Longrightarrow> 0 \<notin> set cs \<Longrightarrow> v \<in> set (xwords acc cs) \<Longrightarrow> 0 \<notin> set v"
  by (induction acc cs rule: xwords.induct) (auto split: if_splits)

context stdio_mem
begin

lemma xargs_becomes:
  assumes "ready k w" "as \<noteq> []" "length as + length (xwords [] (inp w)) < 16" "length (stored (xwords [] (inp w))) \<le> 256"
    "length (inp w) < n" "0 \<notin> set (inp w)"
    and exec: "\<And>u. ready k u \<Longrightarrow> \<exists>v. os_execv os (hd as) (as @ xwords [] (inp w)) u = Some (True, v)"
  shows "\<exists>v. stops (xargs n os (prg # as)) w (Became (hd as) (as @ xwords [] (inp w))) v"
proof -
  let ?ws = "xwords [] (inp w)"
  have n: "\<not> sint (nargs (prg # as)) < 2" using assms(2,3) by (cases as) (simp_all add: nargs_def sint_small del: of_nat_Suc)
  obtain p buf u where u: "runs (sys (os_pmmalloc os 256)) w (p, buf) u" "p \<noteq> NULL" "length buf = unat (256 :: cint)"
      "inp u = inp w" "out u = out w" "others u = others w" "ready k u"
    by (rule malloc_runs [OF assms(1), where k = 256]) simp
  have "length as \<le> 16" "length buf = 256" using assms(3) u(3) by simp_all
  from xargs_start [OF this] obtain st where st: "xargs_copy as \<lparr>x_args = replicate 16 None, x_ac = 0, x_buf = buf, x_i = 0, x_lastwrd = None\<rparr> = Some st"
      "xstate as [] [] st" .
  have fit: "length as + length ([] @ xwords [] (inp u)) \<le> 16" "length (stored ([] @ xwords [] (inp u))) \<le> 256" "length (inp u) < n"
    using assms(3-5) u(4) by simp_all
  from xargs_loop_words [OF u(7) st(2) fit] obtain st' v where v: "runs (xargs_loop n os st) u st' v"
      "xstate as ([] @ xwords [] (inp u)) [] st'" "inp v = []" "out v = out u" "others v = others u" "ready k v" .
  have args: "xargs_argv (x_buf st') (x_args st') = Some (as @ ?ws)"
    using v(2) u(4) assms(3,6) words_nonzero [of "[]" "inp w"] by (intro xargs_argv_state) auto
  obtain x where "os_execv os (hd as) (as @ ?ws) v = Some (True, x)" using exec [OF v(6)] by blast
  then have x: "stops (execv os (hd as) (as @ ?ws)) v (Became (hd as) (as @ ?ws)) x" by (rule stops_execv)
  have hd: "at (as @ ?ws) 0 = Some (hd as)" using assms(2) at_of_nat [of 0 "as @ ?ws"] assms(3) by (cases as) auto
  have "stops (xargs n os (prg # as)) w (Became (hd as) (as @ ?ws)) x"
    unfolding xargs_def if_not_P [OF n]
    by (rule stops_andthen [OF u(1)]) (simp only: prod.case if_not_P [OF u(2)] list.sel drop_Suc drop_0 One_nat_def st(1) lift_simps prog_simps,
      rule stops_andthen [OF v(1)], simp only: args lift_simps prog_simps hd, rule stops_first [OF x])
  then show ?thesis by blast
qed

end

end
