(* ===== verification/User_Props.thy ===== *)
theory User_Props
  imports Vfs_World Xargs_Props
begin

unbundle bit_operations_syntax

text \<open>
  The user programs that need memory and options, on the files of the system: \<^verbatim>\<open>grep\<close>, \<^verbatim>\<open>xargs\<close> and \<^verbatim>\<open>echo\<close>. The calls
  that do not go to the file system are a parameter \<open>base\<close>; of these, \<^verbatim>\<open>pmmalloc\<close> and \<^verbatim>\<open>pmfree\<close> are assumed to succeed.
\<close>

section \<open>Memory\<close>

definition allocs :: "world os \<Rightarrow> bool" where
  "allocs base \<longleftrightarrow> (\<forall>k \<in> {6, 128, 256}. \<forall>w. \<exists>p buf. os_pmmalloc base k w = Some ((p, buf), w) \<and> p \<noteq> NULL \<and> length buf = unat k) \<and>
     (\<forall>p w. os_pmfree base p w = Some ((), w))"

lemma files_mem:
  assumes "allocs base"
  shows "stdio_mem (vfs_os i base) (w_inp i) (w_out i) (w_content i) (w_ready i)"
proof unfold_locales
  fix n w and k :: cint assume k: "k \<in> {6, 128, 256}" and "w_ready i n w"
  moreover obtain p buf where "os_pmmalloc base k w = Some ((p, buf), w)" "p \<noteq> NULL" "length buf = unat k"
    using assms k unfolding allocs_def by blast
  ultimately show "\<exists>p buf w'. os_pmmalloc (vfs_os i base) k w = Some ((p, buf), w') \<and> p \<noteq> NULL \<and> length buf = unat k \<and>
      w_inp i w' = w_inp i w \<and> w_out i w' = w_out i w \<and> w_content i w' = w_content i w \<and> w_ready i n w'" by auto
next
  fix n w p assume "w_ready i n w"
  then show "\<exists>w'. os_pmfree (vfs_os i base) p w = Some ((), w') \<and>
      w_inp i w' = w_inp i w \<and> w_out i w' = w_out i w \<and> w_content i w' = w_content i w \<and> w_ready i n w'"
    using assms by (auto simp: allocs_def)
qed

text \<open>Calls with a fixed block of zeros as memory, in which every \<^verbatim>\<open>execv\<close> succeeds.\<close>

definition heap_os :: "world os \<Rightarrow> world os" where
  "heap_os base = base\<lparr>os_pmmalloc := \<lambda>k w. Some ((0x1000, replicate (unat k) 0), w), os_pmfree := \<lambda>_ w. Some ((), w),
     os_execv := \<lambda>_ _ w. Some (True, w)\<rparr>"

lemma heap_allocs: "allocs (heap_os base)"
  by (simp add: allocs_def heap_os_def)

interpretation mem: stdio_mem "vfs_os i (heap_os base)" "w_inp i" "w_out i" "w_content i" "w_ready i" for i base
  by (rule files_mem [OF heap_allocs])

section \<open>Options\<close>

lemma getopt_stops:
  assumes "sp g = 1" "optind g = of_nat k" "k \<le> length argv" "length argv < 32768"
    and "k < length argv \<Longrightarrow> argv ! k = [] \<or> hd (argv ! k) \<noteq> 0x2D"
  shows "getopt wr argv opts g = ret (EOF, g)"
proof (cases "k < length argv")
  case True
  then have "at argv (of_nat k) = Some (argv ! k)" using at_of_nat [OF True] assms(4) by simp
  moreover have "at (argv ! k @ [0]) 0 = Some (case argv ! k of [] \<Rightarrow> 0 | c # _ \<Rightarrow> c)"
    by (cases "argv ! k") (simp_all add: at_def idx_def)
  ultimately show ?thesis using assms True by (auto simp: getopt_def nargs_def sint_small arg_char_def split: list.splits)
qed (use assms in \<open>simp add: getopt_def nargs_def sint_small\<close>)

lemma getopt_letter_alone:
  assumes "sp g = 1" "optind g = of_nat k" "k < length argv" "length argv < 32768" "argv ! k = [0x2D, l]" "l \<notin> {0, 0x2D, 0x3A}"
  shows "getopt wr argv [l] g = ret (scast l, g\<lparr>optind := of_nat (Suc k), sp := 1, optarg := None\<rparr>)"
proof -
  have a: "at argv (of_nat k) = Some [0x2D, l]" using at_of_nat [OF assms(3)] assms(4,5) by simp
  have "at [0x2D, l, 0] 0 = Some 0x2D" "at [0x2D, l, 0] 1 = Some l" "at [0x2D, l, 0] (1 + 1) = Some 0"
    by (simp_all add: at_def idx_def)
  then show ?thesis using assms a
    by (simp add: getopt_def next_char_def nargs_def sint_small arg_char_def strchr_def add.commute)
qed

text \<open>\<open>flag\<close> says whether the one option is given.\<close>

definition flagged :: "byte \<Rightarrow> bool \<Rightarrow> byte list \<Rightarrow> byte list list \<Rightarrow> byte list list" where
  "flagged l flag prg args = prg # (if flag then [[0x2D, l]] else []) @ args"

lemma flagged_options:
  fixes os :: "'w os" and prg :: "byte list"
  assumes args: "args = [] \<or> hd args = [] \<or> hd (hd args) \<noteq> 0x2D" "length args < 32000"
    and n: "1 < n" and l: "l \<notin> {0, 0x2D, 0x3A, 0x3F, 0xFF}"
  obtains g where "opt_loop n os (flagged l flag prg args) [l] (opt_flag os p (scast l) 1) initgetopt 0 = ret (if flag then 1 else 0, g)"
    "args_from (flagged l flag prg args) (optind g) = (ret args :: ('w, byte list list) prog)"
proof -
  let ?argv = "flagged l flag prg args" and ?k = "if flag then 2 else Suc 0"
  let ?g = "initgetopt\<lparr>optind := of_nat ?k\<rparr>"
  obtain m where m: "n = Suc (Suc m)" using n by (auto dest!: less_imp_Suc_add)
  have "?argv ! ?k = args ! 0" if "args \<noteq> []" using that by (cases flag) (simp_all add: flagged_def numeral_2_eq_2)
  then have rest: "?argv ! ?k = [] \<or> hd (?argv ! ?k) \<noteq> 0x2D" if "?k < length ?argv"
    using that args(1) by (cases args) (auto simp: flagged_def split: if_splits)
  have len: "?k \<le> length ?argv" "length ?argv < 32768" using args(2) by (auto simp: flagged_def)
  have s: "getopt wr ?argv opts ?g = ret (EOF, ?g)" for wr :: "'w writer" and opts
    by (rule getopt_stops [OF _ _ len rest]) (simp_all add: initgetopt_def)
  have e: "(scast l :: cint) \<noteq> EOF" using l by (simp add: scast_EOF)
  have "opt_loop n os ?argv [l] (opt_flag os p (scast l) 1) initgetopt 0 = ret (if flag then 1 else 0, ?g)"
  proof (cases flag)
    case True
    have "getopt (os_writec os) ?argv [l] initgetopt = ret (scast l, ?g)"
      using getopt_letter_alone [of initgetopt 1 ?argv l "os_writec os"] l len True by (simp add: initgetopt_def flagged_def)
    then show ?thesis using s [of "os_writec os" "[l]"] True e by (simp add: m opt_flag_def)
  next
    case False
    then have "?g = initgetopt" by (simp add: initgetopt_def)
    then show ?thesis using s [of "os_writec os" "[l]"] False by (simp add: m)
  qed
  moreover have "args_from ?argv (optind ?g) = (ret args :: ('w, byte list list) prog)"
    by (cases flag) (simp_all add: args_from_def flagged_def)
  ultimately show thesis by (rule that)
qed

text \<open>What \<^verbatim>\<open>echo\<close> writes: a blank follows every argument.\<close>

definition echo_text :: "byte list list \<Rightarrow> bool \<Rightarrow> byte list" where
  "echo_text args nonl = concat (map (\<lambda>a. a @ [0x20]) args) @ (if nonl then [] else [10])"

lemma mfprintf_plain: "0x25 \<notin> set fmt \<Longrightarrow> mfprintf wr fd fmt ap = emit wr fd (map scast fmt)"
  by (induction fmt) auto

lemma echo_args_emit:
  "\<forall>a \<in> set args. 0x25 \<notin> set a \<Longrightarrow> echo_args os args = emit (os_writec os) 1 (map scast (concat (map (\<lambda>a. a @ [0x20]) args)))"
  by (induction args) (simp_all add: mfprintf_plain emit_append)

context stdio_mem
begin

text \<open>The start of a program with one option.\<close>

lemma new_getopt_runs:
  assumes "ready n w"
  obtains p w' where "runs (new_getopt os) w (p, initgetopt) w'" "inp w' = inp w" "out w' = out w" "others w' = others w" "ready n w'"
proof -
  obtain p buf w' where "runs (sys (os_pmmalloc os 6)) w (p, buf) w'" "p \<noteq> NULL" "length buf = unat (6 :: cint)"
      "inp w' = inp w" "out w' = out w" "others w' = others w" "ready n w'"
    by (rule malloc_runs [OF assms, where k = 6]) simp
  moreover from this have "runs (new_getopt os) w (p, initgetopt) w'"
    unfolding new_getopt_def by (intro runs_andthen) (auto simp: massert_def)
  ultimately show thesis using that by blast
qed

text \<open>The rest of a program with one option, when the option is parsed.\<close>

lemma after_options:
  assumes "ready k w" "args = [] \<or> hd args = [] \<or> hd (hd args) \<noteq> 0x2D" "length args < 32000" "1 < n" "l \<notin> {0, 0x2D, 0x3A, 0x3F, 0xFF}"
  obtains v where "inp v = inp w" "out v = out w" "others v = others w" "ready k v"
    "\<And>(rest :: cint \<Rightarrow> byte list list \<Rightarrow> ('w, cint) prog) r w'. runs (rest (if flag then 1 else 0) args) v r w' \<Longrightarrow>
      runs (andthen (new_getopt os) (\<lambda>(p, g).
        andthen (opt_loop n os (flagged l flag prg args) [l] (opt_flag os p (scast l) 1) g 0) (\<lambda>(opt, g').
        andthen (sys (os_pmfree os p)) (\<lambda>_. andthen (args_from (flagged l flag prg args) (optind g')) (rest opt))))) w r w'"
proof -
  obtain p u where u: "runs (new_getopt os) w (p, initgetopt) u" "inp u = inp w" "out u = out w" "others u = others w" "ready k u"
    by (rule new_getopt_runs [OF assms(1)])
  obtain g where g: "opt_loop n os (flagged l flag prg args) [l] (opt_flag os p (scast l) 1) initgetopt 0 = ret (if flag then 1 else 0, g)"
      "args_from (flagged l flag prg args) (optind g) = (ret args :: ('w, byte list list) prog)"
    by (rule flagged_options [OF assms(2-5), of os flag prg p])
  obtain v where v: "runs (sys (os_pmfree os p)) u () v" "inp v = inp u" "out v = out u" "others v = others u" "ready k v"
    by (rule free_runs [OF u(5)])
  show thesis
  proof (rule that [of v])
    fix rest :: "cint \<Rightarrow> byte list list \<Rightarrow> ('w, cint) prog" and r w'
    assume "runs (rest (if flag then 1 else 0) args) v r w'"
    then show "runs (andthen (new_getopt os) (\<lambda>(p, g).
        andthen (opt_loop n os (flagged l flag prg args) [l] (opt_flag os p (scast l) 1) g 0) (\<lambda>(opt, g').
        andthen (sys (os_pmfree os p)) (\<lambda>_. andthen (args_from (flagged l flag prg args) (optind g')) (rest opt))))) w r w'"
      by (intro runs_andthen [OF u(1)]) (simp only: prod.case g prog_simps, rule runs_andthen [OF v(1)], simp only: g(2) prog_simps)
  qed (use u v in simp_all)
qed

lemma grep_lines:
  assumes "ready (k + length (unlines (filter (selected re (if nots then 1 else 0)) ls))) w" "inp w = unlines ls" "\<forall>l \<in> set ls. text_line l"
    "length (inp w) + 1 < n" "re = [] \<or> hd re \<noteq> 0x2D"
  obtains w' where "runs (grep n os (flagged 0x76 nots prg [re])) w (if \<exists>l \<in> set ls. l \<noteq> [] \<and> strstr l re then 0 else 1) w'"
    "out w' = out w @ unlines (filter (selected re (if nots then 1 else 0)) ls)" "ready k w'"
proof -
  have c: "ascii ''v'' = [0x76]" "(0x76 :: cint) = scast (0x76 :: byte)" "GREP_INV = 1" by (simp_all add: GREP_INV_def)
  obtain v where v: "inp v = inp w" "out v = out w" "others v = others w" "ready (k + length (unlines (filter (selected re (if nots then 1 else 0)) ls))) v"
    "\<And>(rest :: cint \<Rightarrow> byte list list \<Rightarrow> ('w, cint) prog) r w'. runs (rest (if nots then 1 else 0) [re]) v r w' \<Longrightarrow>
      runs (andthen (new_getopt os) (\<lambda>(p, g).
        andthen (opt_loop n os (flagged 0x76 nots prg [re]) [0x76] (opt_flag os p (scast (0x76 :: byte)) 1) g 0) (\<lambda>(opt, g').
        andthen (sys (os_pmfree os p)) (\<lambda>_. andthen (args_from (flagged 0x76 nots prg [re]) (optind g')) (rest opt))))) w r w'"
    by (rule after_options [OF assms(1), of "[re]" n "0x76" nots prg]) (use assms(4,5) in auto)
  have iv: "inp v = unlines ls" "length (inp v) + 1 < n" "(0 :: cint) \<noteq> EOF" using v(1) assms(2,4) by (simp_all add: EOF_def)
  obtain w' where w': "runs (dogrep n os re (if nots then 1 else 0) 0 1) v (if \<exists>l \<in> set ls. l \<noteq> [] \<and> strstr l re then 0 else 1) w'"
      "inp w' = []" "out w' = out v @ unlines (filter (selected re (if nots then 1 else 0)) ls)" "others w' = others v" "ready k w'"
    by (rule dogrep_lines [OF v(4) iv(1) assms(3) iv(2,3)])
  have "runs (grep n os (flagged 0x76 nots prg [re])) w (if \<exists>l \<in> set ls. l \<noteq> [] \<and> strstr l re then 0 else 1) w'"
    unfolding grep_def c by (rule v(5)) (use w'(1) in \<open>simp only: list.case simp_thms if_True\<close>)
  then show thesis using w' v by (intro that [of w']) auto
qed

lemma echo_prints:
  assumes "ready (k + length (echo_text args nonl)) w" "\<forall>a \<in> set args. 0x25 \<notin> set a \<and> 0xFF \<notin> set a"
    "args = [] \<or> hd args = [] \<or> hd (hd args) \<noteq> 0x2D" "length args < 32000" "1 < n"
  obtains w' where "runs (echo n os (flagged 0x6E nonl prg args)) w 0 w'" "out w' = out w @ echo_text args nonl" "ready k w'"
proof -
  have c: "ascii ''n'' = [0x6E]" "(0x6E :: cint) = scast (0x6E :: byte)" "ECHO_N = 1" by (simp_all add: ECHO_N_def)
  obtain v where v: "inp v = inp w" "out v = out w" "others v = others w" "ready (k + length (echo_text args nonl)) v"
    "\<And>(rest :: cint \<Rightarrow> byte list list \<Rightarrow> ('w, cint) prog) r w'. runs (rest (if nonl then 1 else 0) args) v r w' \<Longrightarrow>
      runs (andthen (new_getopt os) (\<lambda>(p, g).
        andthen (opt_loop n os (flagged 0x6E nonl prg args) [0x6E] (opt_flag os p (scast (0x6E :: byte)) 1) g 0) (\<lambda>(opt, g').
        andthen (sys (os_pmfree os p)) (\<lambda>_. andthen (args_from (flagged 0x6E nonl prg args) (optind g')) (rest opt))))) w r w'"
    by (rule after_options [OF assms(1,3-5), of "0x6E" nonl prg]) auto
  define ds :: "cint list" where "ds = map scast (echo_text args nonl)"
  have "0xFF \<notin> set (echo_text args nonl)" using assms(2) by (auto simp: echo_text_def)
  then have e: "EOF \<notin> set ds" unfolding ds_def using scast_EOF by (metis imageE set_map)
  have r: "ready (k + length ds) v" using v(4) by (simp add: ds_def)
  from emits [OF r e] obtain w' where w': "runs (emit (os_writec os) 1 ds) v () w'" "out w' = out v @ map ucast ds" "ready k w'" .
  have "emit (os_writec os) 1 ds = andthen (echo_args os args) (\<lambda>_. if nonl then ret () else mfputc (os_writec os) 1 10)"
    using assms(2) by (simp add: ds_def echo_text_def echo_args_emit emit_append)
  then have "runs (andthen (echo_args os args) (\<lambda>_.
      andthen (if (if nonl then 1 else 0) AND 1 = (0 :: cint) then mfputc (os_writec os) 1 10 else ret ()) (\<lambda>_. ret 0))) v 0 w'"
    using w'(1) by (cases nonl) (auto simp: runs_andthen_iff)
  then have "runs (echo n os (flagged 0x6E nonl prg args)) w 0 w'" unfolding echo_def c by (rule v(5))
  moreover have "map ucast ds = echo_text args nonl" by (simp add: ds_def comp_def scast_back)
  ultimately show thesis using w' v(2) by (intro that [of w']) simp_all
qed

end

section \<open>grep\<close>

text \<open>
  C25. \<^verbatim>\<open>grep\<close> passes over the empty lines of the file on its standard input. Of the lines that are not empty, it
  prints those that contain the pattern, or with \<^verbatim>\<open>-v\<close> those that do not, in order, and returns 0 if any of them
  contains it and 1 otherwise. So \<^verbatim>\<open>-v\<close> does not print an empty line, and an empty line is no match of the empty
  pattern, although the comment in the code takes a line of length 0 for the end of the file.
  (The pattern does not start with a dash; every line ends with a newline, has less than 128 characters and no null
  character; one turn of the loops for each character and two more are enough.)
\<close>

theorem grep_prints_matching_lines:
  fixes st :: world
  defines "matches re l \<equiv> \<exists>a b. l = a @ re @ b"
  assumes "allocs base" and "w_inp i st = unlines ls" and "\<forall>l \<in> set ls. text_line l" and "length (w_inp i st) + 1 < n"
    and "re = [] \<or> hd re \<noteq> 0x2D" and "w_ready i (length (unlines (filter (\<lambda>l. l \<noteq> [] \<and> matches re l \<noteq> nots) ls))) st"
  shows "\<exists>st'. grep n (vfs_os i base) (flagged 0x76 nots prg [re]) st = Inr (if \<exists>l \<in> set ls. l \<noteq> [] \<and> matches re l then 0 else 1, st') \<and>
    w_out i st' = w_out i st @ unlines (filter (\<lambda>l. l \<noteq> [] \<and> matches re l \<noteq> nots) ls)"
proof -
  have s: "selected re (if nots then 1 else 0) = (\<lambda>l. l \<noteq> [] \<and> matches re l \<noteq> nots)" "strstr l re = matches re l" for l
    by (auto simp: selected_def GREP_INV_def strstr_sublist matches_def fun_eq_iff)
  have r: "w_ready i (0 + length (unlines (filter (selected re (if nots then 1 else 0)) ls))) st" using assms(7) s by simp
  obtain st' where "runs (grep n (vfs_os i base) (flagged 0x76 nots prg [re])) st (if \<exists>l \<in> set ls. l \<noteq> [] \<and> strstr l re then 0 else 1) st'"
      "w_out i st' = w_out i st @ unlines (filter (selected re (if nots then 1 else 0)) ls)"
    by (rule stdio_mem.grep_lines [OF files_mem [OF assms(2)] r assms(3-6)])
  then show ?thesis unfolding s runs_def by blast
qed

section \<open>xargs\<close>

text \<open>
  C26. \<^verbatim>\<open>xargs\<close> becomes the command that its arguments name, with the words of its input as further
  arguments, as long as there are at most 15 arguments in all and the words with their null
  characters fit into the buffer of 256 bytes.
\<close>

theorem xargs_builds_command:
  fixes st :: world
  assumes "allocs base" and "w_ready i 0 st" and "ws = xwords [] (w_inp i st)" and "as \<noteq> []" and "length (as @ ws) < 16"
    and "length (stored ws) \<le> 256" and "length (w_inp i st) < n" and "0 \<notin> set (w_inp i st)"
    and "\<And>w. os_execv base (hd as) (as @ ws) w = Some (True, w)"
  shows "\<exists>st'. xargs n (vfs_os i base) (prg # as) st = Inl (Became (hd as) (as @ ws), st')"
  using stdio_mem.xargs_becomes [OF files_mem [OF assms(1)] assms(2,4) _ _ assms(7,8)] assms(3,5,6,9)
  by (auto simp: stops_def)

text \<open>A task whose input is a file of two lines and whose output is another file.\<close>

definition text_files :: world where
  "text_files = turns ([(turn 0x300 (mknod_req 1 0x700 blank_vfsmsg))\<lparr>i_str := \<lambda>_. [0x78]\<rparr>,
     (turn 0x300 (mknod_req 1 0x700 blank_vfsmsg))\<lparr>i_str := \<lambda>_. [0x79]\<rparr>, turn 0x300 (close_req 0 blank_vfsmsg),
     turn 0x300 (open_req (1, 2) blank_vfsmsg), turn 0x300 (open_req (1, 1) blank_vfsmsg),
     turn 0x300 (open_req (1, 2) blank_vfsmsg)] @
     map (\<lambda>c. turn 0x300 (writec_req 2 c blank_vfsmsg)) [0x61, 0x62, 10, 0x63, 10]) system_state"

lemma text_files_ready:
  "w_ready (turn 0x300 blank_vfsmsg) 10 text_files" "w_inp (turn 0x300 blank_vfsmsg) text_files = unlines [ascii ''ab'', ascii ''c'']"
  "w_out (turn 0x300 blank_vfsmsg) text_files = []"
proof -
  let ?i = "turn 0x300 blank_vfsmsg" and ?nd = "the (snd (devs text_files) ! 2)" and ?md = "the (snd (devs text_files) ! 1)"
  have "std_at ?i 2 ?nd 0 1 ?md 0 text_files" "spare ?i text_files" by code_simp+
  then show "w_ready ?i 10 text_files" by (auto intro: w_readyI)
  show "w_inp ?i text_files = unlines [ascii ''ab'', ascii ''c'']" "w_out ?i text_files = []" by code_simp+
qed

lemma w_ready_less: "w_ready i k st \<Longrightarrow> k' \<le> k \<Longrightarrow> w_ready i k' st"
  unfolding w_ready_def by (meson add_left_mono order_trans)

theorem grep_prints_matching_lines_witness:
  "\<exists>st'. grep 10 (vfs_os (turn 0x300 blank_vfsmsg) (heap_os no_os)) (flagged 0x76 False (ascii ''grep'') [ascii ''b'']) text_files =
     Inr (if \<exists>l \<in> set [ascii ''ab'', ascii ''c'']. l \<noteq> [] \<and> (\<exists>x y. l = x @ ascii ''b'' @ y) then 0 else 1, st')"
proof -
  let ?ls = "[ascii ''ab'', ascii ''c'']" and ?P = "\<lambda>l. l \<noteq> [] \<and> (\<exists>x y. l = x @ ascii ''b'' @ y) \<noteq> False"
  have "length (unlines (filter ?P ?ls)) \<le> 10" by (auto split: if_splits)
  then have r: "w_ready (turn 0x300 blank_vfsmsg) (length (unlines (filter ?P ?ls))) text_files" by (rule w_ready_less [OF text_files_ready(1)])
  have "\<forall>l \<in> set ?ls. text_line l" "length (w_inp (turn 0x300 blank_vfsmsg) text_files) + 1 < 10" "ascii ''b'' = [] \<or> hd (ascii ''b'') \<noteq> 0x2D"
    by (simp_all add: text_files_ready(2) text_line_def)
  from grep_prints_matching_lines [OF heap_allocs text_files_ready(2) this r] show ?thesis by blast
qed

theorem xargs_builds_command_witness:
  "\<exists>st'. xargs 10 (vfs_os (turn 0x300 blank_vfsmsg) (heap_os no_os)) [ascii ''xargs'', ascii ''echo''] text_files =
     Inl (Became (ascii ''echo'') [ascii ''echo'', ascii ''ab'', ascii ''c''], st')"
proof -
  have ws: "[ascii ''ab'', ascii ''c''] = xwords [] (w_inp (turn 0x300 blank_vfsmsg) text_files)"
    unfolding text_files_ready(2) by (simp add: xblank_def)
  have "w_ready (turn 0x300 blank_vfsmsg) 0 text_files" by (rule w_ready_less [OF text_files_ready(1)]) simp
  from xargs_builds_command [OF heap_allocs this ws, of "[ascii ''echo'']" 10 no_os "ascii ''xargs''"]
  show ?thesis by (simp add: text_files_ready(2) heap_os_def)
qed

end
