(* ===== verification/Shell.thy ===== *)
theory Shell
  imports Shell_Parse
begin

text \<open>
  \<^verbatim>\<open>usr/sh.c\<close>: the command line is cut into jobs in place, and the descriptors of the shell are arranged
  before each job so that the job inherits its ends of the pipes.
\<close>

section \<open>Cutting the command line into jobs\<close>

text \<open>\<^verbatim>\<open>memmove(p, p+1, strlen(p)+1)\<close>: one byte behind the string is read, too.\<close>

definition move_left :: "nat \<Rightarrow> byte list \<Rightarrow> byte list option" where
  "move_left p buf =
     (let n = length (cstr buf p) + 1
      in if p + 1 + n \<le> length buf then Some (take p buf @ take n (drop (p + 1) buf) @ drop (p + n) buf) else None)"

text \<open>
  The loop of \<^verbatim>\<open>sh\<close> over the offsets of the line: the jobs that are executed at a separator, each with the
  string at \<^verbatim>\<open>jobstart\<close> at that time, then the start of the last job and the buffer.
\<close>

primrec sh_loop :: "nat list \<Rightarrow> nat \<Rightarrow> byte list \<Rightarrow> ((byte \<times> byte list) list \<times> nat \<times> byte list) option" where
  "sh_loop [] jobstart buf = None"
| "sh_loop (p # ps) jobstart buf =
     (let c = buf ! p
      in if c = 0 then Some ([], jobstart, buf)
         else if c = 0x5C then do { b \<leftarrow> move_left p buf; sh_loop ps jobstart b }
         else if c = 0x23 then Some ([], jobstart, buf[p := 0])
         else if c = 0x7C \<or> c = 0x26 \<or> c = 0x3B then do {
           let b = buf[p := 0];
           (js, s, b') \<leftarrow> sh_loop ps (p + 1) b;
           Some ((c, cstr b jobstart) # js, s, b')
         }
         else sh_loop ps jobstart buf)"

text \<open>The last job, with no separator, is executed after the loop.\<close>

definition sh_jobs :: "byte list \<Rightarrow> (byte \<times> byte list) list option" where
  "sh_jobs buf = do {
     (js, s, b) \<leftarrow> sh_loop [0..<length buf] 0 buf;
     Some (js @ [(0, cstr b s)])
   }"

text \<open>The jobs of a line, as a list; a backslash at the end has no character to protect.\<close>

fun jobs_of :: "byte list \<Rightarrow> byte list \<Rightarrow> (byte \<times> byte list) list option" where
  "jobs_of acc [] = Some [(0, acc)]"
| "jobs_of acc (c # cs) =
     (if c = 0x5C then (case cs of [] \<Rightarrow> None | d # ds \<Rightarrow> jobs_of (acc @ [d]) ds)
      else if c = 0x23 then Some [(0, acc)]
      else if c = 0x7C \<or> c = 0x26 \<or> c = 0x3B then do { js \<leftarrow> jobs_of [] cs; Some ((c, acc) # js) }
      else jobs_of (acc @ [c]) cs)"

lemma cstr_prefix:
  assumes "0 \<notin> set (drop js pre)" "js \<le> length pre"
  shows "cstr (pre @ 0 # rest) js = drop js pre"
proof -
  have "\<forall>c \<in> set (drop js pre). c \<noteq> 0" using assms(1) by metis
  then show ?thesis using assms(2) by (simp add: cstr_def takeWhile_append2)
qed

lemma move_left_line:
  assumes "0 \<notin> set cs"
  shows "move_left (length pre) (pre @ 0x5C # cs @ 0 # x # junk) = Some (pre @ cs @ 0 # x # x # junk)"
proof -
  have "\<forall>c \<in> set (0x5C # cs). c \<noteq> 0" using assms by auto
  then have "cstr (pre @ 0x5C # cs @ 0 # x # junk) (length pre) = 0x5C # cs"
    using takeWhile_append2 [of "0x5C # cs" "\<lambda>c. c \<noteq> 0" "0 # x # junk"] by (simp add: cstr_def)
  then show ?thesis by (simp add: move_left_def Let_def)
qed

lemma sh_loop_jobs:
  assumes "jobs_of (drop js pre) line = Some out" "0 \<notin> set line" "0 \<notin> set (drop js pre)" "js \<le> length pre"
    "n = length pre + length line + 2 + length junk"
  shows "\<exists>jobs s b. sh_loop [length pre..<n] js (pre @ line @ 0 # x # junk) = Some (jobs, s, b) \<and> out = jobs @ [(0, cstr b s)]"
  using assms
proof (induction "drop js pre" line arbitrary: pre js out n junk rule: jobs_of.induct)
  case 1
  then show ?case using cstr_prefix [of js pre "x # junk"] by (auto simp: upt_first simp del: upt_Suc)
next
  case (2 c cs)
  have u: "[length pre..<n] = length pre # [Suc (length pre)..<n]" using "2.prems"(5) by (intro upt_first) simp
  have c: "c \<noteq> 0" "0 \<notin> set cs" using "2.prems"(2) by auto
  note pre = cstr_prefix [OF "2.prems"(3,4)]
  consider (esc) "c = 0x5C" | (hash) "c = 0x23" | (sep) "c = 0x7C \<or> c = 0x26 \<or> c = 0x3B" "c \<noteq> 0x5C" "c \<noteq> 0x23"
    | (other) "c \<notin> {0x5C, 0x23, 0x7C, 0x26, 0x3B}" by blast
  then show ?case
  proof cases
    case esc
    then obtain d ds where d: "cs = d # ds" "jobs_of (drop js pre @ [d]) ds = Some out" using "2.prems"(1) by (cases cs) auto
    have e: "drop js pre @ [d] = drop js (pre @ [d])" using "2.prems"(4) by simp
    have "sh_loop [length pre..<n] js (pre @ (c # cs) @ 0 # x # junk) =
        sh_loop [Suc (length pre)..<n] js ((pre @ [d]) @ ds @ 0 # x # x # junk)"
      unfolding u using esc d(1) c move_left_line [OF c(2), of pre x junk] by (simp add: Let_def)
    moreover have "\<exists>jobs s b. sh_loop [length (pre @ [d])..<n] js ((pre @ [d]) @ ds @ 0 # x # x # junk) = Some (jobs, s, b) \<and> out = jobs @ [(0, cstr b s)]"
    proof (rule "2.hyps"(1) [OF esc d(1) e])
      show "jobs_of (drop js (pre @ [d])) ds = Some out" using d(2) unfolding e .
      show "0 \<notin> set ds" "0 \<notin> set (drop js (pre @ [d]))" using d(1) "2.prems"(2,3) unfolding e [symmetric] by auto
    qed (use "2.prems"(4,5) d(1) in auto)
    ultimately show ?thesis by simp
  next
    case hash
    then show ?thesis using "2.prems" pre unfolding u by (auto simp: Let_def)
  next
    case sep
    then obtain out' where o: "jobs_of [] cs = Some out'" "out = (c, drop js pre) # out'" using "2.prems"(1) by (auto split: Option.bind_splits)
    have "[] = drop (length (pre @ [0])) (pre @ [0])" by simp
    from "2.hyps"(2) [OF sep(2,3,1) this, of out' n junk]
    obtain jobs s b where r: "sh_loop [length (pre @ [0])..<n] (length (pre @ [0])) ((pre @ [0]) @ cs @ 0 # x # junk) = Some (jobs, s, b)"
        "out' = jobs @ [(0, cstr b s)]"
      using o(1) c(2) "2.prems"(5) by auto
    have "sh_loop [length pre..<n] js (pre @ (c # cs) @ 0 # x # junk) = Some ((c, drop js pre) # jobs, s, b)"
      unfolding u using sep c r(1) pre [of "cs @ 0 # x # junk"] by (simp add: Let_def)
    then show ?thesis using o(2) r(2) by simp
  next
    case other
    have e: "drop js pre @ [c] = drop js (pre @ [c])" using "2.prems"(4) by simp
    have "sh_loop [length pre..<n] js (pre @ (c # cs) @ 0 # x # junk) = sh_loop [Suc (length pre)..<n] js ((pre @ [c]) @ cs @ 0 # x # junk)"
      unfolding u using other c by (simp add: Let_def)
    moreover have "\<exists>jobs s b. sh_loop [length (pre @ [c])..<n] js ((pre @ [c]) @ cs @ 0 # x # junk) = Some (jobs, s, b) \<and> out = jobs @ [(0, cstr b s)]"
    proof (rule "2.hyps"(3) [OF _ _ _ e])
      show "jobs_of (drop js (pre @ [c])) cs = Some out" using "2.prems"(1) other unfolding e [symmetric] by simp
      show "0 \<notin> set cs" "0 \<notin> set (drop js (pre @ [c]))" using "2.prems"(2,3) unfolding e [symmetric] by auto
    qed (use "2.prems"(4,5) other in auto)
    ultimately show ?thesis by simp
  qed
qed

text \<open>
  The command line is cut into jobs as the line reads: at every separator \<^verbatim>\<open>|\<close>, \<^verbatim>\<open>&\<close> and \<^verbatim>\<open>;\<close> that is not
  protected by a backslash, up to a comment, with the backslashes removed. (The line does not end
  with a single backslash, and the buffer has a byte behind its end.)
\<close>

theorem command_line_is_cut:
  assumes "jobs_of [] line = Some jobs" "0 \<notin> set line"
  shows "sh_jobs (line @ 0 # x # junk) = Some jobs"
proof -
  have "\<exists>js s b. sh_loop [length ([] :: byte list)..<length (line @ 0 # x # junk)] 0 ([] @ line @ 0 # x # junk) = Some (js, s, b) \<and> jobs = js @ [(0, cstr b s)]"
    using assms by (intro sh_loop_jobs) auto
  then show ?thesis by (auto simp: sh_jobs_def)
qed

theorem command_line_is_cut_witness:
  "sh_jobs (ascii ''ls a'' @ [0x5C, 0x7C] @ ascii ''b|wc;x#no'' @ [0, 1, 2]) =
     Some [(0x7C, ascii ''ls a|b''), (0x3B, ascii ''wc''), (0, ascii ''x'')]"
proof -
  let ?line = "ascii ''ls a'' @ [0x5C, 0x7C] @ ascii ''b|wc;x#no''"
  have "jobs_of [] ?line = Some [(0x7C, ascii ''ls a|b''), (0x3B, ascii ''wc''), (0, ascii ''x'')]" "0 \<notin> set ?line" by code_simp+
  from command_line_is_cut [OF this, of 1 "[2]"] show ?thesis by simp
qed

section \<open>The descriptors of the jobs\<close>

text \<open>
  The table of descriptors of the shell, as the file system keeps it: \<^verbatim>\<open>dup\<close> and \<^verbatim>\<open>pipe\<close> take the lowest free
  entries, a negative number is no descriptor. \<open>'f\<close> are the open files.
\<close>

type_synonym 'f fdtab = "'f option list"

primrec lowest_free :: "'f fdtab \<Rightarrow> nat option" where
  "lowest_free [] = None"
| "lowest_free (x # xs) = (if x = None then Some 0 else map_option Suc (lowest_free xs))"

definition fd_close :: "int \<Rightarrow> 'f fdtab \<Rightarrow> 'f fdtab" where
  "fd_close fd t = (if 0 \<le> fd then t[nat fd := None] else t)"

definition fd_new :: "'f \<Rightarrow> 'f fdtab \<Rightarrow> int \<times> 'f fdtab" where
  "fd_new f t = (case lowest_free t of None \<Rightarrow> (- 1, t) | Some i \<Rightarrow> (int i, t[i := Some f]))"

definition fd_dup :: "int \<Rightarrow> 'f fdtab \<Rightarrow> int \<times> 'f fdtab" where
  "fd_dup fd t =
     (if 0 \<le> fd \<and> nat fd < length t then case t ! nat fd of None \<Rightarrow> (- 1, t) | Some f \<Rightarrow> fd_new f t else (- 1, t))"

record 'f shio =
  io_tab :: "'f fdtab"
  io_nextin :: int

definition JOB_INIT :: "'f shio \<Rightarrow> 'f shio" where
  "JOB_INIT s =
     (let t = snd (fd_dup 3 (fd_close 0 (io_tab s)))
      in s\<lparr>io_tab := snd (fd_dup 4 (fd_close 1 t)), io_nextin := 3\<rparr>)"

text \<open>
  \<^verbatim>\<open>pipe\<close>: the server sets up the reading end and then the writing end, as far as there are a node, an entry of the
  table of open files and a free descriptor. \<open>first_end\<close> and \<open>second_end\<close> are the open files, if they can be had; the
  numbers that the server does not get to store, and that are not initialised in the message, are \<open>unset\<close>.
\<close>

record 'f pipe_try =
  first_end :: "'f option"
  second_end :: "'f option"
  unset :: "int \<times> int"

definition fd_pipe :: "'f pipe_try \<Rightarrow> 'f fdtab \<Rightarrow> (int \<times> int) \<times> 'f fdtab" where
  "fd_pipe p t =
     (case (first_end p, lowest_free t) of
        (Some r, Some i) \<Rightarrow>
          (let t1 = t[i := Some r]
           in case (second_end p, lowest_free t1) of
                (Some w, Some j) \<Rightarrow> ((int i, int j), t1[j := Some w])
              | _ \<Rightarrow> ((int i, snd (unset p)), t1))
      | _ \<Rightarrow> (unset p, t))"

text \<open>
  The macros do not look at the result of \<^verbatim>\<open>pipe\<close> and go on with the numbers. The server refuses a negative
  descriptor, but has no defined behaviour for one from 8 on: \<^term>\<open>None\<close>. Both macros start with the input of the job.
\<close>

definition job_in :: "'f shio \<Rightarrow> 'f fdtab option" where
  "job_in s =
     (if int MAX_FD \<le> io_nextin s then None
      else Some (fd_close 5 (snd (fd_dup (io_nextin s) (fd_close 0 (io_tab s))))))"

definition JOB_PIPE :: "'f pipe_try \<Rightarrow> 'f shio \<Rightarrow> 'f shio option" where
  "JOB_PIPE p s = do {
     t1 \<leftarrow> job_in s;
     let ((pip0, pip1), t2) = fd_pipe p t1;
     if int MAX_FD \<le> pip1 then None
     else Some (s\<lparr>io_tab := fd_close pip1 (snd (fd_dup pip1 (fd_close 1 t2))), io_nextin := pip0\<rparr>)
   }"

definition JOB_NOPIPE :: "'f shio \<Rightarrow> 'f shio option" where
  "JOB_NOPIPE s = do {
     t1 \<leftarrow> job_in s;
     Some (s\<lparr>io_tab := snd (fd_dup 4 (fd_close 1 t1))\<rparr>)
   }"

text \<open>
  The descriptors of the shell after its start, with the command file, if there is one, as 6; and
  those of the process that executes a job, which closes all above \<^verbatim>\<open>STDERR\<close>.
\<close>

definition sh_start :: "'f \<Rightarrow> 'f \<Rightarrow> 'f \<Rightarrow> 'f option \<Rightarrow> 'f shio" where
  "sh_start i out err cmdfile =
     (let (nextin, t1) = fd_dup 0 [Some i, Some out, Some err, None, None, None, None, None];
          t2 = snd (fd_dup 1 t1);
          s3 = JOB_INIT \<lparr>io_tab = t2, io_nextin = nextin\<rparr>;
          t4 = snd (fd_dup 0 (io_tab s3));
          t5 = (case cmdfile of None \<Rightarrow> t4 | Some f \<Rightarrow> snd (fd_new f t4))
      in s3\<lparr>io_tab := fd_close 5 t5\<rparr>)"

definition job_fds :: "'f fdtab \<Rightarrow> 'f fdtab" where
  "job_fds t = fold (\<lambda>i. fd_close (int i)) [3..<MAX_FD] t"

text \<open>
  The descriptors of the jobs of one command line, for the separators behind them; \<open>pipes n\<close> is what the call of
  \<^verbatim>\<open>pipe\<close> for the pipe number \<open>n\<close> finds.
\<close>

datatype endpoint = In | Out | Err | Script | PipeR nat | PipeW nat

fun run_jobs ::
  "(nat \<Rightarrow> endpoint pipe_try) \<Rightarrow> byte list \<Rightarrow> nat \<Rightarrow> endpoint shio \<Rightarrow> (endpoint fdtab list \<times> endpoint shio) option"
where
  "run_jobs pipes [] n s = Some ([], s)"
| "run_jobs pipes (c # cs) n s =
     (if c = 0x7C
      then do { s1 \<leftarrow> JOB_PIPE (pipes n) s; (fs, s2) \<leftarrow> run_jobs pipes cs (n + 1) s1; Some (job_fds (io_tab s1) # fs, s2) }
      else do { s1 \<leftarrow> JOB_NOPIPE s; (fs, s2) \<leftarrow> run_jobs pipes cs n (JOB_INIT s1); Some (job_fds (io_tab s1) # fs, s2) })"

fun pipeline :: "endpoint \<Rightarrow> byte list \<Rightarrow> nat \<Rightarrow> (endpoint \<times> endpoint) list" where
  "pipeline i [] n = []"
| "pipeline i (c # cs) n = (if c = 0x7C then (i, PipeW n) # pipeline (PipeR n) cs (n + 1) else (i, Out) # pipeline In cs n)"

lemmas fd_defs = fd_dup_def fd_new_def fd_close_def numeral_eq_Suc Let_def

lemma sh_start_eq:
  "sh_start In Out Err cmdfile = \<lparr>io_tab = [Some In, Some Out, Some Err, Some In, Some Out, None, cmdfile, None], io_nextin = 3\<rparr>"
  by (simp add: sh_start_def JOB_INIT_def fd_defs split: option.split)

text \<open>
  Between two jobs: descriptor 3 and 4 are the input and output of the shell; the next job reads from
  \<open>i\<close>, which is descriptor 3 or, behind a pipe, descriptor 5.
\<close>

definition wired :: "endpoint option \<Rightarrow> endpoint \<Rightarrow> endpoint shio \<Rightarrow> bool" where
  "wired cmdfile i s \<longleftrightarrow> (\<exists>a b q. io_tab s = [Some a, Some b, Some Err, Some In, Some Out, q, cmdfile, None] \<and>
     (io_nextin s = 3 \<and> i = In \<or> io_nextin s = 5 \<and> q = Some i))"

lemma wired_job_in:
  assumes "wired cmdfile i s"
  obtains b where "job_in s = Some [Some i, Some b, Some Err, Some In, Some Out, None, cmdfile, None]"
proof -
  obtain a b q where s: "io_tab s = [Some a, Some b, Some Err, Some In, Some Out, q, cmdfile, None]"
      "io_nextin s = 3 \<and> i = In \<or> io_nextin s = 5 \<and> q = Some i"
    using assms unfolding wired_def by blast
  then have "job_in s = Some [Some i, Some b, Some Err, Some In, Some Out, None, cmdfile, None]"
    by (elim disjE conjE) (simp_all add: job_in_def fd_defs)
  then show thesis by (rule that)
qed

lemma job_fds_table: "job_fds [a, b, c, d, e, f, g, h] = [a, b, c, None, None, None, None, None]"
  by (simp add: job_fds_def fd_close_def upt_rec numeral_eq_Suc)

text \<open>A call of \<^verbatim>\<open>pipe\<close> that succeeds.\<close>

definition made :: "'f \<Rightarrow> 'f \<Rightarrow> 'f pipe_try \<Rightarrow> bool" where
  "made r w p \<longleftrightarrow> first_end p = Some r \<and> second_end p = Some w"

lemma fd_pipe_made:
  assumes "made r w p" "fd_new r t = (int i, t1)" "fd_new w t1 = (int j, t2)"
  shows "fd_pipe p t = ((int i, int j), t2)"
  using assms by (auto simp: fd_pipe_def made_def fd_new_def split: option.splits)

lemma pipe_replaces_output:
  assumes "made r w p" "job_in s = Some [Some i, Some b, Some e, Some x, Some y, None, cmdfile, None]"
  shows "JOB_PIPE p s = Some (s\<lparr>io_tab := [Some i, Some w, Some e, Some x, Some y, Some r, cmdfile, None], io_nextin := 5\<rparr>)"
  using assms by (cases cmdfile) (simp_all add: JOB_PIPE_def fd_pipe_def made_def fd_defs)

lemma job_pipe_wired:
  assumes "wired cmdfile i s" "made r w p"
  obtains s' where "JOB_PIPE p s = Some s'" "wired cmdfile r s'" "job_fds (io_tab s') = [Some i, Some w, Some Err, None, None, None, None, None]"
proof -
  obtain b where "job_in s = Some [Some i, Some b, Some Err, Some In, Some Out, None, cmdfile, None]" by (rule wired_job_in [OF assms(1)])
  from pipe_replaces_output [OF assms(2) this] show thesis by (rule that) (simp_all add: wired_def job_fds_table)
qed

lemma nopipe_restores_output:
  assumes "job_in s = Some [Some i, Some b, Some e, Some x, Some y, None, cmdfile, None]"
  shows "JOB_NOPIPE s = Some (s\<lparr>io_tab := [Some i, Some y, Some e, Some x, Some y, None, cmdfile, None]\<rparr>)"
  using assms by (simp add: JOB_NOPIPE_def fd_defs)

lemma job_nopipe_wired:
  assumes "wired cmdfile i s"
  obtains s' where "JOB_NOPIPE s = Some s'" "wired cmdfile In (JOB_INIT s')"
    "job_fds (io_tab s') = [Some i, Some Out, Some Err, None, None, None, None, None]"
proof -
  obtain b where "job_in s = Some [Some i, Some b, Some Err, Some In, Some Out, None, cmdfile, None]" by (rule wired_job_in [OF assms])
  from nopipe_restores_output [OF this] show thesis
    by (rule that) (simp add: JOB_INIT_def wired_def fd_defs, simp add: job_fds_table)
qed

text \<open>The number of pipes of a line.\<close>

definition bars :: "byte list \<Rightarrow> nat" where
  "bars cs = length (filter (\<lambda>c. c = 0x7C) cs)"

lemma run_jobs_wired:
  assumes "wired cmdfile i s" "\<forall>k < bars cs. made (PipeR (n + k)) (PipeW (n + k)) (pipes (n + k))"
  shows "\<exists>s'. run_jobs pipes cs n s =
      Some (map (\<lambda>(x, y). [Some x, Some y, Some Err, None, None, None, None, None]) (pipeline i cs n), s') \<and>
    (cs \<noteq> [] \<and> last cs \<noteq> 0x7C \<longrightarrow> wired cmdfile In s')"
  using assms
proof (induction cs arbitrary: i n s)
  case (Cons c cs)
  show ?case
  proof (cases "c = 0x7C")
    case True
    then have "made (PipeR n) (PipeW n) (pipes n)" using Cons.prems(2) [rule_format, of 0] by (simp add: bars_def)
    then obtain s1 where s1: "JOB_PIPE (pipes n) s = Some s1" "wired cmdfile (PipeR n) s1"
        "job_fds (io_tab s1) = [Some i, Some (PipeW n), Some Err, None, None, None, None, None]"
      by (rule job_pipe_wired [OF Cons.prems(1)])
    have "\<forall>k < bars cs. made (PipeR (n + 1 + k)) (PipeW (n + 1 + k)) (pipes (n + 1 + k))"
      using Cons.prems(2) True by (auto simp: bars_def dest: spec [of _ "Suc _"])
    from Cons.IH [OF s1(2) this] True s1 show ?thesis by auto
  next
    case False
    obtain s1 where s1: "JOB_NOPIPE s = Some s1" "wired cmdfile In (JOB_INIT s1)"
        "job_fds (io_tab s1) = [Some i, Some Out, Some Err, None, None, None, None, None]"
      by (rule job_nopipe_wired [OF Cons.prems(1)])
    have "\<forall>k < bars cs. made (PipeR (n + k)) (PipeW (n + k)) (pipes (n + k))" using Cons.prems(2) False by (simp add: bars_def)
    from Cons.IH [OF s1(2) this] False s1 show ?thesis by auto
  qed
qed simp

text \<open>
  C21. Pipelines: for every command line whose pipes can be made, the macros of the shell give each job exactly three
  descriptors: input is the reading end of the pipe in front of it, or the input of the shell;
  output is the writing end of the pipe behind it, or the output of the shell; and the errors. So no
  job keeps an end of a pipe of other jobs open. After the line the shell is ready for the next one. (The system
  has 16 open files and 8 nodes for pipes, and the shell does not notice when \<^verbatim>\<open>pipe\<close> fails; see below for what
  it does then. That the file system makes the pipe as long as there are two entries and a node is shown in \<open>Vfs_Fds\<close>.)
\<close>

theorem pipeline_is_wired:
  assumes "\<forall>k < bars cs. made (PipeR k) (PipeW k) (pipes k)"
  shows "\<exists>s. run_jobs pipes (cs @ [0]) 0 (sh_start In Out Err cmdfile) =
      Some (map (\<lambda>(i, out). [Some i, Some out, Some Err, None, None, None, None, None]) (pipeline In (cs @ [0]) 0), s) \<and>
    wired cmdfile In s"
proof -
  have "wired cmdfile In (sh_start In Out Err cmdfile)" by (simp add: sh_start_eq wired_def)
  from run_jobs_wired [OF this, of "cs @ [0]" 0 pipes] show ?thesis using assms by (auto simp: bars_def)
qed

definition all_made :: "nat \<Rightarrow> endpoint pipe_try" where
  "all_made n = \<lparr>first_end = Some (PipeR n), second_end = Some (PipeW n), unset = (0, 0)\<rparr>"

theorem pipeline_is_wired_witness:
  "\<exists>s. run_jobs all_made ([0x7C, 0x7C, 0x3B] @ [0]) 0 (sh_start In Out Err (Some Script)) =
     Some (map (\<lambda>(i, out). [Some i, Some out, Some Err, None, None, None, None, None])
       [(In, PipeW 0), (PipeR 0, PipeW 1), (PipeR 1, Out), (In, Out)], s) \<and> wired (Some Script) In s"
proof -
  have "\<forall>k < bars [0x7C, 0x7C, 0x3B]. made (PipeR k) (PipeW k) (all_made k)" by (simp add: made_def all_made_def)
  from pipeline_is_wired [OF this, of "Some Script"] show ?thesis by simp
qed

text \<open>
  When \<^verbatim>\<open>pipe\<close> fails, and the numbers that the shell goes on with are no descriptors, the job in front of it
  has no output; the last job of the line gets the output of the shell as its input, since \<^verbatim>\<open>dup(4)\<close> takes the
  descriptor that \<^verbatim>\<open>dup(nextin)\<close> has left free, and no output either. The next line is not affected.
\<close>

theorem failed_pipe_swaps_output:
  assumes "wired cmdfile i s" "first_end p = None" "unset p = (x, y)" "x < 0" "y < 0"
  shows "\<exists>s1 s2. JOB_PIPE p s = Some s1 \<and> job_fds (io_tab s1) = [Some i, None, Some Err, None, None, None, None, None] \<and>
    JOB_NOPIPE s1 = Some s2 \<and> job_fds (io_tab s2) = [Some Out, None, Some Err, None, None, None, None, None] \<and>
    wired cmdfile In (JOB_INIT s2)"
proof -
  obtain b where "job_in s = Some [Some i, Some b, Some Err, Some In, Some Out, None, cmdfile, None]" by (rule wired_job_in [OF assms(1)])
  then have "JOB_PIPE p s = Some (s\<lparr>io_tab := [Some i, None, Some Err, Some In, Some Out, None, cmdfile, None], io_nextin := x\<rparr>)"
    using assms(2-5) by (simp add: JOB_PIPE_def fd_pipe_def fd_defs)
  moreover have "JOB_NOPIPE (s\<lparr>io_tab := [Some i, None, Some Err, Some In, Some Out, None, cmdfile, None], io_nextin := x\<rparr>) =
      Some (s\<lparr>io_tab := [Some Out, None, Some Err, Some In, Some Out, None, cmdfile, None], io_nextin := x\<rparr>)"
    using assms(4) by (simp add: JOB_NOPIPE_def job_in_def fd_defs)
  ultimately show ?thesis by (auto simp: job_fds_table JOB_INIT_def wired_def fd_defs)
qed

end
