(* ===== verification/Shell_Jobs.thy ===== *)
theory Shell_Jobs
  imports Userland Shell
begin

text \<open>
  \<^verbatim>\<open>usr/sh.c\<close>: the shell as a program on the system calls. The loop that cuts the command line starts a job at
  each separator; this is the same as cutting the line first and running the jobs one after the other.
  The task of a job becomes the command that the job names.
\<close>

section \<open>Jobs\<close>

text \<open>\<^verbatim>\<open>strcpy\<close> into a buffer.\<close>

definition strcpy :: "byte list \<Rightarrow> byte list \<Rightarrow> byte list option" where
  "strcpy buf s = (if length s < length buf then Some (s @ 0 # drop (length s + 1) buf) else None)"

text \<open>The argument vector that the pointers of \<^verbatim>\<open>parse_args\<close> stand for; it needs a null pointer at its end.\<close>

definition parsed_argv :: "parsed \<Rightarrow> byte list list option" where
  "parsed_argv st =
     (if None \<in> set (p_args st) then Some (map (cstr (p_buf st) \<circ> the) (takeWhile (\<lambda>x. x \<noteq> None) (p_args st))) else None)"

primrec close_fds :: "'w os \<Rightarrow> cint list \<Rightarrow> ('w, unit) prog" where
  "close_fds os [] = ret ()"
| "close_fds os (fd # fds) = andthen (sys (os_close os fd)) (\<lambda>_. close_fds os fds)"

text \<open>The file of a redirection takes the place of a descriptor; \<^verbatim>\<open>open\<close> gives the lowest free one.\<close>

definition redirect :: "'w os \<Rightarrow> byte list list \<Rightarrow> cint \<Rightarrow> nat option \<Rightarrow> parsed \<Rightarrow> ('w, bool) prog" where
  "redirect os argv fd pos st =
     (case pos of
        None \<Rightarrow> ret True
      | Some i \<Rightarrow>
          andthen (sys (os_close os fd)) (\<lambda>_.
          andthen (sys (os_open os (cstr (p_buf st) i))) (\<lambda>r.
            if cneg r then andthen (unknown (os_writec os) argv (opened (cstr (p_buf st) i))) (\<lambda>_. ret False)
            else ret True)))"

definition leave_job :: "'w os \<Rightarrow> addr \<Rightarrow> addr \<Rightarrow> cint \<Rightarrow> ('w, cint) prog" where
  "leave_job os cmd args code = andthen (sys (os_pmfree os cmd)) (\<lambda>_. andthen (sys (os_pmfree os args)) (\<lambda>_. ret code))"

definition exec_job :: "'w os \<Rightarrow> byte list list \<Rightarrow> ('w, cint) prog" where
  "exec_job os argv =
     andthen (sys (os_pmmalloc os 18)) (\<lambda>(args, _).
     andthen (massert (os_writec os) args (ascii ''sh.c'') 82) (\<lambda>_.
     andthen (close_fds os [3, 4, 5, 6, 7]) (\<lambda>_.
     andthen (sys (os_pmmalloc os 32)) (\<lambda>(cmd, _).
     andthen (massert (os_writec os) cmd (ascii ''sh.c'') 92) (\<lambda>_.
     andthen (sys (os_receive os 32)) (\<lambda>buf.
     andthen (lift (parse_args True buf)) (\<lambda>st.
       if p_args st ! 0 = None then leave_job os cmd args 0
       else andthen (redirect os argv 0 (p_stin st) st) (\<lambda>ok.
         if \<not> ok then leave_job os cmd args (- 1)
         else andthen (redirect os argv 1 (p_stout st) st) (\<lambda>ok.
           if \<not> ok then leave_job os cmd args (- 1)
           else andthen (lift (parsed_argv st)) (\<lambda>av.
                andthen (execv os (hd av) av) (\<lambda>_.
                andthen (unknown (os_writec os) argv (hd av)) (\<lambda>_. leave_job os cmd args (- 1)))))))))))))"

text \<open>
  The commands of the shell itself. \<^verbatim>\<open>strcmp\<close> on the null pointer, which \<^verbatim>\<open>args[0]\<close> is for a blank command,
  is undefined; \<^verbatim>\<open>args[1]\<close> is the null pointer for a command of one word.
\<close>

definition builtin :: "'w os \<Rightarrow> byte list \<Rightarrow> ('w, cint) prog" where
  "builtin os cmd =
     andthen (sys (os_pmmalloc os 32)) (\<lambda>(line, buf).
     andthen (sys (os_pmmalloc os 18)) (\<lambda>(args, _).
     andthen (massert (os_writec os) line (ascii ''sh.c'') 139) (\<lambda>_.
     andthen (massert (os_writec os) args (ascii ''sh.c'') 140) (\<lambda>_.
     andthen (lift (strcpy buf cmd)) (\<lambda>buf'.
     andthen (lift (parse_args False buf')) (\<lambda>st.
     andthen (lift (p_args st ! 0)) (\<lambda>a0.
     let name = cstr (p_buf st) a0; arg = map_option (cstr (p_buf st)) (p_args st ! 1) in
     andthen (if name = ascii ''exit'' then andthen (case arg of None \<Rightarrow> ret 0 | Some a \<Rightarrow> lift (atoi a)) mexit else ret ()) (\<lambda>_.
     andthen (if name = ascii ''cd''
              then andthen (case arg of
                  None \<Rightarrow> noargs (os_writec os) [name]
                | Some a \<Rightarrow> mfprintf (os_writec os) STDOUT (ascii ''cd %s'' @ [10]) [VStr a]) (\<lambda>_. ret 1)
              else ret 0) (\<lambda>rc.
     andthen (sys (os_pmfree os args)) (\<lambda>_.
     andthen (sys (os_pmfree os line)) (\<lambda>_. ret rc)))))))))))"

definition launch_job :: "'w os \<Rightarrow> byte list list \<Rightarrow> ('w, cint) prog" where
  "launch_job os argv =
     andthen (sys (os_pmmalloc os 32)) (\<lambda>(cmd, _).
     andthen (massert (os_writec os) cmd (ascii ''sh.c'') 173) (\<lambda>_.
     andthen (sys (os_receive os 32)) (\<lambda>buf.
     andthen (sys (os_spawntask os Exec_job (160 + 64) argv)) (\<lambda>pid.
     andthen (sys (os_send os pid buf)) (\<lambda>_.
     andthen (sys (os_pmfree os cmd)) (\<lambda>_. ret 0))))))"

definition execute :: "'w os \<Rightarrow> bool \<Rightarrow> bool \<Rightarrow> byte list \<Rightarrow> byte list list \<Rightarrow> ('w, cint) prog" where
  "execute os interactive direct line argv =
     andthen (if direct then builtin os line else ret 0) (\<lambda>rc.
       if rc \<noteq> 0 then ret 0
       else andthen (sys (os_pmmalloc os 32)) (\<lambda>(job, buf).
            andthen (massert (os_writec os) job (ascii ''sh.c'') 191) (\<lambda>_.
            andthen (lift (strcpy buf line)) (\<lambda>buf'.
            andthen (sys (os_spawntask os (if direct then Exec_job else Launch_job) (160 + 64) argv)) (\<lambda>pid.
            andthen (sys (os_send os pid buf')) (\<lambda>_.
            andthen (sys (os_pmfree os job)) (\<lambda>_.
            andthen (sys (os_wait os)) (\<lambda>(_, code).
            andthen (if direct \<and> interactive then mfprintf (os_writec os) STDERR (ascii '' (%d)'' @ [10]) [VInt code] else ret ())
              (\<lambda>_. ret code)))))))))"

section \<open>The shell\<close>

primrec sh_getcmd :: "nat \<Rightarrow> 'w os \<Rightarrow> cint \<Rightarrow> byte list \<Rightarrow> int \<Rightarrow> int \<Rightarrow> ('w, cint \<times> byte list) prog" where
  "sh_getcmd 0 os fin cmd len i = unfinished"
| "sh_getcmd (Suc n) os fin cmd len i =
     andthen (sys (os_readc os fin)) (\<lambda>c.
       if c = EOF then ret (EOF, cmd)
       else let i1 = (if i \<ge> len - 1 then i - 1 else i)
            in if i1 < 0 then undef
               else if c = 13 \<or> c = 10 then andthen (lift (put (nat i1) 0 cmd)) (\<lambda>cmd'. ret (0, cmd'))
               else andthen (lift (put (nat i1) (ucast c) cmd)) (\<lambda>cmd'.
                 sh_getcmd n os fin cmd' len (if i1 + 1 = len - 1 then i1 else i1 + 1)))"

text \<open>The macros; the two with a pipe or the input for the next job give \<^verbatim>\<open>nextin\<close>.\<close>

definition job_init :: "'w os \<Rightarrow> ('w, cint) prog" where
  "job_init os =
     andthen (sys (os_close os STDIN)) (\<lambda>_. andthen (sys (os_dup os 3)) (\<lambda>_.
     andthen (sys (os_close os STDOUT)) (\<lambda>_. andthen (sys (os_dup os 4)) (\<lambda>_. ret 3))))"

definition job_pipe :: "'w os \<Rightarrow> cint \<Rightarrow> ('w, cint) prog" where
  "job_pipe os nextin =
     andthen (sys (os_close os STDIN)) (\<lambda>_. andthen (sys (os_dup os nextin)) (\<lambda>_.
     andthen (sys (os_close os 5)) (\<lambda>_. andthen (sys (os_pipe os)) (\<lambda>(_, pip0, pip1).
     andthen (sys (os_close os STDOUT)) (\<lambda>_. andthen (sys (os_dup os pip1)) (\<lambda>_.
     andthen (sys (os_close os pip1)) (\<lambda>_. ret pip0)))))))"

definition job_nopipe :: "'w os \<Rightarrow> cint \<Rightarrow> ('w, unit) prog" where
  "job_nopipe os nextin =
     andthen (sys (os_close os STDIN)) (\<lambda>_. andthen (sys (os_dup os nextin)) (\<lambda>_.
     andthen (sys (os_close os 5)) (\<lambda>_. andthen (sys (os_close os STDOUT)) (\<lambda>_. andthen (sys (os_dup os 4)) (\<lambda>_. ret ())))))"

text \<open>The loop over the offsets of the line gives the start of the last job, \<^verbatim>\<open>nextin\<close> and the buffer.\<close>

primrec sh_line :: "'w os \<Rightarrow> bool \<Rightarrow> byte list list \<Rightarrow> nat list \<Rightarrow> nat \<Rightarrow> cint \<Rightarrow> byte list \<Rightarrow> ('w, nat \<times> cint \<times> byte list) prog" where
  "sh_line os interactive argv [] jobstart nextin buf = undef"
| "sh_line os interactive argv (p # ps) jobstart nextin buf =
     (let c = buf ! p; b = buf[p := 0]
      in if c = 0 then ret (jobstart, nextin, buf)
         else if c = 0x5C then andthen (lift (move_left p buf)) (\<lambda>b. sh_line os interactive argv ps jobstart nextin b)
         else if c = 0x23 then ret (jobstart, nextin, b)
         else if c = 0x7C then
           andthen (job_pipe os nextin) (\<lambda>nextin'.
           andthen (execute os interactive False (cstr b jobstart) argv) (\<lambda>_. sh_line os interactive argv ps (p + 1) nextin' b))
         else if c = 0x26 then
           andthen (job_nopipe os nextin) (\<lambda>_.
           andthen (execute os interactive False (cstr b jobstart) argv) (\<lambda>_.
           andthen (job_init os) (\<lambda>nextin'. sh_line os interactive argv ps (p + 1) nextin' b)))
         else if c = 0x3B then
           andthen (job_nopipe os nextin) (\<lambda>_.
           andthen (execute os interactive True (cstr b jobstart) argv) (\<lambda>_.
           andthen (job_init os) (\<lambda>nextin'. sh_line os interactive argv ps (p + 1) nextin' b)))
         else sh_line os interactive argv ps jobstart nextin buf)"

definition sh_command :: "'w os \<Rightarrow> bool \<Rightarrow> byte list list \<Rightarrow> cint \<Rightarrow> addr \<Rightarrow> byte list \<Rightarrow> ('w, cint) prog" where
  "sh_command os interactive argv nextin cmdline buf =
     andthen (sh_line os interactive argv [0..<length buf] 0 nextin buf) (\<lambda>(jobstart, nextin', b).
     andthen (job_nopipe os nextin') (\<lambda>_.
     andthen (execute os interactive True (cstr b jobstart) argv) (\<lambda>_.
     andthen (sys (os_pmfree os cmdline)) (\<lambda>_. job_init os))))"

text \<open>One turn of the endless loop, for \<^verbatim>\<open>nextin\<close>.\<close>

definition sh_turn :: "nat \<Rightarrow> 'w os \<Rightarrow> byte list list \<Rightarrow> cint \<Rightarrow> cint \<Rightarrow> ('w, cint) prog" where
  "sh_turn n os argv fin nextin =
     andthen (if fin = 0 then mfprintf (os_writec os) STDOUT (ascii ''$ '') [] else ret ()) (\<lambda>_.
     andthen (sys (os_pmmalloc os 128)) (\<lambda>(cmdline, buf).
     andthen (massert (os_writec os) cmdline (ascii ''sh.c'') 288) (\<lambda>_.
     andthen (sh_getcmd n os fin buf (int MAX_CMDLINE) 0) (\<lambda>(r, buf').
       if r = EOF
       then andthen (if fin = 0 then mfprintf (os_writec os) STDERR ([10] @ ascii ''Exit'' @ [10]) [] else ret ()) (\<lambda>_. mexit 0)
       else sh_command os (fin = STDIN) argv nextin cmdline buf'))))"

primrec sh_turns :: "nat \<Rightarrow> nat \<Rightarrow> 'w os \<Rightarrow> byte list list \<Rightarrow> cint \<Rightarrow> cint \<Rightarrow> ('w, cint) prog" where
  "sh_turns 0 n os argv fin nextin = unfinished"
| "sh_turns (Suc k) n os argv fin nextin = andthen (sh_turn n os argv fin nextin) (\<lambda>nextin'. sh_turns k n os argv fin nextin')"

definition sh :: "nat \<Rightarrow> nat \<Rightarrow> 'w os \<Rightarrow> byte list list \<Rightarrow> ('w, cint) prog" where
  "sh k n os argv =
     andthen (sys (os_dup os STDIN)) (\<lambda>_.
     andthen (sys (os_dup os STDOUT)) (\<lambda>_.
     andthen (job_init os) (\<lambda>nextin.
     andthen (sys (os_dup os STDIN)) (\<lambda>_.
     andthen (argp argv 1) (\<lambda>a.
       case a of
         None \<Rightarrow> andthen (sys (os_close os 5)) (\<lambda>_. sh_turns k n os argv STDIN nextin)
       | Some name \<Rightarrow>
           andthen (sys (os_open os name)) (\<lambda>fin.
             if cneg fin then andthen (unknown (os_writec os) argv (opened name)) (\<lambda>_. ret 1)
             else andthen (massert (os_writec os) (if fin = 6 then 1 else 0) (ascii ''sh.c'') 279) (\<lambda>_.
                  andthen (sys (os_close os 5)) (\<lambda>_. sh_turns k n os argv fin nextin))))))))"

section \<open>Reading a line\<close>

text \<open>On the standard input, reading works on the characters of the input as \<open>getcmd\<close> does on a list of them.\<close>

context stdio
begin

lemma sh_getcmd_reads:
  assumes "ready k w" "getcmd (map scast (inp w) @ [EOF]) cmd len i = Some (r, cmd', rest)" "length (inp w) < n"
  obtains w' where "runs (sh_getcmd n os STDIN cmd len i) w (r, cmd') w'" "out w' = out w" "others w' = others w" "ready k w'"
    "r \<noteq> EOF \<Longrightarrow> rest = map scast (inp w') @ [EOF]"
  using assms
proof (induction n arbitrary: w cmd i thesis)
  case (Suc n)
  show ?case
  proof (cases "inp w")
    case Nil
    obtain u where u: "runs (mgetc os) w EOF u" "inp u = []" "out u = out w" "others u = others w" "ready k u" by (rule getc_end [OF Suc.prems(2) Nil])
    then have "runs (sh_getcmd (Suc n) os STDIN cmd len i) w (r, cmd') u" using Suc.prems(3) Nil by (auto simp: runs_andthen_iff mgetc_def)
    then show ?thesis using u Suc.prems(1,3) Nil by simp
  next
    case (Cons c cs)
    obtain u where u: "runs (mgetc os) w (scast c) u" "inp u = cs" "out u = out w" "others u = others w" "ready k u" "scast c \<noteq> EOF"
      by (rule getc_char [OF Suc.prems(2) Cons])
    define i1 where "i1 = (if i \<ge> len - 1 then i - 1 else i)"
    have step: "runs (sh_getcmd (Suc n) os STDIN cmd len i) w y v" if "runs (if i1 < 0 then undef
        else if (scast c :: cint) = 13 \<or> (scast c :: cint) = 10 then andthen (lift (put (nat i1) 0 cmd)) (\<lambda>cmd'. ret (0, cmd'))
        else andthen (lift (put (nat i1) (ucast (scast c :: cint)) cmd)) (\<lambda>cmd'.
          sh_getcmd n os STDIN cmd' len (if i1 + 1 = len - 1 then i1 else i1 + 1))) u y v" for y v
      unfolding sh_getcmd.simps Let_def i1_def [symmetric] using that u(1,6) by (auto simp: runs_andthen_iff mgetc_def)
    have g: "getcmd (map scast (inp w) @ [EOF]) cmd len i = (if i1 < 0 then None
        else if (scast c :: cint) = 13 \<or> (scast c :: cint) = 10 then do { cmd' \<leftarrow> put (nat i1) 0 cmd; Some (0, cmd', map scast cs @ [EOF]) }
        else do { cmd' \<leftarrow> put (nat i1) (ucast (scast c :: cint)) cmd;
          getcmd (map scast cs @ [EOF]) cmd' len (if i1 + 1 = len - 1 then i1 else i1 + 1) })"
      using u(6) unfolding Cons i1_def by (simp add: Let_def)
    have neg: "\<not> i1 < 0" using g Suc.prems(3) by auto
    show ?thesis
    proof (cases "(scast c :: cint) = 13 \<or> (scast c :: cint) = 10")
      case True
      then have p: "put (nat i1) 0 cmd = Some cmd'" "r = 0" "rest = map scast (inp u) @ [EOF]"
        using g Suc.prems(3) neg u(2) by (auto split: Option.bind_splits)
      have "runs (sh_getcmd (Suc n) os STDIN cmd len i) w (r, cmd') u" by (rule step) (simp add: neg True p)
      then show ?thesis using u p by (intro Suc.prems(1) [of u])
    next
      case False
      then obtain cmd1 where p: "put (nat i1) (ucast (scast c :: cint)) cmd = Some cmd1"
          "getcmd (map scast (inp u) @ [EOF]) cmd1 len (if i1 + 1 = len - 1 then i1 else i1 + 1) = Some (r, cmd', rest)"
        using g Suc.prems(3) neg u(2) by (auto split: Option.bind_splits)
      have "length (inp u) < n" using Suc.prems(4) Cons u(2) by simp
      from Suc.IH [OF _ u(5) p(2) this] obtain w' where w': "runs (sh_getcmd n os STDIN cmd1 len (if i1 + 1 = len - 1 then i1 else i1 + 1)) u (r, cmd') w'"
          "out w' = out u" "others w' = others u" "ready k w'" "r \<noteq> EOF \<Longrightarrow> rest = map scast (inp w') @ [EOF]" by blast
      have "runs (sh_getcmd (Suc n) os STDIN cmd len i) w (r, cmd') w'" by (rule step) (simp only: neg False p(1) lift_simps prog_simps if_False w'(1))
      then show ?thesis using w' u by (intro Suc.prems(1) [of w']) auto
    qed
  qed
qed simp

end

section \<open>A line is a sequence of jobs\<close>

text \<open>One job with the separator behind it (0 at the end of the line) for \<^verbatim>\<open>nextin\<close>, and the jobs of a line.\<close>

definition run_job :: "'w os \<Rightarrow> bool \<Rightarrow> byte list list \<Rightarrow> cint \<Rightarrow> byte \<times> byte list \<Rightarrow> ('w, cint) prog" where
  "run_job os interactive argv nextin = (\<lambda>(c, job).
     if c = 0x7C then andthen (job_pipe os nextin) (\<lambda>nextin'. andthen (execute os interactive False job argv) (\<lambda>_. ret nextin'))
     else andthen (job_nopipe os nextin) (\<lambda>_. andthen (execute os interactive (c \<noteq> 0x26) job argv) (\<lambda>_. job_init os)))"

primrec run_line :: "'w os \<Rightarrow> bool \<Rightarrow> byte list list \<Rightarrow> cint \<Rightarrow> (byte \<times> byte list) list \<Rightarrow> ('w, cint) prog" where
  "run_line os interactive argv nextin [] = ret nextin"
| "run_line os interactive argv nextin (j # js) = andthen (run_job os interactive argv nextin j) (\<lambda>nextin'. run_line os interactive argv nextin' js)"

lemma sh_line_jobs:
  "sh_loop ps jobstart buf = Some (js, s, b) \<Longrightarrow>
   sh_line os interactive argv ps jobstart nextin buf = andthen (run_line os interactive argv nextin js) (\<lambda>nextin'. ret (s, nextin', b))"
proof (induction ps arbitrary: jobstart buf js nextin)
  case (Cons p ps)
  then show ?case
    by (auto simp: Let_def run_job_def split: if_splits Option.bind_splits cong: if_cong)
qed simp

text \<open>
  C22. The shell runs the jobs of a command line one after the other, as the line reads: what the loop
  over the line does with the system calls, in every world, is to connect the descriptors for the
  next job and execute it, for each job in front of a separator, and then to execute the last job
  directly and to release the line. (The line does not end with a single backslash, and the buffer
  has a byte behind its end.)
\<close>

theorem shell_runs_jobs_in_order:
  assumes "jobs_of [] line = Some (jobs @ [(0, job)])" "0 \<notin> set line"
  shows "sh_command os interactive argv nextin cmdline (line @ 0 # x # junk) =
    andthen (run_line os interactive argv nextin jobs) (\<lambda>nextin'.
    andthen (job_nopipe os nextin') (\<lambda>_.
    andthen (execute os interactive True job argv) (\<lambda>_.
    andthen (sys (os_pmfree os cmdline)) (\<lambda>_. job_init os))))"
proof -
  obtain js s b where "sh_loop [length ([] :: byte list)..<length (line @ 0 # x # junk)] 0 ([] @ line @ 0 # x # junk) = Some (js, s, b)"
      "jobs @ [(0, job)] = js @ [(0, cstr b s)]"
    using sh_loop_jobs [of 0 "[]" line "jobs @ [(0, job)]" "length (line @ 0 # x # junk)" junk x] assms by auto
  then have l: "sh_loop [0..<length (line @ 0 # x # junk)] 0 (line @ 0 # x # junk) = Some (js, s, b)" "jobs = js" "job = cstr b s" by simp_all
  show ?thesis unfolding sh_command_def sh_line_jobs [OF l(1)] l(2,3) by simp
qed

theorem shell_runs_jobs_in_order_witness:
  "sh_command no_os True [ascii ''sh''] 3 0x900 (ascii ''cat|cap;echo a'' @ [0, 1]) =
    andthen (run_line (no_os :: unit os) True [ascii ''sh''] 3 [(0x7C, ascii ''cat''), (0x3B, ascii ''cap'')]) (\<lambda>nextin'.
    andthen (job_nopipe no_os nextin') (\<lambda>_.
    andthen (execute no_os True True (ascii ''echo a'') [ascii ''sh'']) (\<lambda>_.
    andthen (sys (os_pmfree no_os 0x900)) (\<lambda>_. job_init no_os))))"
proof -
  have "jobs_of [] (ascii ''cat|cap;echo a'') = Some ([(0x7C, ascii ''cat''), (0x3B, ascii ''cap'')] @ [(0, ascii ''echo a'')])"
    "0 \<notin> set (ascii ''cat|cap;echo a'')" by code_simp+
  from shell_runs_jobs_in_order [OF this, of no_os True "[ascii ''sh'']" 3 "0x900" 1 "[]"] show ?thesis by simp
qed

section \<open>A job becomes its command\<close>

lemma takeWhile_somes: "takeWhile (\<lambda>x. x \<noteq> None) (map Some ps @ replicate k None) = map Some ps"
  by (induction ps) (auto simp: takeWhile_replicate)

lemma parse_args_argv:
  assumes "\<forall>c \<in> set line. plain c" "length (words line) \<le> MAX_ARGS"
  obtains st where "parse_args red (line @ 0 # junk) = Some st" "parsed_argv st = Some (words line)"
    "p_stin st = None" "p_stout st = None" "p_args st ! 0 = None \<longleftrightarrow> words line = []"
proof -
  have "\<forall>c \<in> set line. c \<notin> {0, 0x3C, 0x3E, 10, 13}" using assms(1) by (simp add: plain_def)
  from parse_args_cuts_words [OF this assms(2), of red junk] obtain st ps where r: "parse_args red (line @ 0 # junk) = Some st"
      "p_args st = map Some ps @ replicate (MAX_ARGS + 1 - length ps) None" "length ps \<le> MAX_ARGS" "map (cstr (p_buf st)) ps = words line"
      "p_stin st = None" "p_stout st = None" by blast
  have "parsed_argv st = Some (words line)" using r(2-4)
    by (simp add: parsed_argv_def takeWhile_somes comp_assoc [symmetric] del: not_None_eq) (simp add: comp_def)
  moreover have "p_args st ! 0 = None \<longleftrightarrow> words line = []" using r(4) by (cases ps) (simp_all add: r(2), metis list.discI)
  ultimately show thesis using r(1,5,6) by (intro that [of st])
qed

text \<open>
  What the task of a job needs: memory, closing that does not block, and its message. \<open>err w\<close> is what was
  written to the errors, which these calls do not change.
\<close>

definition job_calls :: "'w os \<Rightarrow> ('w \<Rightarrow> byte list) \<Rightarrow> byte list \<Rightarrow> bool" where
  "job_calls os err msg \<longleftrightarrow> (\<forall>k \<in> {18, 32}. \<forall>w. \<exists>p buf w'. os_pmmalloc os k w = Some ((p, buf), w') \<and> p \<noteq> NULL \<and> err w' = err w) \<and>
     (\<forall>p w. \<exists>w'. os_pmfree os p w = Some ((), w') \<and> err w' = err w) \<and>
     (\<forall>fd \<in> {3, 4, 5, 6, 7}. \<forall>w. \<exists>w'. os_close os fd w = Some ((), w') \<and> err w' = err w) \<and>
     (\<forall>w. \<exists>w'. os_receive os 32 w = Some (msg, w') \<and> err w' = err w)"

lemma close_fds_runs:
  "job_calls os err msg \<Longrightarrow> set fds \<subseteq> {3, 4, 5, 6, 7} \<Longrightarrow> \<exists>w'. runs (close_fds os fds) w () w' \<and> err w' = err w"
proof (induction fds arbitrary: w)
  case (Cons fd fds)
  obtain u where "os_close os fd w = Some ((), u)" "err u = err w"
    using Cons.prems unfolding job_calls_def by (meson list.set_intros(1) subsetD)
  moreover obtain w' where "runs (close_fds os fds) u () w'" "err w' = err u" using Cons by auto
  ultimately show ?case by (auto simp: runs_andthen_iff)
qed auto

text \<open>The task gets as far as the \<^verbatim>\<open>execv\<close>.\<close>

lemma exec_job_reaches:
  assumes "job_calls os err (line @ 0 # junk)" "\<forall>c \<in> set line. plain c" "length (words line) \<le> MAX_ARGS" "words line \<noteq> []"
  obtains u cmd args where "err u = err w" "exec_job os argv w = andthen (execv os (hd (words line)) (words line)) (\<lambda>_.
    andthen (unknown (os_writec os) argv (hd (words line))) (\<lambda>_. leave_job os cmd args (- 1))) u"
proof -
  obtain st where st: "parse_args True (line @ 0 # junk) = Some st" "parsed_argv st = Some (words line)"
      "p_stin st = None" "p_stout st = None" "\<not> (p_args st ! 0 = None)"
    using parse_args_argv [OF assms(2,3), of True junk] assms(4) by metis
  obtain args b1 w1 where 1: "os_pmmalloc os 18 w = Some ((args, b1), w1)" "args \<noteq> NULL" "err w1 = err w" using assms(1) unfolding job_calls_def by blast
  obtain w2 where 2: "runs (close_fds os [3, 4, 5, 6, 7]) w1 () w2" "err w2 = err w1"
    using close_fds_runs [OF assms(1), of "[3, 4, 5, 6, 7]"] by (auto simp del: close_fds.simps)
  obtain cmd b3 w3 where 3: "os_pmmalloc os 32 w2 = Some ((cmd, b3), w3)" "cmd \<noteq> NULL" "err w3 = err w2" using assms(1) unfolding job_calls_def by blast
  obtain w4 where 4: "os_receive os 32 w3 = Some (line @ 0 # junk, w4)" "err w4 = err w3" using assms(1) unfolding job_calls_def by blast
  have "exec_job os argv w = andthen (execv os (hd (words line)) (words line)) (\<lambda>_.
    andthen (unknown (os_writec os) argv (hd (words line))) (\<lambda>_. leave_job os cmd args (- 1))) w4"
    unfolding exec_job_def using 1 2 3 4 st(1-4)
    by (simp add: andthen_def sys_def massert_def runs_def ret_def redirect_def if_not_P [OF st(5)] del: close_fds.simps not_None_eq)
  then show thesis using 1(3) 2(2) 3(3) 4(2) by (intro that) simp_all
qed

text \<open>
  C23. The task that the shell starts for a job becomes the command that the job names: for a job of up
  to eight words without redirection it executes the first word with all the words as arguments,
  provided that there is memory and the file system answers.
\<close>

theorem job_becomes_command:
  assumes "job_calls os err (line @ 0 # junk)" "\<forall>c \<in> set line. c \<notin> {0, 0x3C, 0x3E, 10, 13}" "length (words line) \<le> MAX_ARGS" "words line \<noteq> []"
    and "\<And>u. \<exists>v. os_execv os (hd (words line)) (words line) u = Some (True, v)"
  shows "\<exists>v. exec_job os argv w = Inl (Became (hd (words line)) (words line), v)"
proof -
  have "\<forall>c \<in> set line. plain c" using assms(2) by (simp add: plain_def)
  from exec_job_reaches [OF assms(1) this assms(3,4)] obtain u cmd args where u: "err u = err w" "exec_job os argv w =
      andthen (execv os (hd (words line)) (words line)) (\<lambda>_. andthen (unknown (os_writec os) argv (hd (words line))) (\<lambda>_. leave_job os cmd args (- 1))) u" .
  obtain v where "os_execv os (hd (words line)) (words line) u = Some (True, v)" using assms(5) by blast
  from stops_first [OF stops_execv [OF this]] show ?thesis unfolding u(2) stops_def by blast
qed

lemma words_subset: "w \<in> set (words line) \<Longrightarrow> set w \<subseteq> set line"
proof (induction line rule: words.induct)
  case (2 c cs)
  show ?case
  proof (cases "blank c")
    case False
    then consider "w = c # takeWhile (\<lambda>c. \<not> blank c) cs" | "w \<in> set (words (dropWhile (\<lambda>c. \<not> blank c) cs))" using 2(3) by auto
    then show ?thesis using 2(2) [OF False] by cases (auto dest: set_takeWhileD set_dropWhileD)
  qed (use 2 in auto)
qed simp

lemma emits_errors:
  assumes "\<And>c u. c \<noteq> EOF \<Longrightarrow> \<exists>v. os_writec os STDERR c u = Some (c, v) \<and> err v = err u @ [ucast c]" "EOF \<notin> set cs"
  shows "\<exists>v. runs (emit (os_writec os) STDERR cs) u () v \<and> err v = err u @ map ucast cs"
  using assms(2)
proof (induction cs arbitrary: u)
  case (Cons c cs)
  obtain v where v: "os_writec os STDERR c u = Some (c, v)" "err v = err u @ [ucast c]" using assms(1) [of c] Cons.prems by auto
  obtain v' where "runs (emit (os_writec os) STDERR cs) v () v'" "err v' = err v @ map ucast cs" using Cons by auto
  with v Cons.prems show ?case by (auto simp: runs_andthen_iff mfputc_def)
qed auto

text \<open>
  C24. A job whose command does not exist is reported: when \<^verbatim>\<open>execv\<close> returns, the task writes the name of the
  shell, the command and a question mark to the errors, gives its memory back and returns -1.
\<close>

theorem unknown_command_is_reported:
  assumes "job_calls os err (line @ 0 # junk)" "\<forall>c \<in> set line. c \<notin> {0, 0x3C, 0x3E, 10, 13, 0xFF}" "length (words line) \<le> MAX_ARGS" "words line \<noteq> []"
    and "\<And>u. \<exists>v. os_execv os (hd (words line)) (words line) u = Some (False, v) \<and> err v = err u"
    and "\<And>c u. c \<noteq> EOF \<Longrightarrow> \<exists>v. os_writec os STDERR c u = Some (c, v) \<and> err v = err u @ [ucast c]"
  shows "\<exists>v. exec_job os [ascii ''sh''] w = Inr (- 1, v) \<and> err v = err w @ ascii ''sh: '' @ hd (words line) @ ascii ''?'' @ [10]"
proof -
  let ?c = "hd (words line)" and ?argv = "[ascii ''sh'']"
  have "\<forall>c \<in> set line. plain c" using assms(2) by (simp add: plain_def)
  from exec_job_reaches [OF assms(1) this assms(3,4)] obtain u cmd p where u: "err u = err w" "exec_job os ?argv w =
      andthen (execv os ?c (words line)) (\<lambda>_. andthen (unknown (os_writec os) ?argv ?c) (\<lambda>_. leave_job os cmd p (- 1))) u" .
  obtain v where v: "os_execv os ?c (words line) u = Some (False, v)" "err v = err u" using assms(5) by blast
  then have ex: "runs (execv os ?c (words line)) u () v" by (simp add: execv_def runs_def andthen_def sys_def ret_def)
  define cs :: "cint list" where "cs = map scast (ascii ''sh: '' @ ?c @ ascii ''?'' @ [10])"
  have "0xFF \<notin> set ?c" using assms(2,4) words_subset [of ?c line] by auto
  then have "EOF \<notin> set cs" by (auto simp: cs_def EOF_def dest: scast_EOF [THEN iffD1, OF sym, unfolded EOF_def])
  from emits_errors [OF assms(6) this] obtain x where x: "runs (emit (os_writec os) STDERR cs) v () x" "err x = err v @ map ucast cs" by blast
  have un: "unknown (os_writec os) ?argv ?c = emit (os_writec os) STDERR cs"
    by (simp add: unknown_def at_def idx_def conversion_def puts_emit emit_append cs_def)
  obtain y where y: "os_pmfree os cmd x = Some ((), y)" "err y = err x" using assms(1) unfolding job_calls_def by blast
  obtain z where z: "os_pmfree os p y = Some ((), z)" "err z = err y" using assms(1) unfolding job_calls_def by blast
  have "runs (leave_job os cmd p (- 1)) x (- 1) z" using y z by (simp add: leave_job_def runs_andthen_iff)
  then have "exec_job os ?argv w = Inr (- 1, z)"
    unfolding u(2) runs_def [symmetric] using ex x(1) un by (auto intro!: runs_andthen)
  moreover have "err z = err w @ ascii ''sh: '' @ ?c @ ascii ''?'' @ [10]"
    using u(1) v(2) x(2) y(2) z(2) by (simp add: cs_def comp_def scast_back)
  ultimately show ?thesis by blast
qed

text \<open>A world that is what was written to the errors.\<close>

definition job_os :: "bool \<Rightarrow> byte list \<Rightarrow> byte list os" where
  "job_os found msg = no_os\<lparr>os_pmmalloc := \<lambda>k w. Some ((0x900, replicate (unat k) 0), w), os_pmfree := \<lambda>_ w. Some ((), w),
     os_close := \<lambda>_ w. Some ((), w), os_receive := \<lambda>_ w. Some (msg, w), os_execv := \<lambda>_ _ w. Some (found, w),
     os_writec := \<lambda>_ c w. Some (c, w @ [ucast c])\<rparr>"

lemma job_os_calls: "job_calls (job_os found msg) (\<lambda>w. w) msg"
  by (simp add: job_calls_def job_os_def)

lemma example_job:
  "words (ascii ''cat 1/2'') = [ascii ''cat'', ascii ''1/2'']" "\<forall>c \<in> set (ascii ''cat 1/2''). c \<notin> {0, 0x3C, 0x3E, 10, 13, 0xFF}"
  "length (words (ascii ''cat 1/2'')) \<le> MAX_ARGS" "words (ascii ''cat 1/2'') \<noteq> []"
  by code_simp+

lemma job_os_exec: "\<exists>v. os_execv (job_os found msg) name args u = Some (found, v) \<and> v = u" "\<exists>v. os_execv (job_os found msg) name args u = Some (found, v)"
  "\<exists>v. os_writec (job_os found msg) fd c u = Some (c, v) \<and> v = u @ [ucast c]"
  by (simp_all add: job_os_def)

theorem job_becomes_command_witness:
  "\<exists>v. exec_job (job_os True (ascii ''cat 1/2'' @ 0 # replicate 24 7)) [ascii ''sh''] [] = Inl (Became (ascii ''cat'') [ascii ''cat'', ascii ''1/2''], v)"
proof -
  have "\<forall>c \<in> set (ascii ''cat 1/2''). c \<notin> {0, 0x3C, 0x3E, 10, 13}" using example_job(2) by blast
  from job_becomes_command [OF job_os_calls this example_job(3,4) job_os_exec(2)] show ?thesis unfolding example_job(1) list.sel .
qed

theorem unknown_command_is_reported_witness:
  "\<exists>v. exec_job (job_os False (ascii ''cat 1/2'' @ 0 # replicate 24 7)) [ascii ''sh''] [] = Inr (- 1, v) \<and> v = ascii ''sh: cat?'' @ [10]"
  using unknown_command_is_reported [OF job_os_calls example_job(2-4) job_os_exec(1,3)]
  unfolding example_job(1) list.sel by fastforce

end
