(* ===== verification/Vfs_Sound.thy ===== *)
theory Vfs_Sound
  imports Vfs_Client
begin

text \<open>
  The file system together with its drivers. The drivers keep reference counts of their nodes, which
  the file system changes with \<^verbatim>\<open>VFS_INODE_GRAB\<close> and \<^verbatim>\<open>VFS_INODE_RELEASE\<close>. An open file is safe to use
  as long as its driver has the node: reading and writing dereference it unchecked. This theory states
  what the file system relies on as an interface of drivers, and shows that every open file has its
  node, so that the requests that tasks may make never run into an error of the C code.
\<close>

section \<open>Nodes and open files\<close>

text \<open>A node is named by the task of its driver and its number; the drivers give its reference count.\<close>

type_synonym node = "pid_t \<times> nat"

type_synonym 'd counts = "'d \<Rightarrow> node \<Rightarrow> nat option"

definition node_of :: "'d vfs_st \<Rightarrow> filp \<Rightarrow> node option" where
  "node_of st f = map_option (\<lambda>pid. (pid, unat (fp_ino f))) (dev_pid (fp_dev f) st)"

definition open_on :: "'d vfs_st \<Rightarrow> node \<Rightarrow> filp \<Rightarrow> bool" where
  "open_on st x f \<longleftrightarrow> fp_refcnt f \<noteq> 0 \<and> node_of st f = Some x"

definition holders :: "'d vfs_st \<Rightarrow> node \<Rightarrow> nat" where
  "holders st x = length (filter (open_on st x) (filps st))"

text \<open>
  The count of a node against the number of entries of the table of open files that refer to it. A
  \<^verbatim>\<open>pipe\<close> that fails after it made its node leaves up to two counts that nothing refers to.
\<close>

fun balanced :: "nat option \<Rightarrow> nat \<Rightarrow> bool" where
  "balanced None h \<longleftrightarrow> h = 0"
| "balanced (Some r) h \<longleftrightarrow> h \<le> r \<and> r \<le> h + 2"

text \<open>A position is at most the 127 at which the drivers stop.\<close>

definition entry_ok :: "'d vfs_st \<Rightarrow> filp \<Rightarrow> bool" where
  "entry_ok st f \<longleftrightarrow> unat (fp_pos f) \<le> 127 \<and> (fp_refcnt f \<noteq> 0 \<longrightarrow> node_of st f \<noteq> None)"

definition nodes_inv :: "('d \<Rightarrow> bool) \<Rightarrow> 'd counts \<Rightarrow> pid_t set \<Rightarrow> 'd vfs_st \<Rightarrow> bool" where
  "nodes_inv ok cnt K st \<longleftrightarrow> ok (devs st) \<and> (\<forall>f \<in> set (filps st). entry_ok st f) \<and>
     (\<exists>pid \<in> K. dev_pid (pipedev_idx st) st = Some pid) \<and> (\<forall>x. balanced (cnt (devs st) x) (holders st x))"

definition sound_inv :: "('d \<Rightarrow> bool) \<Rightarrow> 'd counts \<Rightarrow> pid_t set \<Rightarrow> 'd vfs_st \<Rightarrow> bool" where
  "sound_inv ok cnt K st \<longleftrightarrow> vfs_inv st \<and> nodes_inv ok cnt K st"

section \<open>Requests\<close>

text \<open>A node that can still be made on the device.\<close>

definition node_free :: "'d counts \<Rightarrow> pid_t \<Rightarrow> 'd vfs_st \<Rightarrow> bool" where
  "node_free cnt pid st \<longleftrightarrow> (\<exists>n < 8. cnt (devs st) (pid, n) = None)"

text \<open>A descriptor that is no index is negative, as \<^verbatim>\<open>open\<close> and \<^verbatim>\<open>dup\<close> return it.\<close>

definition fd_arg :: "cint \<Rightarrow> bool" where
  "fd_arg fd \<longleftrightarrow> cneg fd \<or> unat fd < MAX_FD"

definition one_name :: "byte list \<Rightarrow> bool" where
  "one_name s \<longleftrightarrow> slash \<notin> set s \<and> length s < sizeof_direntry"

text \<open>
  The requests that are safe: they come from a task that the file system knows, with descriptors in
  range, for devices in the table and node numbers in range. What the C code fails to check is
  required here: \<^verbatim>\<open>pipe\<close> and \<^verbatim>\<open>mknod\<close> need a free node. A name is one component below the working
  directory.
\<close>

definition dir_arg :: "pid_t set \<Rightarrow> (pid_t \<Rightarrow> nat \<Rightarrow> bool) \<Rightarrow> vfs_in \<Rightarrow> addr \<Rightarrow> 'd vfs_st \<Rightarrow> bool" where
  "dir_arg K P i name st \<longleftrightarrow> name = NULL \<or> i_str i name = [] \<or>
     one_name (i_str i name) \<and>
     (case vfs_findbypid (i_client i) st of None \<Rightarrow> False
      | Some k \<Rightarrow> (case dev_pid (v_wdev (vtasks st ! k)) st of None \<Rightarrow> False
         | Some pid \<Rightarrow> pid \<in> K \<and> P pid (unat (v_wino (vtasks st ! k)))))"

definition vfs_legal :: "pid_t set \<Rightarrow> 'd counts \<Rightarrow> vfs_in \<Rightarrow> 'd vfs_st \<Rightarrow> bool" where
  "vfs_legal K cnt i st \<longleftrightarrow>
     (let msg = i_msg i; cmd = v_cmd msg; known = vfs_findbypid (i_client i) st \<noteq> None
      in if cmd = VFS_ADDTASK then length (vtasks st) < 31
         else if cmd = VFS_MKNOD then dir_arg K (\<lambda>pid n. node_free cnt pid st) i (mknod_name msg) st
         else if cmd = VFS_STAT then dir_arg K (\<lambda>pid n. cnt (devs st) (pid, n) \<noteq> None) i (w0 msg) st
         else if cmd = VFS_DUP \<or> cmd = VFS_CLOSE then known \<and> fd_arg (w0 msg)
         else if cmd = VFS_READC \<or> cmd = VFS_WRITEC then known \<and> i_client i \<noteq> NULL \<and> fd_arg (rw_fd msg)
         else if cmd = VFS_PIPE then known \<and> (\<exists>pid \<in> K. dev_pid (pipedev_idx st) st = Some pid \<and> node_free cnt pid st)
         else if cmd = VFS_OPEN then known \<and> (\<exists>pid \<in> K. dev_pid (open_dev msg) st = Some pid) \<and> unat (open_ino msg) < 8
         else if cmd = VFS_RD_INTERRUPT \<or> cmd = VFS_WR_INTERRUPT then v_client msg \<in> K
         else True)"

section \<open>The interface of drivers\<close>

text \<open>
  What the file system relies on: a driver of one of the tasks \<open>K\<close> answers every request for a node
  it has, counts what is grabbed and released, makes a node when there is room for one, never moves
  a position past 127 and answers no task that does not exist.
\<close>

locale drivers =
  fixes drv :: "'d drivers" and ok :: "'d \<Rightarrow> bool" and cnt :: "'d counts" and K :: "pid_t set"
  assumes known: "cnt d (pid, n) = Some r \<Longrightarrow> pid \<in> K"
    and real: "pid \<in> K \<Longrightarrow> pid \<noteq> NULL"
    and grab: "\<lbrakk>ok d; pid \<in> K; v_cmd m = VFS_INODE_GRAB; unat (w0 m) < 8\<rbrakk> \<Longrightarrow>
      case cnt d (pid, unat (w0 m)) of
        None \<Rightarrow> drv str pid m d = Some (d, [], m\<lparr>w0 := - 1\<rparr>)
      | Some r \<Rightarrow> r < 255 \<longrightarrow>
          (\<exists>d'. drv str pid m d = Some (d', [], m) \<and> ok d' \<and> cnt d' = (cnt d)((pid, unat (w0 m)) \<mapsto> Suc r))"
    and release: "\<lbrakk>ok d; v_cmd m = VFS_INODE_RELEASE; cnt d (pid, unat (w0 m)) = Some (Suc r)\<rbrakk> \<Longrightarrow>
      \<exists>d' reps x. drv str pid m d = Some (d', reps, m) \<and> ok d' \<and> (\<forall>q \<in> set reps. v_client q \<noteq> NULL) \<and>
        cnt d' = (cnt d)((pid, unat (w0 m)) := x) \<and> (x = Some r \<or> x = None \<and> r = 0)"
    and rw: "\<lbrakk>ok d; v_cmd m \<in> {VFS_READC, VFS_WRITEC}; cnt d (pid, unat (w0 m)) = Some r; unat (w1 m) \<le> 127;
        v_client m \<noteq> NULL\<rbrakk> \<Longrightarrow>
      \<exists>d' reps ans. drv str pid m d = Some (d', reps, ans) \<and> ok d' \<and> cnt d' = cnt d \<and> unat (w1 m + rw_bnum ans) \<le> 127"
    and make: "\<lbrakk>ok d; pid \<in> K; v_cmd m = VFS_MKNOD; n < 8; cnt d (pid, n) = None\<rbrakk> \<Longrightarrow>
      \<exists>d' k. drv str pid m d = Some (d', [], m\<lparr>w0 := of_nat k\<rparr>) \<and> ok d' \<and> k < 8 \<and> cnt d (pid, k) = None \<and>
        cnt d' = (cnt d)((pid, k) \<mapsto> 0)"
    and link: "\<lbrakk>ok d; v_cmd m = VFS_LINK; cnt d (pid, unat (w1 m)) = Some r\<rbrakk> \<Longrightarrow>
      \<exists>d'. drv str pid m d = Some (d', [], m) \<and> ok d' \<and> cnt d' = cnt d"
    and lookup: "\<lbrakk>ok d; v_cmd m = VFS_GET_DIRENTRY; cnt d (pid, unat (w1 m)) = Some r; length (str (w2 m)) < 8\<rbrakk> \<Longrightarrow>
      \<exists>ans. drv str pid m d = Some (d, [], ans)"
    and interrupt: "\<lbrakk>ok d; v_cmd m \<in> {VFS_RD_INTERRUPT, VFS_WR_INTERRUPT}; pid \<in> K\<rbrakk> \<Longrightarrow>
      \<exists>d' reps ans. drv str pid m d = Some (d', reps, ans) \<and> ok d' \<and> cnt d' = cnt d"

section \<open>The table of open files\<close>

lemma length_filter_update:
  assumes "i < length xs"
  shows "length (filter P (xs[i := y])) + of_bool (P (xs ! i)) = length (filter P xs) + of_bool (P y)"
proof -
  have "length (filter P xs) = length (filter P (take i xs @ xs ! i # drop (Suc i) xs))"
    using id_take_nth_drop [OF assms] by simp
  then show ?thesis by (simp add: upd_conv_take_nth_drop [OF assms])
qed

lemma nodes_of_state [simp]:
  "node_of (st\<lparr>devs := d\<rparr>) = node_of st" "node_of (st\<lparr>vtasks := ts\<rparr>) = node_of st"
  "node_of (st\<lparr>debugn := z\<rparr>) = node_of st" "node_of (upd_filp j f st) = node_of st" "node_of (set_fd k i y st) = node_of st"
  by (simp_all add: node_of_def dev_pid_def fun_eq_iff)

lemma holders_state [simp]:
  "holders (st\<lparr>devs := d\<rparr>) x = holders st x" "holders (st\<lparr>vtasks := ts\<rparr>) x = holders st x"
  "holders (st\<lparr>debugn := z\<rparr>) x = holders st x" "holders (set_fd k i y st) x = holders st x"
  by (simp_all add: holders_def open_on_def [abs_def])

lemma entry_ok_state [simp]:
  "entry_ok (st\<lparr>devs := d\<rparr>) = entry_ok st" "entry_ok (st\<lparr>vtasks := ts\<rparr>) = entry_ok st"
  "entry_ok (st\<lparr>debugn := z\<rparr>) = entry_ok st" "entry_ok (upd_filp j f st) = entry_ok st" "entry_ok (set_fd k i y st) = entry_ok st"
  by (simp_all add: entry_ok_def fun_eq_iff)

lemma dev_pid_state [simp]:
  "dev_pid dev (st\<lparr>devs := d\<rparr>) = dev_pid dev st" "dev_pid dev (st\<lparr>vtasks := ts\<rparr>) = dev_pid dev st"
  "dev_pid dev (st\<lparr>debugn := z\<rparr>) = dev_pid dev st" "dev_pid dev (upd_filp j f st) = dev_pid dev st"
  "dev_pid dev (set_fd k i y st) = dev_pid dev st"
  by (simp_all add: dev_pid_def)

lemma nodes_inv_state [simp]:
  "nodes_inv ok cnt K (st\<lparr>vtasks := ts\<rparr>) = nodes_inv ok cnt K st"
  "nodes_inv ok cnt K (st\<lparr>debugn := z\<rparr>) = nodes_inv ok cnt K st"
  "nodes_inv ok cnt K (set_fd k i y st) = nodes_inv ok cnt K st"
  by (simp_all add: nodes_inv_def)

lemma holders_upd:
  assumes "j < length (filps st)"
  shows "holders (upd_filp j f st) x + of_bool (open_on st x (filps st ! j)) =
    holders st x + of_bool (open_on st x (f (filps st ! j)))"
proof -
  have eq: "open_on (upd_filp j f st) x = open_on st x" "filps (upd_filp j f st) = (filps st)[j := f (filps st ! j)]"
    by (simp add: fun_eq_iff open_on_def) (simp add: upd_filp_def)
  show ?thesis unfolding holders_def eq by (rule length_filter_update [OF assms])
qed

lemma holders_le: "length (filps st) = MAX_FILP \<Longrightarrow> holders st x \<le> 16"
  unfolding holders_def using length_filter_le [of "open_on st x" "filps st"] by simp

lemma open_holders:
  assumes "j < length (filps st)" "open_on st x (filps st ! j)"
  shows "0 < holders st x"
proof -
  have "filps st ! j \<in> set (filter (open_on st x) (filps st))" using assms by simp
  then show ?thesis unfolding holders_def by (cases "filter (open_on st x) (filps st)") auto
qed

lemma nodes_inv_parts:
  assumes "nodes_inv ok cnt K st"
  shows "ok (devs st)" "j < length (filps st) \<Longrightarrow> entry_ok st (filps st ! j)" "balanced (cnt (devs st) x) (holders st x)"
    "\<exists>pid \<in> K. dev_pid (pipedev_idx st) st = Some pid"
  using assms unfolding nodes_inv_def by (simp, simp, blast, blast)

text \<open>The messages by which the drivers keep their counts.\<close>

definition bookkeeping :: "'d drivers \<Rightarrow> 'd \<Rightarrow> 'd \<Rightarrow> bool" where
  "bookkeeping drv d d' \<longleftrightarrow> (\<exists>str pid m reps ans. v_cmd m \<in> {VFS_MKNOD, VFS_INODE_GRAB, VFS_INODE_RELEASE} \<and>
     drv str pid m d = Some (d', reps, ans))"

lemma ask_bookkeeping:
  assumes "ask drv str dev m st = Some (st', ans)" "v_cmd m \<in> {VFS_MKNOD, VFS_INODE_GRAB, VFS_INODE_RELEASE}"
  shows "bookkeeping drv (devs st) (devs st')"
proof -
  obtain pid d reps where "drv str pid m (devs st) = Some (d, reps, ans)" "st' = st\<lparr>devs := d\<rparr>"
    using assms(1) by (auto simp: ask_def call_def split: Option.bind_splits if_splits)
  then have "drv str pid m (devs st) = Some (devs st', reps, ans)" by simp
  with assms(2) show ?thesis unfolding bookkeeping_def by blast
qed

text \<open>Changing one entry and the devices.\<close>

lemma upd_filp_devs: "upd_filp j f (st\<lparr>devs := d\<rparr>) = (upd_filp j f st)\<lparr>devs := d\<rparr>"
  by (simp add: upd_filp_def)

lemma nodes_inv_upd:
  assumes "nodes_inv ok cnt K st" "ok d" "entry_ok st (f (filps st ! j))"
    and "\<And>x. balanced (cnt d x) (holders (upd_filp j f st) x)"
  shows "nodes_inv ok cnt K (upd_filp j f (st\<lparr>devs := d\<rparr>))"
proof -
  have "set (filps (upd_filp j f st)) \<subseteq> insert (f (filps st ! j)) (set (filps st))"
    by (simp add: upd_filp_def set_update_subset_insert)
  then have "\<forall>y \<in> set (filps (upd_filp j f st)). entry_ok st y" using assms(1,3) by (auto simp: nodes_inv_def)
  then show ?thesis unfolding upd_filp_devs using assms(1,2,4) by (simp add: nodes_inv_def)
qed

text \<open>An entry that stays open on the same node, or stays unused.\<close>

lemma nodes_inv_same:
  assumes inv: "nodes_inv ok cnt K st" and j: "j < length (filps st)" and d: "ok d" "cnt d = cnt (devs st)"
    and pos: "unat (fp_pos (f (filps st ! j))) \<le> 127"
    and same: "fp_refcnt (f (filps st ! j)) = 0 \<and> fp_refcnt (filps st ! j) = 0 \<or>
      fp_refcnt (f (filps st ! j)) \<noteq> 0 \<and> fp_refcnt (filps st ! j) \<noteq> 0 \<and>
      fp_dev (f (filps st ! j)) = fp_dev (filps st ! j) \<and> fp_ino (f (filps st ! j)) = fp_ino (filps st ! j)"
  shows "nodes_inv ok cnt K (upd_filp j f (st\<lparr>devs := d\<rparr>))"
proof (rule nodes_inv_upd [OF inv d(1)])
  have o: "open_on st x (f (filps st ! j)) = open_on st x (filps st ! j)" for x
    using same by (auto simp: open_on_def node_of_def)
  have "entry_ok st (filps st ! j)" using inv j by (simp add: nodes_inv_def)
  then show "entry_ok st (f (filps st ! j))" using same pos by (auto simp: entry_ok_def node_of_def)
  show "balanced (cnt d x) (holders (upd_filp j f st) x)" for x
    using holders_upd [OF j, of f x] o [of x] nodes_inv_parts(3) [OF inv, of x] d(2) by simp
qed

lemma nodes_inv_same':
  assumes "nodes_inv ok cnt K st" "j < length (filps st)" "unat (fp_pos (f (filps st ! j))) \<le> 127"
    and "fp_refcnt (f (filps st ! j)) = 0 \<and> fp_refcnt (filps st ! j) = 0 \<or>
      fp_refcnt (f (filps st ! j)) \<noteq> 0 \<and> fp_refcnt (filps st ! j) \<noteq> 0 \<and>
      fp_dev (f (filps st ! j)) = fp_dev (filps st ! j) \<and> fp_ino (f (filps st ! j)) = fp_ino (filps st ! j)"
  shows "nodes_inv ok cnt K (upd_filp j f st)"
  using nodes_inv_same [of ok cnt K st j "devs st" f] assms nodes_inv_parts(1) [OF assms(1)] by simp

text \<open>An unused entry is opened on a node.\<close>

lemma nodes_inv_open:
  assumes inv: "nodes_inv ok cnt K st" and j: "j < length (filps st)" "fp_refcnt (filps st ! j) = 0" and d: "ok d"
    and f: "unat (fp_pos (f (filps st ! j))) \<le> 127" "fp_refcnt (f (filps st ! j)) \<noteq> 0" "node_of st (f (filps st ! j)) = Some x"
    and cnt: "\<And>y. y \<noteq> x \<Longrightarrow> cnt d y = cnt (devs st) y" "balanced (cnt d x) (Suc (holders st x))"
  shows "nodes_inv ok cnt K (upd_filp j f (st\<lparr>devs := d\<rparr>))"
proof (rule nodes_inv_upd [OF inv d])
  show "entry_ok st (f (filps st ! j))" using f by (simp add: entry_ok_def)
  have "holders (upd_filp j f st) y = holders st y + of_bool (x = y)" for y
    using holders_upd [OF j(1), of f y] j(2) f by (simp add: open_on_def)
  then show "balanced (cnt d y) (holders (upd_filp j f st) y)" for y
    using cnt nodes_inv_parts(3) [OF inv, of y] by (cases "y = x") simp_all
qed

text \<open>An entry gives up its node.\<close>

lemma nodes_inv_close:
  assumes inv: "nodes_inv ok cnt K st" and j: "j < length (filps st)" "fp_refcnt (filps st ! j) \<noteq> 0"
      "node_of st (filps st ! j) = Some x" and d: "ok d"
    and f: "fp_pos (f (filps st ! j)) = fp_pos (filps st ! j)" "fp_refcnt (f (filps st ! j)) = 0"
    and cnt: "\<And>y. y \<noteq> x \<Longrightarrow> cnt d y = cnt (devs st) y" "balanced (cnt d x) (holders st x - 1)"
  shows "nodes_inv ok cnt K (upd_filp j f (st\<lparr>devs := d\<rparr>))"
proof (rule nodes_inv_upd [OF inv d])
  have "entry_ok st (filps st ! j)" using inv j by (simp add: nodes_inv_def)
  then show "entry_ok st (f (filps st ! j))" using f by (simp add: entry_ok_def)
  have "holders (upd_filp j f st) y = holders st y - of_bool (x = y)" for y
    using holders_upd [OF j(1), of f y] j f by (simp add: open_on_def)
  then show "balanced (cnt d y) (holders (upd_filp j f st) y)" for y
    using cnt nodes_inv_parts(3) [OF inv, of y] by (cases "y = x") simp_all
qed

lemma nodes_inv_devs:
  assumes "nodes_inv ok cnt K st" "ok d" "\<And>x. balanced (cnt d x) (holders st x)"
  shows "nodes_inv ok cnt K (st\<lparr>devs := d\<rparr>)"
  using assms by (simp add: nodes_inv_def)

section \<open>Names\<close>

text \<open>A path of one component is looked up in the working directory alone.\<close>

lemma dir_arg_cases [consumes 1, case_names empty name]:
  assumes "dir_arg K P i name st"
  obtains "name = NULL \<or> i_str i name = []"
    | k pid where "name \<noteq> NULL" "i_str i name \<noteq> []" "one_name (i_str i name)" "vfs_findbypid (i_client i) st = Some k"
        "dev_pid (v_wdev (vtasks st ! k)) st = Some pid" "pid \<in> K" "P pid (unat (v_wino (vtasks st ! k)))"
  using assms unfolding dir_arg_def by (auto split: option.splits)

lemma get_dir_one_name:
  assumes "path \<noteq> NULL" "str path \<noteq> []" "one_name (str path)"
  shows "vfs_get_dir drv str mem junk dev0 (Some k) path st =
    Some (st, v_wdev (vtasks st ! k), v_wino (vtasks st ! k))"
proof -
  have "dropWhile (\<lambda>c. c \<noteq> slash) (str path) = []" using assms(3) by (auto simp: one_name_def)
  moreover have "hd (str path) \<noteq> slash" using assms(2,3) hd_in_set unfolding one_name_def by metis
  ultimately have "dropWhile (\<lambda>c. c \<noteq> slash) (str path) = []" "hd (str path) \<noteq> slash" by blast+
  then show ?thesis using assms(1,2) by (simp add: vfs_get_dir_def walk_path.simps Let_def)
qed

lemma basename_one_name: "one_name s \<Longrightarrow> basename s = (s, int (length s))"
  by (simp add: basename_components components_one one_name_def)

section \<open>Every request is answered\<close>

lemma inc_entry:
  assumes "vfs_inv st" "j < MAX_FILP"
  shows "fp_refcnt (inc_refcnt (filps st ! j)) \<noteq> 0"
proof
  assume "fp_refcnt (inc_refcnt (filps st ! j)) = 0"
  then have "fp_refcnt (filps st ! j) = - 1" by (simp add: inc_refcnt_def eq_neg_iff_add_eq_0)
  then have "unat (fp_refcnt (filps st ! j)) = 255" by (simp add: unsigned_minus_1_eq_mask mask_eq_exp_minus_1)
  with vfs_inv_parts(6) [OF assms] refs_byte [OF assms(1), of "of_nat j"] show False by simp
qed

lemma open_entry:
  assumes "vfs_inv st" "k < length (vtasks st)" "i < MAX_FD" "\<not> cneg (v_fd (vtasks st ! k) ! i)"
  shows "idx MAX_FILP (v_fd (vtasks st ! k) ! i) = Some (unat (v_fd (vtasks st ! k) ! i))"
    "unat (v_fd (vtasks st ! k) ! i) < length (filps st)" "fp_refcnt (filps st ! unat (v_fd (vtasks st ! k) ! i)) \<noteq> 0"
  using slot_cases [OF assms(1-3)] inv_unshare(2) [OF assms(1-3)] assms(4) vfs_inv_parts(2) [OF assms(1)]
  by (auto simp: idx_eq)

lemma fd_arg_cases: "fd_arg fd \<Longrightarrow> \<not> cneg fd \<Longrightarrow> idx MAX_FD fd = Some (unat fd) \<and> unat fd < MAX_FD"
  by (simp add: fd_arg_def idx_eq)

context drivers
begin

lemma count_small:
  assumes "nodes_inv ok cnt K st" "vfs_inv st" "cnt (devs st) x = Some r"
  shows "r \<le> 18"
  using nodes_inv_parts(3) [OF assms(1), of x] assms(3) holders_le [OF vfs_inv_parts(2) [OF assms(2)], of x] by simp

lemma entry_node:
  assumes "nodes_inv ok cnt K st" "j < length (filps st)" "fp_refcnt (filps st ! j) \<noteq> 0"
  obtains pid r where "dev_pid (fp_dev (filps st ! j)) st = Some pid" "pid \<noteq> NULL"
    "cnt (devs st) (pid, unat (fp_ino (filps st ! j))) = Some (Suc r)"
    "node_of st (filps st ! j) = Some (pid, unat (fp_ino (filps st ! j)))"
proof -
  have "node_of st (filps st ! j) \<noteq> None"
    using nodes_inv_parts(2) [OF assms(1,2)] assms(3) by (simp add: entry_ok_def)
  then obtain pid where pid: "dev_pid (fp_dev (filps st ! j)) st = Some pid" "node_of st (filps st ! j) = Some (pid, unat (fp_ino (filps st ! j)))"
    by (auto simp: node_of_def)
  let ?x = "(pid, unat (fp_ino (filps st ! j)))"
  have "0 < holders st ?x" using open_holders [OF assms(2)] assms(3) pid(2) by (simp add: open_on_def)
  with nodes_inv_parts(3) [OF assms(1), of ?x] obtain r where r: "cnt (devs st) ?x = Some (Suc r)"
    by (cases "cnt (devs st) ?x") (auto, metis Suc_pred less_le_trans)
  from that [OF pid(1) real [OF known [OF r]] r pid(2)] show ?thesis .
qed

lemma ask_grab:
  assumes "nodes_inv ok cnt K st" "vfs_inv st" "dev_pid dev st = Some pid" "pid \<in> K"
    and "v_cmd m = VFS_INODE_GRAB" "unat (w0 m) < 8"
  obtains (no_node) "cnt (devs st) (pid, unat (w0 m)) = None" "ask drv str dev m st = Some (st, m\<lparr>w0 := - 1\<rparr>)"
    | (node) r d where "cnt (devs st) (pid, unat (w0 m)) = Some r" "ask drv str dev m st = Some (st\<lparr>devs := d\<rparr>, m)"
        "ok d" "cnt d = (cnt (devs st))((pid, unat (w0 m)) \<mapsto> Suc r)"
proof (cases "cnt (devs st) (pid, unat (w0 m))")
  case None
  with grab [OF nodes_inv_parts(1) [OF assms(1)] assms(4-6), of str] assms(3) real [OF assms(4)]
  show ?thesis by (intro no_node) (simp_all add: ask_def call_def)
next
  case (Some r)
  have "r < 255" using count_small [OF assms(1,2) Some] by simp
  with grab [OF nodes_inv_parts(1) [OF assms(1)] assms(4-6), of str] Some obtain d where
    "drv str pid m (devs st) = Some (d, [], m)" "ok d" "cnt d = (cnt (devs st))((pid, unat (w0 m)) \<mapsto> Suc r)" by auto
  with Some assms(3) real [OF assms(4)] show ?thesis by (intro node) (simp_all add: ask_def call_def)
qed

lemma dup_sound:
  assumes "nodes_inv ok cnt K st" "vfs_inv st" "k < length (vtasks st)" "fd_arg (w0 msg)"
  shows "\<exists>st' m as. do_dup (Some k) msg st = Some (st', m, as) \<and> nodes_inv ok cnt K st'"
proof (cases "cneg (w0 msg) \<or> cneg (v_fd (vtasks st ! k) ! unat (w0 msg)) \<or> cneg (find_empty_fd (vtasks st ! k))")
  case True
  with assms(1) fd_arg_cases [OF assms(4)] show ?thesis by (auto simp: do_dup_def Let_def)
next
  case False
  let ?fp = "v_fd (vtasks st ! k) ! unat (w0 msg)"
  have fd: "idx 8 (w0 msg) = Some (unat (w0 msg))" "unat (w0 msg) < 8" using fd_arg_cases [OF assms(4)] False by auto
  note e = open_entry [OF assms(2,3) fd(2)]
  have j: "unat ?fp < length (filps st)" "fp_refcnt (filps st ! unat ?fp) \<noteq> 0" using e False by auto
  have "nodes_inv ok cnt K (upd_filp (unat ?fp) inc_refcnt st)"
    using nodes_inv_parts(2) [OF assms(1) j(1)] j inc_entry [OF assms(2), of "unat ?fp"] vfs_inv_parts(2) [OF assms(2)]
    by (intro nodes_inv_same' [OF assms(1)]) (auto simp: entry_ok_def inc_refcnt_def)
  then show ?thesis using False fd e(1) by (simp add: do_dup_def Let_def upd_set_comm)
qed

lemma open_sound:
  assumes "nodes_inv ok cnt K st" "vfs_inv st" "k < length (vtasks st)" "dev_pid (open_dev msg) st = Some pid" "pid \<in> K"
    and "unat (open_ino msg) < 8"
  shows "\<exists>st' m as. do_open drv str (Some k) msg st = Some (st', m, as) \<and> nodes_inv ok cnt K st'"
proof (cases "cneg (find_empty_fd (vtasks st ! k)) \<or> cneg (find_empty_filp st)")
  case True
  with assms(1) show ?thesis by (auto simp: do_open_def Let_def)
next
  case False
  let ?j = "unat (find_empty_filp st)" and ?m = "msg\<lparr>v_cmd := VFS_INODE_GRAB, w0 := open_ino msg\<rparr>"
  let ?st = "upd_filp ?j (\<lambda>f. f\<lparr>fp_dev := open_dev msg, fp_ino := open_ino msg, fp_pos := 0\<rparr>) st"
  have j: "?j < length (filps st)" "fp_refcnt (filps st ! ?j) = 0"
    using empty_filp [OF assms(2)] False vfs_inv_parts(2) [OF assms(2)] by auto
  have inv: "nodes_inv ok cnt K ?st" using j by (intro nodes_inv_same' [OF assms(1)]) auto
  have vinv: "vfs_inv ?st"
    using j vfs_inv_parts(2) [OF assms(2)] by (intro inv_filp_same [OF assms(2)]) auto
  have g: "dev_pid (open_dev msg) ?st = Some pid" "v_cmd ?m = VFS_INODE_GRAB" "unat (w0 ?m) < 8" using assms(4,6) by simp_all
  have f: "filps ?st ! ?j = (filps st ! ?j)\<lparr>fp_dev := open_dev msg, fp_ino := open_ino msg, fp_pos := 0\<rparr>"
    using j(1) by (simp add: upd_filp_nth)
  show ?thesis
  proof (cases rule: ask_grab [OF inv vinv g(1) assms(5) g(2,3), of str, case_names no_node node])
    case no_node
    with False inv show ?thesis by (simp add: do_open_def Let_def)
  next
    case (node r d)
    have "nodes_inv ok cnt K (upd_filp ?j inc_refcnt (?st\<lparr>devs := d\<rparr>))"
      using nodes_inv_parts(3) [OF inv, of "(pid, unat (open_ino msg))"] node j assms(4)
      by (intro nodes_inv_open [OF inv, where x = "(pid, unat (open_ino msg))"])
        (auto simp: f inc_refcnt_def node_of_def)
    moreover have "\<not> cneg (open_ino msg)" using assms(6) by (simp add: cneg_iff)
    ultimately show ?thesis using False node(2) by (simp add: do_open_def Let_def)
  qed
qed

text \<open>The reference that a descriptor gives up may be the last one of its entry.\<close>

lemma close_sound:
  assumes "nodes_inv ok cnt K st" "vfs_inv st" "k < length (vtasks st)" "fd_arg (open_fd msg)"
  shows "\<exists>st' m as. do_close drv str (Some k) msg st = Some (st', m, as) \<and> nodes_inv ok cnt K st'"
proof (cases "cneg (open_fd msg) \<or> cneg (v_fd (vtasks st ! k) ! unat (open_fd msg))")
  case True
  with assms(1) fd_arg_cases [OF assms(4)] show ?thesis by (auto simp: do_close_def Let_def)
next
  case False
  let ?i = "unat (open_fd msg)" and ?j = "unat (v_fd (vtasks st ! k) ! unat (open_fd msg))"
  let ?dec = "\<lambda>f. f\<lparr>fp_refcnt := fp_refcnt f - 1\<rparr>" and ?st = "set_fd k (unat (open_fd msg)) (- 1) st"
  have fd: "idx 8 (open_fd msg) = Some ?i" "?i < 8" using fd_arg_cases [OF assms(4)] False by auto
  note e = open_entry [OF assms(2,3) fd(2)]
  have j: "?j < length (filps st)" "fp_refcnt (filps st ! ?j) \<noteq> 0" "?j < length (filps ?st)" using e False by auto
  have inv: "nodes_inv ok cnt K ?st" using assms(1) by simp
  have pos: "unat (fp_pos (filps st ! ?j)) \<le> 127" using nodes_inv_parts(2) [OF assms(1) j(1)] by (simp add: entry_ok_def)
  show ?thesis
  proof (cases "fp_refcnt (filps st ! ?j) - 1 = 0")
    case False
    have "nodes_inv ok cnt K (upd_filp ?j ?dec ?st)"
      using j False pos by (intro nodes_inv_same' [OF inv]) auto
    then show ?thesis using \<open>\<not> (_ \<or> _)\<close> False fd e(1) j by (simp add: do_close_def Let_def upd_filp_nth)
  next
    case True
    obtain pid r where n: "dev_pid (fp_dev (filps st ! ?j)) st = Some pid" "pid \<noteq> NULL"
        "cnt (devs st) (pid, unat (fp_ino (filps st ! ?j))) = Some (Suc r)" "node_of st (filps st ! ?j) = Some (pid, unat (fp_ino (filps st ! ?j)))"
      by (rule entry_node [OF assms(1) j(1,2)])
    let ?m = "msg\<lparr>v_cmd := VFS_INODE_RELEASE, w0 := fp_ino (filps st ! ?j)\<rparr>"
    obtain d reps x where d: "drv str pid ?m (devs st) = Some (d, reps, ?m)" "ok d" "\<forall>q \<in> set reps. v_client q \<noteq> NULL"
        "cnt d = (cnt (devs st))((pid, unat (fp_ino (filps st ! ?j))) := x)" "x = Some r \<or> x = None \<and> r = 0"
      using release [OF nodes_inv_parts(1) [OF assms(1)], of ?m pid r str] n(3) by auto
    have "nodes_inv ok cnt K (upd_filp ?j ?dec (?st\<lparr>devs := d\<rparr>))"
      using j True d(2,4,5) n nodes_inv_parts(3) [OF assms(1), of "(pid, unat (fp_ino (filps st ! ?j)))"]
      by (intro nodes_inv_close [OF inv]) auto
    then show ?thesis using \<open>\<not> (_ \<or> _)\<close> True fd e(1) j d(1,3) n(1,2)
      by (simp add: do_close_def Let_def upd_filp_nth call_def upd_filp_devs)
  qed
qed

lemma close_all_sound:
  assumes "nodes_inv ok cnt K st" "vfs_inv st" "k < length (vtasks st)" "\<forall>i \<in> set is. i < MAX_FD"
  shows "\<exists>st' m as. close_all drv str k is msg st = Some (st', m, as) \<and> nodes_inv ok cnt K st'"
  using assms
proof (induction "is" arbitrary: st msg)
  case (Cons i "is")
  have i: "fd_arg (open_fd (msg\<lparr>w0 := of_nat i\<rparr>))" using Cons.prems(4) by (simp add: fd_arg_def unat_of_nat)
  obtain st1 m1 as1 where r: "do_close drv str (Some k) (msg\<lparr>w0 := of_nat i\<rparr>) st = Some (st1, m1, as1)" "nodes_inv ok cnt K st1"
    using close_sound [OF Cons.prems(1-3) i] by blast
  have "vfs_inv st1" "k < length (vtasks st1)" using do_close_inv [OF Cons.prems(2,3) r(1)] Cons.prems(3) by auto
  from Cons.IH [OF r(2) this, of m1] Cons.prems(4) r(1) show ?case by auto
qed simp

lemma removetask_sound:
  assumes "nodes_inv ok cnt K st" "vfs_inv st"
  shows "\<exists>st' m as. vfs_removetask drv str msg st = Some (st', m, as) \<and> nodes_inv ok cnt K st'"
proof (cases "vfs_findbypid (w0 msg) st")
  case None
  with assms(1) show ?thesis by (simp add: vfs_removetask_def)
next
  case (Some k)
  then have "k < length (vtasks st)" using findbypid_less by auto
  from close_all_sound [OF assms this, of "[0..<8]" str msg] Some show ?thesis
    by (auto simp: vfs_removetask_def simp del: upt_Suc)
qed

lemma inherit_sound:
  assumes "nodes_inv ok cnt K st" "vfs_inv st" "k < length (vtasks st)" "p < length (vtasks st)"
    and "\<forall>i \<in> set is. i < MAX_FD \<and> v_fd (vtasks st ! k) ! i = - 1" "distinct is"
  shows "\<exists>st'. inherit k p is st = Some st' \<and> nodes_inv ok cnt K st'"
  using assms
proof (induction "is" arbitrary: st)
  case (Cons i "is")
  let ?fp = "v_fd (vtasks st ! p) ! i"
  have i: "i < 8" "v_fd (vtasks st ! k) ! i = - 1" using Cons.prems(5) by auto
  show ?case
  proof (cases "cneg ?fp")
    case True
    with Cons show ?thesis by (simp add: Let_def)
  next
    case False
    note e = open_entry [OF Cons.prems(2,4) i(1) False]
    let ?st = "upd_filp (unat ?fp) inc_refcnt (set_fd k i ?fp st)"
    have fp: "unat ?fp < 16" using e(2) vfs_inv_parts(2) [OF Cons.prems(2)] by simp
    have inv: "vfs_inv ?st" using Cons.prems(2,3) i fp by (intro inv_share) (auto simp: inc_refcnt_def)
    have "nodes_inv ok cnt K ?st"
      using Cons.prems(1) nodes_inv_parts(2) [OF Cons.prems(1) e(2)] e inc_entry [OF Cons.prems(2) fp]
      by (intro nodes_inv_same') (auto simp: entry_ok_def inc_refcnt_def)
    moreover have "\<forall>j \<in> set is. j < 8 \<and> v_fd (vtasks ?st ! k) ! j = - 1"
      using Cons.prems(3,5,6) by (auto simp: set_fd_nth) (metis nth_list_update_neq)
    ultimately show ?thesis using Cons.IH [of ?st] Cons.prems(3,4,6) inv False e(1) by (simp add: Let_def)
  qed
qed simp

lemma addnewtask_sound:
  assumes "nodes_inv ok cnt K st" "vfs_inv st" "length (vtasks st) < 31"
  shows "\<exists>st' m as. vfs_addnewtask drv str b msg st = Some (st', m, as) \<and> nodes_inv ok cnt K st'"
proof -
  let ?k = "length (vtasks st)"
  have app: "vfs_inv (st\<lparr>vtasks := vtasks st @ [t]\<rparr>)" "nodes_inv ok cnt K (st\<lparr>vtasks := vtasks st @ [t]\<rparr>)"
    if "v_fd t = replicate 8 (- 1)" for t
    using inv_append [OF assms(2,3)] assms(1) that by simp_all
  have rem: "\<exists>st' m as. vfs_removetask drv str msg (st\<lparr>vtasks := vtasks st @ [t]\<rparr>) = Some (st', m, as) \<and> nodes_inv ok cnt K st'"
    if "v_fd t = replicate 8 (- 1)" for t
    using removetask_sound [OF app(2) [OF that] app(1) [OF that]] .
  have inh: "\<exists>st'. inherit ?k p [0..<8] (st\<lparr>vtasks := vtasks st @ [t]\<rparr>) = Some st' \<and> nodes_inv ok cnt K st'"
    if "v_fd t = replicate 8 (- 1)" "p < Suc ?k" for p t
    using that app [OF that(1)] by (intro inherit_sound) auto
  let ?new = "\<lparr>v_pid = w0 msg, v_fd = replicate 8 (- 1), v_wdev = 0, v_wino = 0, v_rdev = 0, v_rino = 0\<rparr>"
  show ?thesis
  proof (cases "vfs_findbypid (w1 msg) (st\<lparr>vtasks := vtasks st @ [?new]\<rparr>)")
    case None
    with rem [of ?new] assms(1) app(2) show ?thesis by (auto simp: vfs_addnewtask_def Let_def simp del: upt_Suc)
  next
    case (Some p)
    let ?t = "(vtasks st @ [?new]) ! p"
    let ?child = "?new\<lparr>v_rdev := v_rdev ?t, v_rino := v_rino ?t, v_wdev := v_wdev ?t, v_wino := v_wino ?t\<rparr>"
    have "p < Suc ?k" using findbypid_less [OF Some] by simp
    with Some inh [of ?child p] assms(1) show ?thesis
      by (auto simp: vfs_addnewtask_def Let_def simp del: upt_Suc)
  qed
qed

lemma rw_sound:
  assumes "nodes_inv ok cnt K st" "vfs_inv st" "k < length (vtasks st)" "fd_arg (rw_fd msg)"
    and "v_cmd msg \<in> {VFS_READC, VFS_WRITEC}" "v_client msg \<noteq> NULL"
  shows "\<exists>st' m as. do_rw drv str (Some k) msg st = Some (st', m, as) \<and> nodes_inv ok cnt K st'"
proof (cases "cneg (rw_fd msg) \<or> cneg (v_fd (vtasks st ! k) ! unat (rw_fd msg))")
  case True
  with assms(1) fd_arg_cases [OF assms(4)] show ?thesis by (auto simp: do_rw_def Let_def)
next
  case False
  let ?j = "unat (v_fd (vtasks st ! k) ! unat (rw_fd msg))"
  let ?f = "filps st ! ?j"
  have fd: "idx 8 (rw_fd msg) = Some (unat (rw_fd msg))" "unat (rw_fd msg) < 8"
    using fd_arg_cases [OF assms(4)] False by auto
  note e = open_entry [OF assms(2,3) fd(2)]
  have j: "?j < length (filps st)" "fp_refcnt ?f \<noteq> 0" using e False by auto
  obtain pid r where n: "dev_pid (fp_dev ?f) st = Some pid" "pid \<noteq> NULL" "cnt (devs st) (pid, unat (fp_ino ?f)) = Some (Suc r)"
    by (rule entry_node [OF assms(1) j])
  have pos: "unat (fp_pos ?f) \<le> 127" using nodes_inv_parts(2) [OF assms(1) j(1)] by (simp add: entry_ok_def)
  let ?m = "msg\<lparr>w0 := fp_ino ?f, w1 := fp_pos ?f\<rparr>"
  obtain d reps ans where d: "drv str pid ?m (devs st) = Some (d, reps, ans)" "ok d" "cnt d = cnt (devs st)"
      "unat (fp_pos ?f + rw_bnum ans) \<le> 127"
    using rw [OF nodes_inv_parts(1) [OF assms(1)], of ?m pid "Suc r" str] assms(5,6) n(3) pos by auto
  have "nodes_inv ok cnt K (upd_filp ?j (\<lambda>f. f\<lparr>fp_pos := fp_pos f + rw_bnum ans\<rparr>) (st\<lparr>devs := d\<rparr>))"
    using j d by (intro nodes_inv_same [OF assms(1)]) auto
  then show ?thesis using False fd e(1) n(1,2) d(1) by (simp add: do_rw_def Let_def call_def)
qed

text \<open>A new node is nobody's.\<close>

lemma ask_make:
  assumes "nodes_inv ok cnt K st" "dev_pid dev st = Some pid" "pid \<in> K" "v_cmd m = VFS_MKNOD" "node_free cnt pid st"
  obtains d n where "ask drv str dev m st = Some (st\<lparr>devs := d\<rparr>, m\<lparr>w0 := of_nat n\<rparr>)" "n < 8" "holders st (pid, n) = 0"
    "cnt d = (cnt (devs st))((pid, n) \<mapsto> 0)" "nodes_inv ok cnt K (st\<lparr>devs := d\<rparr>)" "cnt (devs st) (pid, n) = None"
proof -
  obtain n' where "n' < 8" "cnt (devs st) (pid, n') = None" using assms(5) by (auto simp: node_free_def)
  from make [OF nodes_inv_parts(1) [OF assms(1)] assms(3,4) this, of str]
  obtain d n where d: "drv str pid m (devs st) = Some (d, [], m\<lparr>w0 := of_nat n\<rparr>)" "ok d" "n < 8"
      "cnt (devs st) (pid, n) = None" "cnt d = (cnt (devs st))((pid, n) \<mapsto> 0)" by blast
  have h: "holders st (pid, n) = 0" using nodes_inv_parts(3) [OF assms(1), of "(pid, n)"] d(4) by simp
  have "nodes_inv ok cnt K (st\<lparr>devs := d\<rparr>)"
    using nodes_inv_parts(3) [OF assms(1)] d(5) h by (intro nodes_inv_devs [OF assms(1) d(2)]) simp
  with d assms(2) real [OF assms(3)] h show ?thesis by (intro that [of d n]) (simp_all add: ask_def call_def)
qed

text \<open>An end of a pipe takes one of the counts of the new node.\<close>

lemma pipe_end_sound:
  assumes "nodes_inv ok cnt K st" "vfs_inv st" "pipe_end k ino st = Some (st', fd)"
    and "dev_pid (pipedev_idx st) st = Some pid" "cnt (devs st) (pid, unat ino) = Some r" "holders st (pid, unat ino) < r"
  shows "nodes_inv ok cnt K st'" "holders st' (pid, unat ino) = Suc (holders st (pid, unat ino))" "devs st' = devs st"
    "dev_pid (pipedev_idx st') st' = Some pid"
proof -
  let ?j = "unat (find_empty_filp st)" and ?fd = "find_empty_fd (vtasks st ! k)"
  let ?open = "\<lambda>f. inc_refcnt (f\<lparr>fp_dev := pipedev_idx st, fp_ino := ino\<rparr>)"
  have st': "st' = set_fd k (unat ?fd) (find_empty_filp st) (upd_filp ?j ?open st)" and ne: "\<not> cneg (find_empty_filp st)"
    using assms(3) by (auto simp: pipe_end_def Let_def split: if_splits)
  have j: "?j < length (filps st)" "fp_refcnt (filps st ! ?j) = 0"
    using empty_filp [OF assms(2) ne] vfs_inv_parts(2) [OF assms(2)] by auto
  have n: "node_of st (?open (filps st ! ?j)) = Some (pid, unat ino)" using assms(4) by (simp add: node_of_def inc_refcnt_def)
  have pos: "unat (fp_pos (filps st ! ?j)) \<le> 127" using nodes_inv_parts(2) [OF assms(1) j(1)] by (simp add: entry_ok_def)
  have "nodes_inv ok cnt K (upd_filp ?j ?open (st\<lparr>devs := devs st\<rparr>))"
    using j n pos assms(5,6) nodes_inv_parts(1) [OF assms(1)] nodes_inv_parts(3) [OF assms(1), of "(pid, unat ino)"]
    by (intro nodes_inv_open [OF assms(1), where x = "(pid, unat ino)"]) (auto simp: inc_refcnt_def)
  then show "nodes_inv ok cnt K st'" by (simp add: st')
  show "holders st' (pid, unat ino) = Suc (holders st (pid, unat ino))"
    using holders_upd [OF j(1), of ?open "(pid, unat ino)"] n j(2) by (simp add: st' open_on_def inc_refcnt_def)
  show "devs st' = devs st" "dev_pid (pipedev_idx st') st' = Some pid" using assms(4) by (simp_all add: st')
qed

text \<open>A count for which there is no entry yet.\<close>

lemma grab_ahead:
  assumes "nodes_inv ok cnt K st" "vfs_inv st" "dev_pid dev st = Some pid" "pid \<in> K"
    and "v_cmd m = VFS_INODE_GRAB" "w0 m = of_nat n" "n < 8" "cnt (devs st) (pid, n) = Some r" "r < holders st (pid, n) + 2"
  obtains d where "ask drv str dev m st = Some (st\<lparr>devs := d\<rparr>, m)" "cnt d = (cnt (devs st))((pid, n) \<mapsto> Suc r)"
    "nodes_inv ok cnt K (st\<lparr>devs := d\<rparr>)"
proof -
  have n: "unat (w0 m) = n" using assms(6,7) by (simp add: unat_of_nat)
  obtain d where d: "ask drv str dev m st = Some (st\<lparr>devs := d\<rparr>, m)" "ok d" "cnt d = (cnt (devs st))((pid, n) \<mapsto> Suc r)"
    by (rule ask_grab [OF assms(1-5), of str]) (use assms(7,8) n in auto)
  have "balanced (cnt d x) (holders st x)" for x
    using nodes_inv_parts(3) [OF assms(1), of x] assms(8,9) d(3) by (cases "x = (pid, n)") simp_all
  with d show ?thesis by (intro that [of d] nodes_inv_devs [OF assms(1)]) simp_all
qed

text \<open>The node of a new pipe, which is grabbed for both ends.\<close>

lemma pipe_node:
  assumes "nodes_inv ok cnt K st" "vfs_inv st" "dev_pid (pipedev_idx st) st = Some pid" "pid \<in> K" "node_free cnt pid st"
  obtains n d m where "n < 8" "holders st (pid, n) = 0" "cnt (devs st) (pid, n) = None" "cnt d = (cnt (devs st))((pid, n) \<mapsto> 2)"
    "nodes_inv ok cnt K (st\<lparr>devs := d\<rparr>)" "(bookkeeping drv)\<^sup>*\<^sup>* (devs st) d" "v_cmd m = VFS_INODE_GRAB"
    "do_pipe drv str (Some k) msg st =
      (if cneg (find_empty_filp st) then Some (st\<lparr>devs := d\<rparr>, m\<lparr>w2 := - 1\<rparr>, [])
       else case pipe_end k (of_nat n) (st\<lparr>devs := d\<rparr>) of
         None \<Rightarrow> Some (st\<lparr>devs := d\<rparr>, m\<lparr>w2 := - 1\<rparr>, [])
       | Some (st4, fdi) \<Rightarrow>
           (case pipe_end k (of_nat n) st4 of
              None \<Rightarrow> Some (st4, m\<lparr>w0 := fdi, w2 := - 1\<rparr>, [])
            | Some (st5, fdo) \<Rightarrow> Some (st5, m\<lparr>w0 := fdi, w1 := fdo, w2 := 0\<rparr>, [])))"
proof -
  let ?mk = "msg\<lparr>v_cmd := VFS_MKNOD\<rparr>"
  obtain d1 n where d1: "ask drv str (pipedev_idx st) ?mk st = Some (st\<lparr>devs := d1\<rparr>, ?mk\<lparr>w0 := of_nat n\<rparr>)"
      "n < 8" "holders st (pid, n) = 0" "cnt d1 = (cnt (devs st))((pid, n) \<mapsto> 0)" "nodes_inv ok cnt K (st\<lparr>devs := d1\<rparr>)" "cnt (devs st) (pid, n) = None"
    by (rule ask_make [OF assms(1,3,4) _ assms(5), of ?mk str]) simp_all
  let ?m = "msg\<lparr>v_cmd := VFS_INODE_GRAB, w0 := of_nat n\<rparr>"
  obtain d2 where d2: "ask drv str (pipedev_idx st) ?m (st\<lparr>devs := d1\<rparr>) = Some (st\<lparr>devs := d2\<rparr>, ?m)"
      "cnt d2 = (cnt (devs st))((pid, n) \<mapsto> 1)" "nodes_inv ok cnt K (st\<lparr>devs := d2\<rparr>)"
    by (rule grab_ahead [OF d1(5) _ _ assms(4), of "pipedev_idx st" ?m n 0 str]) (use assms(2,3) d1(2-4) in simp_all)
  obtain d3 where d3: "ask drv str (pipedev_idx st) ?m (st\<lparr>devs := d2\<rparr>) = Some (st\<lparr>devs := d3\<rparr>, ?m)"
      "cnt d3 = (cnt (devs st))((pid, n) \<mapsto> 2)" "nodes_inv ok cnt K (st\<lparr>devs := d3\<rparr>)"
    by (rule grab_ahead [OF d2(3) _ _ assms(4), of "pipedev_idx st" ?m n 1 str]) (use assms(2,3) d1(2,3) d2(2) in \<open>simp_all add: numeral_2_eq_2\<close>)
  have "bookkeeping drv (devs st) d1" "bookkeeping drv d1 d2" "bookkeeping drv d2 d3"
    using ask_bookkeeping [OF d1(1)] ask_bookkeeping [OF d2(1)] ask_bookkeeping [OF d3(1)] by simp_all
  then have "(bookkeeping drv)\<^sup>*\<^sup>* (devs st) d3" by (meson converse_rtranclp_into_rtranclp rtranclp.rtrancl_refl)
  moreover have "\<not> cneg (of_nat n :: cint)" using d1(2) by (simp add: unat_of_nat cneg_iff)
  then have "do_pipe drv str (Some k) msg st =
      (if cneg (find_empty_filp st) then Some (st\<lparr>devs := d3\<rparr>, ?m\<lparr>w2 := - 1\<rparr>, [])
       else case pipe_end k (of_nat n) (st\<lparr>devs := d3\<rparr>) of
         None \<Rightarrow> Some (st\<lparr>devs := d3\<rparr>, ?m\<lparr>w2 := - 1\<rparr>, [])
       | Some (st4, fdi) \<Rightarrow>
           (case pipe_end k (of_nat n) st4 of
              None \<Rightarrow> Some (st4, ?m\<lparr>w0 := fdi, w2 := - 1\<rparr>, [])
            | Some (st5, fdo) \<Rightarrow> Some (st5, ?m\<lparr>w0 := fdi, w1 := fdo, w2 := 0\<rparr>, [])))"
    using d1(1) d2(1) d3(1) by (simp add: do_pipe_def Let_def find_empty_filp_def)
  ultimately show ?thesis using d1(2,3,6) d3(2,3) that [of n d3 ?m] by simp
qed

lemma pipe_sound:
  assumes "nodes_inv ok cnt K st" "vfs_inv st" "k < length (vtasks st)" "dev_pid (pipedev_idx st) st = Some pid" "pid \<in> K"
    and "node_free cnt pid st"
  shows "\<exists>st' m as. do_pipe drv str (Some k) msg st = Some (st', m, as) \<and> nodes_inv ok cnt K st'"
proof (rule pipe_node [OF assms(1,2,4-6), of str k msg])
  fix n d m
  let ?st = "st\<lparr>devs := d\<rparr>"
  assume d: "n < 8" "holders st (pid, n) = 0" "cnt d = (cnt (devs st))((pid, n) \<mapsto> 2)" "nodes_inv ok cnt K ?st"
    and eq: "do_pipe drv str (Some k) msg st =
      (if cneg (find_empty_filp st) then Some (?st, m\<lparr>w2 := - 1\<rparr>, [])
       else case pipe_end k (of_nat n) ?st of
         None \<Rightarrow> Some (?st, m\<lparr>w2 := - 1\<rparr>, [])
       | Some (st4, fdi) \<Rightarrow>
           (case pipe_end k (of_nat n) st4 of
              None \<Rightarrow> Some (st4, m\<lparr>w0 := fdi, w2 := - 1\<rparr>, [])
            | Some (st5, fdo) \<Rightarrow> Some (st5, m\<lparr>w0 := fdi, w1 := fdo, w2 := 0\<rparr>, [])))"
  have n: "unat (of_nat n :: cint) = n" using d(1) by (simp add: unat_of_nat)
  have e1: "nodes_inv ok cnt K st4" "holders st4 (pid, n) = 1" "cnt (devs st4) (pid, n) = Some 2" "dev_pid (pipedev_idx st4) st4 = Some pid"
      "vfs_inv st4"
    if "pipe_end k (of_nat n) ?st = Some (st4, fdi)" for st4 fdi
    using pipe_end_sound [OF d(4) _ that, of pid 2] pipe_end_inv [OF _ _ that] assms(2-4) d(2,3) n by simp_all
  have e2: "nodes_inv ok cnt K st5"
    if "pipe_end k (of_nat n) ?st = Some (st4, fdi)" "pipe_end k (of_nat n) st4 = Some (st5, fdo)" for st4 fdi st5 fdo
    using pipe_end_sound(1) [OF e1(1,5) [OF that(1)] that(2) e1(4) [OF that(1)]] e1(2,3) [OF that(1)] n by simp
  show ?thesis unfolding eq using d(4) e1(1) e2 by (auto split: option.split)
qed

lemma mknod_sound:
  assumes inv: "nodes_inv ok cnt K st" and msg: "v_cmd msg = VFS_MKNOD"
    and arg: "dir_arg K (\<lambda>pid n. node_free cnt pid st) i (mknod_name msg) st"
  shows "\<exists>st' m as. do_mknod drv (i_str i) mem junk dev0 (vfs_findbypid (i_client i) st) msg st = Some (st', m, as) \<and>
    nodes_inv ok cnt K st'"
  using arg
proof (cases rule: dir_arg_cases)
  case empty
  with inv show ?thesis by (auto simp: do_mknod_def vfs_get_dir_def)
next
  case (name k pid)
  let ?dev = "v_wdev (vtasks st ! k)"
  note dir = get_dir_one_name [where str = "i_str i" and drv = drv and st = st and k = k, OF name(1-3), of mem junk dev0]
  show ?thesis
  proof (cases "cneg (v_wino (vtasks st ! k))")
    case True
    with inv dir name(4) show ?thesis by (simp add: do_mknod_def)
  next
    case False
    obtain d n where d: "ask drv (i_str i) ?dev msg st = Some (st\<lparr>devs := d\<rparr>, msg\<lparr>w0 := of_nat n\<rparr>)" "n < 8"
        "cnt d = (cnt (devs st))((pid, n) \<mapsto> 0)" "nodes_inv ok cnt K (st\<lparr>devs := d\<rparr>)"
      by (rule ask_make [OF inv name(5,6) msg name(7)])
    let ?m = "msg\<lparr>v_cmd := VFS_LINK, w2 := mknod_name msg, w1 := of_nat n, w0 := v_wino (vtasks st ! k)\<rparr>"
    obtain d' where d': "drv (i_str i) pid ?m d = Some (d', [], ?m)" "ok d'" "cnt d' = cnt d"
      using link [of d ?m pid 0 "i_str i"] nodes_inv_parts(1) [OF d(4)] d(2,3) by (auto simp: unat_of_nat)
    have "nodes_inv ok cnt K (st\<lparr>devs := d'\<rparr>)"
      using nodes_inv_devs [OF d(4) d'(2)] nodes_inv_parts(3) [OF d(4)] d'(3) by simp
    moreover have "ask drv (i_str i) ?dev ?m (st\<lparr>devs := d\<rparr>) = Some (st\<lparr>devs := d'\<rparr>, ?m)"
      using d'(1) name(5) real [OF name(6)] by (simp add: ask_def call_def)
    ultimately show ?thesis using dir d(1) False name(4) by (auto simp: do_mknod_def Let_def)
  qed
qed

lemma stat_sound:
  assumes inv: "nodes_inv ok cnt K st"
    and arg: "dir_arg K (\<lambda>pid n. cnt (devs st) (pid, n) \<noteq> None) i (w0 msg) st"
  shows "\<exists>st' m as. do_stat drv (i_str i) mem junk dev0 (vfs_findbypid (i_client i) st) msg st = Some (st', m, as) \<and>
    nodes_inv ok cnt K st'"
  using arg
proof (cases rule: dir_arg_cases)
  case empty
  with inv show ?thesis by (auto simp: do_stat_def vfs_get_node_def vfs_get_dir_def)
next
  case (name k pid)
  let ?s = "i_str i (w0 msg)" and ?ino = "v_wino (vtasks st ! k)"
  note dir = get_dir_one_name [where str = "i_str i" and drv = drv and st = st and k = k, OF name(1-3), of mem junk dev0]
  obtain r where r: "cnt (devs st) (pid, unat ?ino) = Some r" using name(7) by auto
  have "\<exists>ino. vfs_get_direntry drv (i_str i) mem junk (v_wdev (vtasks st ! k)) ?ino ?s st = Some (st, ino)"
    using lookup [OF nodes_inv_parts(1) [OF inv] _ _ , of "junk\<lparr>v_cmd := VFS_GET_DIRENTRY, w1 := ?ino, w2 := mem (Suc (length ?s))\<rparr>" pid r
        "(i_str i)(mem (Suc (length ?s)) := ?s)"] r name(3,5) real [OF name(6)]
    by (auto simp: vfs_get_direntry_def Let_def ask_def call_def one_name_def)
  then show ?thesis
    using dir basename_one_name [OF name(3)] name(2,4) inv
    by (auto simp: do_stat_def vfs_get_node_def)
qed


text \<open>A new device takes an unused place of the table, so that no open file changes its driver.\<close>

lemma mkdev_sound:
  assumes inv: "nodes_inv ok cnt K st" and vinv: "vfs_inv st"
  shows "nodes_inv ok cnt K (fst (do_mkdev pid msg st))"
proof (cases "cneg (find_empty_devtab st)")
  case True
  with inv show ?thesis by (simp add: do_mkdev_def)
next
  case False
  let ?e = "unat (find_empty_devtab st)"
  let ?st = "st\<lparr>devtab := (devtab st)[?e := pid]\<rparr>"
  have e: "?e < 6" "devtab st ! ?e = NULL"
    using find_index_SomeD [of "devtab st" "\<lambda>p. p = NULL"] False vfs_inv_parts(1) [OF vinv]
    unfolding find_empty_devtab_def by simp_all
  have same: "dev_pid dev ?st = Some p" if "dev_pid dev st = Some p" "p \<noteq> NULL" for dev p
    using that e vfs_inv_parts(1) [OF vinv] by (auto simp: dev_pid_def at_def idx_eq nth_list_update split: if_splits)
  have f: "node_of ?st f = node_of st f" "entry_ok ?st f" if "f \<in> set (filps st)" "fp_refcnt f \<noteq> 0" for f
  proof -
    note f = that
    obtain j where j: "j < length (filps st)" "filps st ! j = f" using f(1) by (auto simp: in_set_conv_nth)
    obtain p where "dev_pid (fp_dev f) st = Some p" "p \<noteq> NULL"
      using entry_node [OF inv j(1)] f(2) unfolding j(2) by metis
    then show "node_of ?st f = node_of st f" by (simp add: node_of_def same)
    then show "entry_ok ?st f" using nodes_inv_parts(2) [OF inv j(1)] j(2) by (simp add: entry_ok_def)
  qed
  have "filter (open_on ?st x) (filps st) = filter (open_on st x) (filps st)" for x
    using f(1) by (intro filter_cong) (auto simp: open_on_def)
  then have h: "holders ?st x = holders st x" for x by (simp add: holders_def)
  have ok: "entry_ok ?st f" if "f \<in> set (filps st)" for f
    using f(2) [OF that] that inv by (cases "fp_refcnt f = 0") (auto simp: nodes_inv_def entry_ok_def)
  obtain p where p: "p \<in> K" "dev_pid (pipedev_idx st) st = Some p" using nodes_inv_parts(4) [OF inv] by blast
  have "nodes_inv ok cnt K ?st"
    unfolding nodes_inv_def using ok h p same [OF p(2) real [OF p(1)]] nodes_inv_parts(1,3) [OF inv] by auto
  with False show ?thesis by (simp add: do_mkdev_def Let_def)
qed

lemma int_sound:
  assumes inv: "nodes_inv ok cnt K st" and msg: "v_client msg \<in> K" "v_cmd msg \<in> {VFS_RD_INTERRUPT, VFS_WR_INTERRUPT}"
  shows "\<exists>st' m as. do_int drv str msg st = Some (st', m, as) \<and> nodes_inv ok cnt K st'"
proof -
  obtain d reps ans where d: "drv str (v_client msg) msg (devs st) = Some (d, reps, ans)" "ok d" "cnt d = cnt (devs st)"
    using interrupt [OF nodes_inv_parts(1) [OF inv] msg(2,1)] by blast
  have "nodes_inv ok cnt K (st\<lparr>devs := d\<rparr>)"
    using nodes_inv_devs [OF inv d(2)] nodes_inv_parts(3) [OF inv] d(3) by simp
  with d(1) real [OF msg(1)] show ?thesis by (simp add: do_int_def call_def)
qed

lemma dispatch_nodes:
  assumes inv: "nodes_inv ok cnt K st" "vfs_inv st" and legal: "vfs_legal K cnt i st"
  shows "\<exists>st' m as. vfs_dispatch drv i st = Some (st', m, as) \<and> nodes_inv ok cnt K st'" (is ?res)
proof -
  let ?known = "vfs_findbypid (i_client i) st"
  note less = findbypid_less [THEN conjunct1] and legal = legal [unfolded vfs_legal_def Let_def]
  consider "v_cmd (i_msg i) \<in> {VFS_ADDTASK, VFS_DELTASK, VFS_MKDEV}" | "v_cmd (i_msg i) \<in> {VFS_MKNOD, VFS_STAT}"
    | "v_cmd (i_msg i) \<in> {VFS_DUP, VFS_CLOSE}" | "v_cmd (i_msg i) \<in> {VFS_PIPE, VFS_OPEN}"
    | "v_cmd (i_msg i) \<in> {VFS_RD_INTERRUPT, VFS_WR_INTERRUPT}" | "v_cmd (i_msg i) \<in> {VFS_READC, VFS_WRITEC}"
    | (other) "v_cmd (i_msg i) \<notin> {VFS_ADDTASK, VFS_DELTASK, VFS_MKDEV, VFS_MKNOD, VFS_STAT, VFS_DUP, VFS_CLOSE, VFS_PIPE,
        VFS_OPEN, VFS_RD_INTERRUPT, VFS_WR_INTERRUPT, VFS_READC, VFS_WRITEC}" by blast
  then show ?res
  proof cases
    case 1
    with legal addnewtask_sound [OF inv] removetask_sound [OF inv] mkdev_sound [OF inv] show ?thesis
      by (auto simp: vfs_dispatch_def vfs_cmds Let_def)
  next
    case 2
    with legal mknod_sound [OF inv(1)] stat_sound [OF inv(1)] show ?thesis
      by (auto simp: vfs_dispatch_def vfs_cmds Let_def)
  next
    case 3
    with legal obtain k where "?known = Some k" "fd_arg (w0 (i_msg i))" by (auto simp: vfs_cmds)
    with 3 dup_sound [OF inv less] close_sound [OF inv less] show ?thesis
      by (auto simp: vfs_dispatch_def vfs_cmds Let_def)
  next
    case 4
    with legal obtain k where k: "?known = Some k" by (auto simp: vfs_cmds)
    from 4 legal open_sound [OF inv less [OF k]] pipe_sound [OF inv less [OF k]] show ?thesis
      by (auto simp: vfs_dispatch_def vfs_cmds Let_def k)
  next
    case 5
    with legal int_sound [OF inv(1), of "i_msg i"] show ?thesis by (auto simp: vfs_dispatch_def vfs_cmds Let_def)
  next
    case 6
    with legal obtain k where k: "?known = Some k" "i_client i \<noteq> NULL" "fd_arg (w0 (i_msg i))" by (auto simp: vfs_cmds)
    from 6 rw_sound [OF inv less [OF k(1)], of "(i_msg i)\<lparr>v_client := i_client i\<rparr>" "i_str i"] k show ?thesis
      by (auto simp: vfs_dispatch_def vfs_cmds Let_def)
  next
    case other
    with inv(1) show ?thesis by (auto simp: vfs_dispatch_def Let_def)
  qed
qed

lemma dispatch_sound:
  assumes "sound_inv ok cnt K st" "vfs_legal K cnt i st"
  shows "\<exists>st' m as. vfs_dispatch drv i st = Some (st', m, as) \<and> sound_inv ok cnt K st'"
proof -
  have inv: "nodes_inv ok cnt K st" "vfs_inv st" using assms(1) by (auto simp: sound_inv_def)
  have "vfs_inv st'" if "vfs_dispatch drv i st = Some (st', m, as)" for st' m as
    by (rule dispatch_inv [OF inv(2) _ that]) (use assms(2) in \<open>simp add: vfs_legal_def Let_def\<close>)
  with dispatch_nodes [OF inv assms(2)] show ?thesis by (auto simp: sound_inv_def)
qed

end

sublocale drivers \<subseteq> file_system: partial_server "vfs_step drv" "sound_inv ok cnt K" "vfs_legal K cnt"
proof
  fix st :: "'d vfs_st" and i :: vfs_in
  assume "sound_inv ok cnt K st" "vfs_legal K cnt i st"
  from dispatch_sound [OF this] show "\<exists>st' as. vfs_step drv i st = Some (st', as) \<and> sound_inv ok cnt K st'"
    by (auto simp: vfs_step_def Let_def)
qed

end
