(* ===== verification/Vfs_System.thy ===== *)
theory Vfs_System
  imports Vfs_Sound
begin

text \<open>
  The drivers of pipes (\<^verbatim>\<open>drivers/pipe.c\<close>) and of files in memory (\<^verbatim>\<open>drivers/ramdisk.c\<close>) keep the contract that
  the file system relies on, so that the system of all three never gets stuck.
\<close>

section \<open>The drivers of pipes and files\<close>

text \<open>The reference counts of the nodes of \<^verbatim>\<open>pipedev\<close> (task 0x100) and \<^verbatim>\<open>memfile\<close> (task 0x200).\<close>

definition node_counts :: "(pd_nodes \<times> mf_nodes) counts" where
  "node_counts d x =
     (if 8 \<le> snd x then None
      else if fst x = 0x100 then map_option (\<lambda>n. unat (n_refcnt n)) (fst d ! snd x)
      else if fst x = 0x200 then map_option (\<lambda>n. unat (f_refcnt n)) (snd d ! snd x)
      else None)"

text \<open>Requests that wait at a pipe are from tasks.\<close>

definition pd_clients :: "pdnode \<Rightarrow> bool" where
  "pd_clients n \<longleftrightarrow> (\<forall>m \<in> set (n_msgs n). v_client m \<noteq> NULL)"

definition devices_ok :: "pd_nodes \<times> mf_nodes \<Rightarrow> bool" where
  "devices_ok d \<longleftrightarrow> pd_ok (fst d) \<and> mf_ok (snd d) \<and> (\<forall>n. Some n \<in> set (fst d) \<longrightarrow> pd_clients n)"

abbreviation system_tasks :: "pid_t set" where
  "system_tasks \<equiv> {0x100, 0x200}"

lemma devices_ok_len: "devices_ok d \<Longrightarrow> length (fst d) = 8 \<and> length (snd d) = 8"
  by (simp add: devices_ok_def pd_ok_def mf_ok_def)

lemma counts_pipe:
  assumes "devices_ok d" "i < 8"
  shows "node_counts ((fst d)[i := x], snd d) = (node_counts d)((0x100, i) := map_option (\<lambda>n. unat (n_refcnt n)) x)"
  using devices_ok_len [OF assms(1)] assms(2) by (auto simp: fun_eq_iff node_counts_def nth_list_update)

lemma counts_file:
  assumes "devices_ok d" "i < 8"
  shows "node_counts (fst d, (snd d)[i := x]) = (node_counts d)((0x200, i) := map_option (\<lambda>n. unat (f_refcnt n)) x)"
  using devices_ok_len [OF assms(1)] assms(2) by (auto simp: fun_eq_iff node_counts_def nth_list_update)

lemma devices_ok_pipe:
  assumes "devices_ok d" "case x of None \<Rightarrow> True | Some n \<Rightarrow> pd_node_ok n \<and> pd_clients n"
  shows "devices_ok ((fst d)[i := x], snd d)"
proof -
  have "pd_ok ((fst d)[i := x])" using assms by (intro pd_ok_update) (auto simp: devices_ok_def split: option.splits)
  moreover have "Some n \<in> set ((fst d)[i := x]) \<Longrightarrow> pd_clients n" for n
    using assms set_update_subset_insert [of "fst d" i x] by (auto simp: devices_ok_def split: option.splits)
  ultimately show ?thesis using assms(1) by (simp add: devices_ok_def)
qed

lemma devices_ok_file:
  assumes "devices_ok d" "case x of None \<Rightarrow> True | Some n \<Rightarrow> length (f_file n) = 128"
  shows "devices_ok (fst d, (snd d)[i := x])"
  using mf_ok_update [of "snd d" x i] assms by (simp add: devices_ok_def)

lemma devices_ok_nth:
  assumes "devices_ok d" "i < 8"
  shows "fst d ! i = Some n \<Longrightarrow> pd_node_ok n \<and> pd_clients n" "snd d ! i = Some f \<Longrightarrow> length (f_file f) = 128"
  using assms pd_ok_nth [of "fst d" i n] mf_ok_nth [of "snd d" i f] nth_mem [of i "fst d"] devices_ok_len [OF assms(1)]
  by (auto simp: devices_ok_def)

lemma counts_Some:
  assumes "node_counts d (pid, n) = Some r"
  obtains (pipe) x where "pid = 0x100" "n < 8" "fst d ! n = Some x" "r = unat (n_refcnt x)"
    | (memfile) x where "pid = 0x200" "n < 8" "snd d ! n = Some x" "r = unat (f_refcnt x)"
  using assms by (auto simp: node_counts_def split: if_splits)

lemma byte_inc: "unat (b :: byte) < 255 \<Longrightarrow> unat (b + 1) = Suc (unat b)"
  by (simp add: unat_plus)

lemma byte_dec: "unat (b :: byte) = Suc r \<Longrightarrow> unat (b - 1) = r"
  by (metis Zero_not_Suc diff_Suc_1 unat_0 unat_minus_one)

lemma system_grab:
  assumes ok: "devices_ok d" and "pid \<in> system_tasks" "v_cmd m = VFS_INODE_GRAB" "unat (w0 m) < 8"
  shows "case node_counts d (pid, unat (w0 m)) of
      None \<Rightarrow> system_drivers str pid m d = Some (d, [], m\<lparr>w0 := - 1\<rparr>)
    | Some r \<Rightarrow> r < 255 \<longrightarrow> (\<exists>d'. system_drivers str pid m d = Some (d', [], m) \<and> devices_ok d' \<and>
        node_counts d' = (node_counts d)((pid, unat (w0 m)) \<mapsto> Suc r))"
proof -
  have ix: "idx (length (fst d)) (w0 m) = Some (unat (w0 m))" "idx (length (snd d)) (w0 m) = Some (unat (w0 m))"
    using assms(4) devices_ok_len [OF ok] by (simp_all add: idx_eq)
  note nth = devices_ok_nth [OF ok assms(4)]
  show ?thesis
    using assms ix nth
    by (auto simp: system_drivers_def pipedev_def memfile_def vfs_cmds pd_grab_def mf_grab_def node_counts_def counts_pipe [OF ok]
        counts_file [OF ok] byte_inc pd_clients_def pd_node_ok_def intro!: devices_ok_pipe devices_ok_file split: option.split)
qed

lemma system_release:
  assumes ok: "devices_ok d" and cmd: "v_cmd m = VFS_INODE_RELEASE" and cnt: "node_counts d (pid, unat (w0 m)) = Some (Suc r)"
  shows "\<exists>d' reps x. system_drivers str pid m d = Some (d', reps, m) \<and> devices_ok d' \<and> (\<forall>q \<in> set reps. v_client q \<noteq> NULL) \<and>
    node_counts d' = (node_counts d)((pid, unat (w0 m)) := x) \<and> (x = Some r \<or> x = None \<and> r = 0)"
  using cnt
proof (cases rule: counts_Some)
  case (pipe n)
  have ix: "idx (length (fst d)) (w0 m) = Some (unat (w0 m))" using pipe(2) devices_ok_len [OF ok] by (simp add: idx_eq)
  note dec = byte_dec [OF pipe(4) [symmetric]]
  have z: "n_refcnt n - 1 = 0 \<longleftrightarrow> r = 0" using dec by (metis unat_0 unat_eq_zero)
  have n: "pd_node_ok n" "pd_clients n" using devices_ok_nth(1) [OF ok pipe(2,3)] by auto
  have upd: "devices_ok ((fst d)[unat (w0 m) := x], snd d)" if "case x of None \<Rightarrow> True | Some n \<Rightarrow> pd_node_ok n \<and> pd_clients n" for x
    using devices_ok_pipe [OF ok that] .
  show ?thesis
    using pipe(1,3) cmd ix z dec n
    by (auto simp: system_drivers_def pipedev_def vfs_cmds pd_release_def Let_def counts_pipe [OF ok pipe(2)] pd_clients_def pd_node_ok_def
        pd_eof_def intro!: upd)
next
  case (memfile n)
  have ix: "idx (length (snd d)) (w0 m) = Some (unat (w0 m))" using memfile(2) devices_ok_len [OF ok] by (simp add: idx_eq)
  note dec = byte_dec [OF memfile(4) [symmetric]]
  have z: "f_refcnt n - 1 = 0 \<longleftrightarrow> r = 0" using dec by (metis unat_0 unat_eq_zero)
  have n: "length (f_file n) = 128" using devices_ok_nth(2) [OF ok memfile(2,3)] .
  show ?thesis
    using memfile(1,3) cmd ix z dec n
    by (auto simp: system_drivers_def memfile_def vfs_cmds mf_release_def Let_def counts_file [OF ok memfile(2)] intro!: devices_ok_file [OF ok])
qed

lemma system_rw:
  assumes ok: "devices_ok d" and cmd: "v_cmd m \<in> {VFS_READC, VFS_WRITEC}" and cnt: "node_counts d (pid, unat (w0 m)) = Some r"
    and pos: "unat (w1 m) \<le> 127" and client: "v_client m \<noteq> NULL"
  shows "\<exists>d' reps ans. system_drivers str pid m d = Some (d', reps, ans) \<and> devices_ok d' \<and> node_counts d' = node_counts d \<and>
    unat (w1 m + rw_bnum ans) \<le> 127"
  using cnt
proof (cases rule: counts_Some)
  case (pipe n)
  have ix: "idx (length (fst d)) (w0 m) = Some (unat (w0 m))" using pipe(2) devices_ok_len [OF ok] by (simp add: idx_eq)
  have n: "pd_node_ok n" "pd_clients n" using devices_ok_nth(1) [OF ok pipe(2,3)] by auto
  have keep: "devices_ok ((fst d)[unat (w0 m) := Some (n\<lparr>n_msgs := q\<rparr>)], snd d) \<and>
      node_counts ((fst d)[unat (w0 m) := Some (n\<lparr>n_msgs := q\<rparr>)], snd d) = node_counts d"
    if "pd_node_ok (n\<lparr>n_msgs := q\<rparr>)" "pd_clients (n\<lparr>n_msgs := q\<rparr>)" for q
    using that devices_ok_pipe [OF ok, of "Some (n\<lparr>n_msgs := q\<rparr>)" "unat (w0 m)"] pipe(2,3) cnt pipe(1,4)
    by (simp add: counts_pipe [OF ok pipe(2)] fun_upd_idem)
  have "system_drivers str pid m d = (case pd_rw True m (fst d) of None \<Rightarrow> None | Some (p, reps, ans) \<Rightarrow> Some ((p, snd d), reps, ans))"
    using pipe(1) cmd by (auto simp: system_drivers_def pipedev_def vfs_cmds split: option.splits Option.bind_splits)
  then show ?thesis
    using pipe(3) ix n cmd client pos ok
    by (cases "n_msgs n") (auto simp: pd_rw_def pd_clients_def pd_node_ok_def pd_match_def Let_def simp del: split_paired_Ex intro!: keep)
next
  case (memfile n)
  have ix: "idx (length (snd d)) (w0 m) = Some (unat (w0 m))" using memfile(2) devices_ok_len [OF ok] by (simp add: idx_eq)
  have n: "length (f_file n) = 128" using devices_ok_nth(2) [OF ok memfile(2,3)] .
  have "sint (w1 m) = int (unat (w1 m))" using pos by (simp only: sint16) simp
  then have w1: "127 \<le> sint (w1 m) \<longleftrightarrow> 127 \<le> unat (w1 m)" "idx (length (f_file n)) (w1 m) = Some (unat (w1 m))"
    using pos n by (linarith, simp add: idx_eq)
  have inc: "unat (w1 m + 1) \<le> 127" if "\<not> 127 \<le> unat (w1 m)" using that by (simp add: unat_plus)
  have keep: "devices_ok (fst d, (snd d)[unat (w0 m) := Some n']) \<and> node_counts (fst d, (snd d)[unat (w0 m) := Some n']) = node_counts d"
    if "length (f_file n') = 128" "f_refcnt n' = f_refcnt n" for n'
    using that devices_ok_file [OF ok, of "Some n'" "unat (w0 m)"] memfile(2,3) cnt memfile(1,4)
    by (simp add: counts_file [OF ok memfile(2)] fun_upd_idem)
  show ?thesis
    using memfile(1,3) ix n cmd pos ok w1 inc
    by (auto simp: system_drivers_def memfile_def vfs_cmds mf_readc_def mf_writec_def simp del: split_paired_Ex intro!: keep)
qed

lemma system_make:
  assumes ok: "devices_ok d" and pid: "pid \<in> system_tasks" and cmd: "v_cmd m = VFS_MKNOD" and free: "n < 8" "node_counts d (pid, n) = None"
  shows "\<exists>d' k. system_drivers str pid m d = Some (d', [], m\<lparr>w0 := of_nat k\<rparr>) \<and> devices_ok d' \<and> k < 8 \<and>
    node_counts d (pid, k) = None \<and> node_counts d' = (node_counts d)((pid, k) \<mapsto> 0)"
proof -
  note len = devices_ok_len [OF ok]
  have found: "\<exists>k. find_index (\<lambda>x. x = None) xs = of_nat k \<and> k < 8 \<and> xs ! k = None \<and> unat (of_nat k :: cint) = k \<and> \<not> cneg (of_nat k :: cint)"
    if "length xs = 8" "xs ! n = None" for xs :: "'a option list"
  proof (rule find_index_cases [of xs "\<lambda>x. x = None"])
    show "length xs \<le> 32768" using that(1) by simp
    assume "\<forall>x \<in> set xs. x \<noteq> None"
    then show ?thesis using that free(1) by (metis nth_mem)
  qed (use that(1) in auto)
  show ?thesis
  proof (cases "pid = 0x100")
    case True
    then obtain k where k: "find_index (\<lambda>x. x = None) (fst d) = of_nat k" "k < 8" "fst d ! k = None" "unat (of_nat k :: cint) = k"
      using found [of "fst d"] free len by (auto simp: node_counts_def)
    have "idx (length (fst d)) (of_nat k) = Some k" using k len by (simp add: idx_eq)
    with True k cmd devices_ok_pipe [OF ok] counts_pipe [OF ok k(2)] show ?thesis
      by (auto simp: system_drivers_def pipedev_def pd_mknod_def pd_find_empty_node_def vfs_cmds node_counts_def pd_clients_def
          simp del: split_paired_Ex intro!: exI [of _ k])
  next
    case False
    then have pid: "pid = 0x200" using pid by simp
    then obtain k where k: "find_index (\<lambda>x. x = None) (snd d) = of_nat k" "k < 8" "snd d ! k = None" "unat (of_nat k :: cint) = k" "\<not> cneg (of_nat k :: cint)"
      using found [of "snd d"] free len by (auto simp: node_counts_def)
    with pid cmd devices_ok_file [OF ok] counts_file [OF ok k(2)] show ?thesis
      by (auto simp: system_drivers_def memfile_def mf_create_node_def vfs_cmds node_counts_def Let_def
          simp del: split_paired_Ex intro!: exI [of _ k])
  qed
qed

lemma system_link:
  assumes ok: "devices_ok d" and cmd: "v_cmd m = VFS_LINK" and cnt: "node_counts d (pid, unat (w1 m)) = Some r"
  shows "\<exists>d'. system_drivers str pid m d = Some (d', [], m) \<and> devices_ok d' \<and> node_counts d' = node_counts d"
  using cnt
proof (cases rule: counts_Some)
  case (pipe n)
  have ix: "idx (length (fst d)) (w1 m) = Some (unat (w1 m))" using pipe(2) devices_ok_len [OF ok] by (simp add: idx_eq)
  have "pd_node_ok (n\<lparr>n_links := l\<rparr>)" "pd_clients (n\<lparr>n_links := l\<rparr>)" for l
    using devices_ok_nth(1) [OF ok pipe(2,3)] by (auto simp: pd_node_ok_def pd_clients_def)
  with pipe cmd cnt ix devices_ok_pipe [OF ok] show ?thesis
    by (auto simp: system_drivers_def pipedev_def pd_link_def vfs_cmds counts_pipe [OF ok pipe(2)] fun_upd_idem)
next
  case (memfile n)
  have ix: "idx (length (snd d)) (w1 m) = Some (unat (w1 m))" using memfile(2) devices_ok_len [OF ok] by (simp add: idx_eq)
  with memfile cmd cnt devices_ok_file [OF ok] devices_ok_nth(2) [OF ok memfile(2,3)] show ?thesis
    by (auto simp: system_drivers_def memfile_def mf_linkop_def vfs_cmds counts_file [OF ok memfile(2)] fun_upd_idem)
qed

text \<open>A comparison with a name shorter than an entry ends within the entry.\<close>

lemma strcmp_short: "length name < length xs \<Longrightarrow> strcmp_eq xs name \<noteq> None"
  by (induction xs name rule: strcmp_eq.induct) auto

lemma search_short:
  assumes "length name < 8" "length file = 128" "\<forall>i \<in> set is. i < 16"
  shows "\<exists>ino. mf_search file name is = Some ino"
  using assms(3)
proof (induction "is")
  case (Cons i "is")
  have "8 * i + length name < 128" using Cons.prems assms(1) by simp
  then have "length name < length (drop (8 * i) file)" by (simp add: assms(2) less_diff_conv add.commute)
  then obtain b where "strcmp_eq (drop (8 * i) file) name = Some b" using strcmp_short by blast
  with Cons show ?case by auto
qed simp

lemma system_lookup:
  assumes ok: "devices_ok d" and cmd: "v_cmd m = VFS_GET_DIRENTRY" and cnt: "node_counts d (pid, unat (w1 m)) = Some r"
    and name: "length (str (w2 m)) < 8"
  shows "\<exists>ans. system_drivers str pid m d = Some (d, [], ans)"
  using cnt
proof (cases rule: counts_Some)
  case (pipe n)
  with cmd show ?thesis by (auto simp: system_drivers_def pipedev_def vfs_cmds)
next
  case (memfile n)
  have ix: "idx (length (snd d)) (w1 m) = Some (unat (w1 m))" using memfile(2) devices_ok_len [OF ok] by (simp add: idx_eq)
  have "\<exists>ino. mf_get_direntry (str (w2 m)) n = Some ino"
    unfolding mf_get_direntry_def by (rule search_short [OF name devices_ok_nth(2) [OF ok memfile(2,3)]]) auto
  with memfile cmd ix show ?thesis by (auto simp: system_drivers_def memfile_def mf_direntry_def vfs_cmds)
qed

interpretation sys: drivers system_drivers devices_ok node_counts system_tasks
proof (unfold_locales, goal_cases)
  case (1 d pid n r)
  then show ?case by (cases rule: counts_Some) auto
next
  case 9
  then show ?case by (auto simp: system_drivers_def pipedev_def memfile_def vfs_cmds simp del: split_paired_Ex)
qed (use system_grab system_release system_rw system_make system_link system_lookup in auto)

section \<open>The system\<close>

lemma boot_sound: "sound_inv devices_ok node_counts system_tasks system_boot"
proof -
  let ?d = "(pd_init, the (mf_init True))"
  have boot: "filps system_boot = replicate 16 \<lparr>fp_dev = 0, fp_ino = 0, fp_refcnt = 0, fp_pos = 0\<rparr>" "devs system_boot = ?d"
      "dev_pid (pipedev_idx system_boot) system_boot = Some 0x100" by code_simp+
  have f: "f = \<lparr>fp_dev = 0, fp_ino = 0, fp_refcnt = 0, fp_pos = 0\<rparr>" if "f \<in> set (filps system_boot)" for f
    using that unfolding boot(1) by simp
  have files: "\<forall>n \<in> set [0..<8]. the (mf_init True) ! n = None \<or> f_refcnt (the (the (mf_init True) ! n)) = 0" by code_simp
  have "node_counts ?d x = None \<or> node_counts ?d x = Some 0" for x
    using bspec [OF files, of "snd x"] by (cases "the (mf_init True) ! snd x") (auto simp: node_counts_def pd_init_def)
  moreover have "holders system_boot x = 0" for x unfolding holders_def boot(1) by (simp add: open_on_def)
  ultimately have bal: "balanced (node_counts (devs system_boot) x) (holders system_boot x)" for x
    unfolding boot(2) by (metis balanced.simps le0 le_add2)
  have "mf_ok (the (mf_init True))" by code_simp
  then have "devices_ok (devs system_boot)" unfolding boot(2) by (auto simp: devices_ok_def pd_ok_def pd_init_def)
  moreover have "vfs_inv system_boot" unfolding system_boot_def by (rule init_inv)
  ultimately show ?thesis
    using bal boot(3) by (auto simp: sound_inv_def nodes_inv_def entry_ok_def dest: f)
qed

text \<open>The same as an executable check of a sequence of requests.\<close>

primrec legal_turns :: "vfs_in list \<Rightarrow> (pd_nodes \<times> mf_nodes) vfs_st \<Rightarrow> bool" where
  "legal_turns [] st \<longleftrightarrow> True"
| "legal_turns (i # is) st \<longleftrightarrow> vfs_legal system_tasks node_counts i st \<and>
     (case vfs_step system_drivers i st of None \<Rightarrow> False | Some (st', _) \<Rightarrow> legal_turns is st')"

lemma legal_turns_run: "legal_turns is st \<Longrightarrow> sys.file_system.plegal_run is st"
  by (induction "is" arbitrary: st) (auto split: option.splits)

text \<open>
  C9. The file system and its drivers never get stuck. From the start of the system, every sequence of
  legal requests (tasks come and go, open, duplicate, close, read and write files and pipes, make
  devices and nodes) is served to the end: no request runs into a null node, an index outside a
  table or a message to a task that does not exist. At every point each open file has its node: the
  driver counts it, once for each entry of the table of open files that refers to it and at most
  two times more, so that neither side frees a node that the other one uses.
\<close>

theorem file_system_never_stuck:
  assumes "sys.file_system.plegal_run is system_boot"
  shows "\<exists>st acts. pserve (vfs_step system_drivers) is system_boot = Some (st, acts) \<and>
    (\<forall>f \<in> set (filps st). fp_refcnt f \<noteq> 0 \<longrightarrow>
       (\<exists>pid r. dev_pid (fp_dev f) st = Some pid \<and> node_counts (devs st) (pid, unat (fp_ino f)) = Some r \<and>
          0 < holders st (pid, unat (fp_ino f)) \<and> holders st (pid, unat (fp_ino f)) \<le> r \<and>
          r \<le> holders st (pid, unat (fp_ino f)) + 2))"
proof -
  obtain st acts where run: "pserve (vfs_step system_drivers) is system_boot = Some (st, acts)"
      "sound_inv devices_ok node_counts system_tasks st"
    using sys.file_system.pinv_run [OF boot_sound assms] by blast
  then have inv: "nodes_inv devices_ok node_counts system_tasks st" by (simp add: sound_inv_def)
  have "\<exists>pid r. dev_pid (fp_dev f) st = Some pid \<and> node_counts (devs st) (pid, unat (fp_ino f)) = Some r \<and>
      0 < holders st (pid, unat (fp_ino f)) \<and> holders st (pid, unat (fp_ino f)) \<le> r \<and> r \<le> holders st (pid, unat (fp_ino f)) + 2"
    if f: "f \<in> set (filps st)" "fp_refcnt f \<noteq> 0" for f
  proof -
    obtain j where j: "j < length (filps st)" "filps st ! j = f" using f(1) by (auto simp: in_set_conv_nth)
    obtain pid r where n: "dev_pid (fp_dev f) st = Some pid" "node_counts (devs st) (pid, unat (fp_ino f)) = Some (Suc r)"
        "node_of st f = Some (pid, unat (fp_ino f))"
      using sys.entry_node [OF inv j(1)] f(2) unfolding j(2) by metis
    have "0 < holders st (pid, unat (fp_ino f))" using open_holders [OF j(1)] j(2) f(2) n(3) by (simp add: open_on_def)
    with n nodes_inv_parts(3) [OF inv, of "(pid, unat (fp_ino f))"] show ?thesis by simp
  qed
  with run(1) show ?thesis by blast
qed

definition busy_requests :: "vfs_in list" where
  "busy_requests = system_start @
     [turn 0x300 (system_msg VFS_PIPE 0 0), turn 0x400 (system_msg VFS_ADDTASK 0x500 0x300), turn 0x500 (system_msg VFS_READC 1 0),
      turn 0x300 (system_msg VFS_CLOSE 1 0), turn 0x300 (system_msg VFS_WRITEC 2 0), turn 0x500 (system_msg VFS_DUP 2 0),
      turn 0x400 (system_msg VFS_DELTASK 0x500 0), turn 0x300 (system_msg VFS_READC 0 0)]"

theorem file_system_never_stuck_witness:
  "\<exists>st acts pid r. pserve (vfs_step system_drivers) busy_requests system_boot = Some (st, acts) \<and>
     fp_refcnt (filps st ! 0) \<noteq> 0 \<and> dev_pid (fp_dev (filps st ! 0)) st = Some pid \<and>
     node_counts (devs st) (pid, unat (fp_ino (filps st ! 0))) = Some r \<and> 0 < r"
proof -
  let ?run = "pserve (vfs_step system_drivers) busy_requests system_boot"
  have "legal_turns busy_requests system_boot" by code_simp
  from file_system_never_stuck [OF legal_turns_run [OF this]]
  obtain st acts where st: "?run = Some (st, acts)" "\<forall>f \<in> set (filps st). fp_refcnt f \<noteq> 0 \<longrightarrow>
      (\<exists>pid r. dev_pid (fp_dev f) st = Some pid \<and> node_counts (devs st) (pid, unat (fp_ino f)) = Some r \<and> 0 < r)"
    by (metis (no_types, lifting) less_le_trans)
  have "fp_refcnt (filps (fst (the ?run)) ! 0) \<noteq> 0 \<and> 0 < length (filps (fst (the ?run)))" by code_simp
  with st nth_mem [of 0 "filps st"] show ?thesis by fastforce
qed

end
