(* ===== verification/Vfs_Fds.thy ===== *)
theory Vfs_Fds
  imports Vfs_World Vfs_System Shell
begin

text \<open>
  The descriptors of a task as a table of open files. \<^verbatim>\<open>close\<close>, \<^verbatim>\<open>dup\<close> and \<^verbatim>\<open>pipe\<close> of the file system act on it
  as the operations on tables in \<open>Shell\<close> do, and leave the descriptors of all other tasks alone.
\<close>

section \<open>The table of a task\<close>

text \<open>An open file: its entry in the table of open files and the node it is open on.\<close>

type_synonym ofile = "cint \<times> node option"

definition fd_view :: "nat \<Rightarrow> 'd vfs_st \<Rightarrow> ofile fdtab" where
  "fd_view k st = map (\<lambda>fp. if cneg fp then None else Some (fp, node_of st (filps st ! unat fp))) (v_fd (vtasks st ! k))"

text \<open>What is left for new pipes.\<close>

definition free_entries :: "'d vfs_st \<Rightarrow> nat" where
  "free_entries st = length (filter (\<lambda>f. fp_refcnt f = 0) (filps st))"

definition free_nodes :: "world \<Rightarrow> nat" where
  "free_nodes st = length (filter (\<lambda>n. node_counts (devs st) (0x100, n) = None) [0..<8])"

text \<open>No request waits at a pipe, and it lives only as long as it is open.\<close>

definition quiet :: "nat \<Rightarrow> pd_nodes \<times> mf_nodes \<Rightarrow> bool" where
  "quiet n d \<longleftrightarrow> (\<forall>nd. fst d ! n = Some nd \<longrightarrow> n_msgs nd = [] \<and> n_links nd = 0)"

definition others_keep :: "nat \<Rightarrow> world \<Rightarrow> world \<Rightarrow> bool" where
  "others_keep k st st' \<longleftrightarrow> map v_pid (vtasks st') = map v_pid (vtasks st) \<and> devtab st' = devtab st \<and>
     pipedev_idx st' = pipedev_idx st \<and> (\<forall>l < length (vtasks st). l \<noteq> k \<longrightarrow> fd_view l st' = fd_view l st) \<and>
     (\<forall>n. quiet n (devs st) \<longrightarrow> quiet n (devs st'))"

lemma others_keep_refl [simp]: "others_keep k st st"
  by (simp add: others_keep_def)

lemma others_keep_trans: "others_keep k st st1 \<Longrightarrow> others_keep k st1 st2 \<Longrightarrow> others_keep k st st2"
  unfolding others_keep_def by (metis length_map)

text \<open>The task \<open>k\<close> can make \<open>n\<close> pipes.\<close>

definition fd_ready :: "vfs_in \<Rightarrow> nat \<Rightarrow> nat \<Rightarrow> world \<Rightarrow> bool" where
  "fd_ready i k n st \<longleftrightarrow> sound_inv devices_ok node_counts system_tasks st \<and> vfs_findbypid (i_client i) st = Some k \<and>
     i_client i \<noteq> NULL \<and> dev_pid (pipedev_idx st) st = Some 0x100 \<and> 2 * n \<le> free_entries st \<and> n \<le> free_nodes st"

lemma fd_ready_parts:
  assumes "fd_ready i k n st"
  shows "nodes_inv devices_ok node_counts system_tasks st" "vfs_inv st" "k < length (vtasks st)"
    "vfs_findbypid (i_client i) st = Some k" "i_client i \<noteq> NULL" "length (fd_view k st) = 8"
proof -
  show "nodes_inv devices_ok node_counts system_tasks st" "vfs_inv st" "vfs_findbypid (i_client i) st = Some k" "i_client i \<noteq> NULL"
    using assms by (auto simp: fd_ready_def sound_inv_def)
  then show k: "k < length (vtasks st)" using findbypid_less by blast
  show "length (fd_view k st) = 8" using vfs_inv_parts(5) [OF \<open>vfs_inv st\<close> k] by (simp add: fd_view_def task_ok_def)
qed

lemma fd_view_nth:
  assumes "vfs_inv st" "k < length (vtasks st)" "j < 8"
  shows "fd_view k st ! j = (let fp = v_fd (vtasks st ! k) ! j in if cneg fp then None else Some (fp, node_of st (filps st ! unat fp)))"
  using vfs_inv_parts(5) [OF assms(1,2)] assms(3) by (simp add: fd_view_def task_ok_def Let_def)

lemma findbypid_pids:
  assumes "map v_pid (vtasks st') = map v_pid (vtasks st)"
  shows "vfs_findbypid pid st' = vfs_findbypid pid st"
proof -
  have l: "length (vtasks st') = length (vtasks st)" using assms by (metis length_map)
  have "v_pid (vtasks st' ! j) = v_pid (vtasks st ! j)" if "j < length (vtasks st)" for j
    using assms that l by (metis nth_map)
  then show ?thesis unfolding vfs_findbypid_def l by (intro find_cong) auto
qed

text \<open>A change of one descriptor and of one entry that keeps the node of every entry.\<close>

lemma fd_view_state:
  assumes "k < length (vtasks st)" "i < length (v_fd (vtasks st ! k))" "\<And>f. fp_dev (g f) = fp_dev f \<and> fp_ino (g f) = fp_ino f"
  shows "fd_view l ((upd_filp j g (set_fd k i x st))\<lparr>devs := d\<rparr>) =
    (if l = k then (fd_view k st)[i := if cneg x then None else Some (x, node_of st (filps st ! unat x))] else fd_view l st)"
proof -
  have n: "node_of st ((filps st)[j := g (filps st ! j)] ! y) = node_of st (filps st ! y)" for y
    using assms(3) by (cases "j < length (filps st)"; cases "y = j") (auto simp: node_of_def list_update_beyond)
  have v: "fd_view l ((upd_filp j g (set_fd k i x st))\<lparr>devs := d\<rparr>) =
      map (\<lambda>fp. if cneg fp then None else Some (fp, node_of st (filps st ! unat fp))) (v_fd (vtasks (set_fd k i x st) ! l))"
    unfolding fd_view_def by (simp add: upd_filp_def n) (simp add: node_of_def dev_pid_def n [unfolded node_of_def dev_pid_def])
  show ?thesis unfolding v using assms(1,2) by (auto simp: fd_view_def set_fd_nth map_update)
qed

lemma others_keep_state:
  assumes "k < length (vtasks st)" "i < length (v_fd (vtasks st ! k))" "\<And>f. fp_dev (g f) = fp_dev f \<and> fp_ino (g f) = fp_ino f"
    and "\<And>n. quiet n (devs st) \<Longrightarrow> quiet n d"
  shows "others_keep k st ((upd_filp j g (set_fd k i x st))\<lparr>devs := d\<rparr>)"
proof -
  have "map v_pid (vtasks (set_fd k i x st)) = map v_pid (vtasks st)"
    using assms(1) by (intro nth_equalityI) (auto simp: set_fd_nth)
  then show ?thesis using fd_view_state [OF assms(1-3)] assms(4) by (simp add: others_keep_def)
qed

lemma length_filter_mono:
  assumes "\<And>x. x \<in> set xs \<Longrightarrow> P x \<Longrightarrow> Q x"
  shows "length (filter P xs) \<le> length (filter Q xs)"
  using assms by (induction xs) auto

text \<open>What the drivers do with the messages that count: no request comes to wait, and a release makes no node.\<close>

lemma quiet_update:
  assumes "quiet n d" "\<And>nd. j = n \<Longrightarrow> x = Some nd \<Longrightarrow> n_msgs nd = [] \<and> n_links nd = 0"
  shows "quiet n ((fst d)[j := x], fs)"
  using assms by (cases "j < length (fst d)"; cases "n = j") (auto simp: quiet_def list_update_beyond)

lemma bookkeeping_quiet:
  assumes "(bookkeeping system_drivers)\<^sup>*\<^sup>* d d'" "quiet n d"
  shows "quiet n d'"
  using assms
proof (induction rule: rtranclp_induct)
  case (step d1 d2)
  obtain str pid m reps ans where m: "v_cmd m \<in> {VFS_MKNOD, VFS_INODE_GRAB, VFS_INODE_RELEASE}" "system_drivers str pid m d1 = Some (d2, reps, ans)"
    using step.hyps(2) unfolding bookkeeping_def by blast
  have q: "quiet n d1" using step by blast
  show ?case
  proof (cases "pid = 0x100")
    case True
    have "quiet n (p, snd d1)" if "pipedev True m (fst d1) = Some (p, reps, ans)" for p
      using that m(1) q
      by (auto simp: pipedev_def pd_mknod_def pd_grab_def pd_release_def vfs_cmds Let_def split: Option.bind_splits option.splits if_splits
          intro!: quiet_update) (auto simp: quiet_def)
    with True m(2) show ?thesis by (auto simp: system_drivers_def split: Option.bind_splits)
  next
    case False
    with m(2) have "fst d2 = fst d1" by (auto simp: system_drivers_def split: Option.bind_splits if_splits)
    with q show ?thesis by (simp add: quiet_def)
  qed
qed

lemma system_released:
  assumes "system_drivers str pid m d = Some (d', reps, ans)" "v_cmd m = VFS_INODE_RELEASE" "devices_ok d"
  shows "v_cmd ans = VFS_INODE_RELEASE" "node_counts d x = None \<Longrightarrow> node_counts d' x = None"
proof -
  show "v_cmd ans = VFS_INODE_RELEASE" using assms(1,2)
    by (auto simp: system_drivers_def pipedev_def memfile_def pd_release_def mf_release_def vfs_cmds Let_def
        split: Option.bind_splits if_splits option.splits)
  have nth: "(xs[j := y]) ! snd x = None" if "xs ! snd x = None" "xs ! j = Some z" for xs :: "'b option list" and j y z
    using that by (cases "j = snd x") auto
  show "node_counts d' x = None" if "node_counts d x = None"
    using assms that
    by (auto simp: system_drivers_def pipedev_def memfile_def pd_release_def mf_release_def vfs_cmds Let_def node_counts_def nth
        split: Option.bind_splits if_splits option.splits)
qed

section \<open>Closing and duplicating\<close>

abbreviation dec_refcnt :: "filp \<Rightarrow> filp" where
  "dec_refcnt \<equiv> \<lambda>f. f\<lparr>fp_refcnt := fp_refcnt f - 1\<rparr>"

lemma close_shape:
  assumes "do_close drv str (Some k) msg st = Some (st', m, as)" "vfs_inv st" "k < length (vtasks st)" "\<not> cneg (open_fd msg)"
  obtains (unused) "st' = set_fd k (unat (open_fd msg)) (- 1) st" "v_cmd m = v_cmd msg" "unat (open_fd msg) < 8"
    | (entry) j d where "unat (open_fd msg) < 8" "j < 16" "fp_refcnt (filps st ! j) \<noteq> 0"
        "st' = (upd_filp j dec_refcnt (set_fd k (unat (open_fd msg)) (- 1) st))\<lparr>devs := d\<rparr>"
        "d = devs st \<and> v_cmd m = v_cmd msg \<or>
         (\<exists>str pid mm reps. drv str pid mm (devs st) = Some (d, reps, m) \<and> v_cmd mm = VFS_INODE_RELEASE)"
proof -
  let ?i = "unat (open_fd msg)"
  have i: "idx 8 (open_fd msg) = Some ?i" "?i < 8" using assms(1,4) by (auto simp: do_close_def idx_eq split: if_splits)
  let ?fp = "v_fd (vtasks st ! k) ! ?i" and ?st = "set_fd k (unat (open_fd msg)) (- 1) st"
  show ?thesis
  proof (cases "cneg ?fp")
    case True
    then show ?thesis using assms(1,4) i by (intro unused) (auto simp: do_close_def)
  next
    case False
    note e = open_entry [OF assms(2,3) i(2) False]
    have j: "unat ?fp < 16" using e(2) vfs_inv_parts(2) [OF assms(2)] by simp
    show ?thesis
    proof (cases "fp_refcnt (filps st ! unat ?fp) - 1 = 0")
      case True
      let ?m = "msg\<lparr>v_cmd := VFS_INODE_RELEASE, w0 := fp_ino (filps st ! unat ?fp)\<rparr>"
      from True obtain pid d reps where d: "drv str pid ?m (devs st) = Some (d, reps, m)"
          "st' = (upd_filp (unat ?fp) dec_refcnt ?st)\<lparr>devs := d\<rparr>"
        using assms(1,4) i(1) e False by (auto simp: do_close_def Let_def upd_filp_nth call_def split: Option.bind_splits if_splits)
      have "v_cmd ?m = VFS_INODE_RELEASE" by simp
      with d(1) have "\<exists>str pid mm reps. drv str pid mm (devs st) = Some (d, reps, m) \<and> v_cmd mm = VFS_INODE_RELEASE" by blast
      with i(2) j e(3) d(2) show ?thesis by (intro entry [of "unat ?fp" d]) simp_all
    next
      case no: False
      then have "st' = upd_filp (unat ?fp) dec_refcnt ?st" "m = msg"
        using assms(1,4) i(1) e False by (auto simp: do_close_def Let_def upd_filp_nth)
      then show ?thesis using i(2) j e(3) by (intro entry [of "unat ?fp" "devs st"]) (auto simp: upd_filp_def)
    qed
  qed
qed

lemma sys_unit:
  assumes "vfs_dispatch system_drivers (i\<lparr>i_msg := req (i_msg i)\<rparr>) st = Some (st', m, as)" "v_cmd m \<noteq> VFS_HOLD" "i_client i \<noteq> NULL"
    and "v_cmd (req (i_msg i)) \<notin> {VFS_RD_INTERRUPT, VFS_WR_INTERRUPT}"
  shows "vfs_sys i req (\<lambda>_. ()) st = Some ((), st')" "as = [] \<Longrightarrow> vfs_sys i req res st = Some (res (m\<lparr>v_cmd := VFS_FINAL\<rparr>), st')"
proof -
  have "vfs_step system_drivers (i\<lparr>i_msg := req (i_msg i)\<rparr>) st = Some (st', as @ [Send (i_client i) (m\<lparr>v_cmd := VFS_FINAL\<rparr>)])"
    using assms by (simp add: vfs_step_def)
  then show "vfs_sys i req (\<lambda>_. ()) st = Some ((), st')" "as = [] \<Longrightarrow> vfs_sys i req res st = Some (res (m\<lparr>v_cmd := VFS_FINAL\<rparr>), st')"
    by (cases "sent_to (i_client i) as"; simp add: vfs_sys_def vfs_call_def)+
qed

lemma fd_ready_step:
  assumes "fd_ready i k n st" "nodes_inv devices_ok node_counts system_tasks st'" "vfs_inv st'" "others_keep k st st'"
    and "2 * m \<le> free_entries st'" "m \<le> free_nodes st'"
  shows "fd_ready i k m st'"
proof -
  have "map v_pid (vtasks st') = map v_pid (vtasks st)" "devtab st' = devtab st" "pipedev_idx st' = pipedev_idx st"
    using assms(4) by (auto simp: others_keep_def)
  then show ?thesis using assms findbypid_pids [of st' st] by (simp add: fd_ready_def sound_inv_def dev_pid_def)
qed

lemma free_entries_upd:
  assumes "j < length (filps st)" "fp_refcnt (filps st ! j) = 0 \<longrightarrow> fp_refcnt (g (filps st ! j)) = 0"
  shows "free_entries st \<le> free_entries ((upd_filp j g (set_fd k i x st))\<lparr>devs := d\<rparr>)"
  using length_filter_update [OF assms(1), of "\<lambda>f. fp_refcnt f = 0" "g (filps st ! j)"] assms(2)
  by (cases "fp_refcnt (filps st ! j) = 0"; cases "fp_refcnt (g (filps st ! j)) = 0") (simp_all add: free_entries_def upd_filp_def)

lemma view_None: "k < length (vtasks st) \<Longrightarrow> vfs_inv st \<Longrightarrow> i < 8 \<Longrightarrow> i < length (v_fd (vtasks st ! k))"
  using vfs_inv_parts(5) [of st k] by (simp add: task_ok_def)

theorem close_closes:
  assumes ready: "fd_ready i k n st" and fd: "fd_arg fd"
  obtains st' where "vfs_sys i (close_req fd) (\<lambda>_. ()) st = Some ((), st')" "fd_ready i k n st'"
    "fd_view k st' = fd_close (sint fd) (fd_view k st)" "others_keep k st st'"
proof -
  note r = fd_ready_parts [OF ready]
  let ?m = "close_req fd (i_msg i)"
  have m: "open_fd ?m = fd" "v_cmd ?m = VFS_CLOSE" by (simp_all add: close_req_def)
  obtain st' m as where c: "do_close system_drivers (i_str i) (Some k) ?m st = Some (st', m, as)" "nodes_inv devices_ok node_counts system_tasks st'"
    using sys.close_sound [OF r(1-3), of ?m "i_str i"] fd m by auto
  have inv: "vfs_inv st'" using do_close_inv [OF r(2,3) c(1)] by simp
  have disp: "vfs_dispatch system_drivers (i\<lparr>i_msg := ?m\<rparr>) st = Some (st', m, as)"
    using c(1) r(4) m by (simp add: vfs_dispatch_def vfs_cmds Let_def)
  have neg: "0 \<le> sint fd \<longleftrightarrow> \<not> cneg fd" by (simp add: not_less)
  have "others_keep k st st' \<and> v_cmd m \<noteq> VFS_HOLD \<and> fd_view k st' = fd_close (sint fd) (fd_view k st) \<and>
      free_entries st \<le> free_entries st' \<and> free_nodes st \<le> free_nodes st'"
  proof (cases "cneg fd")
    case True
    then have "st' = st" "m = ?m" using c(1) m by (auto simp: do_close_def)
    with True neg m show ?thesis by (simp add: fd_close_def vfs_cmds)
  next
    case False
    have i: "nat (sint fd) = unat fd" "unat fd < 8" using False fd fd_arg_cases [OF fd False] by (auto simp: fd_arg_def sint16)
    note len = view_None [OF r(3,2) i(2)]
    from False have "\<not> cneg (open_fd ?m)" unfolding m .
    from c(1) r(2,3) this show ?thesis
    proof (cases rule: close_shape)
      case unused
      have eq: "st' = (upd_filp 0 (\<lambda>f. f) (set_fd k (unat fd) (- 1) st))\<lparr>devs := devs st\<rparr>"
        using unused(1) m(1) by (simp add: upd_filp_def)
      show ?thesis
        using fd_view_state [OF r(3) len, where g = "\<lambda>f. f" and l = k and j = 0 and x = "- 1" and d = "devs st"] others_keep_state [OF r(3) len, where g = "\<lambda>f. f" and d = "devs st" and j = 0 and x = "- 1"] unused(2) m
          False neg i free_entries_upd [where j = 0 and st = st and g = "\<lambda>f. f" and k = k and i = "unat fd" and x = "- 1" and d = "devs st"] vfs_inv_parts(2) [OF r(2)]
        unfolding eq by (simp add: fd_close_def vfs_cmds free_nodes_def)
    next
      case (entry j d)
      have q: "quiet l (devs st) \<Longrightarrow> quiet l d" for l
        using entry(5) bookkeeping_quiet [of "devs st" d l] unfolding bookkeeping_def by blast
      have ne: "VFS_CLOSE \<noteq> VFS_HOLD" "VFS_INODE_RELEASE \<noteq> VFS_HOLD" by (simp_all add: vfs_cmds)
      note rel = system_released [OF _ _ nodes_inv_parts(1) [OF r(1)]]
      have cmd: "v_cmd m \<noteq> VFS_HOLD" using entry(5) rel(1) m(2) ne by metis
      have none: "node_counts (devs st) x = None \<Longrightarrow> node_counts d x = None" for x using entry(5) rel(2) by metis
      have "free_nodes st \<le> free_nodes st'" unfolding free_nodes_def entry(4) by (rule length_filter_mono) (simp add: none)
      then show ?thesis
        using fd_view_state [OF r(3) len, where g = dec_refcnt and l = k and j = j and x = "- 1" and d = d] others_keep_state [OF r(3) len, where g = dec_refcnt and d = d and j = j and x = "- 1"] q cmd
          False neg i free_entries_upd [where j = j and st = st and g = dec_refcnt and k = k and i = "unat fd" and x = "- 1" and d = d] vfs_inv_parts(2) [OF r(2)] entry(2,3)
        unfolding entry(4) m by (simp add: fd_close_def)
    qed
  qed
  then show ?thesis
    using sys_unit(1) [where i = i and req = "close_req fd", OF disp _ r(5)] m fd_ready_step [OF ready c(2) inv, of n] ready
    by (intro that [of st']) (auto simp: vfs_cmds fd_ready_def)
qed

lemma lowest_freeI: "j < length t \<Longrightarrow> t ! j = None \<Longrightarrow> \<forall>l < j. t ! l \<noteq> None \<Longrightarrow> lowest_free t = Some j"
proof (induction t arbitrary: j)
  case (Cons x t)
  show ?case
  proof (cases j)
    case 0
    with Cons.prems show ?thesis by simp
  next
    case (Suc l)
    have "\<forall>m < l. t ! m \<noteq> None" using Cons.prems(3) unfolding Suc by (metis Suc_mono nth_Cons_Suc)
    moreover have "x \<noteq> None" using Cons.prems(3) unfolding Suc by (metis nth_Cons_0 zero_less_Suc)
    ultimately show ?thesis using Cons.IH [of l] Cons.prems(1,2) Suc by simp
  qed
qed simp

lemma lowest_free_less: "lowest_free t = Some j \<Longrightarrow> j < length t"
  by (induction t arbitrary: j) (auto split: if_splits)

lemma lowest_free_none: "None \<notin> set t \<Longrightarrow> lowest_free t = None"
  by (induction t) (auto, metis option.exhaust)

lemma lowest_free_index:
  assumes "length xs \<le> 32768" "\<And>x. x \<in> set xs \<Longrightarrow> f x = None \<longleftrightarrow> cneg x"
  shows "lowest_free (map f xs) = (if cneg (find_index cneg xs) then None else Some (unat (find_index cneg xs)))"
proof (rule find_index_cases [OF assms(1), of cneg])
  assume n: "find_index cneg xs = - 1" "\<forall>x \<in> set xs. \<not> cneg x"
  then have "None \<notin> set (map f xs)" using assms(2) by force
  then show ?thesis using n(1) by (simp add: lowest_free_none)
next
  fix j assume j: "j < length xs" "cneg (xs ! j)" "\<forall>l < j. \<not> cneg (xs ! l)" "unat (find_index cneg xs) = j" "\<not> cneg (find_index cneg xs)"
  then have "lowest_free (map f xs) = Some j" using assms(2) by (intro lowest_freeI) (auto simp del: not_None_eq)
  then show ?thesis using j by simp
qed

lemma lowest_free_view:
  assumes "vfs_inv st" "k < length (vtasks st)"
  shows "lowest_free (fd_view k st) = (if cneg (find_empty_fd (vtasks st ! k)) then None else Some (unat (find_empty_fd (vtasks st ! k))))"
  using lowest_free_index [of "v_fd (vtasks st ! k)" "\<lambda>fp. if cneg fp then None else Some (fp, node_of st (filps st ! unat fp))"]
    vfs_inv_parts(5) [OF assms] by (simp add: fd_view_def find_empty_fd_def task_ok_def)

theorem dup_duplicates:
  assumes ready: "fd_ready i k n st" and fd: "fd_arg fd"
  obtains st' where "vfs_sys i (dup_req fd) w0 st = Some (word_of_int (fst (fd_dup (sint fd) (fd_view k st))), st')" "fd_ready i k n st'"
    "fd_view k st' = snd (fd_dup (sint fd) (fd_view k st))" "others_keep k st st'"
proof -
  note r = fd_ready_parts [OF ready]
  let ?m = "dup_req fd (i_msg i)" and ?fp = "v_fd (vtasks st ! k) ! unat fd" and ?new = "find_empty_fd (vtasks st ! k)"
  have m: "w0 ?m = fd" "v_cmd ?m = VFS_DUP" by (simp_all add: dup_req_def)
  have disp: "vfs_dispatch system_drivers (i\<lparr>i_msg := ?m\<rparr>) st = do_dup (Some k) ?m st"
    using r(4) m by (simp add: vfs_dispatch_def vfs_cmds Let_def)
  note unit = sys_unit(2) [where i = i and req = "dup_req fd" and res = w0 and as = "[]", OF _ _ r(5)]
  show ?thesis
  proof (cases "cneg fd \<or> cneg ?fp")
    case True
    then have "do_dup (Some k) ?m st = Some (st, ?m\<lparr>w0 := - 1\<rparr>, [])" using fd_arg_cases [OF fd] m by (auto simp: do_dup_def Let_def)
    moreover have "fd_dup (sint fd) (fd_view k st) = (- 1, fd_view k st)"
      using True fd_view_nth [OF r(2,3)] fd_arg_cases [OF fd] r(6) by (auto simp: fd_dup_def sint16 Let_def)
    ultimately show ?thesis using ready disp m by (intro that [of st]) (use unit in \<open>auto simp: vfs_cmds\<close>)
  next
    case False
    have i: "nat (sint fd) = unat fd" "unat fd < 8" "0 \<le> sint fd" "idx 8 fd = Some (unat fd)"
      using False fd fd_arg_cases [OF fd] by (auto simp: fd_arg_def sint16)
    note e = open_entry [OF r(2,3) i(2)]
    have ix: "idx 16 ?fp = Some (unat ?fp)" "unat ?fp < length (filps st)" using e False by auto
    have old: "fd_view k st ! unat fd = Some (?fp, node_of st (filps st ! unat ?fp))" using fd_view_nth [OF r(2,3) i(2)] False by (simp add: Let_def)
    then have dup: "fd_dup (sint fd) (fd_view k st) = fd_new (?fp, node_of st (filps st ! unat ?fp)) (fd_view k st)"
      using i r(6) by (simp add: fd_dup_def)
    show ?thesis
    proof (cases "cneg ?new")
      case True
      then have "do_dup (Some k) ?m st = Some (st, ?m\<lparr>w0 := - 1\<rparr>, [])" using False i(4) m by (simp add: do_dup_def Let_def)
      moreover have "fd_new x (fd_view k st) = (- 1, fd_view k st)" for x using True lowest_free_view [OF r(2,3)] by (simp add: fd_new_def)
      ultimately show ?thesis using ready disp m dup by (intro that [of st]) (use unit in \<open>auto simp: vfs_cmds\<close>)
    next
      case new: False
      let ?st = "upd_filp (unat ?fp) inc_refcnt (set_fd k (unat ?new) ?fp st)"
      have eq: "?st = (upd_filp (unat ?fp) inc_refcnt (set_fd k (unat ?new) ?fp st))\<lparr>devs := devs st\<rparr>" by (simp add: upd_filp_def)
      have d: "do_dup (Some k) ?m st = Some (?st, ?m\<lparr>w0 := ?new\<rparr>, [])" using False new i(4) ix(1) m by (simp add: do_dup_def Let_def)
      note len = view_None [OF r(3,2) empty_fd(1) [OF r(2,3) new]]
      have keep: "others_keep k st ?st" "fd_view k ?st = (fd_view k st)[unat ?new := Some (?fp, node_of st (filps st ! unat ?fp))]"
        using others_keep_state [OF r(3) len, where j = "unat ?fp" and g = inc_refcnt and x = ?fp and d = "devs st", folded eq]
          fd_view_state [OF r(3) len, where j = "unat ?fp" and g = inc_refcnt and x = ?fp and d = "devs st" and l = k, folded eq] False
        by (simp_all add: inc_refcnt_def)
      have "fd_arg (w0 ?m)" using fd m by simp
      then have inv: "nodes_inv devices_ok node_counts system_tasks ?st" "vfs_inv ?st"
        using sys.dup_sound [OF r(1-3), of ?m] do_dup_inv [OF r(2,3) d] d by auto
      have "free_entries st \<le> free_entries ?st"
        using free_entries_upd [OF ix(2), where g = inc_refcnt and k = k and i = "unat ?new" and x = ?fp and d = "devs st", folded eq] e(3) False
        by simp
      then have "fd_ready i k n ?st" using fd_ready_step [OF ready inv keep(1), of n] ready by (simp add: fd_ready_def free_nodes_def)
      moreover have "fd_new x (fd_view k st) = (int (unat ?new), (fd_view k st)[unat ?new := Some x])" for x
        using new lowest_free_view [OF r(2,3)] by (simp add: fd_new_def)
      ultimately show ?thesis using keep disp d m dup by (intro that [of ?st]) (use unit in \<open>auto simp: vfs_cmds\<close>)
    qed
  qed
qed

section \<open>Pipes\<close>

text \<open>The ends of a pipe are two entries on the same node, at which no request waits.\<close>

definition pipe_ends :: "world \<Rightarrow> ofile \<Rightarrow> ofile \<Rightarrow> bool" where
  "pipe_ends st r q \<longleftrightarrow> (\<exists>n < 8. snd r = Some (0x100, n) \<and> snd q = Some (0x100, n) \<and> fst r \<noteq> fst q \<and> quiet n (devs st))"

lemma pipe_ends_keep: "others_keep k st st' \<Longrightarrow> pipe_ends st r q \<Longrightarrow> pipe_ends st' r q"
  by (auto simp: pipe_ends_def others_keep_def)

text \<open>Two descriptors are free.\<close>

definition two_free :: "'f fdtab \<Rightarrow> bool" where
  "two_free t \<longleftrightarrow> (\<exists>a b. lowest_free t = Some a \<and> (\<forall>x. lowest_free (t[a := Some x]) = Some b))"

text \<open>An end of a pipe is a new open file at the lowest free descriptor.\<close>

lemma pipe_end_view:
  assumes inv: "vfs_inv st" and k: "k < length (vtasks st)" and pid: "dev_pid (pipedev_idx st) st = Some pid"
    and fp: "\<not> cneg (find_empty_filp st)" and fd: "lowest_free (fd_view k st) = Some a"
  obtains st' where "pipe_end k ino st = Some (st', of_nat a)" "fd_view k st' = (fd_view k st)[a := Some (find_empty_filp st, Some (pid, unat ino))]"
    "\<forall>l < length (vtasks st). l \<noteq> k \<longrightarrow> fd_view l st' = fd_view l st" "Suc (free_entries st') = free_entries st"
    "map v_pid (vtasks st') = map v_pid (vtasks st)" "devtab st' = devtab st" "pipedev_idx st' = pipedev_idx st" "devs st' = devs st"
    "fp_refcnt (filps st' ! unat (find_empty_filp st)) \<noteq> 0"
proof -
  let ?fp = "find_empty_filp st" and ?fd = "find_empty_fd (vtasks st ! k)"
  let ?open = "\<lambda>f. inc_refcnt (f\<lparr>fp_dev := pipedev_idx st, fp_ino := ino\<rparr>)"
  let ?st = "set_fd k (unat ?fd) ?fp (upd_filp (unat ?fp) ?open st)"
  have nfd: "\<not> cneg ?fd" "unat ?fd = a" using fd lowest_free_view [OF inv k] by (auto split: if_splits)
  note e = empty_filp [OF inv fp]
  have j: "unat ?fp < length (filps st)" using e(1) vfs_inv_parts(2) [OF inv] by simp
  have a: "a < 8" "?fd = of_nat a" using empty_fd(1) [OF inv k nfd(1)] nfd(2) by auto
  have nth: "filps ?st ! unat ?fp = ?open (filps st ! unat ?fp)" using j by (simp add: upd_filp_nth)
  have other: "filps ?st ! unat x = filps st ! unat x" if "l < length (vtasks st)" "x \<in> set (v_fd (vtasks st ! l))" "\<not> cneg x" for l x
  proof -
    note x = that
    obtain i where "i < 8" "v_fd (vtasks st ! l) ! i = x"
      using x(2) vfs_inv_parts(5) [OF inv x(1)] by (auto simp: in_set_conv_nth task_ok_def)
    then have "fp_refcnt (filps st ! unat x) \<noteq> 0" using open_entry(3) [OF inv x(1)] x(3) by blast
    then show ?thesis using e(2) j by (auto simp: upd_filp_nth)
  qed
  have view: "map (\<lambda>fp. if cneg fp then None else Some (fp, node_of st (filps ?st ! unat fp))) (v_fd (vtasks st ! l)) = fd_view l st"
    if "l < length (vtasks st)" for l
    unfolding fd_view_def using other [OF that] by (intro map_cong) auto
  show thesis
  proof (rule that [of ?st])
    show "pipe_end k ino st = Some (?st, of_nat a)" using fp nfd(1) a(2) by (simp add: pipe_end_def Let_def)
    show "\<forall>l < length (vtasks st). l \<noteq> k \<longrightarrow> fd_view l ?st = fd_view l st"
    proof (intro allI impI)
      fix l assume l: "l < length (vtasks st)" "l \<noteq> k"
      then have "vtasks ?st ! l = vtasks st ! l" using k by (simp add: set_fd_nth)
      then show "fd_view l ?st = fd_view l st" using view [OF l(1)] unfolding fd_view_def by (simp only: nodes_of_state)
    qed
    have tasks: "v_fd (vtasks ?st ! k) = (v_fd (vtasks st ! k))[a := ?fp]" using k nfd(2) by (simp add: set_fd_nth)
    have "node_of st (filps ?st ! unat ?fp) = Some (pid, unat ino)" unfolding nth using pid by (simp add: node_of_def inc_refcnt_def)
    then show "fd_view k ?st = (fd_view k st)[a := Some (?fp, Some (pid, unat ino))]"
      unfolding view [OF k, symmetric] unfolding fd_view_def tasks nodes_of_state map_update using fp by simp
    show "Suc (free_entries ?st) = free_entries st"
      using length_filter_update [OF j, of "\<lambda>f. fp_refcnt f = 0" "?open (filps st ! unat ?fp)"] e(2)
      by (simp add: free_entries_def upd_filp_def inc_refcnt_def)
    show "map v_pid (vtasks ?st) = map v_pid (vtasks st)" using k by (intro nth_equalityI) (auto simp: set_fd_nth)
    show "fp_refcnt (filps ?st ! unat ?fp) \<noteq> 0" unfolding nth using e(2) by (simp add: inc_refcnt_def)
  qed simp_all
qed

lemma free_nodes_made:
  assumes "n < 8" "node_counts (devs st) (0x100, n) = None" "node_counts (devs st') = (node_counts (devs st))((0x100, n) \<mapsto> c)"
  shows "Suc (free_nodes st') = free_nodes st"
proof -
  let ?free = "\<lambda>st. {m \<in> set [0..<8]. node_counts (devs st) (0x100, m) = None}"
  have "?free st' = ?free st - {n}" using assms(3) by auto
  moreover have "n \<in> ?free st" "finite (?free st)" using assms(1,2) by simp_all
  ultimately have "Suc (card (?free st')) = card (?free st)" by (simp only: card_Suc_Diff1)
  moreover have "free_nodes s = card (?free s)" for s
    unfolding free_nodes_def distinct_length_filter [OF distinct_upt] by (rule arg_cong [of _ _ card]) auto
  ultimately show ?thesis by simp
qed

lemma free_filp: "vfs_inv st \<Longrightarrow> 0 < free_entries st \<Longrightarrow> \<not> cneg (find_empty_filp st)"
  using find_index_cneg [of "filps st" "\<lambda>f. fp_refcnt f = 0"] vfs_inv_parts(2) [of st]
  unfolding find_empty_filp_def free_entries_def by (auto simp: filter_empty_conv)

text \<open>Both ends.\<close>

lemma pipe_ends_view:
  assumes inv: "vfs_inv st" and k: "k < length (vtasks st)" and pid: "dev_pid (pipedev_idx st) st = Some pid" and free: "2 \<le> free_entries st"
    and ab: "lowest_free (fd_view k st) = Some a" "\<And>x. lowest_free ((fd_view k st)[a := Some x]) = Some b"
  obtains st1 st2 e f where "pipe_end k ino st = Some (st1, of_nat a)" "pipe_end k ino st1 = Some (st2, of_nat b)" "e \<noteq> f"
    "fd_view k st2 = (fd_view k st)[a := Some (e, Some (pid, unat ino)), b := Some (f, Some (pid, unat ino))]"
    "\<forall>l < length (vtasks st). l \<noteq> k \<longrightarrow> fd_view l st2 = fd_view l st" "Suc (Suc (free_entries st2)) = free_entries st"
    "map v_pid (vtasks st2) = map v_pid (vtasks st)" "devtab st2 = devtab st" "pipedev_idx st2 = pipedev_idx st" "devs st2 = devs st"
proof -
  let ?x = "Some (pid, unat ino)"
  have fp: "\<not> cneg (find_empty_filp st)" using free_filp [OF inv] free by simp
  obtain st1 where s1: "pipe_end k ino st = Some (st1, of_nat a)" "fd_view k st1 = (fd_view k st)[a := Some (find_empty_filp st, ?x)]"
      "\<forall>l < length (vtasks st). l \<noteq> k \<longrightarrow> fd_view l st1 = fd_view l st" "Suc (free_entries st1) = free_entries st"
      "map v_pid (vtasks st1) = map v_pid (vtasks st)" "devtab st1 = devtab st" "pipedev_idx st1 = pipedev_idx st" "devs st1 = devs st"
      "fp_refcnt (filps st1 ! unat (find_empty_filp st)) \<noteq> 0"
    by (rule pipe_end_view [OF inv k pid fp ab(1), of ino])
  have inv1: "vfs_inv st1" "length (vtasks st1) = length (vtasks st)" using pipe_end_inv [OF inv k s1(1)] .
  have fp1: "\<not> cneg (find_empty_filp st1)" using free_filp [OF inv1(1)] s1(4) free by simp
  have k1: "k < length (vtasks st1)" "dev_pid (pipedev_idx st1) st1 = Some pid" "lowest_free (fd_view k st1) = Some b"
    using k pid s1 inv1 ab(2) by (simp_all add: dev_pid_def)
  obtain st2 where s2: "pipe_end k ino st1 = Some (st2, of_nat b)" "fd_view k st2 = (fd_view k st1)[b := Some (find_empty_filp st1, ?x)]"
      "\<forall>l < length (vtasks st1). l \<noteq> k \<longrightarrow> fd_view l st2 = fd_view l st1" "Suc (free_entries st2) = free_entries st1"
      "map v_pid (vtasks st2) = map v_pid (vtasks st1)" "devtab st2 = devtab st1" "pipedev_idx st2 = pipedev_idx st1" "devs st2 = devs st1"
    by (rule pipe_end_view [OF inv1(1) k1(1,2) fp1 k1(3), of ino])
  have "find_empty_filp st \<noteq> find_empty_filp st1" using s1(9) empty_filp(2) [OF inv1(1) fp1] by metis
  then show ?thesis using s1 s2 inv1(2) by (intro that [of st1 st2 "find_empty_filp st" "find_empty_filp st1"]) simp_all
qed

theorem pipe_makes_ends:
  assumes ready: "fd_ready i k (Suc n) st" and free: "two_free (fd_view k st)"
  obtains st' r q a b where "vfs_sys i pipe_req (\<lambda>m. (w2 m, w0 m, w1 m)) st = Some ((0, of_nat a, of_nat b), st')"
    "fd_new r (fd_view k st) = (int a, (fd_view k st)[a := Some r])"
    "fd_new q ((fd_view k st)[a := Some r]) = (int b, (fd_view k st)[a := Some r, b := Some q])"
    "fd_view k st' = (fd_view k st)[a := Some r, b := Some q]" "fd_ready i k n st'" "others_keep k st st'" "pipe_ends st' r q" "a < 8" "b < 8"
proof -
  note p = fd_ready_parts [OF ready]
  obtain a b where ab: "lowest_free (fd_view k st) = Some a" "\<And>x. lowest_free ((fd_view k st)[a := Some x]) = Some b"
    using free by (auto simp: two_free_def)
  have fr: "node_free node_counts 0x100 st"
  proof -
    have "filter (\<lambda>n. node_counts (devs st) (0x100, n) = None) [0..<8] \<noteq> []" using ready by (auto simp: fd_ready_def free_nodes_def)
    then show ?thesis by (auto simp: node_free_def filter_empty_conv)
  qed
  have pid: "dev_pid (pipedev_idx st) st = Some 0x100" "(0x100 :: pid_t) \<in> system_tasks" using ready by (simp_all add: fd_ready_def)
  let ?msg = "pipe_req (i_msg i)"
  show thesis
  proof (rule sys.pipe_node [OF p(1,2) pid fr, of "i_str i" k ?msg])
    fix m d ans
    let ?st = "st\<lparr>devs := d\<rparr>"
    assume m: "m < 8" "holders st (0x100, m) = 0" "node_counts (devs st) (0x100, m) = None" "node_counts d = (node_counts (devs st))((0x100, m) \<mapsto> 2)"
        "nodes_inv devices_ok node_counts system_tasks ?st" "(bookkeeping system_drivers)\<^sup>*\<^sup>* (devs st) d" "v_cmd ans = VFS_INODE_GRAB"
      and eq: "do_pipe system_drivers (i_str i) (Some k) ?msg st =
      (if cneg (find_empty_filp st) then Some (?st, ans\<lparr>w2 := - 1\<rparr>, [])
       else case pipe_end k (of_nat m) ?st of
         None \<Rightarrow> Some (?st, ans\<lparr>w2 := - 1\<rparr>, [])
       | Some (st4, fdi) \<Rightarrow>
           (case pipe_end k (of_nat m) st4 of
              None \<Rightarrow> Some (st4, ans\<lparr>w0 := fdi, w2 := - 1\<rparr>, [])
            | Some (st5, fdo) \<Rightarrow> Some (st5, ans\<lparr>w0 := fdi, w1 := fdo, w2 := 0\<rparr>, [])))"
    have v: "vfs_inv ?st" "k < length (vtasks ?st)" "dev_pid (pipedev_idx ?st) ?st = Some 0x100" "fd_view l ?st = fd_view l st"
        "free_entries ?st = free_entries st" "find_empty_filp ?st = find_empty_filp st" for l
      using p(2,3) pid(1) by (simp_all add: fd_view_def free_entries_def find_empty_filp_def)
    have um: "unat (of_nat m :: cint) = m" using m(1) by (simp add: unat_of_nat)
    have fe: "2 * Suc n \<le> free_entries st" "Suc n \<le> free_nodes st" using ready by (auto simp: fd_ready_def)
    have room: "2 \<le> free_entries ?st" "lowest_free (fd_view k ?st) = Some a" "\<And>x. lowest_free ((fd_view k ?st)[a := Some x]) = Some b"
      using v fe ab by simp_all
    obtain st4 st' e f where ends: "pipe_end k (of_nat m) ?st = Some (st4, of_nat a)" "pipe_end k (of_nat m) st4 = Some (st', of_nat b)" "e \<noteq> f"
        "fd_view k st' = (fd_view k ?st)[a := Some (e, Some (0x100, unat (of_nat m :: cint))), b := Some (f, Some (0x100, unat (of_nat m :: cint)))]"
        "\<forall>l < length (vtasks ?st). l \<noteq> k \<longrightarrow> fd_view l st' = fd_view l ?st" "Suc (Suc (free_entries st')) = free_entries ?st"
        "map v_pid (vtasks st') = map v_pid (vtasks ?st)" "devtab st' = devtab ?st" "pipedev_idx st' = pipedev_idx ?st" "devs st' = devs ?st"
      by (rule pipe_ends_view [OF v(1-3) room, of "of_nat m"])
    have do: "do_pipe system_drivers (i_str i) (Some k) ?msg st = Some (st', ans\<lparr>w0 := of_nat a, w1 := of_nat b, w2 := 0\<rparr>, [])"
      unfolding eq using ends(1,2) free_filp [OF p(2)] fe by simp
    have inv: "nodes_inv devices_ok node_counts system_tasks st'" "vfs_inv st'"
      using sys.pipe_sound [OF p(1-3) pid fr, of "i_str i" ?msg] do_pipe_inv [OF p(2,3) do] do by auto
    have q: "quiet l (devs st) \<Longrightarrow> quiet l d" for l using bookkeeping_quiet [OF m(6)] .
    have keep: "others_keep k st st'" unfolding others_keep_def using ends(5,7-10) v(4) q by simp
    have "quiet m (devs st)" using m(1,3) by (auto simp: quiet_def node_counts_def)
    then have pe: "pipe_ends st' (e, Some (0x100, m)) (f, Some (0x100, m))" using m(1) ends(3,10) q by (auto simp: pipe_ends_def)
    have "Suc (free_nodes st') = free_nodes st" by (rule free_nodes_made [OF m(1,3)]) (simp add: ends(10) m(4))
    then have rd: "fd_ready i k n st'" using fd_ready_step [OF ready inv keep, of n] fe ends(6) v(5) by simp
    have disp: "vfs_dispatch system_drivers (i\<lparr>i_msg := ?msg\<rparr>) st = Some (st', ans\<lparr>w0 := of_nat a, w1 := of_nat b, w2 := 0\<rparr>, [])"
      using p(4) do by (simp add: vfs_dispatch_def vfs_cmds Let_def pipe_req_def)
    have sys: "vfs_sys i pipe_req (\<lambda>m. (w2 m, w0 m, w1 m)) st = Some ((0, of_nat a, of_nat b), st')"
      using sys_unit(2) [where i = i and req = pipe_req and res = "\<lambda>m. (w2 m, w0 m, w1 m)", OF disp _ p(5)] m(7)
      by (simp add: vfs_cmds pipe_req_def)
    have len: "a < 8" "b < 8"
      using lowest_free_less [OF ab(1)] lowest_free_less [OF ab(2) [of undefined]] p(6) by simp_all
    show thesis
      by (rule that [OF sys _ _ _ rd keep pe len]) (use ab ends(4) v(4) um in \<open>simp_all add: fd_new_def\<close>)
  qed
qed

end
