(* ===== verification/Shell_Wiring.thy ===== *)
theory Shell_Wiring
  imports Shell_Jobs Vfs_Fds
begin

text \<open>
  The macros of \<^verbatim>\<open>usr/sh.c\<close> that connect the jobs of a command line, on the file system and its drivers. The
  interface between them is that of a table of descriptors; the file system implements it, the macros
  are shown to do what \<open>Shell\<close> says of tables. Then two jobs are followed from the shell that starts
  them to the characters that go through the pipe between them.
\<close>

section \<open>The interface\<close>

text \<open>
  \<open>view\<close> is the table of descriptors of the caller, \<open>ready n\<close> says that \<open>n\<close> pipes can be made, \<open>ends\<close> that two
  open files are the ends of a pipe, and \<open>frame\<close> what a call leaves alone.
\<close>

locale descriptors =
  fixes os :: "'w os" and view :: "'w \<Rightarrow> 'f fdtab" and ready :: "nat \<Rightarrow> 'w \<Rightarrow> bool" and ends :: "'w \<Rightarrow> 'f \<Rightarrow> 'f \<Rightarrow> bool"
    and frame :: "'w \<Rightarrow> 'w \<Rightarrow> bool"
  assumes frame_refl: "frame w w"
    and frame_trans: "frame u v \<Longrightarrow> frame v w \<Longrightarrow> frame u w"
    and ends_frame: "frame w w' \<Longrightarrow> ends w r q \<Longrightarrow> ends w' r q"
    and size: "ready n w \<Longrightarrow> length (view w) = MAX_FD"
    and close: "ready n w \<Longrightarrow> fd_arg fd \<Longrightarrow>
      \<exists>w'. os_close os fd w = Some ((), w') \<and> ready n w' \<and> view w' = fd_close (sint fd) (view w) \<and> frame w w'"
    and dup: "ready n w \<Longrightarrow> fd_arg fd \<Longrightarrow>
      \<exists>w'. os_dup os fd w = Some (word_of_int (fst (fd_dup (sint fd) (view w))), w') \<and> ready n w' \<and>
        view w' = snd (fd_dup (sint fd) (view w)) \<and> frame w w'"
    and pipe: "ready (Suc n) w \<Longrightarrow> two_free (view w) \<Longrightarrow>
      \<exists>w' r q a b. os_pipe os w = Some ((0, of_nat a, of_nat b), w') \<and> a < MAX_FD \<and> b < MAX_FD \<and>
        fd_new r (view w) = (int a, (view w)[a := Some r]) \<and>
        fd_new q ((view w)[a := Some r]) = (int b, (view w)[a := Some r, b := Some q]) \<and>
        view w' = (view w)[a := Some r, b := Some q] \<and> ready n w' \<and> frame w w' \<and> ends w' r q"
begin

text \<open>The calls as steps of programs.\<close>

lemma fd_arg_sint:
  assumes "fd_arg fd"
  shows "sint fd < 8"
proof -
  have "unat fd < 65536" using unsigned_less [of fd, where 'a = nat] by simp
  then show ?thesis using assms unfolding fd_arg_def sint16 cneg_iff by (cases "unat fd < 32768") (simp_all only: if_True if_False, linarith+)
qed

lemma closes:
  assumes "ready n w" "fd_arg fd"
  obtains w' where "runs (sys (os_close os fd)) w () w'" "ready n w'" "view w' = fd_close (sint fd) (view w)" "frame w w'"
  using close [OF assms] that by auto

lemma dups:
  assumes "ready n w" "fd_arg fd"
  obtains w' where "runs (sys (os_dup os fd)) w (word_of_int (fst (fd_dup (sint fd) (view w)))) w'" "ready n w'"
    "view w' = snd (fd_dup (sint fd) (view w))" "frame w w'"
  using dup [OF assms] that by auto

text \<open>One descriptor is replaced by a copy of another one: \<^verbatim>\<open>close\<close>, then \<^verbatim>\<open>dup\<close>.\<close>

lemma replaces:
  assumes "ready n w" "fd_arg fd" "fd_arg src"
  shows "\<exists>w' y. runs (andthen (sys (os_close os fd)) (\<lambda>_. sys (os_dup os src))) w y w' \<and> ready n w' \<and> frame w w' \<and>
    view w' = snd (fd_dup (sint src) (fd_close (sint fd) (view w)))"
proof -
  obtain u where u: "runs (sys (os_close os fd)) w () u" "ready n u" "view u = fd_close (sint fd) (view w)" "frame w u"
    by (rule closes [OF assms(1,2)])
  obtain v where v: "runs (sys (os_dup os src)) u (word_of_int (fst (fd_dup (sint src) (view u)))) v" "ready n v"
      "view v = snd (fd_dup (sint src) (view u))" "frame u v"
    by (rule dups [OF u(2) assms(3)])
  show ?thesis using runs_andthen [OF u(1) v(1)] v(2) frame_trans [OF u(4) v(4)] v(3) u(3) by auto
qed

lemma small_args [simp]: "fd_arg 0" "fd_arg 1" "fd_arg 3" "fd_arg 4" "fd_arg 5" "fd_arg 6" "fd_arg 7"
  by (simp_all add: fd_arg_def)

lemma job_init_refines:
  assumes "ready n w"
  obtains w' where "runs (job_init os) w 3 w'" "ready n w'" "frame w w'"
    "view w' = io_tab (JOB_INIT \<lparr>io_tab = view w, io_nextin = x\<rparr>)"
proof -
  obtain u y where u: "runs (andthen (sys (os_close os 0)) (\<lambda>_. sys (os_dup os 3))) w y u" "ready n u" "frame w u"
      "view u = snd (fd_dup 3 (fd_close 0 (view w)))"
    using replaces [OF assms, of 0 3] by auto
  obtain v z where v: "runs (andthen (sys (os_close os 1)) (\<lambda>_. sys (os_dup os 4))) u z v" "ready n v" "frame u v"
      "view v = snd (fd_dup 4 (fd_close 1 (view u)))"
    using replaces [OF u(2), of 1 4] by auto
  have "runs (job_init os) w 3 v"
    using u(1) v(1) by (auto simp: job_init_def runs_andthen_iff STDIN_def STDOUT_def)
  then show thesis using v(2) frame_trans [OF u(3) v(3)] by (rule that) (simp add: JOB_INIT_def Let_def v(4) u(4))
qed

lemma job_nopipe_refines:
  assumes "ready n w" "fd_arg nextin" "JOB_NOPIPE \<lparr>io_tab = view w, io_nextin = sint nextin\<rparr> = Some s"
  obtains w' where "runs (job_nopipe os nextin) w () w'" "ready n w'" "frame w w'" "view w' = io_tab s"
proof -
  obtain u y where u: "runs (andthen (sys (os_close os 0)) (\<lambda>_. sys (os_dup os nextin))) w y u" "ready n u" "frame w u"
      "view u = snd (fd_dup (sint nextin) (fd_close 0 (view w)))"
    using replaces [OF assms(1) _ assms(2), of 0] by auto
  obtain u' where u': "runs (sys (os_close os 5)) u () u'" "ready n u'" "view u' = fd_close 5 (view u)" "frame u u'"
    using closes [OF u(2), of 5] by auto
  obtain v z where v: "runs (andthen (sys (os_close os 1)) (\<lambda>_. sys (os_dup os 4))) u' z v" "ready n v" "frame u' v"
      "view v = snd (fd_dup 4 (fd_close 1 (view u')))"
    using replaces [OF u'(2), of 1 4] by auto
  have "runs (job_nopipe os nextin) w () v"
    using u(1) u'(1) v(1) by (auto simp: job_nopipe_def runs_andthen_iff STDIN_def STDOUT_def)
  then show thesis using v(2) frame_trans [OF u(3) frame_trans [OF u'(4) v(3)]]
    by (rule that) (use assms(3) in \<open>auto simp: JOB_NOPIPE_def job_in_def v(4) u'(3) u(4) split: if_splits\<close>)
qed

lemma job_pipe_refines:
  assumes "ready (Suc n) w" "fd_arg nextin" "two_free (fd_close 5 (snd (fd_dup (sint nextin) (fd_close 0 (view w)))))"
  obtains w' r q s where "\<forall>p. made r q p \<longrightarrow> JOB_PIPE p \<lparr>io_tab = view w, io_nextin = sint nextin\<rparr> = Some s"
    "runs (job_pipe os nextin) w (word_of_int (io_nextin s)) w'" "ready n w'" "frame w w'" "ends w' r q" "view w' = io_tab s"
proof -
  obtain u y where u: "runs (andthen (sys (os_close os 0)) (\<lambda>_. sys (os_dup os nextin))) w y u" "ready (Suc n) u" "frame w u"
      "view u = snd (fd_dup (sint nextin) (fd_close 0 (view w)))"
    using replaces [OF assms(1) _ assms(2), of 0] by auto
  obtain u1 where u1: "runs (sys (os_close os 5)) u () u1" "ready (Suc n) u1" "view u1 = fd_close 5 (view u)" "frame u u1"
    using closes [OF u(2), of 5] by auto
  have "two_free (view u1)" using assms(3) u1(3) u(4) by simp
  then obtain u2 r q a b where u2: "os_pipe os u1 = Some ((0, of_nat a, of_nat b), u2)" "a < 8" "b < 8"
      "fd_new r (view u1) = (int a, (view u1)[a := Some r])" "fd_new q ((view u1)[a := Some r]) = (int b, (view u1)[a := Some r, b := Some q])"
      "view u2 = (view u1)[a := Some r, b := Some q]" "ready n u2" "frame u1 u2" "ends u2 r q"
    using pipe [OF u1(2)] by blast
  have b: "fd_arg (of_nat b)" "sint (of_nat b :: cint) = int b" using u2(3) small_word [of b] by (simp_all add: fd_arg_def)
  obtain u3 z where u3: "runs (andthen (sys (os_close os 1)) (\<lambda>_. sys (os_dup os (of_nat b)))) u2 z u3" "ready n u3" "frame u2 u3"
      "view u3 = snd (fd_dup (int b) (fd_close 1 (view u2)))"
    using replaces [OF u2(7) _ b(1), of 1] b(2) by auto
  obtain v where v: "runs (sys (os_close os (of_nat b))) u3 () v" "ready n v" "view v = fd_close (int b) (view u3)" "frame u3 v"
    using closes [OF u3(2) b(1)] b(2) by auto
  have "runs (job_pipe os nextin) w (of_nat a) v"
    using u(1) u1(1) u2(1) u3(1) v(1) by (fastforce simp: job_pipe_def runs_andthen_iff STDIN_def STDOUT_def)
  moreover have fr: "frame u2 v" "frame w v" using u(3) u1(4) u2(8) u3(3) v(4) frame_trans by blast+
  moreover have "ends v r q" using ends_frame [OF fr(1) u2(9)] .
  moreover have "JOB_PIPE p \<lparr>io_tab = view w, io_nextin = sint nextin\<rparr> = Some \<lparr>io_tab = view v, io_nextin = int a\<rparr>"
    if "made r q p" for p
  proof -
    have "job_in \<lparr>io_tab = view w, io_nextin = sint nextin\<rparr> = Some (view u1)"
      using fd_arg_sint [OF assms(2)] by (simp add: job_in_def u1(3) u(4))
    then show ?thesis using fd_pipe_made [OF that u2(4,5)] u2(3,6) by (simp add: JOB_PIPE_def u3(4) v(3))
  qed
  ultimately show thesis
    using v(2) by (intro that [of r q "\<lparr>io_tab = view v, io_nextin = int a\<rparr>" v]) simp_all
qed

lemma close_fds_closes:
  assumes "ready n w" "\<forall>fd \<in> set fds. fd_arg fd"
  shows "\<exists>w'. runs (close_fds os fds) w () w' \<and> ready n w' \<and> frame w w' \<and> view w' = fold (\<lambda>fd. fd_close (sint fd)) fds (view w)"
  using assms
proof (induction fds arbitrary: w)
  case (Cons fd fds)
  obtain u where u: "runs (sys (os_close os fd)) w () u" "ready n u" "view u = fd_close (sint fd) (view w)" "frame w u"
    using closes [OF Cons.prems(1)] Cons.prems(2) by auto
  obtain v where v: "runs (close_fds os fds) u () v" "ready n v" "frame u v" "view v = fold (\<lambda>fd. fd_close (sint fd)) fds (view u)"
    using Cons.IH [OF u(2)] Cons.prems(2) by auto
  have "runs (close_fds os (fd # fds)) w () v" using u(1) v(1) by (auto simp: runs_andthen_iff)
  then show ?case using v(2,4) u(3) frame_trans [OF u(4) v(3)] by auto
qed (simp add: frame_refl)

text \<open>The task of a job keeps the three descriptors below 3.\<close>

lemma job_task_closes:
  assumes "ready n w"
  obtains w' where "runs (close_fds os [3, 4, 5, 6, 7]) w () w'" "ready n w'" "frame w w'" "view w' = job_fds (view w)"
proof -
  have "fold (\<lambda>fd :: cint. fd_close (sint fd)) [3, 4, 5, 6, 7] t = job_fds t" for t :: "'f fdtab"
    by (simp add: job_fds_def upt_rec numeral_eq_Suc)
  with close_fds_closes [OF assms, of "[3, 4, 5, 6, 7]"] that show thesis by auto
qed

end

interpretation fds: descriptors "vfs_os i base" "fd_view k" "fd_ready i k" pipe_ends "others_keep k" for i base k
proof (unfold_locales, goal_cases)
  case (2 u v w)
  then show ?case by (rule others_keep_trans)
next
  case (3 w w' r q)
  then show ?case by (rule pipe_ends_keep)
next
  case (4 n w)
  then show ?case by (rule fd_ready_parts(6))
next
  case (5 n w fd)
  then show ?case by (rule close_closes) auto
next
  case (6 n w fd)
  then show ?case by (rule dup_duplicates) (auto simp: vfs_os_def)
next
  case (7 n w)
  have eq: "os_pipe (vfs_os i base) = vfs_sys i pipe_req (\<lambda>m. (w2 m, w0 m, w1 m))" by (simp add: vfs_os_def)
  from 7 show ?case unfolding eq by (rule pipe_makes_ends) blast
qed simp

section \<open>Two jobs with a pipe between them\<close>

text \<open>
  The table of the shell between two jobs: the next job reads from \<open>src\<close>, which is descriptor 3, the
  input of the shell, or descriptor 5.
\<close>

definition sh_table :: "'f \<Rightarrow> 'f \<Rightarrow> 'f \<Rightarrow> 'f option \<Rightarrow> cint \<Rightarrow> 'f \<Rightarrow> 'f fdtab \<Rightarrow> bool" where
  "sh_table inp out err cmdfile nextin src t \<longleftrightarrow> (\<exists>a b x. t = [Some a, Some b, Some err, Some inp, Some out, x, cmdfile, None] \<and>
     (nextin = 3 \<and> src = inp \<or> nextin = 5 \<and> x = Some src))"

lemma sh_table_next: "sh_table inp out err cmdfile nextin src t \<Longrightarrow> fd_arg nextin"
  by (auto simp: sh_table_def fd_arg_def)

lemma sh_table_pipe:
  assumes "sh_table inp out err cmdfile nextin src t"
  defines "s \<equiv> \<lparr>io_tab = t, io_nextin = sint nextin\<rparr>"
  shows "made r q p \<Longrightarrow> JOB_PIPE p s =
      Some \<lparr>io_tab = [Some src, Some q, Some err, Some inp, Some out, Some r, cmdfile, None], io_nextin = 5\<rparr>"
    "two_free (fd_close 5 (snd (fd_dup (sint nextin) (fd_close 0 t))))"
    "JOB_NOPIPE s = Some (s\<lparr>io_tab := [Some src, Some out, Some err, Some inp, Some out, None, cmdfile, None]\<rparr>)"
proof -
  obtain a b x where t: "t = [Some a, Some b, Some err, Some inp, Some out, x, cmdfile, None]"
      "nextin = 3 \<and> src = inp \<or> nextin = 5 \<and> x = Some src" using assms by (auto simp: sh_table_def)
  have eq: "fd_close 5 (snd (fd_dup (sint nextin) (fd_close 0 t))) = [Some src, Some b, Some err, Some inp, Some out, None, cmdfile, None]"
    using t by (auto simp: fd_defs)
  then have j: "job_in s = Some [Some src, Some b, Some err, Some inp, Some out, None, cmdfile, None]"
    using t(2) by (auto simp: job_in_def s_def)
  show "made r q p \<Longrightarrow> JOB_PIPE p s =
      Some \<lparr>io_tab = [Some src, Some q, Some err, Some inp, Some out, Some r, cmdfile, None], io_nextin = 5\<rparr>"
    using pipe_replaces_output [OF _ j] by (simp add: s_def)
  show "two_free (fd_close 5 (snd (fd_dup (sint nextin) (fd_close 0 t))))"
    unfolding eq two_free_def by (cases cmdfile) (auto simp: numeral_eq_Suc)
  show "JOB_NOPIPE s = Some (s\<lparr>io_tab := [Some src, Some out, Some err, Some inp, Some out, None, cmdfile, None]\<rparr>)"
    by (rule nopipe_restores_output [OF j])
qed

lemma ex_made: "\<exists>p. made r q p"
  by (rule exI [of _ "\<lparr>first_end = Some r, second_end = Some q, unset = (0, 0)\<rparr>"]) (simp add: made_def)

lemma sh_table_made:
  assumes "sh_table inp out err cmdfile nextin src t"
    and "\<forall>p. made r q p \<longrightarrow> JOB_PIPE p \<lparr>io_tab = t, io_nextin = sint nextin\<rparr> = Some s"
  shows "s = \<lparr>io_tab = [Some src, Some q, Some err, Some inp, Some out, Some r, cmdfile, None], io_nextin = 5\<rparr>"
proof -
  obtain p where "made r q p" by (rule exE [OF ex_made])
  with sh_table_pipe(1) [OF assms(1) this] assms(2) show ?thesis by simp
qed

text \<open>\<^verbatim>\<open>spawntask\<close>: the process manager adds the new task to the file system as a child of the shell.\<close>

lemma inherit_entries:
  assumes "inherit k p is st = Some st'"
  shows "length (filps st') = length (filps st)" "fp_dev (filps st' ! j) = fp_dev (filps st ! j) \<and> fp_ino (filps st' ! j) = fp_ino (filps st ! j)"
    "devtab st' = devtab st" "pipedev_idx st' = pipedev_idx st"
proof -
  have "length (filps st') = length (filps st) \<and> (\<forall>j. fp_dev (filps st' ! j) = fp_dev (filps st ! j) \<and> fp_ino (filps st' ! j) = fp_ino (filps st ! j)) \<and>
      devtab st' = devtab st \<and> pipedev_idx st' = pipedev_idx st"
    using assms
  proof (induction "is" arbitrary: st)
    case (Cons i "is")
    let ?fp = "v_fd (vtasks st ! p) ! i"
    let ?st = "upd_filp (unat ?fp) inc_refcnt (set_fd k i ?fp st)"
    have e: "fp_dev (filps ?st ! j) = fp_dev (filps st ! j) \<and> fp_ino (filps ?st ! j) = fp_ino (filps st ! j)" for j
      by (cases "unat ?fp < length (filps st)"; cases "j = unat ?fp") (auto simp: upd_filp_def inc_refcnt_def list_update_beyond)
    show ?case
    proof (cases "cneg ?fp")
      case True
      with Cons show ?thesis by (simp add: Let_def)
    next
      case False
      then have "inherit k p is ?st = Some st'" using Cons.prems by (auto simp: Let_def idx_def split: Option.bind_splits if_splits)
      from Cons.IH [OF this] e show ?thesis by simp
    qed
  qed simp
  then show "length (filps st') = length (filps st)" "fp_dev (filps st' ! j) = fp_dev (filps st ! j) \<and> fp_ino (filps st' ! j) = fp_ino (filps st ! j)"
    "devtab st' = devtab st" "pipedev_idx st' = pipedev_idx st" by auto
qed

lemma findbypid_iff:
  "vfs_findbypid pid st = Some k \<longleftrightarrow> k < length (vtasks st) \<and> v_pid (vtasks st ! k) = pid \<and> (\<forall>j < k. v_pid (vtasks st ! j) \<noteq> pid)"
  "vfs_findbypid pid st = None \<longleftrightarrow> (\<forall>j < length (vtasks st). v_pid (vtasks st ! j) \<noteq> pid)"
  by (auto simp: vfs_findbypid_def find_Some_iff find_None_iff)

lemma findbypid_append:
  assumes "map v_pid (vtasks st') = map v_pid (vtasks st) @ [c]"
  shows "vfs_findbypid pid st = Some k \<Longrightarrow> vfs_findbypid pid st' = Some k"
    "vfs_findbypid c st = None \<Longrightarrow> vfs_findbypid c st' = Some (length (vtasks st))"
    "pid \<noteq> c \<Longrightarrow> vfs_findbypid pid st = None \<Longrightarrow> vfs_findbypid pid st' = None"
proof -
  have len: "length (vtasks st') = Suc (length (vtasks st))" using assms by (metis length_append_singleton length_map)
  have nth: "v_pid (vtasks st' ! l) = (if l < length (vtasks st) then v_pid (vtasks st ! l) else c)" if "l \<le> length (vtasks st)" for l
  proof -
    have "v_pid (vtasks st' ! l) = (map v_pid (vtasks st) @ [c]) ! l" using that len assms by (metis le_imp_less_Suc nth_map)
    then show ?thesis using that by (simp add: nth_append)
  qed
  show "vfs_findbypid pid st = Some k \<Longrightarrow> vfs_findbypid pid st' = Some k"
    "vfs_findbypid c st = None \<Longrightarrow> vfs_findbypid c st' = Some (length (vtasks st))"
    "pid \<noteq> c \<Longrightarrow> vfs_findbypid pid st = None \<Longrightarrow> vfs_findbypid pid st' = None"
    using nth by (auto simp: findbypid_iff len)
qed

lemma free_entries_child:
  fixes st st' :: world
  assumes "vfs_inv st" "vfs_inv st'" "k < length (vtasks st)" "vtasks st' = vtasks st @ [(vtasks st ! k)\<lparr>v_pid := c\<rparr>]"
  shows "free_entries st' = free_entries st"
proof -
  have zero: "fp_refcnt (filps s ! j) = 0 \<longleftrightarrow> refs s (of_nat j) = 0" if "vfs_inv s" "j < 16" for s :: world and j
    using vfs_inv_parts(6) [OF that] by (metis unat_eq_zero)
  have "count (mset (v_fd (vtasks st ! k))) y \<le> refs st y" for y
    unfolding refs_def using assms(3) by (intro member_le_sum_list) auto
  moreover have "refs st' y = refs st y + count (mset (v_fd (vtasks st ! k))) y" for y by (simp add: refs_def assms(4))
  ultimately have "refs st' y = 0 \<longleftrightarrow> refs st y = 0" for y by (metis add_is_0 le_zero_eq)
  then have "map (\<lambda>f. fp_refcnt f = 0) (filps st') = map (\<lambda>f. fp_refcnt f = 0) (filps st)"
    using zero [OF assms(1)] zero [OF assms(2)] vfs_inv_parts(2) [OF assms(1)] vfs_inv_parts(2) [OF assms(2)]
    by (intro nth_equalityI) auto
  moreover have "free_entries s = length (filter (\<lambda>b. b) (map (\<lambda>f. fp_refcnt f = 0) (filps s)))" for s :: world
    by (simp add: free_entries_def filter_map o_def)
  ultimately show ?thesis by (simp only:)
qed

lemma add_child:
  assumes ready: "fd_ready i k n st" and len: "length (vtasks st) < 31"
    and s: "i_msg s = vfs_createtask_req c (i_client i) m" "i_client s \<noteq> NULL" "i_mem s sizeof_vfs_task \<noteq> NULL"
    and c: "vfs_findbypid c st = None" "c \<noteq> NULL" "i_client j = c"
  obtains st' acts where "vfs_step system_drivers s st = Some (st', acts)" "fd_ready i k n st'" "fd_ready j (length (vtasks st)) n st'"
    "fd_view (length (vtasks st)) st' = fd_view k st" "\<forall>l < length (vtasks st). fd_view l st' = fd_view l st"
    "map v_pid (vtasks st') = map v_pid (vtasks st) @ [c]" "devs st' = devs st"
proof -
  note p = fd_ready_parts [OF ready]
  have cmd: "v_cmd (i_msg s) = VFS_ADDTASK" "w0 (i_msg s) = c" "w1 (i_msg s) = i_client i" using s(1) by (simp_all add: vfs_createtask_req_def)
  obtain st' where st': "vfs_step system_drivers s st = Some (st', [Send (i_client s) ((i_msg s)\<lparr>v_cmd := VFS_FINAL\<rparr>)])"
      "vtasks st' = vtasks st @ [(vtasks st ! k)\<lparr>v_pid := c\<rparr>]" "devs st' = devs st" "vfs_inv st'"
    using child_inherits_descriptors [OF p(2) len s(2) refl cmd(1) s(3), where drv = system_drivers and p = k] p(4,5) cmd(2,3) by auto
  have sound: "sound_inv devices_ok node_counts system_tasks st'"
    using sys.file_system.pinv_step [of st s] ready len st'(1) cmd(1) by (auto simp: fd_ready_def vfs_legal_def Let_def)
  have "vfs_dispatch system_drivers s st = vfs_addnewtask system_drivers (i_str s) True (i_msg s) st"
    using cmd(1) s(3) by (simp add: vfs_dispatch_def Let_def)
  then obtain t where inh: "inherit (length (vtasks st)) k [0..<8] (st\<lparr>vtasks := vtasks st @ [t]\<rparr>) = Some st'"
    using st'(1) cmd p(4,5) findbypid_append(1) [of "st\<lparr>vtasks := vtasks st @ [t]\<rparr>" st "v_pid t" for t]
    by (auto simp: vfs_step_def vfs_addnewtask_def Let_def simp del: upt_Suc split: Option.bind_splits)
  note same = inherit_entries [OF inh, simplified]
  then have "node_of st' (filps st' ! l) = node_of st (filps st ! l)" for l by (simp add: node_of_def dev_pid_def)
  then have view: "fd_view l st' = (if l = length (vtasks st) then fd_view k st else fd_view l st)" if "l \<le> length (vtasks st)" for l
    using that p(3) by (auto simp: fd_view_def st'(2) nth_append)
  have pids: "map v_pid (vtasks st') = map v_pid (vtasks st) @ [c]" by (simp add: st'(2))
  have "free_entries st' = free_entries st" "free_nodes st' = free_nodes st" "dev_pid (pipedev_idx st') st' = dev_pid (pipedev_idx st) st"
    using free_entries_child [OF p(2) st'(4) p(3) st'(2)] same by (simp_all add: free_nodes_def st'(3) dev_pid_def)
  then have "fd_ready i k n st'" "fd_ready j (length (vtasks st)) n st'"
    using ready sound c findbypid_append [OF pids] by (simp_all add: fd_ready_def)
  then show thesis using view by (intro that [OF st'(1) _ _ _ _ pids st'(3)]) simp_all
qed

section \<open>A character through a pipe\<close>

text \<open>The entry behind a descriptor.\<close>

lemma view_entry:
  assumes "fd_ready i k n st" "fd < 8" "fd_view k st ! fd = Some (e, Some (pid, m))"
  shows "v_fd (vtasks st ! k) ! fd = e" "e \<noteq> - 1" "unat e < 16" "fp_refcnt (filps st ! unat e) \<noteq> 0"
    "dev_pid (fp_dev (filps st ! unat e)) st = Some pid" "unat (fp_ino (filps st ! unat e)) = m" "open_on st (pid, m) (filps st ! unat e)"
proof -
  note p = fd_ready_parts [OF assms(1)]
  have v: "v_fd (vtasks st ! k) ! fd = e" "\<not> cneg e" "node_of st (filps st ! unat e) = Some (pid, m)"
    using fd_view_nth [OF p(2,3) assms(2)] assms(3) by (auto simp: Let_def split: if_splits)
  then show "v_fd (vtasks st ! k) ! fd = e" "e \<noteq> - 1" by auto
  show "unat e < 16" "fp_refcnt (filps st ! unat e) \<noteq> 0"
    using open_entry(2,3) [OF p(2,3) assms(2)] v vfs_inv_parts(2) [OF p(2)] by auto
  then show "dev_pid (fp_dev (filps st ! unat e)) st = Some pid" "unat (fp_ino (filps st ! unat e)) = m" "open_on st (pid, m) (filps st ! unat e)"
    using v(3) by (auto simp: node_of_def open_on_def)
qed

lemma two_holders:
  assumes "a < length (filps st)" "b < length (filps st)" "a \<noteq> b" "open_on st x (filps st ! a)" "open_on st x (filps st ! b)"
  shows "2 \<le> holders st x"
proof -
  have "holders st x = card {j. j < length (filps st) \<and> open_on st x (filps st ! j)}"
    unfolding holders_def by (rule length_filter_conv_card)
  moreover have "card {a, b} \<le> card {j. j < length (filps st) \<and> open_on st x (filps st ! j)}"
    using assms by (intro card_mono) auto
  ultimately show ?thesis using assms(3) by simp
qed

text \<open>A pipe whose ends two tasks have open: its node is there, open at both ends and with no waiting request.\<close>

lemma pipe_node_open:
  assumes "fd_ready i k n st" "fd < 8" "fd_view k st ! fd = Some q" "fd_ready j l n' st" "fd' < 8" "fd_view l st ! fd' = Some r" "pipe_ends st r q"
  obtains m nd where "m < 8" "fst (devs st) ! m = Some nd" "n_msgs nd = []" "1 < sint (n_refcnt nd)" "snd r = Some (0x100, m)" "snd q = Some (0x100, m)"
proof -
  obtain m where m: "m < 8" "snd r = Some (0x100, m)" "snd q = Some (0x100, m)" "fst r \<noteq> fst q" "quiet m (devs st)"
    using assms(7) by (auto simp: pipe_ends_def)
  obtain e f where ef: "q = (f, Some (0x100, m))" "r = (e, Some (0x100, m))" "e \<noteq> f" using m(2-4) by (metis prod.collapse)
  note q = view_entry [OF assms(1,2) assms(3) [unfolded ef(1)]] and r = view_entry [OF assms(4,5) assms(6) [unfolded ef(2)]]
  note p = fd_ready_parts [OF assms(1)]
  have ne: "unat e \<noteq> unat f" using ef(3) by (metis unsigned_word_eqI)
  have h: "2 \<le> holders st (0x100, m)"
    using two_holders [of "unat e" st "unat f" "(0x100, m)"] q(3,7) r(3,7) ne vfs_inv_parts(2) [OF p(2)] by simp
  with nodes_inv_parts(3) [OF p(1), of "(0x100, m)"] obtain c where c: "node_counts (devs st) (0x100, m) = Some c" "2 \<le> c"
    by (cases "node_counts (devs st) (0x100, m)") auto
  have "c \<le> 18" using sys.count_small [OF p(1,2) c(1)] .
  moreover obtain nd where nd: "fst (devs st) ! m = Some nd" "c = unat (n_refcnt nd)"
    using c(1) m(1) by (auto simp: node_counts_def)
  ultimately have "sint (n_refcnt nd) = int c" by (simp only: sint8) simp
  then have "1 < sint (n_refcnt nd)" using c(2) by linarith
  with m nd show thesis by (intro that [of m nd]) (auto simp: quiet_def)
qed

lemma rw_at_node:
  assumes "fd_ready i k n st" "fd < 8" "fd_view k st ! fd = Some (e, Some (0x100, m))" "d = devs st"
    and msg: "i_msg i' = msg" "i_client i' = i_client i" "v_cmd msg \<in> {VFS_READC, VFS_WRITEC}" "rw_fd msg = of_nat fd"
    and driver: "pd_rw True (msg\<lparr>v_client := i_client i, w0 := fp_ino (filps st ! unat e), w1 := fp_pos (filps st ! unat e)\<rparr>) nodes = Some (nodes', reps, ans)"
      "rw_bnum ans = 0"
  shows "vfs_step system_drivers i' (st\<lparr>devs := (nodes, snd d)\<rparr>) =
    Some (st\<lparr>devs := (nodes', snd d)\<rparr>, pass_on reps @ (if v_cmd ans = VFS_HOLD then [] else [Send (i_client i) (ans\<lparr>v_cmd := VFS_FINAL\<rparr>)]))"
proof -
  let ?st = "st\<lparr>devs := (nodes, snd d)\<rparr>" and ?f = "filps st ! unat e"
  note p = fd_ready_parts [OF assms(1)] and v = view_entry [OF assms(1-3)]
  have "pipedev True (msg\<lparr>v_client := i_client i, w0 := fp_ino ?f, w1 := fp_pos ?f\<rparr>) nodes = Some (nodes', reps, ans)"
    using driver(1) msg(3) by (auto simp: pipedev_def vfs_cmds)
  then have "system_drivers (i_str i') 0x100 (msg\<lparr>v_client := i_client i, w0 := fp_ino ?f, w1 := fp_pos ?f\<rparr>) (devs ?st) = Some ((nodes', snd d), reps, ans)"
    by (simp add: system_drivers_def)
  moreover have "vfs_inv ?st" "vfs_findbypid (i_client i') ?st = Some k" "dev_pid (fp_dev ?f) ?st = Some 0x100"
    using p(2,4) v(5) msg(2) by simp_all
  ultimately have "vfs_step system_drivers i' ?st = Some (?st\<lparr>filps := (filps st)[unat e := ?f\<lparr>fp_pos := fp_pos ?f + rw_bnum ans\<rparr>], devs := (nodes', snd d)\<rparr>,
      pass_on reps @ (if v_cmd ans = VFS_HOLD then [] else [Send (i_client i) (ans\<lparr>v_cmd := VFS_FINAL\<rparr>)]))"
    using rw_step [where drv = system_drivers and st = ?st and i = i' and k = k and fd = fd and fp = e and f = ?f and pid = "0x100" and d = "(nodes', snd d)"
        and reps = reps and ans = ans and c = "i_client i"] msg assms(2) v(1,2) p(5) by simp
  then show ?thesis using driver(2) by simp
qed

text \<open>A write waits for the reader, which gets the character; both are answered and the system is as before.\<close>

definition pipe_write :: "vfs_in \<Rightarrow> cint \<Rightarrow> vfs_in" where
  "pipe_write i c = i\<lparr>i_msg := writec_req 1 c (i_msg i)\<rparr>"

definition pipe_read :: "vfs_in \<Rightarrow> vfs_in" where
  "pipe_read j = j\<lparr>i_msg := readc_req 0 (i_msg j)\<rparr>"

lemma pipe_char:
  assumes A: "fd_ready i k n st" "fd_view k st ! 1 = Some q" and B: "fd_ready j l n' st" "fd_view l st ! 0 = Some r" and ends: "pipe_ends st r q"
  obtains st1 a b where "vfs_step system_drivers (pipe_write i c) st = Some (st1, [])"
    "vfs_step system_drivers (pipe_read j) st1 = Some (st, [Send (i_client i) a, Send (i_client j) b])" "rw_data b = c"
proof -
  obtain m nd where m: "m < 8" "fst (devs st) ! m = Some nd" "n_msgs nd = []" "1 < sint (n_refcnt nd)" "snd r = Some (0x100, m)" "snd q = Some (0x100, m)"
    by (rule pipe_node_open [OF A(1) _ A(2) B(1) _ B(2) ends]) simp_all
  obtain e f where ef: "q = (f, Some (0x100, m))" "r = (e, Some (0x100, m))" using m(5,6) by (metis prod.collapse)
  let ?nodes = "fst (devs st)"
  have len: "length ?nodes = 8" using devices_ok_len [OF nodes_inv_parts(1) [OF fd_ready_parts(1) [OF A(1)]]] by simp
  let ?w = "(writec_req 1 c (i_msg i))\<lparr>v_client := i_client i, w0 := fp_ino (filps st ! unat f), w1 := fp_pos (filps st ! unat f)\<rparr>"
  let ?r = "(readc_req 0 (i_msg j))\<lparr>v_client := i_client j, w0 := fp_ino (filps st ! unat e), w1 := fp_pos (filps st ! unat e)\<rparr>"
  let ?held = "?nodes[m := Some (nd\<lparr>n_msgs := [?w]\<rparr>)]"
  have ino: "idx 8 (fp_ino (filps st ! unat f)) = Some m" "idx 8 (fp_ino (filps st ! unat e)) = Some m"
    using view_entry(6) [OF A(1) _ A(2) [unfolded ef(1)]] view_entry(6) [OF B(1) _ B(2) [unfolded ef(2)]] m(1) by (simp_all add: idx_eq)
  have w: "pd_rw True ?w ?nodes = Some (?held, [], ?w\<lparr>v_cmd := VFS_HOLD, w1 := 0\<rparr>)"
    using ino(1) len m(2-4) by (simp add: pd_rw_def writec_req_def)
  have "vfs_step system_drivers (pipe_write i c) (st\<lparr>devs := (?nodes, snd (devs st))\<rparr>) =
      Some (st\<lparr>devs := (?held, snd (devs st))\<rparr>, pass_on [] @ [])"
    using rw_at_node [OF A(1) _ A(2) [unfolded ef(1)] refl _ _ _ _ w, of "pipe_write i c"] by (simp add: pipe_write_def writec_req_def)
  then have s1: "vfs_step system_drivers (pipe_write i c) st = Some (st\<lparr>devs := (?held, snd (devs st))\<rparr>, [])" by (simp add: pass_on_def)
  have undo: "?held[m := Some (nd\<lparr>n_msgs := [?w], n_msgs := []\<rparr>)] = ?nodes" using m(2,3) by simp (metis list_update_id pdnode.surjective pdnode.update_convs(3))
  let ?a = "?w\<lparr>v_cmd := VFS_REPEAT, w1 := 0\<rparr>" and ?b = "?r\<lparr>w2 := c, w1 := 0\<rparr>"
  have r: "pd_rw True ?r ?held = Some (?nodes, [?a], ?b)"
    using ino(2) len m(1) undo by (simp add: pd_rw_def pd_match_def writec_req_def readc_req_def vfs_cmds)
  have "vfs_step system_drivers (pipe_read j) (st\<lparr>devs := (?held, snd (devs st))\<rparr>) =
      Some (st\<lparr>devs := (?nodes, snd (devs st))\<rparr>, pass_on [?a] @ [Send (i_client j) (?b\<lparr>v_cmd := VFS_FINAL\<rparr>)])"
    using rw_at_node [OF B(1) _ B(2) [unfolded ef(2)] refl _ _ _ _ r, of "pipe_read j"] by (simp add: pipe_read_def readc_req_def vfs_cmds)
  then have "vfs_step system_drivers (pipe_read j) (st\<lparr>devs := (?held, snd (devs st))\<rparr>) =
      Some (st, [Send (i_client i) (?a\<lparr>v_cmd := VFS_FINAL\<rparr>), Send (i_client j) (?b\<lparr>v_cmd := VFS_FINAL\<rparr>)])"
    using fd_ready_parts(5) [OF A(1)] by (simp add: pass_on_def)
  from that [OF s1 this] show thesis by simp
qed

definition pipe_turns :: "vfs_in \<Rightarrow> vfs_in \<Rightarrow> cint list \<Rightarrow> vfs_in list" where
  "pipe_turns i j cs = concat (map (\<lambda>c. [pipe_write i c, pipe_read j]) cs)"

lemma pipe_string:
  assumes A: "fd_ready i k n st" "fd_view k st ! 1 = Some q" and B: "fd_ready j l n' st" "fd_view l st ! 0 = Some r" and ends: "pipe_ends st r q"
    and ne: "i_client i \<noteq> i_client j"
  shows "\<exists>acts. pserve (vfs_step system_drivers) (pipe_turns i j cs) st = Some (st, acts) \<and> map rw_data (sent_to (i_client j) acts) = cs"
proof (induction cs)
  case (Cons c cs)
  obtain st1 a b where t: "vfs_step system_drivers (pipe_write i c) st = Some (st1, [])"
      "vfs_step system_drivers (pipe_read j) st1 = Some (st, [Send (i_client i) a, Send (i_client j) b])" "rw_data b = c"
    by (rule pipe_char [OF A B ends])
  with Cons ne show ?case by (auto simp: pipe_turns_def)
qed (simp add: pipe_turns_def)

section \<open>The pipeline\<close>

text \<open>The readiness of one task is that of another one, if the file system knows it.\<close>

lemma fd_ready_other: "fd_ready j l n st \<Longrightarrow> vfs_findbypid (i_client i) st = Some k \<Longrightarrow> i_client i \<noteq> NULL \<Longrightarrow> fd_ready i k n st"
  by (simp add: fd_ready_def)

lemma others_keep_parts:
  assumes "others_keep k st st'"
  shows "length (vtasks st') = length (vtasks st)" "vfs_findbypid pid st' = vfs_findbypid pid st"
    "l < length (vtasks st) \<Longrightarrow> l \<noteq> k \<Longrightarrow> fd_view l st' = fd_view l st"
  using assms findbypid_pids [of st' st] map_eq_imp_length_eq unfolding others_keep_def by blast+

text \<open>The shell starts a job: the new task inherits the descriptors and closes those above 2.\<close>

lemma start_job:
  assumes ready: "fd_ready i k n st" and len: "length (vtasks st) < 31"
    and s: "i_msg s = vfs_createtask_req c (i_client i) m" "i_client s \<noteq> NULL" "i_mem s sizeof_vfs_task \<noteq> NULL"
    and c: "vfs_findbypid c st = None" "c \<noteq> NULL" "i_client j = c"
  obtains st1 acts st2 where "vfs_step system_drivers s st = Some (st1, acts)" "runs (close_fds (vfs_os j base) [3, 4, 5, 6, 7]) st1 () st2"
    "fd_ready i k n st2" "fd_ready j (length (vtasks st)) n st2" "fd_view (length (vtasks st)) st2 = job_fds (fd_view k st)"
    "\<forall>l < length (vtasks st). fd_view l st2 = fd_view l st" "length (vtasks st2) = Suc (length (vtasks st))"
    "\<forall>r q. pipe_ends st r q \<longrightarrow> pipe_ends st2 r q" "\<forall>pid. pid \<noteq> c \<longrightarrow> vfs_findbypid pid st2 = vfs_findbypid pid st"
proof -
  let ?k = "length (vtasks st)"
  obtain st1 acts where a: "vfs_step system_drivers s st = Some (st1, acts)" "fd_ready i k n st1" "fd_ready j ?k n st1" "fd_view ?k st1 = fd_view k st"
      "\<forall>l < ?k. fd_view l st1 = fd_view l st" "map v_pid (vtasks st1) = map v_pid (vtasks st) @ [c]" "devs st1 = devs st"
    by (rule add_child [OF assms])
  obtain st2 where b: "runs (close_fds (vfs_os j base) [3, 4, 5, 6, 7]) st1 () st2" "fd_ready j ?k n st2" "others_keep ?k st1 st2"
      "fd_view ?k st2 = job_fds (fd_view ?k st1)"
    by (rule fds.job_task_closes [OF a(3)])
  have l: "length (vtasks st1) = Suc ?k" using a(6) by (metis length_append_singleton length_map)
  note o = others_keep_parts [OF b(3)]
  have k: "k < ?k" using fd_ready_parts(3) [OF ready] .
  have "fd_ready i k n st2" using fd_ready_other [OF b(2)] o(2) fd_ready_parts(4,5) [OF a(2)] by simp
  moreover have "\<forall>r q. pipe_ends st r q \<longrightarrow> pipe_ends st2 r q"
    using pipe_ends_keep [OF b(3)] a(7) by (simp add: pipe_ends_def)
  moreover have "vfs_findbypid pid st2 = vfs_findbypid pid st" if "pid \<noteq> c" for pid
    using o(2) findbypid_append(1) [OF a(6), of pid] findbypid_append(3) [OF a(6) that] by (cases "vfs_findbypid pid st") auto
  moreover have "\<forall>l < ?k. fd_view l st2 = fd_view l st" using o(3) l a(5) by simp
  ultimately show thesis using a(1,4) b o(1) l by (intro that [of st1 acts st2]) simp_all
qed

text \<open>The descriptors of a job.\<close>

abbreviation job_table :: "'f \<Rightarrow> 'f \<Rightarrow> 'f \<Rightarrow> 'f fdtab" where
  "job_table inp out err \<equiv> [Some inp, Some out, Some err, None, None, None, None, None]"

text \<open>The message by which the process manager \<open>s\<close> makes the task \<open>c\<close> a child of the shell \<open>i\<close>.\<close>

definition spawn_msg :: "vfs_in \<Rightarrow> pid_t \<Rightarrow> vfs_in \<Rightarrow> bool" where
  "spawn_msg i c s \<longleftrightarrow> (\<exists>m. i_msg s = vfs_createtask_req c (i_client i) m) \<and> i_client s \<noteq> NULL \<and> i_mem s sizeof_vfs_task \<noteq> NULL"

text \<open>
  C10. Two jobs of a command line with a pipe between them, through the shell, the file system and the
  pipe driver. The shell arranges its descriptors (\<^verbatim>\<open>JOB_PIPE\<close>), starts the first job, arranges them
  for the last one (\<^verbatim>\<open>JOB_NOPIPE\<close>) and starts the second job; every call returns. Then the first job has
  the input it should have and writes to the pipe, the second one reads from the pipe and writes to
  the output of the shell, both have the errors and nothing else. Whatever characters the first job
  writes to its output, the second one reads from its input, in order, each call is answered, and
  the system is left as it was.
\<close>

theorem two_jobs_share_a_pipe:
  assumes ready: "fd_ready i k (Suc n) st" "length (vtasks st) < 30" and table: "sh_table inp out err cmdfile nextin src (fd_view k st)"
    and new: "vfs_findbypid c1 st = None" "vfs_findbypid c2 st = None" "c1 \<noteq> c2" "c1 \<noteq> NULL" "c2 \<noteq> NULL"
    and tasks: "i_client j1 = c1" "i_client j2 = c2" and pm: "spawn_msg i c1 s1" "spawn_msg i c2 s2"
  shows "\<exists>st1 st2 st3 st4 st5 st6 acts acts' r q. runs (job_pipe (vfs_os i base) nextin) st 5 st1 \<and>
    vfs_step system_drivers s1 st1 = Some (st2, acts) \<and> runs (close_fds (vfs_os j1 base) [3, 4, 5, 6, 7]) st2 () st3 \<and>
    runs (job_nopipe (vfs_os i base) 5) st3 () st4 \<and>
    vfs_step system_drivers s2 st4 = Some (st5, acts') \<and> runs (close_fds (vfs_os j2 base) [3, 4, 5, 6, 7]) st5 () st6 \<and>
    fd_view (length (vtasks st)) st6 = job_table src q err \<and> fd_view (Suc (length (vtasks st))) st6 = job_table r out err \<and>
    (\<forall>cs. \<exists>acts. pserve (vfs_step system_drivers) (pipe_turns j1 j2 cs) st6 = Some (st6, acts) \<and> map rw_data (sent_to c2 acts) = cs)"
proof -
  let ?k1 = "length (vtasks st)"
  have k: "k < ?k1" using fd_ready_parts(3) [OF ready(1)] .
  obtain m1 m2 where m: "i_msg s1 = vfs_createtask_req c1 (i_client i) m1" "i_client s1 \<noteq> NULL" "i_mem s1 sizeof_vfs_task \<noteq> NULL"
      "i_msg s2 = vfs_createtask_req c2 (i_client i) m2" "i_client s2 \<noteq> NULL" "i_mem s2 sizeof_vfs_task \<noteq> NULL"
    using pm by (auto simp: spawn_msg_def)
  obtain st1 r q where a: "runs (job_pipe (vfs_os i base) nextin) st 5 st1" "fd_ready i k n st1" "others_keep k st st1" "pipe_ends st1 r q"
      "fd_view k st1 = [Some src, Some q, Some err, Some inp, Some out, Some r, cmdfile, None]"
    by (rule fds.job_pipe_refines [OF ready(1) sh_table_next [OF table] sh_table_pipe(2) [OF table], of base])
      (drule sh_table_made [OF table], simp)
  note o1 = others_keep_parts [OF a(3)]
  have p1: "length (vtasks st1) < 31" "vfs_findbypid c1 st1 = None" "vfs_findbypid c2 st1 = None" using o1(1,2) ready(2) new(1,2) by simp_all
  obtain st2 acts st3 where b: "vfs_step system_drivers s1 st1 = Some (st2, acts)" "runs (close_fds (vfs_os j1 base) [3, 4, 5, 6, 7]) st2 () st3"
      "fd_ready i k n st3" "fd_ready j1 (length (vtasks st1)) n st3" "fd_view (length (vtasks st1)) st3 = job_fds (fd_view k st1)"
      "\<forall>l < length (vtasks st1). fd_view l st3 = fd_view l st1" "length (vtasks st3) = Suc (length (vtasks st1))"
      "\<forall>r q. pipe_ends st1 r q \<longrightarrow> pipe_ends st3 r q" "\<forall>pid. pid \<noteq> c1 \<longrightarrow> vfs_findbypid pid st3 = vfs_findbypid pid st1"
    by (rule start_job [OF a(2) p1(1) m(1-3) p1(2) new(4) tasks(1), of base])
  have v3: "fd_view ?k1 st3 = job_table src q err" using b(5) a(5) o1(1) by (simp add: job_fds_table)
  have t3: "sh_table inp out err cmdfile 5 r (fd_view k st3)" using b(6) a(5) o1(1) k by (simp add: sh_table_def)
  obtain st4 where d: "runs (job_nopipe (vfs_os i base) 5) st3 () st4" "fd_ready i k n st4" "others_keep k st3 st4"
      "fd_view k st4 = [Some r, Some out, Some err, Some inp, Some out, None, cmdfile, None]"
    by (rule fds.job_nopipe_refines [OF b(3) sh_table_next [OF t3] sh_table_pipe(3) [OF t3], of base]) simp
  note o4 = others_keep_parts [OF d(3)]
  have l4: "length (vtasks st4) = Suc ?k1" using o4(1) b(7) o1(1) by simp
  have p4: "length (vtasks st4) < 31" "vfs_findbypid c2 st4 = None" using l4 ready(2) o4(2) b(9) p1(3) new(3) by auto
  obtain st5 acts' st6 where e: "vfs_step system_drivers s2 st4 = Some (st5, acts')" "runs (close_fds (vfs_os j2 base) [3, 4, 5, 6, 7]) st5 () st6"
      "fd_ready i k n st6" "fd_ready j2 (length (vtasks st4)) n st6" "fd_view (length (vtasks st4)) st6 = job_fds (fd_view k st4)"
      "\<forall>l < length (vtasks st4). fd_view l st6 = fd_view l st4" "length (vtasks st6) = Suc (length (vtasks st4))"
      "\<forall>r q. pipe_ends st4 r q \<longrightarrow> pipe_ends st6 r q" "\<forall>pid. pid \<noteq> c2 \<longrightarrow> vfs_findbypid pid st6 = vfs_findbypid pid st4"
    by (rule start_job [OF d(2) p4(1) m(4-6) p4(2) new(5) tasks(2), of base])
  have v6: "fd_view ?k1 st6 = job_table src q err" "fd_view (Suc ?k1) st6 = job_table r out err"
    using e(5,6) l4 o4(3) [of ?k1] v3 b(7) o1(1) d(4) k by (simp_all add: job_fds_table)
  have "vfs_findbypid c1 st6 = Some ?k1" using e(9) new(3) o4(2) fd_ready_parts(4) [OF b(4)] tasks(1) o1(1) by simp
  then have "fd_ready j1 ?k1 n st6" using fd_ready_other [OF e(3)] tasks(1) new(4) by simp
  moreover have "pipe_ends st6 r q" using e(8) pipe_ends_keep [OF d(3)] b(8) a(4) by blast
  ultimately have "\<exists>acts. pserve (vfs_step system_drivers) (pipe_turns j1 j2 cs) st6 = Some (st6, acts) \<and> map rw_data (sent_to c2 acts) = cs" for cs
    using pipe_string [of j1 ?k1 n st6 q j2 "Suc ?k1" n r cs] e(4) v6 l4 tasks new(3) by simp
  with a(1) b(1,2) d(1) e(1,2) v6 show ?thesis by blast
qed

text \<open>A shell whose five descriptors are one open file.\<close>

definition shell_requests :: "vfs_in list" where
  "shell_requests = system_start @ replicate 4 (turn 0x300 (system_msg VFS_DUP 0 0))"

definition shell_state :: world where
  "shell_state = fst (the (pserve (vfs_step system_drivers) shell_requests system_boot))"

lemma shell_state_ready: "fd_ready (turn 0x300 blank_vfsmsg) 0 1 shell_state"
proof -
  have "legal_turns shell_requests system_boot" by code_simp
  from sys.file_system.pinv_run [OF boot_sound legal_turns_run [OF this]]
  have "sound_inv devices_ok node_counts system_tasks shell_state" unfolding shell_state_def by auto
  moreover have "vfs_findbypid 0x300 shell_state = Some 0" "dev_pid (pipedev_idx shell_state) shell_state = Some 0x100"
      "2 \<le> free_entries shell_state \<and> 1 \<le> free_nodes shell_state" by code_simp+
  ultimately show ?thesis by (simp add: fd_ready_def turn_sels)
qed

theorem two_jobs_share_a_pipe_witness:
  "\<exists>st1 st2 st3 st4 st5 st6 acts acts' acts''. runs (job_pipe (vfs_os (turn 0x300 blank_vfsmsg) no_os) 3) shell_state 5 st1 \<and>
     vfs_step system_drivers (turn 0x400 (vfs_createtask_req 0x500 0x300 blank_vfsmsg)) st1 = Some (st2, acts) \<and>
     runs (close_fds (vfs_os (turn 0x500 blank_vfsmsg) no_os) [3, 4, 5, 6, 7]) st2 () st3 \<and>
     runs (job_nopipe (vfs_os (turn 0x300 blank_vfsmsg) no_os) 5) st3 () st4 \<and>
     vfs_step system_drivers (turn 0x400 (vfs_createtask_req 0x600 0x300 blank_vfsmsg)) st4 = Some (st5, acts') \<and>
     runs (close_fds (vfs_os (turn 0x600 blank_vfsmsg) no_os) [3, 4, 5, 6, 7]) st5 () st6 \<and>
     pserve (vfs_step system_drivers) (pipe_turns (turn 0x500 blank_vfsmsg) (turn 0x600 blank_vfsmsg) [72, 105]) st6 = Some (st6, acts'') \<and>
     map rw_data (sent_to 0x600 acts'') = [72, 105]"
proof -
  let ?f = "(0, Some (0x200, 0)) :: ofile"
  have "fd_view 0 shell_state = [Some ?f, Some ?f, Some ?f, Some ?f, Some ?f, None, None, None]" by code_simp
  then have table: "sh_table ?f ?f ?f None 3 ?f (fd_view 0 shell_state)" by (simp add: sh_table_def)
  have new: "length (vtasks shell_state) < 30" "vfs_findbypid 0x500 shell_state = None" "vfs_findbypid 0x600 shell_state = None" by code_simp+
  have pm: "spawn_msg (turn 0x300 blank_vfsmsg) c (turn 0x400 (vfs_createtask_req c 0x300 blank_vfsmsg))" for c
    by (auto simp: spawn_msg_def turn_sels)
  have ne: "(0x500 :: pid_t) \<noteq> 0x600" "(0x500 :: pid_t) \<noteq> NULL" "(0x600 :: pid_t) \<noteq> NULL" by simp_all
  note t = two_jobs_share_a_pipe [OF shell_state_ready [unfolded One_nat_def] new(1) table new(2,3) ne turn_sels(1) turn_sels(1) pm pm, of no_os]
  from t [of blank_vfsmsg blank_vfsmsg] show ?thesis by blast
qed

end
