(* ===== verification/Traps.thy ===== *)
theory Traps
  imports Kernel
begin

unbundle bit_operations_syntax

text \<open>
  \<^verbatim>\<open>kernel/hal.c\<close>: the ways into the kernel, from the software trap and from the interrupts, on the machine of \<open>Hal\<close>.
  The processor, or the call of \<^verbatim>\<open>swtrap\<close>, has pushed the return address.
\<close>

section \<open>Entering the kernel\<close>

text \<open>
  The assignment to \<^verbatim>\<open>eventcode\<close> is compiled code, which may use the registers \<^verbatim>\<open>r24\<close> and \<^verbatim>\<open>r25\<close>, saved around
  it, in any way: \<open>a\<close> and \<open>b\<close> are what it leaves there. The result is the machine at the jump to
  \<^verbatim>\<open>switchtokernel\<close>, and the event code.
\<close>

definition LOCK :: "mach \<Rightarrow> mach" where
  "LOCK m = m\<lparr>sreg := sreg m AND NOT 0x80\<rparr>"

definition SWITCH_TO_KERNEL :: "addr \<Rightarrow> byte \<Rightarrow> byte \<Rightarrow> mach \<Rightarrow> mach \<times> addr" where
  "SWITCH_TO_KERNEL x a b m =
     (let m1 = run [Push 24, Push 25] (LOCK m);
          m2 = m1\<lparr>regs := (regs m1)(24 := a, 25 := b)\<rparr>
      in (run [Pop 25, Pop 24] m2, x))"

definition swtrap :: "byte \<Rightarrow> byte \<Rightarrow> mach \<Rightarrow> mach \<times> addr" where
  "swtrap = SWITCH_TO_KERNEL EVENT_NONE"

datatype vector = TIMER1_OVF_vect | USART0_RX_vect | USART0_TX_vect | USART1_RX_vect | USART1_TX_vect

primrec ISR :: "vector \<Rightarrow> byte \<Rightarrow> byte \<Rightarrow> mach \<Rightarrow> mach \<times> addr" where
  "ISR TIMER1_OVF_vect = SWITCH_TO_KERNEL EVENT_TIMER1OVF"
| "ISR USART0_RX_vect = SWITCH_TO_KERNEL EVENT_USART0RX"
| "ISR USART0_TX_vect = SWITCH_TO_KERNEL EVENT_USART0TX"
| "ISR USART1_RX_vect = SWITCH_TO_KERNEL EVENT_USART1RX"
| "ISR USART1_TX_vect = SWITCH_TO_KERNEL EVENT_USART1TX"

text \<open>The register \<^verbatim>\<open>SMCR\<close> when the processor goes to sleep.\<close>

definition cpu_sleep :: "byte \<Rightarrow> byte" where
  "cpu_sleep smcr = (smcr AND NOT (push_bit 1 1 OR push_bit 2 1 OR push_bit 3 1)) OR push_bit 0 1"

text \<open>Sleep is enabled and the mode bits are those of the idle mode, in which interrupts wake the processor.\<close>

lemma cpu_sleep_idle: "cpu_sleep smcr AND 0x0F = 0x01"
proof -
  have "bit (cpu_sleep smcr AND 0x0F) k = bit (1 :: byte) k" if "k < 8" for k
  proof -
    have "k \<in> {0, 1, 2, 3, 4, 5, 6, 7}" using that by auto
    then show ?thesis by (auto simp: cpu_sleep_def bit_simps)
  qed
  then show ?thesis by (auto intro: bit_word_eqI)
qed

section \<open>The task at the trap\<close>

lemma switch_to_kernel_exact:
  "SWITCH_TO_KERNEL x a b m =
     (m\<lparr>sreg := sreg m AND NOT 0x80, ram := (ram m)(spx m := regs m 24, spx m - 1 := regs m 25)\<rparr>, x)"
  by (auto simp: SWITCH_TO_KERNEL_def LOCK_def Let_def push_byte_def fun_eq_iff intro!: mach.equality)

text \<open>
  C32. A task that traps or is interrupted goes on as if nothing had happened: through the whole way
  from the vector or the software trap into the kernel and back, all 32 registers, the stack pointer
  and the return address are those of the trap, whatever the compiled code does with its two scratch
  registers. The kernel finds the event of the vector, or none for a trap, and the interrupts are
  on again unless the task has switched them off. The kernel may do anything in between
  that leaves the saved context alone, and it saves its own context in a stack of its own.
\<close>

theorem trap_resumes_task:
  assumes trap: "(enter, ev) \<in> {(swtrap, EVENT_NONE), (ISR TIMER1_OVF_vect, EVENT_TIMER1OVF), (ISR USART0_RX_vect, EVENT_USART0RX),
      (ISR USART0_TX_vect, EVENT_USART0TX), (ISR USART1_RX_vect, EVENT_USART1RX), (ISR USART1_TX_vect, EVENT_USART1TX)}"
    and to_kernel: "switchtokernel kernel_sp (fst (enter a b m)) = (m1, task_sp)"
    and untouched: "\<forall>i < 35. ram m2 (task_sp + of_nat (Suc i)) = ram m1 (task_sp + of_nat (Suc i))"
    and own_stack: "\<forall>i < 35. \<forall>j < 33. task_sp + of_nat (Suc i) \<noteq> spx m2 - of_nat j"
    and from_kernel: "switch_from_kernel irqdis task_sp m2 = (m3, kernel_sp')"
  shows "snd (enter a b m) = ev \<and> (\<forall>n < 32. regs m3 n = regs m n) \<and> spx m3 = spx m + 2 \<and>
    pc m3 = join (ram m (spx m + 1)) (ram m (spx m + 2)) \<and>
    sreg m3 = (if irqdis then sreg m AND NOT 0x80 else sreg m OR 0x80)"
proof -
  let ?m = "m\<lparr>sreg := sreg m AND NOT 0x80, ram := (ram m)(spx m := regs m 24, spx m - 1 := regs m 25)\<rparr>"
  have e: "enter a b m = (?m, ev)" using trap by (auto simp: swtrap_def switch_to_kernel_exact)
  have "spx m + k \<noteq> spx m - 1 \<and> spx m + k \<noteq> spx m" if "k = 1 \<or> k = 2" for k
    using that by (auto simp: diff_conv_add_uminus simp del: add_uminus_conv_diff)
  then have ret: "ram ?m (spx ?m + 1) = ram m (spx m + 1)" "ram ?m (spx ?m + 2) = ram m (spx m + 2)" by simp_all
  have "sreg ?m OR 0x80 = sreg m OR 0x80" by (rule bit_word_eqI) (auto simp: bit_simps)
  then show ?thesis
    using context_switch_resumes [OF to_kernel [unfolded e fst_conv] untouched own_stack from_kernel] ret by (simp add: e)
qed

theorem trap_resumes_task_witness:
  "let m1 = fst (switchtokernel 0x2000 (fst (ISR USART0_RX_vect 1 2 trapped)));
       m3 = fst (switch_from_kernel False 0xFDF (m1\<lparr>spx := 0x2000\<rparr>))
   in snd (ISR USART0_RX_vect 1 2 trapped) = 2 \<and> regs m3 24 = 24 \<and> regs m3 25 = 25 \<and> spx m3 = 0x1002 \<and> sreg m3 = 0x83"
proof -
  let ?m = "fst (ISR USART0_RX_vect 1 2 trapped)"
  let ?m1 = "fst (switchtokernel 0x2000 ?m)"
  let ?m3 = "switch_from_kernel False 0xFDF (?m1\<lparr>spx := 0x2000\<rparr>)"
  have "spx ?m = 0x1000" by (simp add: switch_to_kernel_exact trapped_def)
  then have sp: "snd (switchtokernel 0x2000 ?m) = 0xFDF" using save_context_stack [of ?m "[]"] by (simp add: switchtokernel_def Let_def)
  have "snd (ISR USART0_RX_vect 1 2 trapped) = EVENT_USART0RX \<and> (\<forall>n < 32. regs (fst ?m3) n = regs trapped n) \<and> spx (fst ?m3) = spx trapped + 2 \<and>
    pc (fst ?m3) = join (ram trapped (spx trapped + 1)) (ram trapped (spx trapped + 2)) \<and>
    sreg (fst ?m3) = (if False then sreg trapped AND NOT 0x80 else sreg trapped OR 0x80)"
    by (rule trap_resumes_task [of _ _ "0x2000" 1 2 trapped ?m1 "0xFDF" "?m1\<lparr>spx := 0x2000\<rparr>" False "fst ?m3" "snd ?m3"])
      (use sp in \<open>simp_all add: prod_eq_iff stacks_apart del: of_nat_Suc\<close>)
  then show ?thesis by (simp add: trapped_def EVENT_USART0RX_def Let_def)
qed

end
