(* ===== verification/Kernel_Call.thy ===== *)
theory Kernel_Call
  imports Traps
begin

unbundle bit_operations_syntax

text \<open>
  The macro \<^verbatim>\<open>KERNEL_CALL\<close> of \<^verbatim>\<open>kernel/hal.h\<close>, with which the functions at the end of
  \<^verbatim>\<open>kernel/kernel.c\<close> enter the kernel, on the machine of \<open>Hal\<close>: what the kernel finds in the saved context, and
  what the task gets when the kernel has changed that context.
\<close>

section \<open>The macro\<close>

text \<open>
  The call of \<^verbatim>\<open>swtrap\<close> pushes the return address. From there to the return the kernel runs:
  \<open>kern\<close> is the body of its loop, from the event code and the stack pointer of the task, \<open>kernel_sp\<close> its
  stack, and \<open>irqdis\<close> the flag of the task that it returns to.
\<close>

definition call_swtrap :: "addr \<Rightarrow> byte \<Rightarrow> byte \<Rightarrow> mach \<Rightarrow> mach \<times> addr" where
  "call_swtrap ret a b m = swtrap a b (push_byte (HIGH ret) (push_byte (LOW ret) m))"

definition through_kernel ::
  "(addr \<Rightarrow> addr \<Rightarrow> mach \<Rightarrow> mach) \<Rightarrow> addr \<Rightarrow> bool \<Rightarrow> mach \<times> addr \<Rightarrow> mach" where
  "through_kernel kern kernel_sp irqdis entered =
     (let (m1, task_sp) = switchtokernel kernel_sp (fst entered)
      in fst (switch_from_kernel irqdis task_sp (kern (snd entered) task_sp m1)))"

definition load_code :: "byte \<Rightarrow> mach \<Rightarrow> mach" where
  "load_code c m = (let m1 = exec (Push 16) m in m1\<lparr>regs := (regs m1)(16 := c)\<rparr>)"

definition KERNEL_CALL :: "byte \<Rightarrow> (mach \<Rightarrow> mach) \<Rightarrow> mach \<Rightarrow> mach" where
  "KERNEL_CALL c trap m = exec (Pop 16) (trap (load_code c m))"

text \<open>
  The functions of \<^verbatim>\<open>kernel.c\<close> consist of the macro; they rely on the calling convention, which
  has put their arguments into the registers.
\<close>

primrec kcall_code :: "kcall \<Rightarrow> byte" where
  "kcall_code Yield = KCALL_YIELD"
| "kcall_code Getpid = KCALL_GETPID"
| "kcall_code (Waitevent ev) = KCALL_WAITEVENT"
| "kcall_code (Kmalloc sz) = KCALL_MALLOC"
| "kcall_code (Kfree p) = KCALL_FREE"
| "kcall_code (Send dest msg) = KCALL_SEND"
| "kcall_code (Sendrec tsk msg len) = KCALL_SENDREC"
| "kcall_code (Receive src msg len) = KCALL_RECEIVE"
| "kcall_code (Createtask prio page) = KCALL_CREATETASK"
| "kcall_code (Allocatestack pid sz) = KCALL_ALLOCATESTACK"
| "kcall_code (Setuptask pid ptsk args exitfn) = KCALL_SETUPTASK"
| "kcall_code (Starttask pid) = KCALL_STARTTASK"
| "kcall_code (Stoptask pid) = KCALL_STOPTASK"
| "kcall_code (Deletetask pid) = KCALL_DELETETASK"
| "kcall_code Exittask = KCALL_EXITTASK"
| "kcall_code Kirqen = KCALL_IRQEN"
| "kcall_code Kirqdis = KCALL_IRQDIS"

primrec args_loaded :: "kcall \<Rightarrow> (nat \<Rightarrow> byte) \<Rightarrow> bool" where
  "args_loaded Yield r = True"
| "args_loaded Getpid r = True"
| "args_loaded (Waitevent ev) r = (GETP0 r = ev)"
| "args_loaded (Kmalloc sz) r = (GETP0 r = sz)"
| "args_loaded (Kfree p) r = (GETP0 r = p)"
| "args_loaded (Send dest msg) r = (GETP0 r = dest \<and> GETP1 r = msg)"
| "args_loaded (Sendrec tsk msg len) r = (GETP0 r = tsk \<and> GETP1 r = msg \<and> GETP2 r = len)"
| "args_loaded (Receive src msg len) r = (GETP0 r = src \<and> GETP1 r = msg \<and> GETP2 r = len)"
| "args_loaded (Createtask prio page) r = (r 24 = prio \<and> r 22 = page)"
| "args_loaded (Allocatestack pid sz) r = (GETP0 r = pid \<and> GETP1 r = sz)"
| "args_loaded (Setuptask pid ptsk args exitfn) r = (GETP0 r = pid \<and> GETP1 r = ptsk \<and> GETP2 r = args \<and> GETP3 r = exitfn)"
| "args_loaded (Starttask pid) r = (GETP0 r = pid)"
| "args_loaded (Stoptask pid) r = (GETP0 r = pid)"
| "args_loaded (Deletetask pid) r = (GETP0 r = pid)"
| "args_loaded Exittask r = True"
| "args_loaded Kirqen r = True"
| "args_loaded Kirqdis r = True"

definition kernel_call_function ::
  "kcall \<Rightarrow> (addr \<Rightarrow> addr \<Rightarrow> mach \<Rightarrow> mach) \<Rightarrow> addr \<Rightarrow> bool \<Rightarrow> addr \<Rightarrow> byte \<Rightarrow> byte \<Rightarrow> mach \<Rightarrow> mach" where
  "kernel_call_function k kern kernel_sp irqdis ret a b =
     KERNEL_CALL (kcall_code k) (\<lambda>m. through_kernel kern kernel_sp irqdis (call_swtrap ret a b m))"

section \<open>Contexts in the memory\<close>

text \<open>The struct \<^verbatim>\<open>cpu_context_t\<close> at \<^verbatim>\<open>sp + 1\<close>, and the context of a machine that is about to be saved.\<close>

definition holds_ctxt :: "(addr \<Rightarrow> byte) \<Rightarrow> addr \<Rightarrow> cpu_context \<Rightarrow> bool" where
  "holds_ctxt mem sp ctxt \<longleftrightarrow> stack_has mem sp (map ctxt [0..<35])"

definition task_ctxt :: "addr \<Rightarrow> mach \<Rightarrow> cpu_context" where
  "task_ctxt ret m = (regs m)(rSREG := sreg m AND NOT 0x80, r31 := regs m 31, retHigh := HIGH ret, retLow := LOW ret)"

lemmas slot_defs = rSREG_def r31_def retHigh_def retLow_def

lemma ctxt_list: "map ctxt [0..<35] = map ctxt [0..<31] @ [ctxt rSREG, ctxt r31, ctxt retHigh, ctxt retLow]"
proof -
  have "[0..<35] = [0..<31] @ [31, 32, 33, 34 :: nat]" by code_simp
  then show ?thesis by (simp add: slot_defs del: upt.simps)
qed

lemma entered_trap:
  "call_swtrap ret a b m = (m\<lparr>sreg := sreg m AND NOT 0x80, spx := spx m - 2,
     ram := (ram m)(spx m := LOW ret, spx m - 1 := HIGH ret, spx m - 2 := regs m 24, spx m - 3 := regs m 25)\<rparr>, EVENT_NONE)"
  by (simp add: call_swtrap_def swtrap_def switch_to_kernel_exact push_byte_def diff_diff_eq)

lemma switchtokernel_saves:
  assumes "switchtokernel kernel_sp m = (m1, task_sp)"
  shows "task_sp = spx m - 33 \<and> ram m1 = ram (run SAVE_CONTEXT m)"
  using assms save_context_stack [of m "[]"] by (auto simp: switchtokernel_def Let_def restore_ram pop_pc_def)

text \<open>What the kernel finds when a task traps: its registers and the return address.\<close>

lemma kernel_finds_ctxt:
  assumes "switchtokernel kernel_sp (fst (call_swtrap ret a b m)) = (m1, task_sp)"
  shows "task_sp = spx m - 35" "holds_ctxt (ram m1) task_sp (task_ctxt ret m)"
    and "(\<And>j. j < 35 \<Longrightarrow> x \<noteq> spx m - of_nat j) \<Longrightarrow> ram m1 x = ram m x"
proof -
  let ?m = "fst (call_swtrap ret a b m)"
  have sp: "spx ?m = spx m - 2" by (simp add: entered_trap)
  note saved = switchtokernel_saves [OF assms]
  show t: "task_sp = spx m - 35" using saved sp by (simp add: diff_diff_eq)
  have "stack_has (ram ?m) (spx ?m) [HIGH ret, LOW ret]"
    by (simp add: entered_trap stack_has_Cons diff_conv_add_uminus add.assoc del: add_uminus_conv_diff)
  from save_context_stack [OF this]
  have "stack_has (ram m1) (spx m - 35) (layout ?m @ [HIGH ret, LOW ret])" using saved sp by (simp add: diff_diff_eq)
  moreover have "layout ?m @ [HIGH ret, LOW ret] = map (task_ctxt ret m) [0..<35]"
    unfolding ctxt_list by (auto simp: layout_def entered_trap task_ctxt_def slot_defs simp del: upt.simps)
  ultimately show "holds_ctxt (ram m1) task_sp (task_ctxt ret m)" by (simp add: holds_ctxt_def t)
  assume apart: "\<And>j. j < 35 \<Longrightarrow> x \<noteq> spx m - of_nat j"
  have "x \<noteq> spx ?m - of_nat j" if "j < 33" for j
    using apart [of "j + 2"] that sp by (simp add: diff_diff_eq add.commute)
  then have "ram m1 x = ram ?m x" using saved save_context_ram [of x ?m] by simp
  then show "ram m1 x = ram m x" using apart [of 0] apart [of 1] apart [of 2] apart [of 3] by (simp add: entered_trap)
qed

text \<open>What a task goes on with: the context that the kernel leaves on its stack.\<close>

lemma task_gets_ctxt:
  assumes ctxt: "holds_ctxt (ram m2) task_sp ctxt"
    and own_stack: "\<forall>i < 35. \<forall>j < 33. task_sp + of_nat (Suc i) \<noteq> spx m2 - of_nat j"
    and from_kernel: "switch_from_kernel irqdis task_sp m2 = (m3, kernel_sp')"
  shows "(\<forall>n < 31. regs m3 n = ctxt n) \<and> regs m3 31 = ctxt r31 \<and> spx m3 = task_sp + 35 \<and>
    pc m3 = join (ctxt retHigh) (ctxt retLow) \<and> sreg m3 = (if irqdis then ctxt rSREG else ctxt rSREG OR 0x80)"
    and "ram m3 = ram (run SAVE_CONTEXT m2)"
proof -
  define t where "t = m2\<lparr>regs := ctxt(31 := ctxt r31), sreg := ctxt rSREG\<rparr>"
  let ?k = "(run SAVE_CONTEXT m2)\<lparr>spx := task_sp\<rparr>"
  have bs: "map ctxt [0..<35] = layout t @ [ctxt retHigh, ctxt retLow]"
    unfolding ctxt_list by (auto simp: layout_def t_def simp del: upt.simps)
  have "stack_has (ram (run SAVE_CONTEXT m2)) task_sp (map ctxt [0..<35]) = stack_has (ram m2) task_sp (map ctxt [0..<35])"
    by (rule stack_has_cong) (use own_stack save_context_ram in \<open>simp del: upt.simps\<close>)
  then have "stack_has (ram ?k) (spx ?k) (layout t @ [ctxt retHigh, ctxt retLow])"
    using ctxt by (simp add: holds_ctxt_def bs)
  note r = restore_context_stack [OF this]
  have m3: "m3 = exec (if irqdis then Ret else Reti) (run RESTORE_CONTEXT ?k)"
    using from_kernel by (auto simp: switch_from_kernel_def Let_def run_append)
  show "(\<forall>n < 31. regs m3 n = ctxt n) \<and> regs m3 31 = ctxt r31 \<and> spx m3 = task_sp + 35 \<and>
    pc m3 = join (ctxt retHigh) (ctxt retLow) \<and> sreg m3 = (if irqdis then ctxt rSREG else ctxt rSREG OR 0x80)"
    using r by (auto simp: m3 pop_pc_def stack_has_Cons add.assoc t_def)
  show "ram m3 = ram (run SAVE_CONTEXT m2)" using r by (simp add: m3 pop_pc_def)
qed

section \<open>A kernel call\<close>

lemma load_code_ctxt:
  "task_ctxt ret (load_code c m) = SET_KCALLCODE c (task_ctxt ret m)"
  "spx (load_code c m) = spx m - 1" "ram (load_code c m) (spx m) = regs m 16"
  by (auto simp: load_code_def Let_def push_byte_def task_ctxt_def SET_KCALLCODE_def slot_defs fun_eq_iff)

lemma caller_apart: "j < 35 \<Longrightarrow> x \<noteq> x - 1 - of_nat j" for x :: addr
proof
  assume j: "j < 35" and "x = x - 1 - of_nat j"
  then have "- 1 = (of_nat j :: addr)" by (simp add: diff_diff_eq)
  from this [symmetric] have "(of_nat (Suc j) :: addr) = 0" by simp
  then have "unat (of_nat (Suc j) :: addr) = 0" by simp
  then show False using j by (simp add: unat_of_nat del: of_nat_Suc)
qed

text \<open>
  The kernel finds the context of the task with the call code in it; what it leaves there is what the
  task goes on with after the macro, except for \<^verbatim>\<open>r16\<close>, which has its old value again, and the stack is as
  before. The kernel leaves the rest of the stack of the task alone and runs on its own stack.
\<close>

theorem kernel_call_passes_context:
  fixes m :: mach and kern :: "addr \<Rightarrow> addr \<Rightarrow> mach \<Rightarrow> mach"
  defines "after \<equiv> kern EVENT_NONE (spx m - 36)"
  assumes kernel: "\<forall>m1. holds_ctxt (ram m1) (spx m - 36) (SET_KCALLCODE c (task_ctxt ret m)) \<longrightarrow>
      holds_ctxt (ram (after m1)) (spx m - 36) answer"
    and caller: "\<forall>m1. ram (after m1) (spx m) = ram m1 (spx m)"
    and own_stack: "\<forall>m1. \<forall>i < 36. \<forall>j < 33. spx m - 36 + of_nat (Suc i) \<noteq> spx (after m1) - of_nat j"
    and returned: "m' = KERNEL_CALL c (\<lambda>m. through_kernel kern kernel_sp irqdis (call_swtrap ret a b m)) m"
  shows "(\<forall>n < 31. n \<noteq> 16 \<longrightarrow> regs m' n = answer n) \<and> regs m' 31 = answer r31 \<and> regs m' 16 = regs m 16 \<and>
    spx m' = spx m \<and> pc m' = join (answer retHigh) (answer retLow) \<and>
    sreg m' = (if irqdis then answer rSREG else answer rSREG OR 0x80)"
proof -
  let ?l = "load_code c m" and ?sp = "spx m - 36"
  obtain m1 task_sp where k: "switchtokernel kernel_sp (fst (call_swtrap ret a b ?l)) = (m1, task_sp)" by fastforce
  have sp: "task_sp = ?sp" using kernel_finds_ctxt(1) [OF k] by (simp add: load_code_ctxt diff_diff_eq)
  have found: "holds_ctxt (ram m1) ?sp (SET_KCALLCODE c (task_ctxt ret m))"
    using kernel_finds_ctxt(2) [OF k] by (simp add: load_code_ctxt sp)
  have r16: "ram m1 (spx m) = regs m 16"
    using kernel_finds_ctxt(3) [OF k, of "spx m"] caller_apart by (simp add: load_code_ctxt)
  obtain m3 ksp where f: "switch_from_kernel irqdis ?sp (after m1) = (m3, ksp)" by fastforce
  have left: "holds_ctxt (ram (after m1)) ?sp answer" using kernel found by blast
  note got = task_gets_ctxt [OF left _ f]
  have apart: "\<forall>i < 35. \<forall>j < 33. ?sp + of_nat (Suc i) \<noteq> spx (after m1) - of_nat j" using own_stack by simp
  have "spx m \<noteq> spx (after m1) - of_nat j" if "j < 33" for j
    using own_stack [rule_format, of 35 j m1] that by simp
  then have "ram m3 (spx m) = regs m 16" using got(2) [OF apart] save_context_ram caller r16 by simp
  moreover have "m' = exec (Pop 16) m3"
    using f k by (simp add: returned KERNEL_CALL_def through_kernel_def entered_trap sp after_def)
  ultimately show ?thesis using got(1) [OF apart] by simp
qed

lemma wrapper_ctxt:
  assumes "args_loaded k (regs m)"
  shows "trap_ctxt k (task_ctxt ret m) = SET_KCALLCODE (kcall_code k) (task_ctxt ret m)"
  using assms by (cases k) (auto simp: ctxt_defs task_ctxt_def slot_defs fun_eq_iff)

text \<open>
  C33. A function of the kernel interface returns what the kernel answers and changes nothing else: when its
  arguments are in the registers of the calling convention, the kernel finds on the stack of the task the
  context with the call code and the arguments of the call, and when it stores a result there, the task goes
  on behind the call with the result in \<^verbatim>\<open>r25:r24\<close> and with all other registers, \<^verbatim>\<open>r16\<close> included, and the
  stack pointer as they were. The kernel leaves the rest of the stack of the task alone and runs on its own.
\<close>

theorem kernel_call_returns_result:
  fixes m :: mach and kern :: "addr \<Rightarrow> addr \<Rightarrow> mach \<Rightarrow> mach"
  assumes args: "args_loaded k (regs m)"
    and kernel: "\<forall>m1. holds_ctxt (ram m1) (spx m - 36) (trap_ctxt k (task_ctxt ret m)) \<longrightarrow>
      holds_ctxt (ram (kern EVENT_NONE (spx m - 36) m1)) (spx m - 36) (SETP0 v (trap_ctxt k (task_ctxt ret m)))"
    and caller: "\<forall>m1. ram (kern EVENT_NONE (spx m - 36) m1) (spx m) = ram m1 (spx m)"
    and own_stack: "\<forall>m1. \<forall>i < 36. \<forall>j < 33. spx m - 36 + of_nat (Suc i) \<noteq> spx (kern EVENT_NONE (spx m - 36) m1) - of_nat j"
    and returned: "m' = kernel_call_function k kern kernel_sp irqdis ret a b m"
  shows "GETP0 (regs m') = v \<and> (\<forall>n < 32. n \<notin> {24, 25} \<longrightarrow> regs m' n = regs m n) \<and> spx m' = spx m \<and> pc m' = ret"
proof -
  let ?answer = "SETP0 v (SET_KCALLCODE (kcall_code k) (task_ctxt ret m))"
  note got = kernel_call_passes_context [OF kernel [unfolded wrapper_ctxt [OF args]] caller own_stack
      returned [unfolded kernel_call_function_def]]
  have "regs m' n = regs m n" if "n < 32" "n \<noteq> 24" "n \<noteq> 25" for n
    using got that by (cases "n = 16"; cases "n = 31") (auto simp: ctxt_defs task_ctxt_def slot_defs)
  moreover have "GETP0 (regs m') = v" "spx m' = spx m" "pc m' = ret"
    using got by (auto simp: ctxt_defs task_ctxt_def slot_defs)
  ultimately show ?thesis by simp
qed

text \<open>A kernel that answers a process id, on a stack of its own.\<close>

definition answers_pid :: "addr \<Rightarrow> addr \<Rightarrow> addr \<Rightarrow> mach \<Rightarrow> mach" where
  "answers_pid pid ev sp m = m\<lparr>ram := (ram m)(sp + 25 := LOW pid, sp + 26 := HIGH pid), spx := 0x2000\<rparr>"

lemma slot_eq: "i < 100 \<Longrightarrow> j < 100 \<Longrightarrow> sp + of_nat i = sp + of_nat j \<longleftrightarrow> i = j" for sp :: addr
proof -
  assume "i < 100" "j < 100"
  then have "unat (of_nat i :: addr) = i" "unat (of_nat j :: addr) = j" by (simp_all add: unat_of_nat)
  then show ?thesis by (metis add_left_cancel)
qed

lemma answers_pid_ctxt:
  assumes "holds_ctxt (ram m) sp ctxt"
  shows "holds_ctxt (ram (answers_pid pid ev sp m)) sp (SETP0 pid ctxt)"
  unfolding holds_ctxt_def stack_has_def
proof (intro allI impI)
  fix i assume "i < length (map (SETP0 pid ctxt) [0..<35])"
  then have i: "i < 35" by (simp del: upt.simps)
  have "sp + of_nat (Suc i) = sp + 25 \<longleftrightarrow> i = 24" "sp + of_nat (Suc i) = sp + 26 \<longleftrightarrow> i = 25"
    using slot_eq [of "Suc i" 25 sp] slot_eq [of "Suc i" 26 sp] i by (simp_all del: of_nat_Suc)
  moreover have "ram m (sp + of_nat (Suc i)) = ctxt i"
    using assms i by (simp add: holds_ctxt_def stack_has_def del: upt.simps)
  ultimately show "ram (answers_pid pid ev sp m) (sp + of_nat (Suc i)) = map (SETP0 pid ctxt) [0..<35] ! i"
    using i by (simp add: answers_pid_def SETP0_def del: upt.simps of_nat_Suc)
qed

theorem kernel_call_returns_result_witness:
  "let m' = kernel_call_function Getpid (answers_pid 0x1234) 0x2000 False 0x0456 1 2 trapped
   in GETP0 (regs m') = 0x1234 \<and> regs m' 16 = 16 \<and> regs m' 31 = 31 \<and> spx m' = 0x1000 \<and> pc m' = 0x0456"
proof -
  let ?m' = "kernel_call_function Getpid (answers_pid 0x1234) 0x2000 False 0x0456 1 2 trapped"
  have "GETP0 (regs ?m') = 0x1234 \<and> (\<forall>n < 32. n \<notin> {24, 25} \<longrightarrow> regs ?m' n = regs trapped n) \<and>
    spx ?m' = spx trapped \<and> pc ?m' = 0x0456"
  proof (rule kernel_call_returns_result [OF _ _ _ _ refl])
    show "\<forall>m1. \<forall>i < 36. \<forall>j < 33. spx trapped - 36 + of_nat (Suc i) \<noteq>
        spx (answers_pid 0x1234 EVENT_NONE (spx trapped - 36) m1) - of_nat j"
      by (intro allI impI stacks_apart) (simp_all add: trapped_def answers_pid_def)
  qed (auto simp: answers_pid_ctxt, simp add: answers_pid_def trapped_def)
  then show ?thesis by (simp add: trapped_def)
qed

end
