(* ===== verification/Irq_Tasks.thy ===== *)
theory Irq_Tasks
  imports Kernel Time_Server
begin

unbundle bit_operations_syntax

text \<open>
  The tasks that wait for interrupts: \<^verbatim>\<open>tickd\<close> of \<^verbatim>\<open>servers/ts.c\<close> and \<^verbatim>\<open>usart0_event\<close> of \<^verbatim>\<open>drivers/tty.c\<close>. They turn events of the kernel into
  messages for the time server and for the terminal driver. What they do is the list of their calls, each with
  the registers of the device at that time.
\<close>

section \<open>The clock\<close>

text \<open>
  \<^verbatim>\<open>tickd\<close>, the task behind the timer interrupt, with the registers of the timer: its calls of the kernel, each
  with the registers at that time. \<open>ans\<close> are the commands in the answers of the time server, \<open>cmd\<close> is \<^verbatim>\<open>msg.cmd\<close> at the
  head of the loop, and \<open>len\<close> is the size of the message.
\<close>

record timer =
  TCCR1B :: byte
  TIMSK1 :: byte
  TIFR1 :: byte

primrec tickd_loop :: "pid_t \<Rightarrow> addr \<Rightarrow> addr \<Rightarrow> cint list \<Rightarrow> cint \<Rightarrow> timer \<Rightarrow> (kcall \<times> timer) list" where
  "tickd_loop tserver msg len [] cmd t =
     (if cmd \<noteq> TS_EXIT
      then let t1 = t\<lparr>TIMSK1 := TIMSK1 t OR push_bit 0 1\<rparr> in [(Waitevent (EVENT_TIMER1OVF OR PREEMPT_ON_EVENT), t1)] else [])"
| "tickd_loop tserver msg len (a # ans) cmd t =
     (if cmd \<noteq> TS_EXIT
      then let t1 = t\<lparr>TIMSK1 := TIMSK1 t OR push_bit 0 1\<rparr>;
               t2 = t1\<lparr>TIFR1 := TIFR1 t1 OR push_bit 0 1, TIMSK1 := TIMSK1 t1 AND NOT (push_bit 0 1)\<rparr>
           in (Waitevent (EVENT_TIMER1OVF OR PREEMPT_ON_EVENT), t1) # (Sendrec tserver msg len, t2) # tickd_loop tserver msg len ans a t2
      else [])"

definition tickd :: "pid_t \<Rightarrow> addr \<Rightarrow> addr \<Rightarrow> cint list \<Rightarrow> timer \<Rightarrow> (kcall \<times> timer) list" where
  "tickd tserver msg len ans t =
     [(Receive TASK_ANY NULL 0, t), (Kirqdis, t)] @ tickd_loop tserver msg len ans TS_NONE (t\<lparr>TCCR1B := TCCR1B t OR push_bit 1 1\<rparr>)"

text \<open>The interrupt of the timer is on exactly while the task waits for it, so no tick comes in between.\<close>

lemma tickd_gates_interrupt:
  "(c, u) \<in> set (tickd_loop tserver msg len ans cmd t) \<Longrightarrow> bit (TIMSK1 u) 0 \<longleftrightarrow> (\<exists>ev. c = Waitevent ev)"
  by (induction ans arbitrary: cmd t) (auto simp: Let_def bit_simps split: if_splits)

section \<open>The serial line\<close>

text \<open>\<^verbatim>\<open>UDR0\<close> is what is written to the line, the first character being there to cause the first interrupt.\<close>

record usart =
  UBRR0H :: byte
  UBRR0L :: byte
  UCSR0B :: byte
  UCSR0C :: byte
  UDR0 :: "byte option"

datatype usart_call = Kernel_Call kcall | Rd_Interrupt pid_t | Wr_Interrupt pid_t

definition usart_setup :: "usart \<Rightarrow> usart" where
  "usart_setup u = u\<lparr>UBRR0H := 0, UBRR0L := 103, UCSR0C := push_bit 3 1 OR push_bit 1 3, UCSR0B := push_bit 4 1 OR push_bit 3 1\<rparr>"

text \<open>\<open>evs\<close> are the results of \<^verbatim>\<open>waitevent\<close>, a task being resumed with the events that came.\<close>

primrec usart_loop :: "pid_t \<Rightarrow> addr list \<Rightarrow> usart \<Rightarrow> (usart_call \<times> usart) list" where
  "usart_loop driver [] u =
     [(Kernel_Call (Waitevent (EVENT_USART0RX OR EVENT_USART0TX)), u\<lparr>UCSR0B := UCSR0B u OR push_bit 7 1 OR push_bit 6 1\<rparr>)]"
| "usart_loop driver (ev # evs) u =
     (let u1 = u\<lparr>UCSR0B := UCSR0B u OR push_bit 7 1 OR push_bit 6 1\<rparr>;
          w = (Kernel_Call (Waitevent (EVENT_USART0RX OR EVENT_USART0TX)), u1);
          rx = u1\<lparr>UCSR0B := UCSR0B u1 AND NOT (push_bit 7 1)\<rparr>;
          tx = u1\<lparr>UCSR0B := UCSR0B u1 AND NOT (push_bit 6 1)\<rparr>
      in if ev = EVENT_USART0RX then w # (Rd_Interrupt driver, rx) # usart_loop driver evs rx
         else if ev = EVENT_USART0TX then w # (Wr_Interrupt driver, tx) # usart_loop driver evs tx
         else w # usart_loop driver evs u1)"

text \<open>\<open>busy\<close> is the number of turns in which the transmitter is not ready yet; \<open>msg\<close> and \<open>len\<close> are the message of the driver.\<close>

definition usart0_event :: "pid_t \<Rightarrow> addr \<Rightarrow> addr \<Rightarrow> nat \<Rightarrow> addr list \<Rightarrow> usart \<Rightarrow> (usart_call \<times> usart) list" where
  "usart0_event driver msg len busy evs u =
     (let u1 = usart_setup u
      in [(Kernel_Call (Receive TASK_ANY msg len), u), (Kernel_Call (kcall.Send driver msg), u1), (Kernel_Call Kirqdis, u1)] @
         replicate busy (Kernel_Call Yield, u1) @ usart_loop driver evs (u1\<lparr>UDR0 := Some 10\<rparr>))"

text \<open>
  Each event that is waited for is passed on once and in order, and the interrupt that is passed on is off
  until the driver has seen it.
\<close>

lemma usart_passes_on:
  "filter (\<lambda>c. c \<in> {Rd_Interrupt driver, Wr_Interrupt driver}) (map fst (usart_loop driver evs u)) =
     map (\<lambda>ev. if ev = EVENT_USART0RX then Rd_Interrupt driver else Wr_Interrupt driver)
       (filter (\<lambda>ev. ev = EVENT_USART0RX \<or> ev = EVENT_USART0TX) evs)"
  by (induction evs arbitrary: u) (auto simp: Let_def EVENT_USART0RX_def EVENT_USART0TX_def)

lemma usart_gates_interrupts:
  assumes "(c, v) \<in> set (usart_loop driver evs u)"
  shows "bit (UCSR0B v) 7 \<longleftrightarrow> c \<noteq> Rd_Interrupt driver" "bit (UCSR0B v) 6 \<longleftrightarrow> c \<noteq> Wr_Interrupt driver"
  using assms by (induction evs arbitrary: u) (auto simp: Let_def bit_simps split: if_splits)

end
