(* ===== verification/Startup.thy ===== *)
theory Startup
  imports Kernel Ex_Server Apps
begin

text \<open>
  \<^verbatim>\<open>main.c\<close>: the first task starts the servers, registers the programs and ends. The calls that it makes are a
  list, for the pids that the kernel gives to the new tasks.
\<close>

section \<open>The calls\<close>

definition DEFAULT_STACK_SIZE :: addr where "DEFAULT_STACK_SIZE = 160"
definition PAGE_INVALID :: byte where "PAGE_INVALID = - 1"

datatype server_id = Time_Srv | File_Srv | Exec_Srv | Proc_Srv
datatype program =
  Getty | Login | Sh | Echo | Cat | Cap | Sleep | Xargs | Repeat | Pr_uptime | F_stat | F_mknod | Grep | Fs_debug | Init
datatype fn = Server server_id | Tickd | Memfile | Tty_usart0 | Prg program

text \<open>Calls of the kernel, the functions that set the pids for the clients, and requests to servers.\<close>

datatype boot = Kernel_Call kcall | Set_Pid server_id pid_t | Mkdev addr addr | Regprg string addr addr

text \<open>The steps to a running task, which \<^verbatim>\<open>startup\<close>, the time server and \<^verbatim>\<open>setup_dev\<close> of the file system take.\<close>

definition start_task :: "byte \<Rightarrow> addr \<Rightarrow> addr \<Rightarrow> addr \<Rightarrow> pid_t \<Rightarrow> kcall list" where
  "start_task prio stack entry args pid =
     [Createtask prio PAGE_INVALID, Allocatestack pid stack, Setuptask pid entry args NULL, Starttask pid]"

definition setup_dev :: "addr \<Rightarrow> addr \<Rightarrow> pid_t \<Rightarrow> kcall list" where
  "setup_dev driver args pid = start_task TASK_PRIO_HIGH DEFAULT_STACK_SIZE driver args pid"

definition ts_prologue :: "addr \<Rightarrow> pid_t \<Rightarrow> kcall list" where
  "ts_prologue tickd client =
     Kirqdis # start_task TASK_PRIO_RT (DEFAULT_STACK_SIZE - 64) tickd NULL client @ [kcall.Send client NULL]"

definition programs :: "(string \<times> program \<times> addr) list" where
  "programs =
     [(''getty'', Getty, DEFAULT_STACK_SIZE), (''login'', Login, DEFAULT_STACK_SIZE), (''sh'', Sh, DEFAULT_STACK_SIZE + 64),
      (''echo'', Echo, DEFAULT_STACK_SIZE), (''cat'', Cat, DEFAULT_STACK_SIZE), (''cap'', Cap, DEFAULT_STACK_SIZE),
      (''sleep'', Sleep, DEFAULT_STACK_SIZE), (''xargs'', Xargs, DEFAULT_STACK_SIZE), (''repeat'', Repeat, DEFAULT_STACK_SIZE),
      (''uptime'', Pr_uptime, DEFAULT_STACK_SIZE), (''stat'', F_stat, DEFAULT_STACK_SIZE), (''mknod'', F_mknod, DEFAULT_STACK_SIZE),
      (''grep'', Grep, DEFAULT_STACK_SIZE), (''fsdebug'', Fs_debug, DEFAULT_STACK_SIZE), (''init'', Init, DEFAULT_STACK_SIZE)]"

text \<open>
  \<open>fn\<close> are the addresses of the functions, \<open>pid\<close> are the pids of the servers and \<open>initc\<close> is the block for the
  arguments of \<^verbatim>\<open>init\<close>.
\<close>

definition start_server :: "(fn \<Rightarrow> addr) \<Rightarrow> (server_id \<Rightarrow> pid_t) \<Rightarrow> server_id \<Rightarrow> byte \<Rightarrow> addr \<Rightarrow> addr \<Rightarrow> boot list" where
  "start_server fn pid s prio stack args =
     map Kernel_Call (start_task prio stack (fn (Server s)) args (pid s)) @ [Set_Pid s (pid s)]"

definition startup :: "(fn \<Rightarrow> addr) \<Rightarrow> (server_id \<Rightarrow> pid_t) \<Rightarrow> addr \<Rightarrow> boot list" where
  "startup fn pid initc =
     start_server fn pid Time_Srv TASK_PRIO_RT DEFAULT_STACK_SIZE NULL @
     start_server fn pid File_Srv TASK_PRIO_HIGH (DEFAULT_STACK_SIZE * 2) NULL @
     [Mkdev (fn Memfile) NULL, Mkdev (fn Tty_usart0) NULL] @
     start_server fn pid Exec_Srv TASK_PRIO_HIGH DEFAULT_STACK_SIZE NULL @
     map (\<lambda>(name, prg, stack). Regprg name (fn (Prg prg)) stack) programs @
     [Kernel_Call (Kmalloc 4)] @
     start_server fn pid Proc_Srv TASK_PRIO_HIGH (DEFAULT_STACK_SIZE * 2) initc"

text \<open>\<^verbatim>\<open>main\<close> gives \<^verbatim>\<open>startup\<close> to the kernel as the first task.\<close>

definition main :: "'h kenv \<Rightarrow> addr \<Rightarrow> addr \<Rightarrow> 'h kst \<Rightarrow> 'h kst option" where
  "main E idle_task ptp s = kernel_start E idle_task ptp NULL DEFAULT_STACK_SIZE TASK_PRIO_DFLT s"

section \<open>Order\<close>

text \<open>
  The calls in order, with the tasks that are running and the pids that are known so far: a request
  needs a server that runs and whose pid the client functions know.
\<close>

primrec needs :: "boot \<Rightarrow> server_id option" where
  "needs (Kernel_Call c) = None"
| "needs (Set_Pid s p) = None"
| "needs (Mkdev d a) = Some File_Srv"
| "needs (Regprg n p sz) = Some Exec_Srv"

fun in_order :: "(server_id \<Rightarrow> pid_t) \<Rightarrow> boot list \<Rightarrow> boot list \<Rightarrow> bool" where
  "in_order pid before [] = True"
| "in_order pid before (b # bs) =
     ((case needs b of None \<Rightarrow> True | Some s \<Rightarrow> Kernel_Call (Starttask (pid s)) \<in> set before \<and> Set_Pid s (pid s) \<in> set before) \<and>
      in_order pid (before @ [b]) bs)"

lemma startup_in_order: "in_order pid [] (startup fn pid initc)"
  by (simp add: startup_def start_server_def start_task_def programs_def)

section \<open>The programs\<close>

text \<open>The requests that the registrations are for the store; \<open>na\<close> and \<open>mem\<close> are the addresses of the names and of the new memory.\<close>

definition reg_in :: "(fn \<Rightarrow> addr) \<Rightarrow> pid_t \<Rightarrow> (string \<Rightarrow> addr) \<Rightarrow> (string \<Rightarrow> addr \<times> addr) \<Rightarrow> (addr \<Rightarrow> string) \<Rightarrow> string \<times> program \<times> addr \<Rightarrow> ex_in" where
  "reg_in fn client na mem str = (\<lambda>(name, prg, stack).
     (client, ex_regprg (na name) (fn (Prg prg)) stack, fst (mem name), snd (mem name), str))"

lemma reg_step:
  assumes "str (na name) = name" "fst (mem name) \<noteq> NULL" "snd (mem name) \<noteq> NULL"
  shows "ex_table (fst (ex_step (reg_in fn client na mem str (name, prg, stack)) tab)) =
    (case ex_table tab name of None \<Rightarrow> (ex_table tab)(name \<mapsto> (fn (Prg prg), stack)) | Some _ \<Rightarrow> ex_table tab)"
  using assms by (simp add: reg_in_def ex_step_def ex_regprg_def ex_reg_prg_def ex_table_snoc Let_def split: option.split)

lemma regs_table:
  assumes "\<forall>(name, _) \<in> set ps. str (na name) = name \<and> fst (mem name) \<noteq> NULL \<and> snd (mem name) \<noteq> NULL" "distinct (map fst ps)"
    "(name, prg, stack) \<in> set ps" "ex_table tab name = None"
  shows "ex_table (fst (serve ex_step (map (reg_in fn client na mem str) ps) tab)) name = Some (fn (Prg prg), stack)"
  using assms
proof (induction ps arbitrary: tab)
  case (Cons p ps)
  obtain n e sz where p: "p = (n, e, sz)" by (cases p) auto
  have st: "ex_table (fst (ex_step (reg_in fn client na mem str p) tab)) =
      (case ex_table tab n of None \<Rightarrow> (ex_table tab)(n \<mapsto> (fn (Prg e), sz)) | Some _ \<Rightarrow> ex_table tab)"
    unfolding p using Cons.prems(1) p by (intro reg_step) auto
  show ?case
  proof (cases "n = name")
    case True
    then have "stack = sz" "e = prg" using Cons.prems(2,3) p by force+
    then have "ex_table (fst (ex_step (reg_in fn client na mem str p) tab)) name = Some (fn (Prg prg), stack)"
      using st True Cons.prems(4) by simp
    then show ?thesis using ex_run_keeps by (simp add: Let_def)
  next
    case False
    then have "ex_table (fst (ex_step (reg_in fn client na mem str p) tab)) name = None"
      using st Cons.prems(4) by (simp split: option.split)
    then show ?thesis using Cons.IH Cons.prems False p by (auto simp: Let_def)
  qed
qed simp

text \<open>The command that starts a program.\<close>

primrec command :: "program \<Rightarrow> string" where
  "command Getty = ''getty''" | "command Login = ''login''" | "command Sh = ''sh''" | "command Echo = ''echo''"
| "command Cat = ''cat''" | "command Cap = ''cap''" | "command Sleep = ''sleep''" | "command Xargs = ''xargs''"
| "command Repeat = ''repeat''" | "command Pr_uptime = ''uptime''" | "command F_stat = ''stat''" | "command F_mknod = ''mknod''"
| "command Grep = ''grep''" | "command Fs_debug = ''fsdebug''" | "command Init = ''init''"

lemma command_registered: "(command prg, prg, if prg = Sh then 224 else 160) \<in> set programs"
  by (cases prg) (simp_all add: programs_def DEFAULT_STACK_SIZE_def)

text \<open>
  C40. After the startup every program of the system is found: whatever else is registered later, a
  lookup of its command is answered with the function of the program and with its stack size, 224 bytes for the shell
  and 160 for all others (provided that there was memory for the registrations).
\<close>

theorem startup_registers_programs:
  assumes "\<forall>(name, _) \<in> set programs. str (na name) = name \<and> fst (mem name) \<noteq> NULL \<and> snd (mem name) \<noteq> NULL"
    and "str' q = command prg"
  shows "\<exists>m. snd (ex_step (client', ex_getprg q junk, x, y, str')
      (fst (serve ex_step ins (fst (serve ex_step (map (reg_in fn client na mem str) programs) ex_init_prg))))) = [act.Send client' m] \<and>
    getprg_result m = (fn (Prg prg), if prg = Sh then 224 else 160)"
proof -
  have "distinct (map fst programs)" by (simp add: programs_def)
  moreover have "ex_table ex_init_prg (command prg) = None" by (simp add: ex_init_prg_def ex_table_def)
  ultimately have "ex_table (fst (serve ex_step ins (fst (serve ex_step (map (reg_in fn client na mem str) programs) ex_init_prg)))) (command prg) =
      Some (fn (Prg prg), if prg = Sh then 224 else 160)"
    using assms(1) command_registered by (intro ex_run_keeps regs_table) auto
  then show ?thesis using assms(2)
    by (simp add: ex_step_def ex_getprg_def ex_cmds Let_def getprg_result_def ex_get_prg_table)
qed

text \<open>The strings in memory at the names' first characters, for an example.\<close>

definition boot_na :: "string \<Rightarrow> addr" where
  "boot_na name = (case find (\<lambda>k. fst (programs ! k) = name) [0..<15] of None \<Rightarrow> 0 | Some k \<Rightarrow> of_nat k + 0x100)"

definition boot_str :: "addr \<Rightarrow> string" where
  "boot_str a = fst (programs ! (unat a - 0x100))"

theorem startup_registers_programs_witness:
  "\<exists>m. snd (ex_step (7, ex_getprg 0x102 example_ex_msg, NULL, NULL, boot_str)
      (fst (serve ex_step (map (reg_in (\<lambda>f. if f = Prg Sh then 0x2000 else 0) 4 boot_na (\<lambda>_. (0x900, 0x910)) boot_str) programs) ex_init_prg))) = [act.Send 7 m] \<and>
    getprg_result m = (0x2000, 224)"
proof -
  have 1: "\<forall>(name, _) \<in> set programs. boot_str (boot_na name) = name \<and> fst (0x900 :: addr, 0x910 :: addr) \<noteq> NULL \<and> snd (0x900 :: addr, 0x910 :: addr) \<noteq> NULL"
    by code_simp
  have 2: "boot_str 0x102 = command Sh" by code_simp
  from startup_registers_programs [where mem = "\<lambda>_. (0x900, 0x910)" and ins = "[]" and fn = "\<lambda>f. if f = Prg Sh then 0x2000 else 0"
      and str = boot_str and na = boot_na and str' = boot_str and q = "0x102" and prg = Sh, OF 1 2]
  show ?thesis by simp
qed

text \<open>The programs that start each other from the boot on are among them.\<close>

lemma boot_chain: "{''init'', ''getty'', ''login'', ''sh''} \<subseteq> fst ` set programs"
  "s_name ` set init_sessions \<subseteq> ascii ` fst ` set programs"
  by (simp_all add: programs_def init_sessions_def)

end
