(* ===== verification/Spec2Isabelle.thy ===== *)
theory Spec2Isabelle
  imports Kernel_Props Time_Server Ex_Server Sema_Server Pm_Client Tty User_Props Shell_Wiring Kernel_Call Irq_Tasks Startup
begin

text \<open>
  A verification of AVROS, a microkernel operating system in C for the ATmega1284p.

  \<^bold>\<open>The system.\<close> A small kernel (\<^verbatim>\<open>kernel/kernel.c\<close>) schedules tasks by priority and passes messages between them by
  rendezvous. Everything else is a task: the time server, the file system with its drivers, the store of
  executables, the process manager, and the programs that it runs. A client sends a request
  to a server and waits for the answer (\<^verbatim>\<open>sendrec\<close>); a driver is a server whose client is the file system.
  The machine has 16-bit pointers and integers and signed 8-bit characters; \<open>addr\<close> and \<open>cint\<close> are 16-bit words,
  \<open>byte\<close> is an 8-bit word, and arithmetic wraps around as there. A null pointer or an
  access outside of an array is the value \<^term>\<open>None\<close>, or the stop \<open>Undefined\<close> of a program, so a theorem that
  something returns a value also says that it has no such access.

  \<^bold>\<open>The theories\<close>, each with the files that it models, and what it shows.

  \<^item> \<open>Avros_Prelude\<close>: the types of the machine, memory, pointers and the facts on words and lists that all share.
  \<^item> \<open>Queue\<close> (\<^verbatim>\<open>lib/queue.c\<close>, \<^verbatim>\<open>lib/queue.h\<close>): the pointer operations implement lists, one list per queue, with
    the walk that may remove items. The kernel and the servers use the lists through this.
  \<^item> \<open>Chunk_Malloc\<close> (\<^verbatim>\<open>misc/malloc.c\<close>): the first-fit allocator against a contract of blocks in use.
  \<^item> \<open>Hal\<close> (\<^verbatim>\<open>kernel/hal.h\<close>, \<^verbatim>\<open>lib/commondef.h\<close>) and \<open>Traps\<close> (\<^verbatim>\<open>kernel/hal.c\<close>): saved contexts, the instructions of the
    context switch and the ways into the kernel; a task that traps or is interrupted is resumed as it was.
    \<open>Kernel_Call\<close> (the macro \<^verbatim>\<open>KERNEL_CALL\<close> and the functions of \<^verbatim>\<open>kernel.c\<close> that consist of it): the kernel finds the
    arguments, and the function returns what it answers.
  \<^item> \<open>Kernel\<close>, \<open>Kernel_Inv\<close>, \<open>Kernel_Run\<close>, \<open>Kernel_Props\<close> (\<^verbatim>\<open>kernel/kernel.c\<close>): the kernel calls, events and the
    scheduler on a record of the kernel's state; the invariant of the queues and of the ownership of memory; runs as an
    inductive step relation. The kernel is never stuck, messages arrive, priorities hold. The allocator is a locale
    of laws that \<open>Chunk_Malloc\<close> interprets.
  \<^item> \<open>Server\<close>: what the servers have in common, a step per message and runs of steps, with locales for
    invariants of servers.
  \<^item> \<open>Time_Server\<close> (\<^verbatim>\<open>servers/ts.c\<close>), \<open>Ex_Server\<close> (\<^verbatim>\<open>servers/ex.c\<close>), \<open>Sema_Server\<close> (\<^verbatim>\<open>servers/sema.c\<close>): delays
    are exact, registered programs are found, semaphores conserve their value and are fair.
  \<^item> \<open>Irq_Tasks\<close>: the tasks behind the timer and the serial line (\<^verbatim>\<open>tickd\<close>, \<^verbatim>\<open>usart0_event\<close>) with the device registers.
  \<^item> \<open>Vfs_Msg\<close>, \<open>Vfs\<close>, \<open>Vfs_Props\<close>, \<open>Vfs_Path\<close>, \<open>Vfs_Client\<close> (\<^verbatim>\<open>servers/vfs.c\<close>, \<^verbatim>\<open>servers/vfs.h\<close>): descriptors, open
    files, devices and path names; references are counted, each request does what it should on
    every branch; and what a client sees of it with the drivers behind it. The drivers are a parameter
    of the model of the file system, with a locale for what it relies on.
  \<^item> \<open>Vfs_Sound\<close>, \<open>Vfs_System\<close>: the file system with its drivers. The locale \<open>drivers\<close> is what the file system relies on
    (counts of nodes, grabbing and releasing, reading and writing); from it every legal request is answered and
    every open file has its node. The drivers of pipes and of files interpret it. \<open>Vfs_Fds\<close>: the descriptors of a
    task as a table, on which \<^verbatim>\<open>close\<close>, \<^verbatim>\<open>dup\<close> and \<^verbatim>\<open>pipe\<close> act as on the tables of \<open>Shell\<close>.
  \<^item> \<open>Pipe_Dev\<close> (\<^verbatim>\<open>drivers/pipe.c\<close>), \<open>Memfile_Dev\<close> (\<^verbatim>\<open>drivers/ramdisk.c\<close>), \<open>Tty\<close> (\<^verbatim>\<open>drivers/tty.c\<close>): pipes are first-in first-out,
    files keep what is written, the terminal follows a line discipline.
  \<^item> \<open>Pm_Args\<close>, \<open>Pm_Server\<close>, \<open>Pm_Inv\<close>, \<open>Pm_Step\<close>, \<open>Pm_Props\<close> (\<^verbatim>\<open>servers/pm.c\<close>): processes, their arguments in memory, their
    children and their memory; no block is leaked or freed twice, exit and wait commute. \<open>Pm_Client\<close>: the client functions;
    \<^verbatim>\<open>wait\<close> returns the code that the child has given to \<^verbatim>\<open>mexit\<close>, and \<^verbatim>\<open>pmfree\<close> undoes \<^verbatim>\<open>pmmalloc\<close>.
  \<^item> \<open>Mstdlib\<close>, \<open>Getopt\<close> (\<^verbatim>\<open>usr/lib/mstdlib.c\<close>): output and options. A program is a function on a world that returns
    a value or stops, and its system calls are parameters.
  \<^item> \<open>Userland\<close>, \<open>Apps\<close> (\<^verbatim>\<open>usr/apps.c\<close>, \<^verbatim>\<open>usr/init.c\<close>): the record of the system calls and the programs on it; the contract
    \<open>stdio\<close> of the standard input and output, extended by \<open>stdio_files\<close> and \<open>stdio_mem\<close>. \<open>Apps_Props\<close> and \<open>Xargs_Props\<close> prove what
    the programs do from the contract, \<open>Vfs_World\<close> proves the contract of the models of the file system and of
    the file driver, and \<open>User_Props\<close> puts them together: \<^verbatim>\<open>cat\<close>, \<^verbatim>\<open>cap\<close>,
    \<^verbatim>\<open>grep\<close>, \<^verbatim>\<open>xargs\<close> and \<^verbatim>\<open>echo\<close> on the files of the system. \<^verbatim>\<open>login\<close> becomes the shell, and \<^verbatim>\<open>init\<close> keeps its sessions running.
  \<^item> \<open>Shell_Parse\<close>, \<open>Shell\<close>, \<open>Shell_Jobs\<close> (\<^verbatim>\<open>usr/sh.c\<close>): lines, jobs and arguments in buffers, the wiring of pipelines,
    and the shell as a program; its loop runs the jobs of a line in order and a job becomes its command.
    \<open>Shell_Wiring\<close>: the macros that connect jobs, through the interface \<open>descriptors\<close> that the file system interprets,
    and a pipeline of two jobs down to the characters in the pipe.
  \<^item> \<open>Startup\<close> (\<^verbatim>\<open>main.c\<close>): the first task; servers are started before they are asked, and all programs are found.

  \<^bold>\<open>Parameters and bounds.\<close> The results of \<^verbatim>\<open>kmalloc\<close>, and the pids of new tasks, are inputs of the steps of the servers;
  the laws of the heap are the hypotheses of the kernel's theorems, and hold for \<open>Chunk_Malloc\<close>. Calls that a
  server makes to another one are recorded as actions. Strings of clients are given with the message. The loops of the programs that
  end with the input, and the endless loops of \<^verbatim>\<open>init\<close> and the shell, take a number of turns and are
  \<open>Unfinished\<close> when it is used up: the theorems say that one turn for each character of
  input and one or two more are enough. The theorems on programs are about files of up to 127 of their 128 bytes. All other loops end by themselves, by structural recursion or a measure.

  \<^bold>\<open>Not modelled.\<close>
  \<^item> \<^verbatim>\<open>misc/iom1284p.h\<close>: the register addresses of the vendor. The bits that the code uses are written out.
  \<^item> The first half of \<^verbatim>\<open>kernel/hal.c\<close>: an older context switch, disabled by the preprocessor.
  \<^item> \<^verbatim>\<open>do_setstack\<close> of \<^verbatim>\<open>kernel/kernel.c\<close>, which nothing calls.
  \<^item> The code that the compiler makes of C functions, and the time that instructions take; an
    interrupt comes between two entries of the kernel.
  \<^item> \<^verbatim>\<open>misc/malloc_test.c\<close> and \<^verbatim>\<open>misc/untab.c\<close>: programs for the host.
  \<^item> In the runs of the file system with its drivers \<^verbatim>\<open>kmalloc\<close> succeeds, and the terminal is not among the drivers; it is
    a component of its own, \<open>Tty\<close>.
  \<^item> What processes write to their own memory: in the runs of the process manager the memory changes by the copies of
    arguments only.
  \<^item> Signed arithmetic of 16 bits wraps around, where C leaves an overflow undefined: the counter of the time server for a
    delay of 32768 ticks or more, and the argument of \<^verbatim>\<open>sleep\<close>. \<^verbatim>\<open>atoi\<close> has no result outside of the range of \<^verbatim>\<open>int\<close>.
  \<^item> The request loops of the drivers run inside the step of the file system that asks them, as
    the file system waits for the answer; the interleaving of tasks that this leaves out is the kernel's.
\<close>

end
